(* ===== verification/HS_Prelude.thy ===== *)
theory HS_Prelude
  imports Main "HOL-Library.Word"
begin

text \<open>
  Shared vocabulary of the development.

  \<^item> The C types: fixed-width unsigned integers are words (\<open>u8\<close>, \<open>u32\<close>, \<open>u64\<close>), a pointer to a
    heap object is a natural number (\<open>ptr\<close>), a possibly null pointer an \<open>option\<close>.
  \<^item> Heaps: a heap of one kind of object is a finite map from pointers to records; a freed cell
    is absent. \<open>heap_sum f h\<close> adds up \<open>f\<close> over the allocated cells; the \<open>heap_sum\<close> rules say how
    each kind of cell update changes it. All reference and credit accounting rests on them.
  \<^item> Undefined behaviour (an access to a freed cell) is the value \<open>None\<close> of an operation; the
    \<open>option\<close> bind of the library sequences such operations.
\<close>

type_synonym u8 = "8 word"
type_synonym u32 = "32 word"
type_synonym u64 = "64 word"
type_synonym bytes = "8 word list"
type_synonym ptr = nat

named_theorems heap_simps \<open>how cell updates change sums over a heap\<close>
named_theorems word_arith \<open>unsigned arithmetic without wrap-around\<close>

subsection \<open>C limits\<close>

abbreviation INT_MAX :: int where "INT_MAX \<equiv> 2147483647"
abbreviation INT64_MAX :: int where "INT64_MAX \<equiv> 9223372036854775807"

subsection \<open>Sums over finite heaps\<close>

definition heap_sum :: "(ptr \<Rightarrow> 'a \<Rightarrow> int) \<Rightarrow> (ptr \<rightharpoonup> 'a) \<Rightarrow> int" where
  "heap_sum f h = (\<Sum>p\<in>dom h. f p (the (h p)))"

definition cell :: "('a \<Rightarrow> int) \<Rightarrow> 'a option \<Rightarrow> int" where
  "cell f c = (case c of None \<Rightarrow> 0 | Some x \<Rightarrow> f x)"

lemma cell_simps [simp]: "cell f None = 0" "cell f (Some x) = f x"
  by (simp_all add: cell_def)

lemma heap_sum_empty [simp]: "heap_sum f Map.empty = 0"
  by (simp add: heap_sum_def)

lemma heap_sum_free [heap_simps]:
  assumes "finite (dom h)"
  shows "heap_sum f (h(p := None)) = heap_sum f h - cell (f p) (h p)"
proof (cases "h p")
  case None
  then have "h(p := None) = h" by auto
  with None show ?thesis by simp
next
  case (Some x)
  have "heap_sum f (h(p := None)) = (\<Sum>q\<in>dom h - {p}. f q (the (h q)))"
    by (auto simp: heap_sum_def intro!: sum.cong)
  also have "\<dots> = heap_sum f h - f p x"
    using assms Some by (simp add: heap_sum_def sum_diff1 domI)
  finally show ?thesis using Some by simp
qed

lemma heap_sum_upd [heap_simps]:
  assumes "finite (dom h)"
  shows "heap_sum f (h(p \<mapsto> x)) = heap_sum f h - cell (f p) (h p) + f p x"
proof -
  have "heap_sum f (h(p \<mapsto> x)) = f p x + (\<Sum>q\<in>dom h - {p}. f q (the ((h(p \<mapsto> x)) q)))"
    using assms by (simp add: heap_sum_def sum.insert_remove)
  also have "(\<Sum>q\<in>dom h - {p}. f q (the ((h(p \<mapsto> x)) q))) = heap_sum f (h(p := None))"
    by (auto simp: heap_sum_def intro!: sum.cong)
  finally show ?thesis using heap_sum_free [OF assms, of f p] by linarith
qed

lemma heap_sum_set:
  assumes "finite (dom h)"
  shows "heap_sum f (h(p := c)) = heap_sum f h - cell (f p) (h p) + cell (f p) c"
  using assms by (cases c) (simp_all add: heap_simps)

lemma cell_set: "cell f ((h(p := c)) q) = (if q = p then cell f c else cell f (h q))"
  by simp

lemma heap_sum_nonneg:
  assumes "\<And>p x. h p = Some x \<Longrightarrow> 0 \<le> f p x"
  shows "0 \<le> heap_sum f h"
  using assms by (auto simp: heap_sum_def dom_def intro!: sum_nonneg)

lemma heap_sum_zero:
  assumes "\<And>p x. h p = Some x \<Longrightarrow> f p x = 0"
  shows "heap_sum f h = 0"
proof -
  have "f p (the (h p)) = 0" if "p \<in> dom h" for p
    using that assms by auto
  then show ?thesis by (simp add: heap_sum_def)
qed

lemma heap_sum_ge_cell:
  assumes "finite (dom h)" "\<And>p x. h p = Some x \<Longrightarrow> 0 \<le> f p x" "h p = Some x"
  shows "f p x \<le> heap_sum f h"
proof -
  have "0 \<le> heap_sum f (h(p := None))"
    by (rule heap_sum_nonneg) (auto split: if_splits intro: assms(2))
  then show ?thesis using assms(1,3) by (simp add: heap_sum_free)
qed

lemma heap_sum_pos_ex:
  assumes "0 < heap_sum f h"
  shows "\<exists>p x. h p = Some x \<and> f p x \<noteq> 0"
  using assms heap_sum_zero [of h f] by (metis less_irrefl)

lemma heap_sum_cong:
  assumes "\<And>p x. h p = Some x \<Longrightarrow> f p x = g p x"
  shows "heap_sum f h = heap_sum g h"
proof -
  have "f p (the (h p)) = g p (the (h p))" if "p \<in> dom h" for p
    using that assms by auto
  then show ?thesis by (simp add: heap_sum_def)
qed

lemma heap_sum_add: "heap_sum (\<lambda>p x. f p x + g p x) h = heap_sum f h + heap_sum g h"
  by (simp add: heap_sum_def sum.distrib)

text \<open>Re-pointing the summand at one address changes the sum by that cell only.\<close>

lemma heap_sum_at:
  assumes "finite (dom h)" "\<And>q x. q \<noteq> p \<Longrightarrow> g q x = f q x"
  shows "heap_sum g h = heap_sum f h - cell (f p) (h p) + cell (g p) (h p)"
proof -
  have "heap_sum g (h(p := None)) = heap_sum f (h(p := None))"
    by (rule heap_sum_cong) (auto split: if_splits simp: assms(2))
  then show ?thesis using assms(1) by (simp add: heap_sum_free)
qed

subsection \<open>Unsigned words without wrap-around\<close>

lemma uint_sub_no_wrap [word_arith]:
  "b \<le> a \<Longrightarrow> uint (a - b) = uint a - uint b"
  for a b :: "'a::len word"
  by (simp add: uint_minus_simple_alt word_le_def uint_sub_lem [THEN iffD1])

lemma uint_add_no_wrap [word_arith]:
  "uint a + uint b < 2 ^ LENGTH('a) \<Longrightarrow> uint (a + b) = uint a + uint b"
  for a b :: "'a::len word"
  by (simp add: uint_add_lem [THEN iffD1])

lemma u64_not_less_sub_iff [word_arith]:
  "b \<le> c \<Longrightarrow> (\<not> c - b < a) = (uint a + uint b \<le> uint c)"
  for a b c :: u64
  by (auto simp: word_less_def uint_sub_no_wrap)

end
