(* ===== verification/Linked_Queue.thy ===== *)
theory Linked_Queue
  imports HS_Prelude
begin

text \<open>
  The intrusive singly linked queues of the program: \<open>commands\<close>/\<open>commands_tail\<close> and
  \<open>notices\<close>/\<open>notices_tail\<close> of \<^verbatim>\<open>c_abi/runtime/bridge.c\<close>, \<open>head\<close>/\<open>tail\<close> of the job queue of
  \<^verbatim>\<open>internal/native/native.c\<close>, and the \<open>handles\<close>, \<open>live_instances\<close> and \<open>pools\<close> lists. The
  \<open>next\<close> members of all elements are one function from pointers (the split-heap view), shared by
  the queues an element can be in; a queue itself is the pair of its two end pointers.

  \<open>queue_rep nxt q xs\<close> is the abstraction: the queue \<open>q\<close> holds exactly \<open>xs\<close>, oldest first. The
  locale \<open>fifo\<close> is the interface the components rely on, with its order and exactly-once
  lemmas proved once; it is interpreted on the pointer code at the end.
\<close>

type_synonym link = "ptr \<Rightarrow> ptr option"
type_synonym ends = "ptr option \<times> ptr option"

subsection \<open>The pointer code\<close>

text \<open>
  \<^verbatim>\<open>o->next = NULL; if (tail) tail->next = o; else head = o; tail = o;\<close>
\<close>

definition link_append :: "ptr \<Rightarrow> link \<times> ends \<Rightarrow> link \<times> ends" where
  "link_append p = (\<lambda>(nxt, (head, tail)).
     let nxt = nxt(p := None)
     in case tail of
          Some t \<Rightarrow> (nxt(t := Some p), (head, Some p))
        | None \<Rightarrow> (nxt, (Some p, Some p)))"

text \<open>
  \<^verbatim>\<open>o = head; head = o->next; if (!head) tail = NULL;\<close>
\<close>

definition link_pop :: "link \<times> ends \<Rightarrow> (ptr \<times> (link \<times> ends)) option" where
  "link_pop = (\<lambda>(nxt, (head, tail)).
     case head of
       None \<Rightarrow> None
     | Some p \<Rightarrow> Some (p, (nxt, (nxt p, if nxt p = None then None else tail))))"

subsection \<open>The list a queue represents\<close>

fun chain :: "link \<Rightarrow> ptr option \<Rightarrow> ptr list \<Rightarrow> bool" where
  "chain nxt h [] = (h = None)"
| "chain nxt h (x # xs) = (h = Some x \<and> chain nxt (nxt x) xs)"

definition queue_rep :: "link \<times> ends \<Rightarrow> ptr list \<Rightarrow> bool" where
  "queue_rep = (\<lambda>(nxt, (head, tail)) xs.
     chain nxt head xs \<and> distinct xs \<and> tail = (if xs = [] then None else Some (last xs)))"

lemma chain_frame: "p \<notin> set xs \<Longrightarrow> chain (nxt(p := v)) h xs = chain nxt h xs"
  by (induction xs arbitrary: h) auto

lemma chain_unique: "chain nxt h xs \<Longrightarrow> chain nxt h ys \<Longrightarrow> xs = ys"
proof (induction xs arbitrary: h ys)
  case Nil
  then show ?case by (cases ys) auto
next
  case (Cons x xs)
  then show ?case by (cases ys) auto
qed

lemma chain_snoc:
  assumes "chain nxt h xs" "distinct xs" "xs \<noteq> []" "p \<notin> set xs"
  shows "chain (nxt(last xs := Some p, p := None)) h (xs @ [p])"
  using assms
proof (induction xs arbitrary: h)
  case Nil
  then show ?case by simp
next
  case (Cons x xs)
  show ?case
  proof (cases "xs = []")
    case True
    with Cons.prems show ?thesis by auto
  next
    case False
    then have "x \<noteq> last xs" using Cons.prems by auto
    with Cons False show ?thesis by auto
  qed
qed

lemma queue_rep_frame:
  "p \<notin> set xs \<Longrightarrow> queue_rep (nxt(p := v), q) xs = queue_rep (nxt, q) xs"
  by (cases q) (simp add: queue_rep_def chain_frame)

lemma queue_rep_distinct: "queue_rep q xs \<Longrightarrow> distinct xs"
  by (simp add: queue_rep_def split: prod.splits)

lemma queue_rep_unique: "queue_rep q xs \<Longrightarrow> queue_rep q ys \<Longrightarrow> xs = ys"
  by (auto simp: queue_rep_def split: prod.splits dest: chain_unique)

lemma queue_rep_empty [simp]: "queue_rep (nxt, (None, None)) []"
  by (simp add: queue_rep_def)

lemma queue_rep_head: "queue_rep (nxt, (head, tail)) xs \<Longrightarrow> (head = None) = (xs = [])"
  by (cases xs) (auto simp: queue_rep_def)

lemma queue_rep_tail: "queue_rep (nxt, (head, tail)) xs \<Longrightarrow> tail = Some t \<Longrightarrow> t \<in> set xs"
  by (auto simp: queue_rep_def split: if_splits)

lemma link_append_rep:
  assumes "queue_rep (nxt, q) xs" "p \<notin> set xs"
  shows "queue_rep (link_append p (nxt, q)) (xs @ [p])"
proof (cases q)
  case (Pair head tail)
  show ?thesis
  proof (cases "xs = []")
    case True
    with assms Pair show ?thesis by (simp add: queue_rep_def link_append_def)
  next
    case False
    then have "last xs \<noteq> p" using assms(2) by auto
    then have "nxt(p := None, last xs := Some p) = nxt(last xs := Some p, p := None)"
      by (simp add: fun_upd_twist)
    with chain_snoc [of nxt head xs p] assms Pair False show ?thesis
      by (auto simp: queue_rep_def link_append_def)
  qed
qed

lemma link_append_frame:
  assumes "queue_rep (nxt, q) xs" "queue_rep (nxt, r) ys" "set xs \<inter> set ys = {}" "p \<notin> set ys"
  shows "queue_rep (fst (link_append p (nxt, q)), r) ys"
proof (cases q)
  case (Pair head tail)
  show ?thesis
  proof (cases tail)
    case None
    with assms Pair show ?thesis by (simp add: link_append_def queue_rep_frame)
  next
    case (Some t)
    then have "t \<in> set xs" using assms(1) Pair by (auto dest: queue_rep_tail)
    then have "t \<notin> set ys" using assms(3) by auto
    with assms Pair Some show ?thesis by (simp add: link_append_def queue_rep_frame)
  qed
qed

lemma link_pop_Nil: "queue_rep q [] \<Longrightarrow> link_pop q = None"
  by (auto simp: queue_rep_def link_pop_def split: prod.splits)

lemma link_pop_Cons:
  assumes "queue_rep q (x # xs)"
  shows "\<exists>q'. link_pop q = Some (x, q') \<and> queue_rep q' xs \<and> fst q' = fst q"
proof -
  obtain nxt head tail where q: "q = (nxt, (head, tail))" by (metis prod.exhaust)
  have "chain nxt (nxt x) xs" and "head = Some x" and "distinct xs"
    using assms q by (auto simp: queue_rep_def)
  moreover have "(nxt x = None) = (xs = [])"
    using \<open>chain nxt (nxt x) xs\<close> by (cases xs) auto
  ultimately show ?thesis
    using assms by (auto simp: q link_pop_def queue_rep_def)
qed

subsection \<open>The queue interface\<close>

datatype 'a queue_op = Enq 'a | Deq

locale fifo =
  fixes rep :: "'q \<Rightarrow> 'a list \<Rightarrow> bool"
    and enq :: "'a \<Rightarrow> 'q \<Rightarrow> 'q"
    and deq :: "'q \<Rightarrow> ('a \<times> 'q) option"
  assumes rep_enq: "rep q xs \<Longrightarrow> x \<notin> set xs \<Longrightarrow> rep (enq x q) (xs @ [x])"
    and rep_deq_Nil: "rep q [] \<Longrightarrow> deq q = None"
    and rep_deq_Cons: "rep q (x # xs) \<Longrightarrow> \<exists>q'. deq q = Some (x, q') \<and> rep q' xs"
    and rep_distinct: "rep q xs \<Longrightarrow> distinct xs"
begin

fun run :: "'q \<Rightarrow> 'a queue_op list \<Rightarrow> 'a list \<times> 'q" where
  "run q [] = ([], q)"
| "run q (Enq x # es) = run (enq x q) es"
| "run q (Deq # es) = (case deq q of
     None \<Rightarrow> run q es
   | Some (x, q') \<Rightarrow> (let (out, q'') = run q' es in (x # out, q'')))"

fun enqueued :: "'a queue_op list \<Rightarrow> 'a list" where
  "enqueued [] = []"
| "enqueued (Enq x # es) = x # enqueued es"
| "enqueued (Deq # es) = enqueued es"

text \<open>Whatever the interleaving, what came out followed by what is left is what went in.\<close>

lemma run_fifo:
  assumes "rep q xs" "distinct (xs @ enqueued es)"
  shows "\<exists>out q' ys. run q es = (out, q') \<and> rep q' ys \<and> out @ ys = xs @ enqueued es"
  using assms
proof (induction es arbitrary: q xs)
  case Nil
  then show ?case by auto
next
  case (Cons e es)
  show ?case
  proof (cases e)
    case (Enq x)
    then have "rep (enq x q) (xs @ [x])" using Cons.prems by (intro rep_enq) auto
    moreover have "distinct ((xs @ [x]) @ enqueued es)" using Cons.prems Enq by auto
    ultimately show ?thesis using Cons.IH [of "enq x q" "xs @ [x]"] Enq by auto
  next
    case Deq
    note IH = Cons.IH and prems = Cons.prems
    show ?thesis
    proof (cases xs)
      case Nil
      with Cons.IH [of q "[]"] Cons.prems Deq show ?thesis by (simp add: rep_deq_Nil)
    next
      case (Cons y ys)
      then obtain q' where q': "deq q = Some (y, q')" "rep q' ys"
        using prems rep_deq_Cons by blast
      then have "\<exists>out q'' zs. run q' es = (out, q'') \<and> rep q'' zs \<and> out @ zs = ys @ enqueued es"
        using IH prems(2) Cons Deq by simp
      then show ?thesis using q' Cons Deq by auto
    qed
  qed
qed

end

interpretation lq: fifo queue_rep link_append link_pop
proof unfold_locales
  show "queue_rep (link_append x q) (xs @ [x])" if "queue_rep q xs" "x \<notin> set xs" for q xs x
    using that link_append_rep [of "fst q" "snd q" xs x] by simp
  show "\<exists>q'. link_pop q = Some (x, q') \<and> queue_rep q' xs" if "queue_rep q (x # xs)" for q x xs
    using link_pop_Cons [OF that] by blast
qed (auto intro: link_pop_Nil queue_rep_distinct)

end
