(* ===== verification/Bridge_Model.thy ===== *)
theory Bridge_Model
  imports Linked_Queue "HOL-Library.Monad_Syntax"
begin

text \<open>
  The C ABI runtime, \<^verbatim>\<open>c_abi/runtime/bridge.c\<close> and \<^verbatim>\<open>c_abi/include/http_server.h\<close>: reference
  counted instances, operations, responses and chunks, the command and notice queues, the credit
  budget, and the life cycle of the owner and notifier threads.

  Each object kind has a heap of its own (\<open>insts\<close>, \<open>ops\<close>, \<open>resps\<close>, \<open>chunks\<close>); \<open>free\<close> removes a
  cell. A function of the C code becomes a function of the state \<open>bridge\<close>; its outer \<open>None\<close> is an
  access to a freed or null object. What the C library answers during one call (allocated
  addresses, whether a write or a thread start succeeded) is the argument \<open>sys\<close>. A body between
  \<open>LOCK\<close> and \<open>UNLOCK\<close> is one step. \<open>WAIT\<close> releases the mutex, so a function that would wait
  returns the inner \<open>None\<close>: nothing has changed, and it is tried again after other steps.
  Flags that the code keeps in an \<open>int\<close> and only tests for zero are booleans; \<open>sizeof\<close> values
  are those of the LP64 targets.
\<close>

subsection \<open>http_server.h: codes and records\<close>

definition HS_OK :: int where "HS_OK = 0"
definition HS_ERR_CONFIG :: int where "HS_ERR_CONFIG = 1"
definition HS_ERR_INVALID_ARG :: int where "HS_ERR_INVALID_ARG = 2"
definition HS_ERR_IO :: int where "HS_ERR_IO = 3"
definition HS_ERR_CLOSED :: int where "HS_ERR_CLOSED = 4"
definition HS_ERR_LIMIT :: int where "HS_ERR_LIMIT = 10"
definition HS_ERR_BUSY :: int where "HS_ERR_BUSY = 11"
definition HS_ERR_ABI_MISMATCH :: int where "HS_ERR_ABI_MISMATCH = 12"

lemmas hs_codes = HS_OK_def HS_ERR_CONFIG_def HS_ERR_INVALID_ARG_def HS_ERR_IO_def
  HS_ERR_CLOSED_def HS_ERR_LIMIT_def HS_ERR_BUSY_def HS_ERR_ABI_MISMATCH_def

definition HS_RESULT_HANDLED :: int where "HS_RESULT_HANDLED = 3"
definition HS_RESULT_CHUNK :: int where "HS_RESULT_CHUNK = 5"

definition HS_ABI_VERSION :: u32 where "HS_ABI_VERSION = 0x00010001"

definition sizeof_operation :: u64 where "sizeof_operation = 208"
definition sizeof_response :: u64 where "sizeof_response = 88"
definition sizeof_header :: u64 where "sizeof_header = 32"
definition sizeof_request :: u32 where "sizeof_request = 56"
definition sizeof_response_meta :: u32 where "sizeof_response_meta = 40"

record hs_span_t =
  sp_data :: "bytes option"
  sp_length :: u64

type_synonym hs_header_t = "hs_span_t \<times> hs_span_t"

record hs_request_t =
  rq_struct_size :: u32
  rq_abi_major :: u32
  rq_method :: hs_span_t
  rq_target :: hs_span_t
  rq_headers :: "hs_header_t list option"
  rq_header_count :: u32

record hs_response_meta_t =
  m_struct_size :: u32
  m_abi_major :: u32
  m_status :: int
  m_header_count :: u32
  m_headers :: "(bytes option \<times> bytes option) list"
  m_content_length :: u64
  m_has_content_length :: bool

record hs_event_t =
  ev_code :: int
  ev_kind :: int
  ev_engine :: "ptr option"
  ev_server :: "ptr option"
  ev_response :: "ptr option"
  ev_chunk :: "ptr option"

subsection \<open>bridge.c: objects and state\<close>

record hs_instance =
  s_refs :: int
  s_id :: int
  s_server :: bool
  s_closing :: bool
  s_closed :: bool
  s_active :: int
  s_notifications :: int
  s_capacity :: int
  s_block_size :: int
  s_response_count :: int
  s_response_limit :: int
  s_budget :: u64
  s_charged :: u64

record hs_response =
  r_refs :: int
  r_id :: int
  r_reading :: bool
  r_released :: bool
  r_chunks :: int
  r_instance :: ptr
  r_meta :: hs_response_meta_t
  r_metadata_charge :: u64

record hs_chunk =
  c_instance :: ptr
  c_response :: "ptr option"
  c_bytes :: bytes
  c_length :: u64

record hs_operation =
  o_refs :: int
  o_id :: int
  o_kind :: int
  o_cancelled :: bool
  o_done :: bool
  o_internal :: bool
  o_instance :: ptr
  o_response :: "ptr option"
  o_callback :: "nat option"
  o_user_data :: nat
  o_input :: bytes
  o_max_bytes :: int
  o_method :: bytes
  o_target :: bytes
  o_headers :: "(bytes \<times> bytes) list"
  o_input_charge :: u64
  o_allocation_charge :: u64
  o_event :: hs_event_t

record bridge =
  insts :: "ptr \<rightharpoonup> hs_instance"
  ops :: "ptr \<rightharpoonup> hs_operation"
  resps :: "ptr \<rightharpoonup> hs_response"
  chunks :: "ptr \<rightharpoonup> hs_chunk"
  op_next :: link
  commands :: ends
  notices :: ends
  live_instances :: "ptr list"
  state :: int
  initialized :: bool
  owner_done :: bool
  owner_started :: bool
  instances :: int
  active_ops :: int
  next_id :: int
  wake_fd :: int
  wake_pending :: bool
  retained_bytes :: u64

text \<open>The thread a call runs on: \<open>is_owner\<close> and \<open>is_notifier\<close> are thread local.\<close>

datatype role = Host | Owner | Notifier

text \<open>
  Answers of the C library: \<open>sys_write\<close> says whether the one byte \<open>write\<close> (after its
  \<open>EINTR\<close> loop) stored its byte, \<open>sys_alloc i\<close> is the result of the \<open>i\<close>-th allocation of the call,
  \<open>sys_thread i\<close> whether the \<open>i\<close>-th thread start succeeded.
\<close>

record sys =
  sys_write :: bool
  sys_alloc :: "nat \<Rightarrow> ptr option"
  sys_thread :: "nat \<Rightarrow> bool"

definition init_bridge :: bridge where
  "init_bridge = \<lparr>insts = Map.empty, ops = Map.empty, resps = Map.empty, chunks = Map.empty,
     op_next = (\<lambda>_. None), commands = (None, None), notices = (None, None), live_instances = [],
     state = 0, initialized = False, owner_done = False, owner_started = False,
     instances = 0, active_ops = 0, next_id = 1, wake_fd = -1, wake_pending = False,
     retained_bytes = 0\<rparr>"

definition no_event :: hs_event_t where
  "no_event = \<lparr>ev_code = 0, ev_kind = 0, ev_engine = None, ev_server = None,
     ev_response = None, ev_chunk = None\<rparr>"

subsection \<open>Object access\<close>

definition upd_inst :: "ptr \<Rightarrow> (hs_instance \<Rightarrow> hs_instance) \<Rightarrow> bridge \<Rightarrow> bridge option" where
  "upd_inst p f b = map_option (\<lambda>s. b\<lparr>insts := (insts b)(p \<mapsto> f s)\<rparr>) (insts b p)"

definition upd_op :: "ptr \<Rightarrow> (hs_operation \<Rightarrow> hs_operation) \<Rightarrow> bridge \<Rightarrow> bridge option" where
  "upd_op p f b = map_option (\<lambda>x. b\<lparr>ops := (ops b)(p \<mapsto> f x)\<rparr>) (ops b p)"

definition upd_resp :: "ptr \<Rightarrow> (hs_response \<Rightarrow> hs_response) \<Rightarrow> bridge \<Rightarrow> bridge option" where
  "upd_resp p f b = map_option (\<lambda>r. b\<lparr>resps := (resps b)(p \<mapsto> f r)\<rparr>) (resps b p)"

subsection \<open>Credits\<close>

definition charge :: "ptr \<Rightarrow> u64 \<Rightarrow> bridge \<Rightarrow> (bool \<times> bridge) option" where
  "charge p n b = do {
     s \<leftarrow> insts b p;
     if n > s_budget s \<or> s_charged s > s_budget s - n \<or> n > 67108864 \<or>
        retained_bytes b > 67108864 - n
     then Some (False, b)
     else Some (True, b\<lparr>insts := (insts b)(p \<mapsto> s\<lparr>s_charged := s_charged s + n\<rparr>),
                       retained_bytes := retained_bytes b + n\<rparr>)
   }"

definition uncharge :: "ptr \<Rightarrow> u64 \<Rightarrow> bridge \<Rightarrow> bridge option" where
  "uncharge p n b = do {
     s \<leftarrow> insts b p;
     Some (b\<lparr>insts := (insts b)(p \<mapsto> s\<lparr>s_charged := s_charged s - n\<rparr>),
             retained_bytes := retained_bytes b - n\<rparr>)
   }"

text \<open>\<^verbatim>\<open>if (n) uncharge(s, n);\<close>\<close>

definition uncharge_nonzero :: "ptr \<Rightarrow> u64 \<Rightarrow> bridge \<Rightarrow> bridge option" where
  "uncharge_nonzero p n b = (if n \<noteq> 0 then uncharge p n b else Some b)"

subsection \<open>Reference counts\<close>

definition instance_drop :: "ptr \<Rightarrow> bridge \<Rightarrow> bridge option" where
  "instance_drop p b = do {
     s \<leftarrow> insts b p;
     if s_refs s - 1 = 0 then Some (b\<lparr>insts := (insts b)(p := None)\<rparr>)
     else Some (b\<lparr>insts := (insts b)(p \<mapsto> s\<lparr>s_refs := s_refs s - 1\<rparr>)\<rparr>)
   }"

definition unlink_instance :: "ptr \<Rightarrow> bridge \<Rightarrow> bridge" where
  "unlink_instance p b = b\<lparr>live_instances := remove1 p (live_instances b)\<rparr>"

definition release_response :: "hs_response \<Rightarrow> bridge \<Rightarrow> bridge option" where
  "release_response r b = do {
     b \<leftarrow> uncharge (r_instance r) (r_metadata_charge r) b;
     b \<leftarrow> upd_inst (r_instance r) (\<lambda>s. s\<lparr>s_response_count := s_response_count s - 1\<rparr>) b;
     instance_drop (r_instance r) b
   }"

definition response_drop :: "ptr option \<Rightarrow> bridge \<Rightarrow> bridge option" where
  "response_drop rp b = (case rp of
     None \<Rightarrow> Some b
   | Some p \<Rightarrow> do {
       r \<leftarrow> resps b p;
       if r_refs r - 1 = 0 then do {
         b \<leftarrow> release_response r b;
         Some (b\<lparr>resps := (resps b)(p := None)\<rparr>)
       }
       else Some (b\<lparr>resps := (resps b)(p \<mapsto> r\<lparr>r_refs := r_refs r - 1\<rparr>)\<rparr>)
     })"

definition release_op :: "hs_operation \<Rightarrow> bridge \<Rightarrow> bridge option" where
  "release_op x b = do {
     b \<leftarrow> uncharge_nonzero (o_instance x) (o_input_charge x) b;
     b \<leftarrow> uncharge_nonzero (o_instance x) (o_allocation_charge x) b;
     b \<leftarrow> response_drop (o_response x) b;
     instance_drop (o_instance x) b
   }"

definition op_drop :: "ptr \<Rightarrow> bridge \<Rightarrow> bridge option" where
  "op_drop p b = do {
     x \<leftarrow> ops b p;
     if o_refs x - 1 \<noteq> 0 then Some (b\<lparr>ops := (ops b)(p \<mapsto> x\<lparr>o_refs := o_refs x - 1\<rparr>)\<rparr>)
     else do {
       b \<leftarrow> release_op x b;
       Some (b\<lparr>ops := (ops b)(p := None)\<rparr>)
     }
   }"

subsection \<open>Waking the owner, queueing a command\<close>

definition wake_owner :: "sys \<Rightarrow> bridge \<Rightarrow> bridge" where
  "wake_owner e b =
     (if wake_pending b then b
      else if wake_fd b < 0 then b
      else if \<not> sys_write e then b
      else b\<lparr>wake_pending := True\<rparr>)"

text \<open>Writing \<open>tail->next\<close> touches the last element: it must still be allocated.\<close>

definition append_ok :: "ptr \<Rightarrow> ends \<Rightarrow> bridge \<Rightarrow> bool" where
  "append_ok p q b = (ops b p \<noteq> None \<and> (case snd q of None \<Rightarrow> True | Some t \<Rightarrow> ops b t \<noteq> None))"

definition enqueue :: "sys \<Rightarrow> ptr \<Rightarrow> bridge \<Rightarrow> bridge option" where
  "enqueue e p b =
     (if append_ok p (commands b) b
      then let (nxt, q) = link_append p (op_next b, commands b)
           in Some (wake_owner e (b\<lparr>op_next := nxt, commands := q\<rparr>))
      else None)"

definition new_op :: "int \<Rightarrow> ptr \<Rightarrow> nat option \<Rightarrow> nat \<Rightarrow> ptr option \<Rightarrow> bridge \<Rightarrow> (ptr option \<times> bridge) option" where
  "new_op kind sp cb ud mem b =
     (if next_id b = INT_MAX then Some (None, b)
      else case mem of
        None \<Rightarrow> Some (None, b)
      | Some p \<Rightarrow> do {
          (ok, b) \<leftarrow> (if kind \<le> 4 then charge sp sizeof_operation b else Some (True, b));
          if \<not> ok then Some (None, b)
          else do {
            b \<leftarrow> upd_inst sp (\<lambda>s. s\<lparr>s_refs := s_refs s + 1, s_active := s_active s + 1,
                                     s_notifications := s_notifications s + 1\<rparr>) b;
            Some (Some p, b\<lparr>ops := (ops b)(p \<mapsto>
               \<lparr>o_refs = 2, o_id = next_id b, o_kind = kind, o_cancelled = False, o_done = False,
                o_internal = False, o_instance = sp, o_response = None, o_callback = cb,
                o_user_data = ud, o_input = [], o_max_bytes = 0, o_method = [], o_target = [],
                o_headers = [], o_input_charge = 0,
                o_allocation_charge = (if kind \<le> 4 then sizeof_operation else 0),
                o_event = no_event\<rparr>),
               next_id := next_id b + 1, active_ops := active_ops b + 1\<rparr>)
          }
        })"

definition abandon :: "ptr \<Rightarrow> bridge \<Rightarrow> bridge option" where
  "abandon p b = do {
     x \<leftarrow> ops b p;
     b \<leftarrow> upd_inst (o_instance x) (\<lambda>s. s\<lparr>s_active := s_active s - 1,
                                           s_notifications := s_notifications s - 1\<rparr>) b;
     b \<leftarrow> upd_op p (\<lambda>x. x\<lparr>o_refs := 1\<rparr>) (b\<lparr>active_ops := active_ops b - 1\<rparr>);
     op_drop p b
   }"

subsection \<open>Runtime life cycle\<close>

text \<open>
  \<open>reap_runtime\<close> waits until the notifier has announced its end (\<open>state = 4\<close>), claims it (5),
  joins it with the mutex released, and resets the runtime (0). The claim and the reset are two
  steps of the waiting host thread.
\<close>

definition reap_claim :: "bridge \<Rightarrow> bridge option" where
  "reap_claim b = (if state b = 4 then Some (b\<lparr>state := 5\<rparr>) else None)"

definition reap_finish :: "bridge \<Rightarrow> bridge" where
  "reap_finish b = b\<lparr>state := 0\<rparr>"

text \<open>
  Whether a host thread may leave \<open>release_barrier\<close>: the three \<open>while\<close> loops have ended. The
  facts the earlier loops waited for are stable, so only their conjunction matters.
\<close>

definition release_barrier :: "role \<Rightarrow> ptr \<Rightarrow> bridge \<Rightarrow> bool option" where
  "release_barrier rl p b = do {
     s \<leftarrow> insts b p;
     Some (\<not> s_closing s \<or> rl \<noteq> Host \<or>
           (s_closed s \<and> s_notifications s = 0 \<and> \<not> (instances b = 0 \<and> state b \<noteq> 0)))
   }"

text \<open>\<open>None\<close>: the caller waits in \<open>reap_runtime\<close>.\<close>

definition start_runtime :: "role \<Rightarrow> sys \<Rightarrow> bridge \<Rightarrow> (bool \<times> bridge) option" where
  "start_runtime rl e b =
     (if state b \<ge> 3 then (if rl = Notifier then Some (False, b) else None)
      else if state b \<noteq> 0 then Some (True, b)
      else let b = b\<lparr>state := 1, owner_done := False, owner_started := False, next_id := 1\<rparr>
           in if \<not> sys_thread e 0 then Some (False, b\<lparr>state := 0\<rparr>)
              else if \<not> sys_thread e 1 then Some (False, b\<lparr>state := 3, owner_done := True\<rparr>)
              else Some (True, b\<lparr>owner_started := True\<rparr>))"

subsection \<open>Creating and closing an instance\<close>

definition new_instance :: "int \<Rightarrow> bool \<Rightarrow> hs_instance" where
  "new_instance i srv = \<lparr>s_refs = 1, s_id = i, s_server = srv, s_closing = False, s_closed = False,
     s_active = 0, s_notifications = 0, s_capacity = 256, s_block_size = 65536,
     s_response_count = 0, s_response_limit = 1024, s_budget = 67108864, s_charged = 0\<rparr>"

definition create_undo :: "sys \<Rightarrow> ptr \<Rightarrow> ptr \<Rightarrow> bridge \<Rightarrow> ((int \<times> ptr option) \<times> bridge) option" where
  "create_undo e p sp b = do {
     b \<leftarrow> abandon p b;
     b \<leftarrow> instance_drop sp b;
     Some ((HS_ERR_LIMIT, None), wake_owner e b)
   }"

definition create_rest :: "int \<Rightarrow> bytes option \<Rightarrow> nat \<Rightarrow> nat \<Rightarrow> nat \<Rightarrow> sys \<Rightarrow> bridge \<Rightarrow>
    ((int \<times> ptr option) \<times> bridge) option" where
  "create_rest kind json len cb ud e b =
     (if next_id b \<ge> INT_MAX - 1 then Some ((HS_ERR_LIMIT, None), b)
      else case sys_alloc e 0 of
        None \<Rightarrow> Some ((HS_ERR_LIMIT, None), wake_owner e b)
      | Some sp \<Rightarrow> do {
          (op, b) \<leftarrow> new_op kind sp (Some cb) ud (sys_alloc e 1)
            (b\<lparr>insts := (insts b)(sp \<mapsto> new_instance (next_id b) (kind = 2)), next_id := next_id b + 1\<rparr>);
          case op of
            None \<Rightarrow> Some ((HS_ERR_LIMIT, None), wake_owner e (b\<lparr>insts := (insts b)(sp := None)\<rparr>))
          | Some p \<Rightarrow> do {
              (ok, b) \<leftarrow> charge sp (of_nat (len + 1)) b;
              if \<not> ok then create_undo e p sp b
              else do {
                b \<leftarrow> upd_op p (\<lambda>x. x\<lparr>o_input_charge := of_nat (len + 1)\<rparr>) b;
                if sys_alloc e 2 = None then create_undo e p sp b
                else do {
                  b \<leftarrow> upd_op p (\<lambda>x. x\<lparr>o_input := take len (case json of None \<Rightarrow> [] | Some j \<Rightarrow> j)\<rparr>) b;
                  b \<leftarrow> enqueue e p (b\<lparr>live_instances := sp # live_instances b, instances := instances b + 1\<rparr>);
                  Some ((HS_OK, Some p), b)
                }
              }
            }
        })"

text \<open>The part after the limit checks; it is re-entered after a wait in \<open>reap_runtime\<close>.\<close>

definition create_resume :: "role \<Rightarrow> int \<Rightarrow> bytes option \<Rightarrow> nat \<Rightarrow> nat \<Rightarrow> nat \<Rightarrow> sys \<Rightarrow> bridge \<Rightarrow>
    ((int \<times> ptr option) \<times> bridge) option option" where
  "create_resume rl kind json len cb ud e b =
     (case start_runtime rl e b of
        None \<Rightarrow> Some None
      | Some (False, b) \<Rightarrow> Some (Some ((HS_ERR_IO, None), b))
      | Some (True, b) \<Rightarrow> map_option Some (create_rest kind json len cb ud e b))"

definition create_async :: "role \<Rightarrow> int \<Rightarrow> bytes option \<Rightarrow> nat \<Rightarrow> nat option \<Rightarrow> nat \<Rightarrow> bool \<Rightarrow> sys \<Rightarrow>
    bridge \<Rightarrow> ((int \<times> ptr option) \<times> bridge) option option" where
  "create_async rl kind json len cb ud out e b =
     (case cb of
        None \<Rightarrow> Some (Some ((HS_ERR_INVALID_ARG, None), b))
      | Some f \<Rightarrow>
          if \<not> out \<or> (len \<noteq> 0 \<and> json = None) \<or> len > 1048576
          then Some (Some ((HS_ERR_INVALID_ARG, None), b))
          else if active_ops b \<ge> 256 \<or> instances b \<ge> 1024
          then Some (Some ((HS_ERR_LIMIT, None), b))
          else create_resume rl kind json len f ud e b)"

definition hs_engine_create_async where
  "hs_engine_create_async rl json len cb ud out e b = create_async rl 1 json len cb ud out e b"

definition hs_server_start_async where
  "hs_server_start_async rl json len cb ud out e b = create_async rl 2 json len cb ud out e b"

definition close_async :: "ptr option \<Rightarrow> nat option \<Rightarrow> nat \<Rightarrow> bool \<Rightarrow> sys \<Rightarrow> bridge \<Rightarrow>
    ((int \<times> ptr option) \<times> bridge) option" where
  "close_async sp cb ud out e b =
     (case sp of
        None \<Rightarrow> Some ((HS_ERR_INVALID_ARG, None), b)
      | Some q \<Rightarrow>
          if cb = None \<or> \<not> out then Some ((HS_ERR_INVALID_ARG, None), b)
          else do {
            s \<leftarrow> insts b q;
            if s_closing s then Some ((HS_ERR_CLOSED, None), b)
            else do {
              (op, b) \<leftarrow> new_op (if s_server s then 6 else 5) q cb ud (sys_alloc e 0) b;
              case op of
                None \<Rightarrow> Some ((HS_ERR_LIMIT, None), b)
              | Some p \<Rightarrow> do {
                  b \<leftarrow> upd_inst q (\<lambda>s. s\<lparr>s_closing := True\<rparr>) b;
                  b \<leftarrow> enqueue e p b;
                  Some ((HS_OK, Some p), b)
                }
            }
          })"

subsection \<open>Releasing handles\<close>

text \<open>Inner \<open>None\<close>: the call waits in the barrier.\<close>

definition hs_engine_release :: "role \<Rightarrow> ptr option \<Rightarrow> bridge \<Rightarrow> bridge option option" where
  "hs_engine_release rl sp b =
     (case sp of
        None \<Rightarrow> Some (Some b)
      | Some q \<Rightarrow> do {
          go \<leftarrow> release_barrier rl q b;
          if go then map_option Some (instance_drop q b) else Some None
        })"

definition hs_operation_release :: "role \<Rightarrow> ptr option \<Rightarrow> bridge \<Rightarrow> bridge option option" where
  "hs_operation_release rl op b =
     (case op of
        None \<Rightarrow> Some (Some b)
      | Some p \<Rightarrow> do {
          x \<leftarrow> ops b p;
          s \<leftarrow> insts b (o_instance x);
          go \<leftarrow> (if s_closed s then release_barrier rl (o_instance x) b else Some True);
          if go then map_option Some (op_drop p b) else Some None
        })"

definition hs_operation_cancel :: "sys \<Rightarrow> ptr option \<Rightarrow> bridge \<Rightarrow> bridge option" where
  "hs_operation_cancel e op b =
     (case op of
        None \<Rightarrow> Some b
      | Some p \<Rightarrow> do {
          x \<leftarrow> ops b p;
          if \<not> o_done x \<and> o_kind x \<le> 4
          then map_option (wake_owner e) (upd_op p (\<lambda>x. x\<lparr>o_cancelled := True\<rparr>) b)
          else Some b
        })"

text \<open>The internal operation of \<open>hs_response_release\<close> that tells the owner of the release.\<close>

definition release_notice :: "sys \<Rightarrow> ptr \<Rightarrow> hs_response \<Rightarrow> bridge \<Rightarrow> bridge option" where
  "release_notice e q r b = do {
     s \<leftarrow> insts b (r_instance r);
     if s_closing s then Some b
     else do {
       (op, b) \<leftarrow> new_op 7 (r_instance r) None 0 (sys_alloc e 0) b;
       case op of
         None \<Rightarrow> Some b
       | Some p \<Rightarrow> do {
           b \<leftarrow> upd_op p (\<lambda>x. x\<lparr>o_refs := 1, o_internal := True, o_response := Some q\<rparr>) b;
           b \<leftarrow> upd_resp q (\<lambda>r. r\<lparr>r_refs := r_refs r + 1\<rparr>) b;
           enqueue e p b
         }
     }
   }"

definition hs_response_release :: "sys \<Rightarrow> ptr option \<Rightarrow> bridge \<Rightarrow> bridge option" where
  "hs_response_release e rp b =
     (case rp of
        None \<Rightarrow> Some b
      | Some q \<Rightarrow> do {
          r \<leftarrow> resps b q;
          b \<leftarrow> (if r_released r then Some b
                else do {
                  b \<leftarrow> upd_resp q (\<lambda>r. r\<lparr>r_released := True\<rparr>) b;
                  release_notice e q r b
                });
          response_drop (Some q) b
        })"

definition release_chunk_response :: "hs_chunk \<Rightarrow> bridge \<Rightarrow> bridge option" where
  "release_chunk_response c b =
     (case c_response c of
        None \<Rightarrow> Some b
      | Some q \<Rightarrow> do {
          b \<leftarrow> upd_resp q (\<lambda>r. r\<lparr>r_chunks := r_chunks r - 1\<rparr>) b;
          response_drop (Some q) b
        })"

definition hs_chunk_release :: "sys \<Rightarrow> ptr option \<Rightarrow> bridge \<Rightarrow> bridge option" where
  "hs_chunk_release e cp b =
     (case cp of
        None \<Rightarrow> Some b
      | Some q \<Rightarrow> do {
          c \<leftarrow> chunks b q;
          b \<leftarrow> uncharge (c_instance c) (c_length c) b;
          b \<leftarrow> release_chunk_response c b;
          b \<leftarrow> instance_drop (c_instance c) b;
          Some ((wake_owner e b)\<lparr>chunks := (chunks b)(q := None)\<rparr>)
        })"

definition hs_chunk_data :: "ptr option \<Rightarrow> bridge \<Rightarrow> (bytes option \<times> u64) option" where
  "hs_chunk_data cp b =
     (case cp of
        None \<Rightarrow> Some (None, 0)
      | Some q \<Rightarrow> map_option (\<lambda>c. (Some (c_bytes c), c_length c)) (chunks b q))"

subsection \<open>Submitting a request\<close>

definition copy_span :: "ptr option \<Rightarrow> hs_span_t \<Rightarrow> bytes option" where
  "copy_span mem sp =
     (if sp_length sp > 1048576 \<or> (sp_length sp \<noteq> 0 \<and> sp_data sp = None) then None
      else if mem = None then None
      else Some (take (unat (sp_length sp)) (case sp_data sp of None \<Rightarrow> [] | Some d \<Rightarrow> d)))"

text \<open>The size loop over the headers: \<open>None\<close> is \<open>HS_ERR_LIMIT\<close>.\<close>

fun header_total :: "hs_header_t list \<Rightarrow> u64 \<Rightarrow> u64 option" where
  "header_total [] tot = Some tot"
| "header_total ((n, v) # hs) tot =
     (if sp_length n > 65536 \<or> sp_length v > 65536 then None
      else let tot = tot + (sp_length n + sp_length v)
           in if tot > 65536 then None else header_total hs tot)"

text \<open>The copy loop; \<open>i\<close> numbers the allocations.\<close>

fun copy_headers :: "(nat \<Rightarrow> ptr option) \<Rightarrow> nat \<Rightarrow> hs_header_t list \<Rightarrow> (bytes \<times> bytes) list option" where
  "copy_headers mem i [] = Some []"
| "copy_headers mem i ((n, v) # hs) = do {
     n \<leftarrow> copy_span (mem i) n;
     v \<leftarrow> copy_span (mem (i + 1)) v;
     hs \<leftarrow> copy_headers mem (i + 2) hs;
     Some ((n, v) # hs)
   }"

definition copy_request :: "(nat \<Rightarrow> ptr option) \<Rightarrow> hs_request_t \<Rightarrow> hs_header_t list \<Rightarrow>
    (bytes \<times> bytes \<times> (bytes \<times> bytes) list) option" where
  "copy_request mem r hs = do {
     m \<leftarrow> copy_span (mem 1) (rq_method r);
     t \<leftarrow> copy_span (mem 2) (rq_target r);
     if hs \<noteq> [] \<and> mem 3 = None then None
     else do {
       h \<leftarrow> copy_headers mem 4 hs;
       Some (m, t, h)
     }
   }"

definition submit_locked :: "ptr \<Rightarrow> hs_request_t \<Rightarrow> hs_header_t list \<Rightarrow> u64 \<Rightarrow> nat \<Rightarrow> nat \<Rightarrow> sys \<Rightarrow> bridge \<Rightarrow>
    ((int \<times> ptr option) \<times> bridge) option" where
  "submit_locked q r hs tot cb ud e b = do {
     s \<leftarrow> insts b q;
     if s_closing s then Some ((HS_ERR_CLOSED, None), b)
     else if s_active s \<ge> s_capacity s then Some ((HS_ERR_LIMIT, None), b)
     else do {
       (op, b) \<leftarrow> new_op 3 q (Some cb) ud (sys_alloc e 0) b;
       case op of
         None \<Rightarrow> Some ((HS_ERR_LIMIT, None), b)
       | Some p \<Rightarrow>
           let cost = tot + ucast (rq_header_count r) * (sizeof_header + 2) + 2
           in do {
             (ok, b) \<leftarrow> charge q cost b;
             if \<not> ok then do { b \<leftarrow> abandon p b; Some ((HS_ERR_LIMIT, None), b) }
             else do {
               b \<leftarrow> upd_op p (\<lambda>x. x\<lparr>o_input_charge := cost\<rparr>) b;
               case copy_request (sys_alloc e) r hs of
                 None \<Rightarrow> do { b \<leftarrow> abandon p b; Some ((HS_ERR_INVALID_ARG, None), b) }
               | Some (m, t, h) \<Rightarrow> do {
                   b \<leftarrow> upd_op p (\<lambda>x. x\<lparr>o_method := m, o_target := t, o_headers := h\<rparr>) b;
                   b \<leftarrow> enqueue e p b;
                   Some ((HS_OK, Some p), b)
                 }
             }
           }
     }
   }"

definition hs_submit_async :: "ptr option \<Rightarrow> hs_request_t option \<Rightarrow> nat option \<Rightarrow> nat \<Rightarrow> bool \<Rightarrow> sys \<Rightarrow>
    bridge \<Rightarrow> ((int \<times> ptr option) \<times> bridge) option" where
  "hs_submit_async engine rp cb ud out e b =
     (case (out, cb, engine, rp) of
        (True, Some f, Some q, Some r) \<Rightarrow>
          if rq_abi_major r \<noteq> 1 \<or> rq_struct_size r < sizeof_request
          then Some ((HS_ERR_ABI_MISMATCH, None), b)
          else if rq_header_count r > 256 \<or> (rq_header_count r \<noteq> 0 \<and> rq_headers r = None)
          then Some ((HS_ERR_LIMIT, None), b)
          else if sp_length (rq_method r) > 64 \<or> sp_length (rq_target r) > 16384
          then Some ((HS_ERR_LIMIT, None), b)
          else
            let n = unat (rq_header_count r);
                arr = (case rq_headers r of None \<Rightarrow> [] | Some a \<Rightarrow> a)
            in if length arr < n then None
               else case header_total (take n arr) (sp_length (rq_method r) + sp_length (rq_target r)) of
                      None \<Rightarrow> Some ((HS_ERR_LIMIT, None), b)
                    | Some tot \<Rightarrow> submit_locked q r (take n arr) tot f ud e b
      | _ \<Rightarrow> Some ((HS_ERR_INVALID_ARG, None), b))"

subsection \<open>Responses and error texts\<close>

definition hs_response_meta :: "ptr option \<Rightarrow> (u32 \<times> u32) option \<Rightarrow> bridge \<Rightarrow> (int \<times> hs_response_meta_t option) option" where
  "hs_response_meta rp out b =
     (case (rp, out) of
        (Some q, Some (sz, major)) \<Rightarrow>
          if sz < sizeof_response_meta \<or> major \<noteq> 1 then Some (HS_ERR_ABI_MISMATCH, None)
          else map_option (\<lambda>r. (HS_OK, Some (r_meta r))) (resps b q)
      | _ \<Rightarrow> Some (HS_ERR_INVALID_ARG, None))"

definition read_size :: "u32 \<Rightarrow> int \<Rightarrow> int" where
  "read_size n block = (if n = 0 then block
     else if n > word_of_int block then sint (word_of_int block :: u32) else sint n)"

definition hs_response_read_async :: "ptr option \<Rightarrow> u32 \<Rightarrow> nat option \<Rightarrow> nat \<Rightarrow> bool \<Rightarrow> sys \<Rightarrow> bridge \<Rightarrow>
    ((int \<times> ptr option) \<times> bridge) option" where
  "hs_response_read_async rp n cb ud out e b =
     (case rp of
        None \<Rightarrow> Some ((HS_ERR_INVALID_ARG, None), b)
      | Some q \<Rightarrow>
          if cb = None \<or> \<not> out then Some ((HS_ERR_INVALID_ARG, None), b)
          else do {
            r \<leftarrow> resps b q;
            s \<leftarrow> insts b (r_instance r);
            if r_released r \<or> s_closing s then Some ((HS_ERR_CLOSED, None), b)
            else if r_reading r then Some ((HS_ERR_BUSY, None), b)
            else if s_active s \<ge> s_capacity s then Some ((HS_ERR_LIMIT, None), b)
            else do {
              (op, b) \<leftarrow> new_op 4 (r_instance r) cb ud (sys_alloc e 0) b;
              case op of
                None \<Rightarrow> Some ((HS_ERR_LIMIT, None), b)
              | Some p \<Rightarrow> do {
                  b \<leftarrow> upd_op p (\<lambda>x. x\<lparr>o_response := Some q, o_max_bytes := read_size n (s_block_size s)\<rparr>) b;
                  b \<leftarrow> upd_resp q (\<lambda>r. r\<lparr>r_refs := r_refs r + 1, r_reading := True\<rparr>) b;
                  b \<leftarrow> enqueue e p b;
                  Some ((HS_OK, Some p), b)
                }
            }
          })"

definition error_messages :: "string list" where
  "error_messages = [''Success'', ''Configuration error'', ''Invalid argument'', ''I/O error'',
     ''Closed'', ''Unsupported operation'', ''Upstream error'', ''Timeout'', ''Cancelled'',
     ''File changed'', ''Resource limit'', ''Busy'', ''ABI mismatch'']"

definition error_message :: "int \<Rightarrow> string" where
  "error_message code = (if 0 \<le> code \<and> code \<le> 12 then error_messages ! nat code else ''Unknown error'')"

text \<open>
  \<open>buf\<close> is the caller's array (\<open>None\<close>: null); the result is the message's length and the array
  after the call. A write past the end of the array is outer \<open>None\<close>.
\<close>

definition hs_error_copy :: "int \<Rightarrow> string option \<Rightarrow> nat \<Rightarrow> (nat \<times> string option) option" where
  "hs_error_copy code buf cap =
     (let s = error_message code; n = length s
      in case buf of
           None \<Rightarrow> Some (n, None)
         | Some d \<Rightarrow>
             if cap = 0 then Some (n, Some d)
             else let copy = (if n < cap - 1 then n else cap - 1)
                  in if copy < length d
                     then Some (n, Some (take copy s @ CHR 0x00 # drop (copy + 1) d))
                     else None)"

definition hs_abi_version :: u32 where "hs_abi_version = HS_ABI_VERSION"

subsection \<open>The owner's side\<close>

definition hs_bridge_attach :: "sys \<Rightarrow> int \<Rightarrow> bridge \<Rightarrow> bridge" where
  "hs_bridge_attach e fd b = wake_owner e (b\<lparr>wake_fd := fd, wake_pending := False, state := 2\<rparr>)"

definition hs_bridge_ack :: "bridge \<Rightarrow> bridge" where
  "hs_bridge_ack b = b\<lparr>wake_pending := False\<rparr>"

definition hs_bridge_pop :: "bridge \<Rightarrow> (ptr option \<times> bridge) option" where
  "hs_bridge_pop b =
     (case link_pop (op_next b, commands b) of
        None \<Rightarrow> Some (None, b)
      | Some (p, (nxt, q)) \<Rightarrow>
          if ops b p = None then None
          else Some (Some p, b\<lparr>op_next := nxt(p := None), commands := q\<rparr>))"

definition hs_bridge_idle :: "bridge \<Rightarrow> bool \<times> bridge" where
  "hs_bridge_idle b =
     (let stop = (instances b = 0 \<and> active_ops b = 0 \<and> fst (commands b) = None)
      in (stop, if stop then b\<lparr>state := 3, wake_fd := - 1\<rparr> else b))"

definition hs_bridge_read_ready :: "ptr \<Rightarrow> bridge \<Rightarrow> bool option" where
  "hs_bridge_read_ready p b = do {
     x \<leftarrow> ops b p;
     q \<leftarrow> o_response x;
     r \<leftarrow> resps b q;
     Some (r_chunks r = 0)
   }"

definition hs_bridge_cancelled :: "ptr \<Rightarrow> bridge \<Rightarrow> bool option" where
  "hs_bridge_cancelled p b = do {
     x \<leftarrow> ops b p;
     s \<leftarrow> insts b (o_instance x);
     if o_cancelled x \<or> (o_kind x \<le> 4 \<and> s_closing s) then Some True
     else if o_kind x = 4 then do { q \<leftarrow> o_response x; r \<leftarrow> resps b q; Some (r_released r) }
     else Some False
   }"

definition hs_bridge_active :: "ptr \<Rightarrow> bridge \<Rightarrow> int option" where
  "hs_bridge_active p b = do { x \<leftarrow> ops b p; s \<leftarrow> insts b (o_instance x); Some (s_active s) }"

definition hs_bridge_input :: "ptr \<Rightarrow> int \<Rightarrow> nat \<Rightarrow> bridge \<Rightarrow> bytes option" where
  "hs_bridge_input p fld i b = do {
     x \<leftarrow> ops b p;
     if fld = 1 then Some (o_method x)
     else if fld = 2 then Some (o_target x)
     else if fld = 3 then (if i < length (o_headers x) then Some (fst (o_headers x ! i)) else None)
     else if fld = 4 then (if i < length (o_headers x) then Some (snd (o_headers x ! i)) else None)
     else Some (o_input x)
   }"

definition hs_bridge_limits :: "ptr \<Rightarrow> int \<Rightarrow> int \<Rightarrow> int \<Rightarrow> int \<Rightarrow> bridge \<Rightarrow> bridge option" where
  "hs_bridge_limits p capacity block budget responses b = do {
     x \<leftarrow> ops b p;
     upd_inst (o_instance x) (\<lambda>s. s\<lparr>s_capacity := capacity, s_block_size := block,
       s_budget := word_of_int budget, s_response_limit := responses\<rparr>) b
   }"

definition hs_bridge_response :: "sys \<Rightarrow> ptr \<Rightarrow> int \<Rightarrow> int \<Rightarrow> int \<Rightarrow> nat \<Rightarrow> bridge \<Rightarrow> (ptr option \<times> bridge) option" where
  "hs_bridge_response e p rid status len count b =
     (case sys_alloc e 0 of
        None \<Rightarrow> Some (None, b)
      | Some q \<Rightarrow>
          if count \<noteq> 0 \<and> sys_alloc e 1 = None then Some (None, b)
          else do {
            x \<leftarrow> ops b p;
            s \<leftarrow> insts b (o_instance x);
            let cost = sizeof_response + of_nat count * sizeof_header
            in if s_response_count s \<ge> s_response_limit s then Some (None, b)
               else do {
                 (ok, b) \<leftarrow> charge (o_instance x) cost b;
                 if \<not> ok then Some (None, b)
                 else do {
                   b \<leftarrow> upd_inst (o_instance x) (\<lambda>s. s\<lparr>s_response_count := s_response_count s + 1,
                                                         s_refs := s_refs s + 1\<rparr>) b;
                   b \<leftarrow> upd_op p (\<lambda>x. x\<lparr>o_event := (o_event x)\<lparr>ev_response := Some q,
                                                          ev_kind := HS_RESULT_HANDLED\<rparr>\<rparr>) b;
                   Some (Some q, b\<lparr>resps := (resps b)(q \<mapsto>
                     \<lparr>r_refs = 1, r_id = rid, r_reading = False, r_released = False, r_chunks = 0,
                      r_instance = o_instance x,
                      r_meta = \<lparr>m_struct_size = sizeof_response_meta, m_abi_major = 1, m_status = status,
                        m_header_count = of_nat count, m_headers = replicate count (None, None),
                        m_content_length = (if len \<ge> 0 then word_of_int len else 0),
                        m_has_content_length = (len \<ge> 0)\<rparr>,
                      r_metadata_charge = cost\<rparr>)\<rparr>)
                 }
               }
          })"

definition hs_bridge_set_header :: "sys \<Rightarrow> ptr \<Rightarrow> nat \<Rightarrow> bytes \<Rightarrow> bytes \<Rightarrow> bridge \<Rightarrow> (bool \<times> bridge) option" where
  "hs_bridge_set_header e q i k v b = do {
     r \<leftarrow> resps b q;
     let cost = of_nat (length k) + of_nat (length v) + 2
     in do {
       (ok, b) \<leftarrow> charge (r_instance r) cost b;
       if \<not> ok then Some (False, b)
       else do {
         b \<leftarrow> upd_resp q (\<lambda>r. r\<lparr>r_metadata_charge := r_metadata_charge r + cost\<rparr>) b;
         if length (m_headers (r_meta r)) \<le> i then None
         else
           let name = copy_span (sys_alloc e 0) \<lparr>sp_data = Some k, sp_length = of_nat (length k)\<rparr>;
               val = (if name = None then None
                      else copy_span (sys_alloc e 1) \<lparr>sp_data = Some v, sp_length = of_nat (length v)\<rparr>)
           in do {
             b \<leftarrow> upd_resp q (\<lambda>r. r\<lparr>r_meta := (r_meta r)\<lparr>m_headers := (m_headers (r_meta r))[i := (name, val)]\<rparr>\<rparr>) b;
             Some (name \<noteq> None \<and> val \<noteq> None, b)
           }
       }
     }
   }"

definition hs_bridge_chunk :: "sys \<Rightarrow> ptr \<Rightarrow> bytes \<Rightarrow> bridge \<Rightarrow> (int \<times> bridge) option" where
  "hs_bridge_chunk e p d b =
     (case sys_alloc e 0 of
        None \<Rightarrow> Some (HS_ERR_LIMIT, b)
      | Some q \<Rightarrow>
          if d \<noteq> [] \<and> sys_alloc e 1 = None then Some (HS_ERR_LIMIT, b)
          else do {
            x \<leftarrow> ops b p;
            (ok, b) \<leftarrow> charge (o_instance x) (of_nat (length d)) b;
            if \<not> ok then Some (HS_ERR_LIMIT, b)
            else do {
              b \<leftarrow> upd_inst (o_instance x) (\<lambda>s. s\<lparr>s_refs := s_refs s + 1\<rparr>) b;
              rq \<leftarrow> o_response x;
              b \<leftarrow> upd_resp rq (\<lambda>r. r\<lparr>r_refs := r_refs r + 1, r_chunks := r_chunks r + 1\<rparr>) b;
              b \<leftarrow> upd_op p (\<lambda>x. x\<lparr>o_event := (o_event x)\<lparr>ev_chunk := Some q, ev_kind := HS_RESULT_CHUNK\<rparr>\<rparr>) b;
              Some (0, b\<lparr>chunks := (chunks b)(q \<mapsto>
                \<lparr>c_instance = o_instance x, c_response = Some rq, c_bytes = d,
                 c_length = of_nat (length d)\<rparr>)\<rparr>)
            }
          })"

subsection \<open>Completion\<close>

definition retire_instance :: "ptr \<Rightarrow> bridge \<Rightarrow> bridge option" where
  "retire_instance sp b =
     (let b = unlink_instance sp b in instance_drop sp (b\<lparr>instances := instances b - 1\<rparr>))"

definition complete_lifecycle :: "ptr \<Rightarrow> ptr \<Rightarrow> int \<Rightarrow> int \<Rightarrow> bridge \<Rightarrow> bridge option" where
  "complete_lifecycle p sp kind code b =
     (if kind = 1 \<or> kind = 2 then
        (if code = 0 then do {
           b \<leftarrow> upd_inst sp (\<lambda>s. s\<lparr>s_refs := s_refs s + 1\<rparr>) b;
           upd_op p (\<lambda>x. x\<lparr>o_event := (if kind = 1 then (o_event x)\<lparr>ev_engine := Some sp\<rparr>
                                        else (o_event x)\<lparr>ev_server := Some sp\<rparr>)\<rparr>) b
         } else do {
           b \<leftarrow> upd_inst sp (\<lambda>s. s\<lparr>s_closing := True, s_closed := True\<rparr>) b;
           retire_instance sp b
         })
      else if kind = 5 \<or> kind = 6 then do {
        b \<leftarrow> upd_inst sp (\<lambda>s. s\<lparr>s_closed := True\<rparr>) b;
        retire_instance sp b
      }
      else Some b)"

definition complete_event :: "ptr \<Rightarrow> hs_event_t \<Rightarrow> int \<Rightarrow> bridge \<Rightarrow> bridge option" where
  "complete_event p ev code b =
     (if code \<noteq> 0 \<and> ev_response ev \<noteq> None then do {
        b \<leftarrow> response_drop (ev_response ev) b;
        upd_op p (\<lambda>x. x\<lparr>o_event := (o_event x)\<lparr>ev_response := None\<rparr>\<rparr>) b
      } else Some b)"

definition complete_reading :: "hs_operation \<Rightarrow> bridge \<Rightarrow> bridge option" where
  "complete_reading x b =
     (case o_response x of
        Some q \<Rightarrow> (if o_kind x = 4 then upd_resp q (\<lambda>r. r\<lparr>r_reading := False\<rparr>) b else Some b)
      | None \<Rightarrow> Some b)"

definition notice :: "sys \<Rightarrow> ptr \<Rightarrow> bridge \<Rightarrow> bridge option" where
  "notice e p b =
     (if append_ok p (notices b) b
      then let (nxt, q) = link_append p (op_next b, notices b)
           in Some (wake_owner e (b\<lparr>op_next := nxt, notices := q\<rparr>))
      else None)"

definition hs_bridge_complete :: "sys \<Rightarrow> ptr \<Rightarrow> int \<Rightarrow> int \<Rightarrow> bridge \<Rightarrow> bridge option" where
  "hs_bridge_complete e p code kind b = do {
     x \<leftarrow> ops b p;
     if o_done x then Some b
     else do {
       b \<leftarrow> upd_op p (\<lambda>x. x\<lparr>o_done := True, o_event := (o_event x)\<lparr>ev_code := code,
              ev_kind := (if kind \<ge> 0 then kind else ev_kind (o_event x))\<rparr>\<rparr>) b;
       b \<leftarrow> complete_event p (o_event x) code b;
       b \<leftarrow> complete_lifecycle p (o_instance x) (o_kind x) code b;
       b \<leftarrow> complete_reading x b;
       b \<leftarrow> upd_inst (o_instance x) (\<lambda>s. s\<lparr>s_active := s_active s - 1\<rparr>) b;
       notice e p b
     }
   }"

subsection \<open>The owner's end\<close>

definition owner_exit :: "bridge \<Rightarrow> bridge" where
  "owner_exit b = b\<lparr>state := 3, wake_fd := - 1\<rparr>"

text \<open>
  One turn of the loop that fails the commands still queued takes the oldest command in one
  critical section and completes it with \<open>HS_ERR_IO\<close> in another; the second is \<open>hs_bridge_complete\<close>.
\<close>

definition owner_drain :: "bridge \<Rightarrow> (ptr option \<times> bridge) option" where
  "owner_drain b =
     (case link_pop (op_next b, commands b) of
        None \<Rightarrow> Some (None, b)
      | Some (p, (nxt, q)) \<Rightarrow>
          if ops b p = None then None else Some (Some p, b\<lparr>op_next := nxt, commands := q\<rparr>))"

fun retire_all :: "ptr list \<Rightarrow> bridge \<Rightarrow> bridge option" where
  "retire_all [] b = Some (b\<lparr>live_instances := []\<rparr>)"
| "retire_all (p # ps) b = do {
     b \<leftarrow> upd_inst p (\<lambda>s. s\<lparr>s_closed := True, s_closing := True\<rparr>) (b\<lparr>live_instances := ps\<rparr>);
     b \<leftarrow> instance_drop p (b\<lparr>instances := instances b - 1\<rparr>);
     retire_all ps b
   }"

text \<open>The rest of \<open>owner_main\<close>, entered with the mutex held once \<open>commands\<close> is null.\<close>

definition owner_finish :: "bridge \<Rightarrow> bridge option" where
  "owner_finish b =
     (if fst (commands b) \<noteq> None then None
      else do {
        b \<leftarrow> retire_all (live_instances b) b;
        Some (b\<lparr>owner_done := True\<rparr>)
      })"

subsection \<open>The notifier\<close>

text \<open>
  One turn of the loop of \<open>notify_main\<close> is two critical sections around the callback: take the
  oldest notice, and, after the callback returned, retire it.
\<close>

definition notify_take :: "bridge \<Rightarrow> (ptr option \<times> bridge) option" where
  "notify_take b =
     (case link_pop (op_next b, notices b) of
        None \<Rightarrow> Some (None, b)
      | Some (p, (nxt, q)) \<Rightarrow>
          if ops b p = None then None else Some (Some p, b\<lparr>op_next := nxt, notices := q\<rparr>))"

definition notify_retire :: "sys \<Rightarrow> ptr \<Rightarrow> bridge \<Rightarrow> bridge option" where
  "notify_retire e p b = do {
     x \<leftarrow> ops b p;
     b \<leftarrow> upd_inst (o_instance x) (\<lambda>s. s\<lparr>s_notifications := s_notifications s - 1\<rparr>) b;
     b \<leftarrow> op_drop p (b\<lparr>active_ops := active_ops b - 1\<rparr>);
     Some (wake_owner e b)
   }"

definition notify_exit :: "bridge \<Rightarrow> bridge option" where
  "notify_exit b =
     (if fst (notices b) = None \<and> owner_done b then Some (b\<lparr>state := 4\<rparr>) else None)"

end
