(* ===== verification/Bridge_Acct.thy ===== *)
theory Bridge_Acct
  imports Bridge_Model
begin

text \<open>
  Reference and credit accounting of \<^verbatim>\<open>bridge.c\<close>. \<open>acct E b\<close> says that every counter the code
  keeps is the number of things it counts: the references in the heap plus the external ones
  recorded in the ghost \<open>E\<close> (the host's handles, the live list, undelivered events, the
  command/notice pipeline, and credits taken but not yet stored in an object). Each primitive of
  the code moves a reference between \<open>E\<close> and the heap, so its lemma is one line of bookkeeping;
  the functions above are compositions of primitives.

  The equations hold at every address: at a freed one all terms are nonnegative and add up to
  zero, so nothing points to a freed object.
\<close>

record ext =
  x_inst :: "ptr \<Rightarrow> int"
  x_resp :: "ptr \<Rightarrow> int"
  x_pipe :: "ptr \<Rightarrow> int"
  x_op :: "ptr \<Rightarrow> int"
  x_credit :: "ptr \<Rightarrow> int"
  x_count :: "ptr \<Rightarrow> int"
  x_act :: "ptr \<Rightarrow> int"
  x_note :: "ptr \<Rightarrow> int"
  x_rch :: "ptr \<Rightarrow> int"
  x_ops :: int

definition bump :: "ptr \<Rightarrow> int \<Rightarrow> (ptr \<Rightarrow> int) \<Rightarrow> ptr \<Rightarrow> int" where
  "bump p n f = f(p := f p + n)"

lemma bump_apply [simp]: "bump p n f q = f q + (if q = p then n else 0)"
  by (simp add: bump_def)

definition bumpo :: "ptr option \<Rightarrow> int \<Rightarrow> (ptr \<Rightarrow> int) \<Rightarrow> ptr \<Rightarrow> int" where
  "bumpo q n f = (case q of None \<Rightarrow> f | Some p \<Rightarrow> bump p n f)"

lemma bumpo_apply [simp]: "bumpo q n f p = f p + (if q = Some p then n else 0)"
  by (auto simp: bumpo_def split: option.splits)

subsection \<open>What is counted\<close>

definition op_points :: "ptr \<Rightarrow> ptr \<Rightarrow> hs_operation \<Rightarrow> int" where
  "op_points p q x = of_bool (o_instance x = p)"
definition resp_points :: "ptr \<Rightarrow> ptr \<Rightarrow> hs_response \<Rightarrow> int" where
  "resp_points p q r = of_bool (r_instance r = p)"
definition chunk_points :: "ptr \<Rightarrow> ptr \<Rightarrow> hs_chunk \<Rightarrow> int" where
  "chunk_points p q c = of_bool (c_instance c = p)"

definition op_uses :: "ptr \<Rightarrow> ptr \<Rightarrow> hs_operation \<Rightarrow> int" where
  "op_uses p q x = of_bool (o_response x = Some p)"
definition chunk_uses :: "ptr \<Rightarrow> ptr \<Rightarrow> hs_chunk \<Rightarrow> int" where
  "chunk_uses p q c = of_bool (c_response c = Some p)"

definition op_credit :: "ptr \<Rightarrow> ptr \<Rightarrow> hs_operation \<Rightarrow> int" where
  "op_credit p q x = (if o_instance x = p then uint (o_input_charge x) + uint (o_allocation_charge x) else 0)"
definition resp_credit :: "ptr \<Rightarrow> ptr \<Rightarrow> hs_response \<Rightarrow> int" where
  "resp_credit p q r = (if r_instance r = p then uint (r_metadata_charge r) else 0)"
definition chunk_credit :: "ptr \<Rightarrow> ptr \<Rightarrow> hs_chunk \<Rightarrow> int" where
  "chunk_credit p q c = (if c_instance c = p then uint (c_length c) else 0)"

definition op_open :: "ptr \<Rightarrow> ptr \<Rightarrow> hs_operation \<Rightarrow> int" where
  "op_open p q x = of_bool (o_instance x = p \<and> \<not> o_done x)"
definition op_notice :: "(ptr \<Rightarrow> int) \<Rightarrow> ptr \<Rightarrow> ptr \<Rightarrow> hs_operation \<Rightarrow> int" where
  "op_notice pipe p q x = (if o_instance x = p then pipe q else 0)"
definition op_piped :: "(ptr \<Rightarrow> int) \<Rightarrow> ptr \<Rightarrow> hs_operation \<Rightarrow> int" where
  "op_piped pipe q x = pipe q"

lemmas counted_defs = op_points_def resp_points_def chunk_points_def op_uses_def chunk_uses_def
  op_credit_def resp_credit_def chunk_credit_def op_open_def op_notice_def op_piped_def

subsection \<open>The accounting invariant\<close>

definition acct_inst :: "ext \<Rightarrow> bridge \<Rightarrow> bool" where
  "acct_inst E b \<longleftrightarrow> (\<forall>p. cell s_refs (insts b p) = x_inst E p + heap_sum (op_points p) (ops b)
     + heap_sum (resp_points p) (resps b) + heap_sum (chunk_points p) (chunks b))"

definition acct_resp :: "ext \<Rightarrow> bridge \<Rightarrow> bool" where
  "acct_resp E b \<longleftrightarrow> (\<forall>p. cell r_refs (resps b p) = x_resp E p + heap_sum (op_uses p) (ops b)
     + heap_sum (chunk_uses p) (chunks b))"

definition acct_op :: "ext \<Rightarrow> bridge \<Rightarrow> bool" where
  "acct_op E b \<longleftrightarrow> (\<forall>p. cell o_refs (ops b p) = x_pipe E p + x_op E p)"

definition acct_credit :: "ext \<Rightarrow> bridge \<Rightarrow> bool" where
  "acct_credit E b \<longleftrightarrow> (\<forall>p. cell (\<lambda>s. uint (s_charged s)) (insts b p) = x_credit E p
     + heap_sum (op_credit p) (ops b) + heap_sum (resp_credit p) (resps b)
     + heap_sum (chunk_credit p) (chunks b))"

definition acct_count :: "ext \<Rightarrow> bridge \<Rightarrow> bool" where
  "acct_count E b \<longleftrightarrow>
     (\<forall>p. cell s_response_count (insts b p) = x_count E p + heap_sum (resp_points p) (resps b)) \<and>
     (\<forall>p. cell s_active (insts b p) = x_act E p + heap_sum (op_open p) (ops b)) \<and>
     (\<forall>p. cell s_notifications (insts b p) = x_note E p + heap_sum (op_notice (x_pipe E) p) (ops b)) \<and>
     (\<forall>p. cell r_chunks (resps b p) = x_rch E p + heap_sum (chunk_uses p) (chunks b)) \<and>
     active_ops b = x_ops E + heap_sum (op_piped (x_pipe E)) (ops b)"

definition acct_total :: "bridge \<Rightarrow> bool" where
  "acct_total b \<longleftrightarrow> uint (retained_bytes b) = heap_sum (\<lambda>_ s. uint (s_charged s)) (insts b) \<and>
     uint (retained_bytes b) \<le> 67108864"

definition wf_heaps :: "bridge \<Rightarrow> bool" where
  "wf_heaps b \<longleftrightarrow> finite (dom (insts b)) \<and> finite (dom (ops b)) \<and> finite (dom (resps b)) \<and>
     finite (dom (chunks b)) \<and>
     (\<forall>p s. insts b p = Some s \<longrightarrow> 0 < s_refs s) \<and> (\<forall>p r. resps b p = Some r \<longrightarrow> 0 < r_refs r) \<and>
     (\<forall>p x. ops b p = Some x \<longrightarrow> 0 < o_refs x)"

definition wf_ext :: "ext \<Rightarrow> bool" where
  "wf_ext E \<longleftrightarrow> (\<forall>p. 0 \<le> x_inst E p \<and> 0 \<le> x_resp E p \<and> 0 \<le> x_pipe E p \<and> 0 \<le> x_op E p \<and>
     0 \<le> x_credit E p)"

definition acct :: "ext \<Rightarrow> bridge \<Rightarrow> bool" where
  "acct E b \<longleftrightarrow> wf_ext E \<and> wf_heaps b \<and> acct_inst E b \<and> acct_resp E b \<and> acct_op E b \<and>
     acct_credit E b \<and> acct_count E b \<and> acct_total b"

lemmas acct_parts = wf_ext_def wf_heaps_def acct_inst_def acct_resp_def acct_op_def
  acct_credit_def acct_count_def acct_total_def

definition no_ext :: ext where
  "no_ext = \<lparr>x_inst = \<lambda>_. 0, x_resp = \<lambda>_. 0, x_pipe = \<lambda>_. 0, x_op = \<lambda>_. 0, x_credit = \<lambda>_. 0,
     x_count = \<lambda>_. 0, x_act = \<lambda>_. 0, x_note = \<lambda>_. 0, x_rch = \<lambda>_. 0, x_ops = 0\<rparr>"

lemma acct_init: "acct no_ext init_bridge"
  by (simp add: acct_def acct_parts no_ext_def init_bridge_def)

subsection \<open>Nothing points to a freed object\<close>

lemma counted_nonneg [simp]:
  "0 \<le> heap_sum (op_points p) h" "0 \<le> heap_sum (resp_points p) h2" "0 \<le> heap_sum (chunk_points p) h3"
  "0 \<le> heap_sum (op_uses p) h" "0 \<le> heap_sum (chunk_uses p) h3"
  "0 \<le> heap_sum (op_credit p) h" "0 \<le> heap_sum (resp_credit p) h2" "0 \<le> heap_sum (chunk_credit p) h3"
  by (auto intro!: heap_sum_nonneg simp: counted_defs)

lemma acct_finite:
  "acct E b \<Longrightarrow> finite (dom (insts b)) \<and> finite (dom (ops b)) \<and> finite (dom (resps b)) \<and> finite (dom (chunks b))"
  by (simp add: acct_def wf_heaps_def)

lemma acct_inst_pos: "acct E b \<Longrightarrow> insts b p = Some s \<Longrightarrow> 0 < s_refs s"
  by (simp add: acct_def wf_heaps_def)

lemma acct_inst_at:
  "acct E b \<Longrightarrow> cell s_refs (insts b p) = x_inst E p + heap_sum (op_points p) (ops b)
     + heap_sum (resp_points p) (resps b) + heap_sum (chunk_points p) (chunks b)"
  by (simp add: acct_def acct_inst_def)

lemma acct_op_inst:
  assumes "acct E b" "ops b q = Some x"
  shows "\<exists>s. insts b (o_instance x) = Some s"
proof (rule ccontr)
  assume "\<nexists>s. insts b (o_instance x) = Some s"
  then have "cell s_refs (insts b (o_instance x)) = 0" by (cases "insts b (o_instance x)") auto
  moreover have "1 \<le> heap_sum (op_points (o_instance x)) (ops b)"
    using heap_sum_ge_cell [of "ops b" "op_points (o_instance x)" q x] assms acct_finite [OF assms(1)]
    by (simp add: op_points_def)
  moreover have "0 \<le> x_inst E (o_instance x)" using assms(1) by (simp add: acct_def wf_ext_def)
  ultimately show False using acct_inst_at [OF assms(1), of "o_instance x"]
    counted_nonneg(2) [of "o_instance x" "resps b"] counted_nonneg(3) [of "o_instance x" "chunks b"]
    by linarith
qed

lemma acct_resp_inst:
  assumes "acct E b" "resps b q = Some r"
  shows "\<exists>s. insts b (r_instance r) = Some s"
proof (rule ccontr)
  assume "\<nexists>s. insts b (r_instance r) = Some s"
  then have "cell s_refs (insts b (r_instance r)) = 0" by (cases "insts b (r_instance r)") auto
  moreover have "1 \<le> heap_sum (resp_points (r_instance r)) (resps b)"
    using heap_sum_ge_cell [of "resps b" "resp_points (r_instance r)" q r] assms acct_finite [OF assms(1)]
    by (simp add: resp_points_def)
  moreover have "0 \<le> x_inst E (r_instance r)" using assms(1) by (simp add: acct_def wf_ext_def)
  ultimately show False using acct_inst_at [OF assms(1), of "r_instance r"]
    counted_nonneg(1) [of "r_instance r" "ops b"] counted_nonneg(3) [of "r_instance r" "chunks b"]
    by linarith
qed

lemma acct_chunk_inst:
  assumes "acct E b" "chunks b q = Some c"
  shows "\<exists>s. insts b (c_instance c) = Some s"
proof (rule ccontr)
  assume "\<nexists>s. insts b (c_instance c) = Some s"
  then have "cell s_refs (insts b (c_instance c)) = 0" by (cases "insts b (c_instance c)") auto
  moreover have "1 \<le> heap_sum (chunk_points (c_instance c)) (chunks b)"
    using heap_sum_ge_cell [of "chunks b" "chunk_points (c_instance c)" q c] assms acct_finite [OF assms(1)]
    by (simp add: chunk_points_def)
  moreover have "0 \<le> x_inst E (c_instance c)" using assms(1) by (simp add: acct_def wf_ext_def)
  ultimately show False using acct_inst_at [OF assms(1), of "c_instance c"]
    counted_nonneg(1) [of "c_instance c" "ops b"] counted_nonneg(2) [of "c_instance c" "resps b"]
    by linarith
qed

lemma acct_ext_inst:
  assumes "acct E b" "0 < x_inst E p"
  shows "\<exists>s. insts b p = Some s"
proof -
  have "0 < cell s_refs (insts b p)"
    using acct_inst_at [OF assms(1), of p] assms(2) counted_nonneg(1) [of p "ops b"]
      counted_nonneg(2) [of p "resps b"] counted_nonneg(3) [of p "chunks b"] by linarith
  then show ?thesis by (cases "insts b p") auto
qed

lemma acct_resp_at:
  "acct E b \<Longrightarrow> cell r_refs (resps b p) = x_resp E p + heap_sum (op_uses p) (ops b)
     + heap_sum (chunk_uses p) (chunks b)"
  by (simp add: acct_def acct_resp_def)

lemma acct_ext_resp:
  assumes "acct E b" "0 < x_resp E p"
  shows "\<exists>r. resps b p = Some r"
proof -
  have "0 < cell r_refs (resps b p)"
    using acct_resp_at [OF assms(1), of p] assms(2) counted_nonneg(4) [of p "ops b"]
      counted_nonneg(5) [of p "chunks b"] by linarith
  then show ?thesis by (cases "resps b p") auto
qed

lemma acct_op_resp:
  assumes "acct E b" "ops b q = Some x" "o_response x = Some p"
  shows "\<exists>r. resps b p = Some r"
proof -
  have "1 \<le> heap_sum (op_uses p) (ops b)"
    using heap_sum_ge_cell [of "ops b" "op_uses p" q x] assms acct_finite [OF assms(1)]
    by (simp add: op_uses_def)
  moreover have "0 \<le> x_resp E p" using assms(1) by (simp add: acct_def wf_ext_def)
  ultimately have "0 < cell r_refs (resps b p)"
    using acct_resp_at [OF assms(1), of p] counted_nonneg(5) [of p "chunks b"] by linarith
  then show ?thesis by (cases "resps b p") auto
qed

lemma acct_chunk_resp:
  assumes "acct E b" "chunks b q = Some c" "c_response c = Some p"
  shows "\<exists>r. resps b p = Some r"
proof -
  have "1 \<le> heap_sum (chunk_uses p) (chunks b)"
    using heap_sum_ge_cell [of "chunks b" "chunk_uses p" q c] assms acct_finite [OF assms(1)]
    by (simp add: chunk_uses_def)
  moreover have "0 \<le> x_resp E p" using assms(1) by (simp add: acct_def wf_ext_def)
  ultimately have "0 < cell r_refs (resps b p)"
    using acct_resp_at [OF assms(1), of p] counted_nonneg(4) [of p "ops b"] by linarith
  then show ?thesis by (cases "resps b p") auto
qed

lemma acct_ext_op:
  assumes "acct E b" "0 < x_pipe E p + x_op E p"
  shows "\<exists>x. ops b p = Some x"
proof -
  have "0 < cell o_refs (ops b p)" using assms by (simp add: acct_def acct_op_def)
  then show ?thesis by (cases "ops b p") auto
qed

text \<open>The ghost only matters pointwise.\<close>

definition ext_eq :: "ext \<Rightarrow> ext \<Rightarrow> bool" where
  "ext_eq E E' \<longleftrightarrow> (\<forall>p. x_inst E p = x_inst E' p \<and> x_resp E p = x_resp E' p \<and> x_pipe E p = x_pipe E' p \<and>
     x_op E p = x_op E' p \<and> x_credit E p = x_credit E' p \<and> x_count E p = x_count E' p \<and>
     x_act E p = x_act E' p \<and> x_note E p = x_note E' p \<and> x_rch E p = x_rch E' p) \<and> x_ops E = x_ops E'"

lemma ext_eqD: "ext_eq E E' \<Longrightarrow> E = E'"
  by (intro ext.equality ext) (auto simp: ext_eq_def)

lemma acct_eqI: "acct E b \<Longrightarrow> ext_eq E E' \<Longrightarrow> acct E' b"
  using ext_eqD by blast

subsection \<open>Writing one cell\<close>

text \<open>
  What the ghost must absorb when one cell of a heap goes from \<open>old\<close> to \<open>new\<close> (allocation, update
  or \<open>free\<close>). Every step of the code is a composition of such writes.
\<close>

definition move_inst :: "ptr \<Rightarrow> hs_instance option \<Rightarrow> hs_instance option \<Rightarrow> ext \<Rightarrow> ext" where
  "move_inst p old new E = E
     \<lparr>x_inst := bump p (cell s_refs new - cell s_refs old) (x_inst E),
      x_credit := bump p (cell (\<lambda>s. uint (s_charged s)) new - cell (\<lambda>s. uint (s_charged s)) old) (x_credit E),
      x_count := bump p (cell s_response_count new - cell s_response_count old) (x_count E),
      x_act := bump p (cell s_active new - cell s_active old) (x_act E),
      x_note := bump p (cell s_notifications new - cell s_notifications old) (x_note E)\<rparr>"

definition move_resp :: "ptr \<Rightarrow> hs_response option \<Rightarrow> hs_response option \<Rightarrow> ext \<Rightarrow> ext" where
  "move_resp p old new E = E
     \<lparr>x_inst := \<lambda>q. x_inst E q + cell (resp_points q p) old - cell (resp_points q p) new,
      x_resp := bump p (cell r_refs new - cell r_refs old) (x_resp E),
      x_credit := \<lambda>q. x_credit E q + cell (resp_credit q p) old - cell (resp_credit q p) new,
      x_count := \<lambda>q. x_count E q + cell (resp_points q p) old - cell (resp_points q p) new,
      x_rch := bump p (cell r_chunks new - cell r_chunks old) (x_rch E)\<rparr>"

definition move_chunk :: "ptr \<Rightarrow> hs_chunk option \<Rightarrow> hs_chunk option \<Rightarrow> ext \<Rightarrow> ext" where
  "move_chunk p old new E = E
     \<lparr>x_inst := \<lambda>q. x_inst E q + cell (chunk_points q p) old - cell (chunk_points q p) new,
      x_resp := \<lambda>q. x_resp E q + cell (chunk_uses q p) old - cell (chunk_uses q p) new,
      x_credit := \<lambda>q. x_credit E q + cell (chunk_credit q p) old - cell (chunk_credit q p) new,
      x_rch := \<lambda>q. x_rch E q + cell (chunk_uses q p) old - cell (chunk_uses q p) new\<rparr>"

definition move_op :: "ptr \<Rightarrow> hs_operation option \<Rightarrow> hs_operation option \<Rightarrow> ext \<Rightarrow> ext" where
  "move_op p old new E = E
     \<lparr>x_inst := \<lambda>q. x_inst E q + cell (op_points q p) old - cell (op_points q p) new,
      x_resp := \<lambda>q. x_resp E q + cell (op_uses q p) old - cell (op_uses q p) new,
      x_credit := \<lambda>q. x_credit E q + cell (op_credit q p) old - cell (op_credit q p) new,
      x_op := bump p (cell o_refs new - cell o_refs old) (x_op E),
      x_act := \<lambda>q. x_act E q + cell (op_open q p) old - cell (op_open q p) new,
      x_note := \<lambda>q. x_note E q + cell (op_notice (x_pipe E) q p) old - cell (op_notice (x_pipe E) q p) new,
      x_ops := x_ops E + cell (op_piped (x_pipe E) p) old - cell (op_piped (x_pipe E) p) new\<rparr>"

text \<open>Taking \<open>d\<close> of the references of an operation out of, or into, the pipeline.\<close>

definition move_pipe :: "ptr \<Rightarrow> hs_operation \<Rightarrow> int \<Rightarrow> ext \<Rightarrow> ext" where
  "move_pipe p x d E = E
     \<lparr>x_pipe := bump p d (x_pipe E), x_op := bump p (- d) (x_op E),
      x_note := bump (o_instance x) (- d) (x_note E), x_ops := x_ops E - d\<rparr>"

lemmas move_defs = move_inst_def move_resp_def move_chunk_def move_op_def move_pipe_def

lemma acct_set_inst:
  assumes a: "acct E b" and E': "wf_ext (move_inst p (insts b p) new E)"
    and pos: "\<And>s. new = Some s \<Longrightarrow> 0 < s_refs s"
    and tot: "uint rb = uint (retained_bytes b) + cell (\<lambda>s. uint (s_charged s)) new
                - cell (\<lambda>s. uint (s_charged s)) (insts b p)" "uint rb \<le> 67108864"
  shows "acct (move_inst p (insts b p) new E) (b\<lparr>insts := (insts b)(p := new), retained_bytes := rb\<rparr>)"
  unfolding acct_def
proof (intro conjI)
  show "acct_inst (move_inst p (insts b p) new E) (b\<lparr>insts := (insts b)(p := new), retained_bytes := rb\<rparr>)"
    using a by (simp add: acct_def acct_inst_def move_inst_def cell_set)
  show "acct_credit (move_inst p (insts b p) new E) (b\<lparr>insts := (insts b)(p := new), retained_bytes := rb\<rparr>)"
    using a by (simp add: acct_def acct_credit_def move_inst_def cell_set)
  show "acct_count (move_inst p (insts b p) new E) (b\<lparr>insts := (insts b)(p := new), retained_bytes := rb\<rparr>)"
    using a by (simp add: acct_def acct_count_def move_inst_def cell_set)
  show "wf_heaps (b\<lparr>insts := (insts b)(p := new), retained_bytes := rb\<rparr>)"
    using a pos by (cases new) (auto simp: acct_def wf_heaps_def split: if_splits)
  show "acct_total (b\<lparr>insts := (insts b)(p := new), retained_bytes := rb\<rparr>)"
    using a tot by (simp add: acct_def acct_total_def wf_heaps_def heap_sum_set)
qed (use a E' in \<open>simp_all add: acct_def acct_resp_def acct_op_def move_inst_def\<close>)

lemma acct_set_resp:
  assumes a: "acct E b" and E': "wf_ext (move_resp p (resps b p) new E)"
    and pos: "\<And>r. new = Some r \<Longrightarrow> 0 < r_refs r"
  shows "acct (move_resp p (resps b p) new E) (b\<lparr>resps := (resps b)(p := new)\<rparr>)"
  unfolding acct_def
proof (intro conjI)
  show "acct_inst (move_resp p (resps b p) new E) (b\<lparr>resps := (resps b)(p := new)\<rparr>)"
    using a by (simp add: acct_def acct_inst_def move_resp_def wf_heaps_def heap_sum_set)
  show "acct_resp (move_resp p (resps b p) new E) (b\<lparr>resps := (resps b)(p := new)\<rparr>)"
    using a by (simp add: acct_def acct_resp_def move_resp_def cell_set)
  show "acct_credit (move_resp p (resps b p) new E) (b\<lparr>resps := (resps b)(p := new)\<rparr>)"
    using a by (simp add: acct_def acct_credit_def move_resp_def wf_heaps_def heap_sum_set)
  show "acct_count (move_resp p (resps b p) new E) (b\<lparr>resps := (resps b)(p := new)\<rparr>)"
    using a by (simp add: acct_def acct_count_def move_resp_def wf_heaps_def heap_sum_set cell_set)
  show "wf_heaps (b\<lparr>resps := (resps b)(p := new)\<rparr>)"
    using a pos by (cases new) (auto simp: acct_def wf_heaps_def split: if_splits)
qed (use a E' in \<open>simp_all add: acct_def acct_total_def acct_op_def move_resp_def\<close>)

lemma acct_set_chunk:
  assumes a: "acct E b" and E': "wf_ext (move_chunk p (chunks b p) new E)"
  shows "acct (move_chunk p (chunks b p) new E) (b\<lparr>chunks := (chunks b)(p := new)\<rparr>)"
  unfolding acct_def
proof (intro conjI)
  show "acct_inst (move_chunk p (chunks b p) new E) (b\<lparr>chunks := (chunks b)(p := new)\<rparr>)"
    using a by (simp add: acct_def acct_inst_def move_chunk_def wf_heaps_def heap_sum_set)
  show "acct_resp (move_chunk p (chunks b p) new E) (b\<lparr>chunks := (chunks b)(p := new)\<rparr>)"
    using a by (simp add: acct_def acct_resp_def move_chunk_def wf_heaps_def heap_sum_set)
  show "acct_credit (move_chunk p (chunks b p) new E) (b\<lparr>chunks := (chunks b)(p := new)\<rparr>)"
    using a by (simp add: acct_def acct_credit_def move_chunk_def wf_heaps_def heap_sum_set)
  show "acct_count (move_chunk p (chunks b p) new E) (b\<lparr>chunks := (chunks b)(p := new)\<rparr>)"
    using a by (simp add: acct_def acct_count_def move_chunk_def wf_heaps_def heap_sum_set)
  show "wf_heaps (b\<lparr>chunks := (chunks b)(p := new)\<rparr>)"
    using a by (cases new) (auto simp: acct_def wf_heaps_def)
qed (use a E' in \<open>simp_all add: acct_def acct_total_def acct_op_def move_chunk_def\<close>)

lemma acct_set_op:
  assumes a: "acct E b" and E': "wf_ext (move_op p (ops b p) new E)"
    and pos: "\<And>x. new = Some x \<Longrightarrow> 0 < o_refs x"
  shows "acct (move_op p (ops b p) new E) (b\<lparr>ops := (ops b)(p := new)\<rparr>)"
  unfolding acct_def
proof (intro conjI)
  show "acct_inst (move_op p (ops b p) new E) (b\<lparr>ops := (ops b)(p := new)\<rparr>)"
    using a by (simp add: acct_def acct_inst_def move_op_def wf_heaps_def heap_sum_set)
  show "acct_resp (move_op p (ops b p) new E) (b\<lparr>ops := (ops b)(p := new)\<rparr>)"
    using a by (simp add: acct_def acct_resp_def move_op_def wf_heaps_def heap_sum_set)
  show "acct_op (move_op p (ops b p) new E) (b\<lparr>ops := (ops b)(p := new)\<rparr>)"
    using a by (simp add: acct_def acct_op_def move_op_def cell_set)
  show "acct_credit (move_op p (ops b p) new E) (b\<lparr>ops := (ops b)(p := new)\<rparr>)"
    using a by (simp add: acct_def acct_credit_def move_op_def wf_heaps_def heap_sum_set)
  show "acct_count (move_op p (ops b p) new E) (b\<lparr>ops := (ops b)(p := new)\<rparr>)"
    using a by (simp add: acct_def acct_count_def move_op_def wf_heaps_def heap_sum_set)
  show "wf_heaps (b\<lparr>ops := (ops b)(p := new)\<rparr>)"
    using a pos by (cases new) (auto simp: acct_def wf_heaps_def split: if_splits)
qed (use a E' in \<open>simp_all add: acct_def acct_total_def move_op_def\<close>)

lemma acct_move_pipe:
  assumes a: "acct E b" and x: "ops b p = Some x" and E': "wf_ext (move_pipe p x d E)"
  shows "acct (move_pipe p x d E) b"
proof -
  have fin: "finite (dom (ops b))" using acct_finite [OF a] by simp
  have 1: "heap_sum (op_notice (bump p d (x_pipe E)) q) (ops b)
      = heap_sum (op_notice (x_pipe E) q) (ops b) + (if o_instance x = q then d else 0)" for q
    using heap_sum_at [OF fin, of p "op_notice (bump p d (x_pipe E)) q" "op_notice (x_pipe E) q"] x
    by (simp add: op_notice_def)
  have 2: "heap_sum (op_piped (bump p d (x_pipe E))) (ops b) = heap_sum (op_piped (x_pipe E)) (ops b) + d"
    using heap_sum_at [OF fin, of p "op_piped (bump p d (x_pipe E))" "op_piped (x_pipe E)"] x
    by (simp add: op_piped_def)
  show ?thesis
    using a E' by (auto simp: acct_def acct_inst_def acct_resp_def acct_op_def acct_credit_def
      acct_count_def move_pipe_def 1 2)
qed

lemma acct_cong:
  assumes "acct E b" "insts b' = insts b" "ops b' = ops b" "resps b' = resps b" "chunks b' = chunks b"
    "retained_bytes b' = retained_bytes b" "active_ops b' = active_ops b + d"
  shows "acct (E\<lparr>x_ops := x_ops E + d\<rparr>) b'"
  using assms by (auto simp: acct_def acct_parts)


lemma acct_same:
  assumes "acct E b" "insts b' = insts b" "ops b' = ops b" "resps b' = resps b" "chunks b' = chunks b"
    "retained_bytes b' = retained_bytes b" "active_ops b' = active_ops b"
  shows "acct E b'"
  using assms by (auto simp: acct_def acct_parts)

lemma acct_write_inst:
  assumes "acct E b" "insts b p = old" "ext_eq (move_inst p old new E) E'" "wf_ext E'"
    "\<And>s. new = Some s \<Longrightarrow> 0 < s_refs s"
    "uint rb = uint (retained_bytes b) + cell (\<lambda>s. uint (s_charged s)) new
       - cell (\<lambda>s. uint (s_charged s)) old" "uint rb \<le> 67108864"
  shows "acct E' (b\<lparr>insts := (insts b)(p := new), retained_bytes := rb\<rparr>)"
  using acct_set_inst [of E b p new rb] assms by (auto dest: ext_eqD)

lemma acct_write_inst_only:
  assumes "acct E b" "insts b p = Some s" "ext_eq (move_inst p (Some s) (Some s') E) E'" "wf_ext E'"
    "0 < s_refs s'" "s_charged s' = s_charged s"
  shows "acct E' (b\<lparr>insts := (insts b)(p \<mapsto> s')\<rparr>)"
  using acct_write_inst [of E b p "Some s" "Some s'" E' "retained_bytes b"] assms
  by (simp add: acct_def acct_total_def)

lemma acct_write_resp:
  assumes "acct E b" "resps b p = old" "ext_eq (move_resp p old new E) E'" "wf_ext E'"
    "\<And>r. new = Some r \<Longrightarrow> 0 < r_refs r"
  shows "acct E' (b\<lparr>resps := (resps b)(p := new)\<rparr>)"
  using acct_set_resp [of E b p new] assms by (auto dest: ext_eqD)

lemma acct_write_chunk:
  assumes "acct E b" "chunks b p = old" "ext_eq (move_chunk p old new E) E'" "wf_ext E'"
  shows "acct E' (b\<lparr>chunks := (chunks b)(p := new)\<rparr>)"
  using acct_set_chunk [of E b p new] assms by (auto dest: ext_eqD)

lemma acct_write_op:
  assumes "acct E b" "ops b p = old" "ext_eq (move_op p old new E) E'" "wf_ext E'"
    "\<And>x. new = Some x \<Longrightarrow> 0 < o_refs x"
  shows "acct E' (b\<lparr>ops := (ops b)(p := new)\<rparr>)"
  using acct_set_op [of E b p new] assms by (auto dest: ext_eqD)

subsection \<open>The primitives of the code\<close>

lemma acct_wf_ext: "acct E b \<Longrightarrow> wf_ext E"
  by (simp add: acct_def)

lemma acct_credit_le_total:
  assumes "acct E b" "insts b p = Some s"
  shows "uint (s_charged s) \<le> uint (retained_bytes b)"
  using heap_sum_ge_cell [of "insts b" "\<lambda>_ s. uint (s_charged s)" p s] assms
  by (simp add: acct_def acct_total_def wf_heaps_def)

lemma acct_ext_credit_le:
  assumes "acct E b" "insts b p = Some s"
  shows "x_credit E p \<le> uint (s_charged s)"
proof -
  have "cell (\<lambda>s. uint (s_charged s)) (insts b p) = x_credit E p + heap_sum (op_credit p) (ops b)
    + heap_sum (resp_credit p) (resps b) + heap_sum (chunk_credit p) (chunks b)"
    using assms(1) by (simp add: acct_def acct_credit_def)
  then show ?thesis using assms(2) by simp
qed

text \<open>A reference is released: the object stays, one reference poorer, or goes for good.\<close>

lemma instance_drop_acct:
  assumes a: "acct E b" and x: "0 < x_inst E p" "x_credit E p = 0" "x_count E p = 0" "x_note E p = 0"
    and act: "0 < heap_sum (op_points p) (ops b) \<or> x_act E p = 0"
  shows "\<exists>b'. instance_drop p b = Some b' \<and> acct (E\<lparr>x_inst := bump p (- 1) (x_inst E)\<rparr>) b'"
proof -
  obtain s where s: "insts b p = Some s" using acct_ext_inst [OF a x(1)] by blast
  show ?thesis
  proof (cases "s_refs s = 1")
    case True
    have at: "1 = x_inst E p + heap_sum (op_points p) (ops b) + heap_sum (resp_points p) (resps b)
        + heap_sum (chunk_points p) (chunks b)"
      using acct_inst_at [OF a, of p] s True by simp
    then have z: "heap_sum (op_points p) (ops b) = 0" "heap_sum (resp_points p) (resps b) = 0"
        "heap_sum (chunk_points p) (chunks b) = 0" and x1: "x_inst E p = 1"
      using x(1) counted_nonneg(1) [of p "ops b"] counted_nonneg(2) [of p "resps b"]
        counted_nonneg(3) [of p "chunks b"] by linarith+
    have fin: "finite (dom (ops b))" "finite (dom (resps b))" "finite (dom (chunks b))"
      using acct_finite [OF a] by auto
    have no_op: "o_instance y \<noteq> p" if "ops b q = Some y" for q y
      using heap_sum_ge_cell [OF fin(1), of "op_points p" q y] z(1) that by (auto simp: op_points_def)
    have no_resp: "r_instance y \<noteq> p" if "resps b q = Some y" for q y
      using heap_sum_ge_cell [OF fin(2), of "resp_points p" q y] z(2) that by (auto simp: resp_points_def)
    have no_chunk: "c_instance y \<noteq> p" if "chunks b q = Some y" for q y
      using heap_sum_ge_cell [OF fin(3), of "chunk_points p" q y] z(3) that by (auto simp: chunk_points_def)
    have zc: "heap_sum (op_credit p) (ops b) = 0" "heap_sum (resp_credit p) (resps b) = 0"
        "heap_sum (chunk_credit p) (chunks b) = 0" "heap_sum (op_open p) (ops b) = 0"
        "heap_sum (op_notice (x_pipe E) p) (ops b) = 0"
      by (auto intro!: heap_sum_zero simp: counted_defs dest: no_op no_resp no_chunk)
    have s0: "uint (s_charged s) = 0" "s_response_count s = 0" "s_active s = 0" "s_notifications s = 0"
    proof -
      have "cell (\<lambda>s. uint (s_charged s)) (insts b p) = 0" "cell s_response_count (insts b p) = 0"
        "cell s_active (insts b p) = 0" "cell s_notifications (insts b p) = 0"
        using a x zc z act by (simp_all add: acct_def acct_credit_def acct_count_def)
      then show "uint (s_charged s) = 0" "s_response_count s = 0" "s_active s = 0" "s_notifications s = 0"
        using s by simp_all
    qed
    have E': "ext_eq (move_inst p (Some s) None E) (E\<lparr>x_inst := bump p (- 1) (x_inst E)\<rparr>)"
      using s0 True by (simp add: ext_eq_def move_inst_def)
    have "acct (E\<lparr>x_inst := bump p (- 1) (x_inst E)\<rparr>) (b\<lparr>insts := (insts b)(p := None), retained_bytes := retained_bytes b\<rparr>)"
      by (rule acct_write_inst [OF a s E'])
        (use a s s0 x x1 in \<open>auto simp: wf_ext_def acct_def acct_total_def\<close>)
    with s True show ?thesis by (simp add: instance_drop_def)
  next
    case False
    let ?s = "s\<lparr>s_refs := s_refs s - 1\<rparr>"
    have pos: "0 < s_refs s" using a s by (simp add: acct_def wf_heaps_def)
    have E': "ext_eq (move_inst p (Some s) (Some ?s) E) (E\<lparr>x_inst := bump p (- 1) (x_inst E)\<rparr>)"
      by (simp add: ext_eq_def move_inst_def)
    have "acct (E\<lparr>x_inst := bump p (- 1) (x_inst E)\<rparr>) (b\<lparr>insts := (insts b)(p \<mapsto> ?s)\<rparr>)"
      by (rule acct_write_inst_only [OF a s E'])
        (use a s x pos False in \<open>auto simp: wf_ext_def acct_def acct_total_def\<close>)
    with s False show ?thesis by (simp add: instance_drop_def)
  qed
qed

lemma charge_acct:
  assumes a: "acct E b" and c: "charge p n b = Some (True, b')"
  shows "acct (E\<lparr>x_credit := bump p (uint n) (x_credit E)\<rparr>) b'"
proof -
  obtain s where p: "insts b p = Some s" and n: "n \<le> 67108864" and r: "\<not> retained_bytes b > 67108864 - n"
    and b': "b' = b\<lparr>insts := (insts b)(p \<mapsto> s\<lparr>s_charged := s_charged s + n\<rparr>),
                       retained_bytes := retained_bytes b + n\<rparr>"
    using c by (auto simp: charge_def bind_eq_Some_conv split: if_splits)
  have tot: "uint (retained_bytes b) + uint n \<le> 67108864"
    using u64_not_less_sub_iff [OF n, of "retained_bytes b"] r by simp
  have sc: "uint (s_charged s + n) = uint (s_charged s) + uint n"
    using acct_credit_le_total [OF a p] tot by (intro uint_add_no_wrap) simp
  have rt: "uint (retained_bytes b + n) = uint (retained_bytes b) + uint n"
    using tot by (intro uint_add_no_wrap) simp
  let ?s = "s\<lparr>s_charged := s_charged s + n\<rparr>"
  have E': "ext_eq (move_inst p (Some s) (Some ?s) E) (E\<lparr>x_credit := bump p (uint n) (x_credit E)\<rparr>)"
    by (simp add: ext_eq_def move_inst_def sc)
  have "acct (E\<lparr>x_credit := bump p (uint n) (x_credit E)\<rparr>) (b\<lparr>insts := (insts b)(p := Some ?s), retained_bytes := retained_bytes b + n\<rparr>)"
    by (rule acct_write_inst [OF a p E'])
      (use a p tot in \<open>auto simp: wf_ext_def acct_def wf_heaps_def sc rt\<close>)
  then show ?thesis by (simp add: b')
qed

lemma uncharge_acct:
  assumes a: "acct E b" and x: "uint n \<le> x_credit E p" and p: "insts b p = Some s"
  shows "\<exists>b'. uncharge p n b = Some b' \<and> acct (E\<lparr>x_credit := bump p (- uint n) (x_credit E)\<rparr>) b'"
proof -
  have n: "uint n \<le> uint (s_charged s)" using acct_ext_credit_le [OF a p] x by linarith
  have sc: "uint (s_charged s - n) = uint (s_charged s) - uint n"
    using n by (intro uint_sub_no_wrap) (simp add: word_le_def)
  have rt: "uint (retained_bytes b - n) = uint (retained_bytes b) - uint n"
    using n acct_credit_le_total [OF a p] by (intro uint_sub_no_wrap) (simp add: word_le_def)
  have bd: "uint (retained_bytes b) - uint n \<le> 67108864"
    using a uint_ge_0 [of n] unfolding acct_def acct_total_def by linarith
  let ?s = "s\<lparr>s_charged := s_charged s - n\<rparr>"
  have E': "ext_eq (move_inst p (Some s) (Some ?s) E) (E\<lparr>x_credit := bump p (- uint n) (x_credit E)\<rparr>)"
    by (simp add: ext_eq_def move_inst_def sc)
  have "acct (E\<lparr>x_credit := bump p (- uint n) (x_credit E)\<rparr>) (b\<lparr>insts := (insts b)(p := Some ?s), retained_bytes := retained_bytes b - n\<rparr>)"
    by (rule acct_write_inst [OF a p E'])
      (use a p x bd in \<open>auto simp: wf_ext_def acct_def acct_total_def wf_heaps_def sc rt\<close>)
  then show ?thesis using p by (simp add: uncharge_def)
qed


subsection \<open>Frames: what each primitive leaves alone\<close>

lemma instance_drop_frame:
  "instance_drop p b = Some b' \<Longrightarrow> b' = b\<lparr>insts := insts b'\<rparr>"
  by (auto simp: instance_drop_def bind_eq_Some_conv split: if_splits)

lemma uncharge_frame:
  "uncharge p n b = Some b' \<Longrightarrow> b' = b\<lparr>insts := insts b', retained_bytes := retained_bytes b'\<rparr>"
  by (auto simp: uncharge_def bind_eq_Some_conv)

lemma uncharge_nonzero_frame:
  "uncharge_nonzero p n b = Some b' \<Longrightarrow> b' = b\<lparr>insts := insts b', retained_bytes := retained_bytes b'\<rparr>"
  by (auto simp: uncharge_nonzero_def dest: uncharge_frame split: if_splits)

lemma charge_frame:
  "charge p n b = Some (ok, b') \<Longrightarrow> b' = b\<lparr>insts := insts b', retained_bytes := retained_bytes b'\<rparr>"
  by (auto simp: charge_def bind_eq_Some_conv split: if_splits)

lemma charge_False: "charge p n b = Some (False, b') \<Longrightarrow> b' = b"
  by (auto simp: charge_def bind_eq_Some_conv split: if_splits)

lemma charge_total: "insts b p = Some s \<Longrightarrow> \<exists>ok b'. charge p n b = Some (ok, b')"
  by (auto simp: charge_def)

lemma upd_inst_frame: "upd_inst p f b = Some b' \<Longrightarrow> b' = b\<lparr>insts := insts b'\<rparr>"
  by (auto simp: upd_inst_def)

text \<open>The instance side of the code commutes with writes to the other heaps.\<close>

lemma uncharge_resps: "uncharge p n (b\<lparr>resps := h\<rparr>) = map_option (\<lambda>b. b\<lparr>resps := h\<rparr>) (uncharge p n b)"
  by (cases "insts b p") (simp_all add: uncharge_def)
lemma upd_inst_resps: "upd_inst p f (b\<lparr>resps := h\<rparr>) = map_option (\<lambda>b. b\<lparr>resps := h\<rparr>) (upd_inst p f b)"
  by (cases "insts b p") (simp_all add: upd_inst_def)
lemma instance_drop_resps: "instance_drop p (b\<lparr>resps := h\<rparr>) = map_option (\<lambda>b. b\<lparr>resps := h\<rparr>) (instance_drop p b)"
  by (cases "insts b p") (simp_all add: instance_drop_def)
lemma uncharge_ops: "uncharge p n (b\<lparr>ops := h\<rparr>) = map_option (\<lambda>b. b\<lparr>ops := h\<rparr>) (uncharge p n b)"
  by (cases "insts b p") (simp_all add: uncharge_def)
lemma uncharge_nonzero_ops:
  "uncharge_nonzero p n (b\<lparr>ops := h\<rparr>) = map_option (\<lambda>b. b\<lparr>ops := h\<rparr>) (uncharge_nonzero p n b)"
  by (simp add: uncharge_nonzero_def uncharge_ops)
lemma upd_inst_ops: "upd_inst p f (b\<lparr>ops := h\<rparr>) = map_option (\<lambda>b. b\<lparr>ops := h\<rparr>) (upd_inst p f b)"
  by (cases "insts b p") (simp_all add: upd_inst_def)
lemma instance_drop_ops: "instance_drop p (b\<lparr>ops := h\<rparr>) = map_option (\<lambda>b. b\<lparr>ops := h\<rparr>) (instance_drop p b)"
  by (cases "insts b p") (simp_all add: instance_drop_def)


lemma release_response_resps:
  "release_response r (b\<lparr>resps := h\<rparr>) = map_option (\<lambda>b. b\<lparr>resps := h\<rparr>) (release_response r b)"
  by (cases "insts b (r_instance r)") (auto simp: release_response_def uncharge_def upd_inst_def instance_drop_def)

lemma release_response_ops:
  "release_response r (b\<lparr>ops := h\<rparr>) = map_option (\<lambda>b. b\<lparr>ops := h\<rparr>) (release_response r b)"
  by (cases "insts b (r_instance r)") (auto simp: release_response_def uncharge_def upd_inst_def instance_drop_def)

lemma release_response_frame:
  assumes "release_response r b = Some b'"
  shows "b' = b\<lparr>insts := insts b', retained_bytes := retained_bytes b'\<rparr>"
  using assms by (auto simp: release_response_def bind_eq_Some_conv uncharge_def upd_inst_def instance_drop_def split: if_splits)

lemma response_drop_frame:
  assumes "response_drop q b = Some b'"
  shows "b' = b\<lparr>insts := insts b', resps := resps b', retained_bytes := retained_bytes b'\<rparr>"
proof (cases q)
  case None
  with assms show ?thesis by (simp add: response_drop_def)
next
  case (Some p)
  with assms obtain r where r: "resps b p = Some r" by (auto simp: response_drop_def bind_eq_Some_conv)
  show ?thesis
  proof (cases "r_refs r - 1 = 0")
    case True
    with assms Some r obtain b1 where b1: "release_response r b = Some b1" "b' = b1\<lparr>resps := (resps b1)(p := None)\<rparr>"
      by (auto simp: response_drop_def bind_eq_Some_conv)
    show ?thesis unfolding b1(2) by (subst release_response_frame [OF b1(1)]) simp
  next
    case False
    with assms Some r show ?thesis by (auto simp: response_drop_def bind_eq_Some_conv)
  qed
qed

lemma response_drop_ops: "response_drop q (b\<lparr>ops := h\<rparr>) = map_option (\<lambda>b. b\<lparr>ops := h\<rparr>) (response_drop q b)"
proof (cases q)
  case (Some p)
  then show ?thesis
    by (cases "resps b p"; cases "release_response (the (resps b p)) b")
      (auto simp: response_drop_def release_response_ops)
qed (simp add: response_drop_def)

lemma release_op_ops:
  "release_op x (b\<lparr>ops := h\<rparr>) = map_option (\<lambda>b. b\<lparr>ops := h\<rparr>) (release_op x b)"
proof -
  have [simp]: "(map_option (\<lambda>b. b\<lparr>ops := h\<rparr>) m) \<bind> f = m \<bind> (\<lambda>b. f (b\<lparr>ops := h\<rparr>))" for m f
    by (cases m) auto
  show ?thesis
    by (simp add: release_op_def uncharge_nonzero_ops response_drop_ops instance_drop_ops map_option_bind comp_def)
qed

lemma release_op_frame:
  assumes "release_op x b = Some b'"
  shows "b' = b\<lparr>insts := insts b', resps := resps b', retained_bytes := retained_bytes b'\<rparr>"
proof -
  obtain b1 b2 b3 where
    1: "uncharge_nonzero (o_instance x) (o_input_charge x) b = Some b1" and
    2: "uncharge_nonzero (o_instance x) (o_allocation_charge x) b1 = Some b2" and
    3: "response_drop (o_response x) b2 = Some b3" and 4: "instance_drop (o_instance x) b3 = Some b'"
    using assms by (auto simp: release_op_def bind_eq_Some_conv)
  note uncharge_nonzero_frame [OF 1] uncharge_nonzero_frame [OF 2] response_drop_frame [OF 3]
    instance_drop_frame [OF 4]
  then show ?thesis by (cases b; cases b1; cases b2; cases b3; cases b') auto
qed

subsection \<open>Dropping responses and operations\<close>

text \<open>Credits and counters in flight are zero except at the instances listed.\<close>

definition settled :: "ext \<Rightarrow> bool" where
  "settled E \<longleftrightarrow> (\<forall>p. x_credit E p = 0 \<and> x_count E p = 0 \<and> x_act E p = 0 \<and> x_note E p = 0 \<and> x_rch E p = 0) \<and>
     x_ops E = 0"

lemma uncharge_nonzero_acct:
  assumes a: "acct E b" and x: "uint n \<le> x_credit E p" and p: "insts b p = Some s"
  shows "\<exists>b'. uncharge_nonzero p n b = Some b' \<and> acct (E\<lparr>x_credit := bump p (- uint n) (x_credit E)\<rparr>) b' \<and>
    (\<exists>s'. insts b' p = Some s')"
proof (cases "n = 0")
  case True
  then show ?thesis using a p by (simp add: uncharge_nonzero_def bump_def)
next
  case False
  then show ?thesis using uncharge_acct [OF a x p] p
    by (auto simp: uncharge_nonzero_def uncharge_def)
qed

lemma release_response_acct:
  assumes a: "acct E b" and i: "0 < x_inst E p" and c: "x_credit E p = uint (r_metadata_charge r)"
    and k: "x_count E p = 1" and o: "x_note E p = 0" "0 < heap_sum (op_points p) (ops b) \<or> x_act E p = 0"
    and p: "p = r_instance r"
  shows "\<exists>b'. release_response r b = Some b' \<and>
    acct (E\<lparr>x_inst := bump p (- 1) (x_inst E), x_credit := bump p (- uint (r_metadata_charge r)) (x_credit E),
            x_count := bump p (- 1) (x_count E)\<rparr>) b'"
proof -
  obtain s where s: "insts b p = Some s" using acct_ext_inst [OF a i] by blast
  let ?n = "r_metadata_charge r"
  let ?E1 = "E\<lparr>x_credit := bump p (- uint ?n) (x_credit E)\<rparr>"
  obtain b1 where b1: "uncharge p ?n b = Some b1" "acct ?E1 b1"
    using uncharge_acct [OF a _ s, of ?n] c by auto
  obtain s1 where s1: "insts b1 p = Some s1" using acct_ext_inst [OF b1(2)] i by auto
  let ?s2 = "s1\<lparr>s_response_count := s_response_count s1 - 1\<rparr>"
  let ?E2 = "?E1\<lparr>x_count := bump p (- 1) (x_count E)\<rparr>"
  have b2: "acct ?E2 (b1\<lparr>insts := (insts b1)(p \<mapsto> ?s2)\<rparr>)"
  proof (rule acct_write_inst_only [OF b1(2) s1])
    show "ext_eq (move_inst p (Some s1) (Some ?s2) ?E1) ?E2" by (simp add: ext_eq_def move_inst_def)
    show "wf_ext ?E2" using acct_wf_ext [OF b1(2)] by (simp add: wf_ext_def)
    show "0 < s_refs ?s2" using b1(2) s1 by (simp add: acct_def wf_heaps_def)
  qed simp
  obtain b3 where b3: "instance_drop p (b1\<lparr>insts := (insts b1)(p \<mapsto> ?s2)\<rparr>) = Some b3"
    "acct (?E2\<lparr>x_inst := bump p (- 1) (x_inst ?E2)\<rparr>) b3"
    using instance_drop_acct [OF b2, of p] i c k o uncharge_frame [OF b1(1)] by (auto dest!: arg_cong [where f = ops])
  have "release_response r b = Some b3"
    using b1(1) s1 b3(1) p by (simp add: release_response_def upd_inst_def)
  moreover have "acct (E\<lparr>x_inst := bump p (- 1) (x_inst E), x_credit := bump p (- uint ?n) (x_credit E),
            x_count := bump p (- 1) (x_count E)\<rparr>) b3"
    by (rule acct_eqI [OF b3(2)]) (simp add: ext_eq_def)
  ultimately show ?thesis by blast
qed

text \<open>\<open>response_drop\<close> gives up one external reference to the response.\<close>

lemma response_drop_acct:
  assumes a: "acct E b" and q: "\<And>p. rp = Some p \<Longrightarrow> 0 < x_resp E p"
    and z: "\<And>p. x_count E p = 0" "\<And>p. 0 < heap_sum (op_points p) (ops b) \<or> x_act E p = 0"
      "\<And>p. x_note E p = 0" "\<And>p. x_rch E p = 0"
    and zc: "\<And>p r. rp = Some p \<Longrightarrow> resps b p = Some r \<Longrightarrow> x_credit E (r_instance r) = 0"
  shows "\<exists>b'. response_drop rp b = Some b' \<and> acct (E\<lparr>x_resp := bumpo rp (- 1) (x_resp E)\<rparr>) b'"
proof (cases rp)
  case None
  then show ?thesis using a by (simp add: response_drop_def bumpo_def)
next
  case (Some p)
  then obtain r where r: "resps b p = Some r" using acct_ext_resp [OF a q] by blast
  have pos: "0 < r_refs r" using a r by (simp add: acct_def wf_heaps_def)
  show ?thesis
  proof (cases "r_refs r = 1")
    case False
    let ?r = "r\<lparr>r_refs := r_refs r - 1\<rparr>"
    have "acct (E\<lparr>x_resp := bump p (- 1) (x_resp E)\<rparr>) (b\<lparr>resps := (resps b)(p := Some ?r)\<rparr>)"
    proof (rule acct_write_resp [OF a r])
      show "ext_eq (move_resp p (Some r) (Some ?r) E) (E\<lparr>x_resp := bump p (- 1) (x_resp E)\<rparr>)"
        by (simp add: ext_eq_def move_resp_def counted_defs)
      show "wf_ext (E\<lparr>x_resp := bump p (- 1) (x_resp E)\<rparr>)"
        using acct_wf_ext [OF a] q [OF Some] by (auto simp: wf_ext_def)
    qed (use pos False in auto)
    with False r Some show ?thesis by (simp add: response_drop_def bumpo_def)
  next
    case True
    let ?i = "r_instance r"
    let ?b = "b\<lparr>resps := (resps b)(p := None)\<rparr>"
    have sum: "1 = x_resp E p + heap_sum (op_uses p) (ops b) + heap_sum (chunk_uses p) (chunks b)"
      using acct_resp_at [OF a, of p] r True by simp
    then have u: "heap_sum (chunk_uses p) (chunks b) = 0" "x_resp E p = 1"
      using q [OF Some] counted_nonneg(4) [of p "ops b"] counted_nonneg(5) [of p "chunks b"] by linarith+
    have ch: "r_chunks r = 0"
    proof -
      have "cell r_chunks (resps b p) = x_rch E p + heap_sum (chunk_uses p) (chunks b)"
        using a by (simp add: acct_def acct_count_def)
      then show ?thesis using r u z by simp
    qed
    let ?E1 = "E\<lparr>x_resp := bump p (- 1) (x_resp E), x_inst := bump ?i 1 (x_inst E),
      x_credit := bump ?i (uint (r_metadata_charge r)) (x_credit E), x_count := bump ?i 1 (x_count E)\<rparr>"
    have a1: "acct ?E1 ?b"
    proof (rule acct_write_resp [OF a r])
      show "ext_eq (move_resp p (Some r) None E) ?E1"
        using ch True by (simp add: ext_eq_def move_resp_def counted_defs)
      show "wf_ext ?E1" using acct_wf_ext [OF a] u(2) by (auto simp: wf_ext_def)
    qed simp
    obtain b' where b': "release_response r ?b = Some b'"
      "acct (?E1\<lparr>x_inst := bump ?i (- 1) (x_inst ?E1), x_credit := bump ?i (- uint (r_metadata_charge r)) (x_credit ?E1),
            x_count := bump ?i (- 1) (x_count ?E1)\<rparr>) b'"
      using release_response_acct [OF a1, of ?i r] zc [OF Some r] z acct_wf_ext [OF a]
      by (auto simp: wf_ext_def add_nonneg_pos)
    have "response_drop rp b = Some b'"
    proof -
      obtain b0 where b0: "release_response r b = Some b0" "b' = b0\<lparr>resps := (resps b)(p := None)\<rparr>"
        using b'(1) by (auto simp: release_response_resps)
      moreover have "resps b0 = resps b"
        using arg_cong [OF release_response_frame [OF b0(1)], of resps] by simp
      ultimately show ?thesis using Some r True by (simp add: response_drop_def)
    qed
    moreover have "acct (E\<lparr>x_resp := bumpo rp (- 1) (x_resp E)\<rparr>) b'"
      by (rule acct_eqI [OF b'(2)]) (simp add: ext_eq_def Some)
    ultimately show ?thesis by blast
  qed
qed

lemma release_op_acct:
  assumes a: "acct E b" and i: "0 < x_inst E (o_instance x)"
    and r: "\<And>p. o_response x = Some p \<Longrightarrow> 0 < x_resp E p"
    and c: "\<And>p. x_credit E p = (if p = o_instance x then uint (o_input_charge x) + uint (o_allocation_charge x) else 0)"
    and z: "\<And>q. x_count E q = 0" "\<And>q. x_act E q = 0" "\<And>q. x_note E q = 0" "\<And>q. x_rch E q = 0"
  shows "\<exists>b'. release_op x b = Some b' \<and> acct (E\<lparr>x_inst := bump (o_instance x) (- 1) (x_inst E),
      x_resp := bumpo (o_response x) (- 1) (x_resp E), x_credit := \<lambda>_. 0\<rparr>) b'"
proof -
  let ?i = "o_instance x"
  obtain s where s: "insts b ?i = Some s" using acct_ext_inst [OF a i] by blast
  let ?E1 = "E\<lparr>x_credit := bump ?i (- uint (o_input_charge x)) (x_credit E)\<rparr>"
  obtain b1 s1 where b1: "uncharge_nonzero ?i (o_input_charge x) b = Some b1" "acct ?E1 b1" "insts b1 ?i = Some s1"
    using uncharge_nonzero_acct [OF a _ s, of "o_input_charge x"] c by auto
  obtain b2 where b2: "uncharge_nonzero ?i (o_allocation_charge x) b1 = Some b2"
    "acct (?E1\<lparr>x_credit := bump ?i (- uint (o_allocation_charge x)) (x_credit ?E1)\<rparr>) b2"
    using uncharge_nonzero_acct [OF b1(2) _ b1(3), of "o_allocation_charge x"] c by auto
  have a2: "acct (E\<lparr>x_credit := \<lambda>_. 0\<rparr>) b2" by (rule acct_eqI [OF b2(2)]) (simp add: ext_eq_def c)
  let ?E3 = "E\<lparr>x_credit := \<lambda>_. 0, x_resp := bumpo (o_response x) (- 1) (x_resp E)\<rparr>"
  obtain b3 where b3: "response_drop (o_response x) b2 = Some b3" "acct ?E3 b3"
    using response_drop_acct [OF a2, of "o_response x"] z r by auto
  obtain b4 where b4: "instance_drop ?i b3 = Some b4" "acct (?E3\<lparr>x_inst := bump ?i (- 1) (x_inst ?E3)\<rparr>) b4"
    using instance_drop_acct [OF b3(2), of ?i] z i by auto
  have "release_op x b = Some b4" using b1(1) b2(1) b3(1) b4(1) by (simp add: release_op_def)
  moreover have "acct (E\<lparr>x_inst := bump ?i (- 1) (x_inst E), x_resp := bumpo (o_response x) (- 1) (x_resp E),
      x_credit := \<lambda>_. 0\<rparr>) b4"
    by (rule acct_eqI [OF b4(2)]) (simp add: ext_eq_def)
  ultimately show ?thesis by blast
qed

text \<open>\<open>op_drop\<close> gives up one handle on the operation.\<close>

lemma op_drop_acct:
  assumes a: "acct E b" and x: "ops b p = Some x" "0 < x_op E p"
    and z: "\<And>q. x_credit E q = 0" "\<And>q. x_count E q = 0" "\<And>q. x_note E q = 0" "\<And>q. x_rch E q = 0"
    and act: "\<And>q. x_act E q = (if q = o_instance x \<and> \<not> o_done x \<and> o_refs x = 1 then - 1 else 0)"
  shows "\<exists>b'. op_drop p b = Some b' \<and>
     acct (E\<lparr>x_op := bump p (- 1) (x_op E), x_act := \<lambda>_. 0\<rparr>) b'"
proof (cases "o_refs x = 1")
  case False
  have pos: "0 < o_refs x" using a x by (simp add: acct_def wf_heaps_def)
  let ?x = "x\<lparr>o_refs := o_refs x - 1\<rparr>"
  have "acct (E\<lparr>x_op := bump p (- 1) (x_op E), x_act := \<lambda>_. 0\<rparr>) (b\<lparr>ops := (ops b)(p := Some ?x)\<rparr>)"
  proof (rule acct_write_op [OF a x(1)])
    show "ext_eq (move_op p (Some x) (Some ?x) E) (E\<lparr>x_op := bump p (- 1) (x_op E), x_act := \<lambda>_. 0\<rparr>)"
      using act False by (simp add: ext_eq_def move_op_def counted_defs)
    show "wf_ext (E\<lparr>x_op := bump p (- 1) (x_op E), x_act := \<lambda>_. 0\<rparr>)"
      using acct_wf_ext [OF a] x(2) by (auto simp: wf_ext_def)
  qed (use pos False in auto)
  with x False show ?thesis by (simp add: op_drop_def)
next
  case True
  have nn: "0 \<le> x_inst E q" "0 \<le> x_resp E q" "0 \<le> x_pipe E q" for q
    using acct_wf_ext [OF a] by (simp_all add: wf_ext_def)
  have "cell o_refs (ops b p) = x_pipe E p + x_op E p" using a by (simp add: acct_def acct_op_def)
  then have one: "x_op E p = 1" "x_pipe E p = 0" using x True nn(3) [of p] by simp_all
  let ?c = "uint (o_input_charge x) + uint (o_allocation_charge x)"
  let ?E1 = "E\<lparr>x_op := bump p (- 1) (x_op E), x_act := \<lambda>_. 0, x_inst := bump (o_instance x) 1 (x_inst E),
     x_resp := bumpo (o_response x) 1 (x_resp E), x_credit := bump (o_instance x) ?c (x_credit E)\<rparr>"
  let ?b = "b\<lparr>ops := (ops b)(p := None)\<rparr>"
  have a1: "acct ?E1 ?b"
  proof (rule acct_write_op [OF a x(1)])
    show "ext_eq (move_op p (Some x) None E) ?E1"
      using act True one by (auto simp: ext_eq_def move_op_def counted_defs)
    show "wf_ext ?E1" using acct_wf_ext [OF a] one by (auto simp: wf_ext_def)
  qed simp
  obtain b4 where b4: "release_op x ?b = Some b4"
    "acct (?E1\<lparr>x_inst := bump (o_instance x) (- 1) (x_inst ?E1),
      x_resp := bumpo (o_response x) (- 1) (x_resp ?E1), x_credit := \<lambda>_. 0\<rparr>) b4"
    using release_op_acct [OF a1, of x] z nn by (auto simp: add_nonneg_pos)
  obtain b0 where b0: "release_op x b = Some b0" "b4 = b0\<lparr>ops := (ops b)(p := None)\<rparr>"
    using b4(1) by (auto simp: release_op_ops)
  have "ops b0 = ops b" using arg_cong [OF release_op_frame [OF b0(1)], of ops] by simp
  then have "op_drop p b = Some b4" using b0 x(1) True by (simp add: op_drop_def)
  moreover have "acct (E\<lparr>x_op := bump p (- 1) (x_op E), x_act := \<lambda>_. 0\<rparr>) b4"
    by (rule acct_eqI [OF b4(2)]) (simp add: ext_eq_def z)
  ultimately show ?thesis by blast
qed

lemma op_drop_frame:
  assumes "op_drop p b = Some b'"
  shows "b' = b\<lparr>insts := insts b', ops := ops b', resps := resps b', retained_bytes := retained_bytes b'\<rparr>"
proof -
  obtain x where x: "ops b p = Some x" using assms by (auto simp: op_drop_def bind_eq_Some_conv)
  show ?thesis
  proof (cases "o_refs x - 1 \<noteq> 0")
    case True
    with assms x show ?thesis by (auto simp: op_drop_def)
  next
    case False
    with assms x obtain b1 where b1: "release_op x b = Some b1" "b' = b1\<lparr>ops := (ops b1)(p := None)\<rparr>"
      by (auto simp: op_drop_def bind_eq_Some_conv)
    show ?thesis unfolding b1(2) by (subst release_op_frame [OF b1(1)]) simp
  qed
qed

subsection \<open>Creating and abandoning an operation\<close>

definition fresh_op :: "int \<Rightarrow> int \<Rightarrow> ptr \<Rightarrow> nat option \<Rightarrow> nat \<Rightarrow> hs_operation" where
  "fresh_op n kind sp cb ud =
     \<lparr>o_refs = 2, o_id = n, o_kind = kind, o_cancelled = False, o_done = False,
      o_internal = False, o_instance = sp, o_response = None, o_callback = cb,
      o_user_data = ud, o_input = [], o_max_bytes = 0, o_method = [], o_target = [],
      o_headers = [], o_input_charge = 0,
      o_allocation_charge = (if kind \<le> 4 then sizeof_operation else 0), o_event = no_event\<rparr>"

lemma acct_free_op_ext:
  assumes "acct E b" "ops b p = None"
  shows "x_pipe E p = 0" "x_op E p = 0"
proof -
  have "cell o_refs (ops b p) = x_pipe E p + x_op E p" "0 \<le> x_pipe E p" "0 \<le> x_op E p"
    using assms(1) by (auto simp: acct_def acct_op_def wf_ext_def)
  then show "x_pipe E p = 0" "x_op E p = 0" using assms(2) by simp_all
qed

text \<open>
  A successful \<open>new_op\<close>: the operation is in the heap with one reference for the pipeline and one
  for the caller, and nothing but the instance's counters, the credits and the id supply moved.
\<close>

lemma new_op_cases:
  assumes "insts b sp = Some s"
  obtains (fail) "new_op kind sp cb ud mem b = Some (None, b)"
  | (ok) p b1 where "mem = Some p" "next_id b \<noteq> INT_MAX"
      "if kind \<le> 4 then charge sp sizeof_operation b = Some (True, b1) else b1 = b"
      "\<exists>s1. insts b1 sp = Some s1 \<and> new_op kind sp cb ud mem b = Some (Some p,
         b1\<lparr>insts := (insts b1)(sp \<mapsto> s1\<lparr>s_refs := s_refs s1 + 1, s_active := s_active s1 + 1,
                                     s_notifications := s_notifications s1 + 1\<rparr>),
           ops := (ops b)(p \<mapsto> fresh_op (next_id b) kind sp cb ud),
           next_id := next_id b + 1, active_ops := active_ops b + 1\<rparr>)"
proof (cases "next_id b = INT_MAX \<or> mem = None")
  case True
  then have "new_op kind sp cb ud mem b = Some (None, b)" by (auto simp: new_op_def)
  then show ?thesis by (rule fail)
next
  case False
  then obtain p where p: "mem = Some p" and n: "next_id b \<noteq> INT_MAX" by auto
  show ?thesis
  proof (cases "kind \<le> 4")
    case False
    show ?thesis
      by (rule ok [OF p n, of b]) (use False p n assms in \<open>auto simp: new_op_def upd_inst_def fresh_op_def\<close>)
  next
    case True
    obtain c b1 where c: "charge sp sizeof_operation b = Some (c, b1)" using charge_total [OF assms] by blast
    show ?thesis
    proof (cases c)
      case False
      then have "new_op kind sp cb ud mem b = Some (None, b)"
        using c charge_False [of sp sizeof_operation b b1] p n True by (auto simp: new_op_def)
      then show ?thesis by (rule fail)
    next
      case c1: True
      then have fr: "ops b1 = ops b" "next_id b1 = next_id b" "active_ops b1 = active_ops b"
        and "\<exists>s1. insts b1 sp = Some s1"
        using c by (auto simp: charge_def bind_eq_Some_conv split: if_splits)
      then show ?thesis
        by (intro ok [OF p n, of b1]) (use True c c1 fr p n in \<open>auto simp: new_op_def upd_inst_def fresh_op_def\<close>)
    qed
  qed
qed

lemma new_op_acct:
  assumes a: "acct E b" and s: "insts b sp = Some s" and f: "ops b p = None"
    and c: "if kind \<le> 4 then charge sp sizeof_operation b = Some (True, b1) else b1 = b"
    and s1: "insts b1 sp = Some s1"
  shows "acct (E\<lparr>x_pipe := bump p 1 (x_pipe E), x_op := bump p 1 (x_op E)\<rparr>)
    (b1\<lparr>insts := (insts b1)(sp \<mapsto> s1\<lparr>s_refs := s_refs s1 + 1, s_active := s_active s1 + 1,
           s_notifications := s_notifications s1 + 1\<rparr>),
        ops := (ops b)(p \<mapsto> fresh_op n kind sp cb ud),
        next_id := n', active_ops := active_ops b + 1\<rparr>)"
proof -
  let ?c = "if kind \<le> 4 then uint sizeof_operation else 0"
  let ?x = "fresh_op n kind sp cb ud"
  let ?s2 = "s1\<lparr>s_refs := s_refs s1 + 1, s_active := s_active s1 + 1, s_notifications := s_notifications s1 + 1\<rparr>"
  have b1: "ops b1 = ops b" "active_ops b1 = active_ops b"
    using c by (auto simp: charge_def bind_eq_Some_conv split: if_splits)
  have z: "x_pipe E p = 0" "x_op E p = 0" using acct_free_op_ext [OF a f] by simp_all
  let ?E1 = "E\<lparr>x_credit := bump sp ?c (x_credit E)\<rparr>"
  have a1: "acct ?E1 b1"
    using c charge_acct [OF a, of sp sizeof_operation b1] a by (cases "kind \<le> 4") (auto simp: bump_def)
  let ?E2 = "?E1\<lparr>x_inst := bump sp 1 (x_inst E), x_act := bump sp 1 (x_act E), x_note := bump sp 1 (x_note E)\<rparr>"
  have a2: "acct ?E2 (b1\<lparr>insts := (insts b1)(sp \<mapsto> ?s2)\<rparr>)"
  proof (rule acct_write_inst_only [OF a1 s1])
    show "ext_eq (move_inst sp (Some s1) (Some ?s2) ?E1) ?E2" by (simp add: ext_eq_def move_inst_def)
    show "wf_ext ?E2" using acct_wf_ext [OF a1] by (auto simp: wf_ext_def)
    show "0 < s_refs ?s2" using acct_inst_pos [OF a1 s1] by simp
  qed simp
  let ?b3 = "b1\<lparr>insts := (insts b1)(sp \<mapsto> ?s2), next_id := n', active_ops := active_ops b + 1\<rparr>"
  have a3: "acct (?E2\<lparr>x_ops := x_ops ?E2 + 1\<rparr>) ?b3"
    by (rule acct_cong [OF a2]) (simp_all add: b1)
  let ?E4 = "E\<lparr>x_op := bump p 2 (x_op E), x_note := bump sp 1 (x_note E), x_ops := x_ops E + 1\<rparr>"
  have a4: "acct ?E4 (?b3\<lparr>ops := (ops ?b3)(p := Some ?x)\<rparr>)"
  proof (rule acct_write_op [OF a3])
    show "ops ?b3 p = None" using f b1 by simp
    show "ext_eq (move_op p None (Some ?x) (?E2\<lparr>x_ops := x_ops ?E2 + 1\<rparr>)) ?E4"
      using z by (auto simp: ext_eq_def move_op_def counted_defs fresh_op_def)
    show "wf_ext ?E4" using acct_wf_ext [OF a] by (auto simp: wf_ext_def)
  qed (auto simp: fresh_op_def)
  have a5: "acct (move_pipe p ?x 1 ?E4) (?b3\<lparr>ops := (ops ?b3)(p := Some ?x)\<rparr>)"
  proof (rule acct_move_pipe [OF a4])
    show "wf_ext (move_pipe p ?x 1 ?E4)" using acct_wf_ext [OF a] by (auto simp: wf_ext_def move_pipe_def)
  qed simp
  have a6: "acct (E\<lparr>x_pipe := bump p 1 (x_pipe E), x_op := bump p 1 (x_op E)\<rparr>) (?b3\<lparr>ops := (ops ?b3)(p := Some ?x)\<rparr>)"
    by (rule acct_eqI [OF a5]) (simp add: ext_eq_def move_pipe_def fresh_op_def)
  show ?thesis by (rule acct_same [OF a6]) (simp_all add: b1)
qed

lemma abandon_acct:
  assumes a: "acct E b" and x: "ops b p = Some x" "\<not> o_done x" and e: "x_pipe E p = 1" "x_op E p = 1"
    and z: "settled E"
  shows "\<exists>b'. abandon p b = Some b' \<and>
    acct (E\<lparr>x_pipe := bump p (- 1) (x_pipe E), x_op := bump p (- 1) (x_op E)\<rparr>) b'"
proof -
  let ?i = "o_instance x"
  obtain s where s: "insts b ?i = Some s" using acct_op_inst [OF a x(1)] by blast
  let ?s = "s\<lparr>s_active := s_active s - 1, s_notifications := s_notifications s - 1\<rparr>"
  let ?E1 = "E\<lparr>x_act := bump ?i (- 1) (x_act E), x_note := bump ?i (- 1) (x_note E)\<rparr>"
  have a1: "acct ?E1 (b\<lparr>insts := (insts b)(?i \<mapsto> ?s)\<rparr>)"
  proof (rule acct_write_inst_only [OF a s])
    show "ext_eq (move_inst ?i (Some s) (Some ?s) E) ?E1" by (simp add: ext_eq_def move_inst_def)
    show "wf_ext ?E1" using acct_wf_ext [OF a] by (simp add: wf_ext_def)
    show "0 < s_refs ?s" using a s by (simp add: acct_def wf_heaps_def)
  qed simp
  let ?b2 = "b\<lparr>insts := (insts b)(?i \<mapsto> ?s), active_ops := active_ops b - 1\<rparr>"
  have a2: "acct (?E1\<lparr>x_ops := x_ops ?E1 + (- 1)\<rparr>) ?b2" by (rule acct_cong [OF a1]) simp_all
  let ?E3 = "E\<lparr>x_act := bump ?i (- 1) (x_act E), x_pipe := bump p (- 1) (x_pipe E), x_op := bump p 1 (x_op E)\<rparr>"
  have a3: "acct ?E3 ?b2"
    by (rule acct_eqI [OF acct_move_pipe [OF a2, of p x "- 1"]])
      (use x(1) e acct_wf_ext [OF a] in \<open>auto simp: ext_eq_def move_pipe_def wf_ext_def\<close>)
  let ?E4 = "?E3\<lparr>x_op := x_op E\<rparr>"
  let ?b4 = "?b2\<lparr>ops := (ops b)(p \<mapsto> x\<lparr>o_refs := 1\<rparr>)\<rparr>"
  have refs: "o_refs x = 2"
  proof -
    have "cell o_refs (ops b p) = x_pipe E p + x_op E p" using a by (simp add: acct_def acct_op_def)
    then show ?thesis using x e by simp
  qed
  have a4: "acct ?E4 (?b2\<lparr>ops := (ops ?b2)(p := Some (x\<lparr>o_refs := 1\<rparr>))\<rparr>)"
  proof (rule acct_write_op [OF a3])
    show "ext_eq (move_op p (Some x) (Some (x\<lparr>o_refs := 1\<rparr>)) ?E3) ?E4"
      using refs by (simp add: ext_eq_def move_op_def counted_defs)
    show "wf_ext ?E4" using acct_wf_ext [OF a] e by (simp add: wf_ext_def)
  qed (use x in auto)
  obtain b' where "op_drop p ?b4 = Some b'" "acct (?E4\<lparr>x_op := bump p (- 1) (x_op ?E4), x_act := \<lambda>_. 0\<rparr>) b'"
    using op_drop_acct [OF a4, of p "x\<lparr>o_refs := 1\<rparr>"] e z x(2) by (auto simp: settled_def)
  moreover from this(2) have "acct (E\<lparr>x_pipe := bump p (- 1) (x_pipe E), x_op := bump p (- 1) (x_op E)\<rparr>) b'"
    by (rule acct_eqI) (use z in \<open>simp add: ext_eq_def settled_def\<close>)
  ultimately show ?thesis using x(1) s by (auto simp: abandon_def upd_inst_def upd_op_def)
qed
end
