(* ===== verification/Bridge_Inv.thy ===== *)
theory Bridge_Inv
  imports Bridge_Acct
begin

text \<open>
  The invariant of the C ABI runtime over all interleavings of the host's calls, the owner thread
  and the notifier thread. The ghost \<open>world\<close> holds what the C state does not: the handles the host
  owns, the operations the owner has taken off the command queue and not completed (\<open>held\<close>), and
  the operation whose callback is running (\<open>calling\<close>). \<open>bridge_inv W b\<close> ties them to the state.

  A result handle of an event (an engine, a server, a response, a chunk) counts as the host's from
  the moment the event is fixed: every behaviour of a host that waits for its callback is covered.
\<close>

record world =
  h_inst :: "ptr \<Rightarrow> int"
  h_resp :: "ptr \<Rightarrow> int"
  h_op :: "ptr \<Rightarrow> int"
  h_chunk :: "ptr set"
  held :: "ptr list"
  calling :: "ptr list"
  making :: "ptr list"
  raising :: "ptr set"
  waiting :: "ptr list"

text \<open>
  \<open>making\<close> is the operation and \<open>raising\<close> the instance that a host call is building inside its
  critical section, if any: they are not yet in a queue or in the live list. Between calls both
  are empty. \<open>waiting\<close> lists the completed operations whose notification is still queued, oldest first.
\<close>

definition empty_world :: world where
  "empty_world = \<lparr>h_inst = \<lambda>_. 0, h_resp = \<lambda>_. 0, h_op = \<lambda>_. 0, h_chunk = {}, held = [], calling = [],
     making = [], raising = {}, waiting = []\<rparr>"

text \<open>References that unfinished operations hold in \<open>event.response\<close>.\<close>

definition due :: "ptr list \<Rightarrow> (ptr \<rightharpoonup> hs_operation) \<Rightarrow> ptr \<Rightarrow> int" where
  "due hl h p = sum_list (map (\<lambda>q. cell (\<lambda>x. of_bool (ev_response (o_event x) = Some p)) (h q)) hl)"

definition pipeline :: "world \<Rightarrow> ptr list \<Rightarrow> ptr list \<Rightarrow> ptr list" where
  "pipeline W cs ns = making W @ cs @ held W @ ns @ calling W"

definition ext_of :: "world \<Rightarrow> ptr list \<Rightarrow> ptr list \<Rightarrow> bridge \<Rightarrow> ext" where
  "ext_of W cs ns b =
     \<lparr>x_inst = \<lambda>p. h_inst W p + of_bool (p \<in> set (live_instances b)),
      x_resp = \<lambda>p. h_resp W p + due (held W) (ops b) p,
      x_pipe = \<lambda>p. of_bool (p \<in> set (pipeline W cs ns)),
      x_op = h_op W, x_credit = \<lambda>_. 0, x_count = \<lambda>_. 0, x_act = \<lambda>_. 0, x_note = \<lambda>_. 0,
      x_rch = \<lambda>_. 0, x_ops = 0\<rparr>"

definition lifecycle :: "hs_operation \<Rightarrow> bool" where
  "lifecycle x \<longleftrightarrow> \<not> o_done x \<and> o_kind x \<in> {1, 2, 5, 6}"

text \<open>What the protocol guarantees about one operation.\<close>

definition life_ok :: "world \<Rightarrow> bridge \<Rightarrow> hs_operation \<Rightarrow> bool" where
  "life_ok W b x \<longleftrightarrow> lifecycle x \<longrightarrow> o_instance x \<in> set (live_instances b) \<and>
     (o_kind x \<in> {1, 2} \<longrightarrow> h_inst W (o_instance x) = 0) \<and>
     (o_kind x \<in> {5, 6} \<longrightarrow> (\<forall>s. insts b (o_instance x) = Some s \<longrightarrow> s_closing s))"

definition op_ok :: "world \<Rightarrow> ptr list \<Rightarrow> bridge \<Rightarrow> ptr \<Rightarrow> hs_operation \<Rightarrow> bool" where
  "op_ok W cs b p x \<longleftrightarrow>
     (o_done x \<longleftrightarrow> p \<notin> set (making W) \<and> p \<notin> set cs \<and> p \<notin> set (held W)) \<and>
     (p \<notin> set (making W) \<longrightarrow> o_kind x \<in> {4, 7} \<longrightarrow> o_response x \<noteq> None) \<and>
     (p \<in> set (making W) \<or> p \<in> set cs \<longrightarrow> ev_response (o_event x) = None) \<and>
     (p \<notin> set (making W) \<longrightarrow> life_ok W b x)"

definition shape :: "world \<Rightarrow> ptr list \<Rightarrow> ptr list \<Rightarrow> bridge \<Rightarrow> bool" where
  "shape W cs ns b \<longleftrightarrow>
     queue_rep (op_next b, commands b) cs \<and> queue_rep (op_next b, notices b) ns \<and>
     distinct (pipeline W cs ns) \<and>
     distinct (live_instances b) \<and> instances b = int (length (live_instances b)) \<and>
     dom (chunks b) = h_chunk W \<and>
     (\<forall>p. 0 \<le> h_inst W p \<and> 0 \<le> h_resp W p) \<and>
     (\<forall>p s. insts b p = Some s \<longrightarrow> \<not> s_closing s \<longrightarrow> p \<in> set (live_instances b) \<or> p \<in> raising W) \<and>
     (\<forall>p x. ops b p = Some x \<longrightarrow> op_ok W cs b p x) \<and>
     (\<forall>p q x y. p \<notin> set (making W) \<longrightarrow> q \<notin> set (making W) \<longrightarrow> ops b p = Some x \<longrightarrow> ops b q = Some y \<longrightarrow>
        lifecycle x \<longrightarrow> lifecycle y \<longrightarrow> o_instance x = o_instance y \<longrightarrow> p = q)"

definition inv_with :: "world \<Rightarrow> ptr list \<Rightarrow> ptr list \<Rightarrow> bridge \<Rightarrow> bool" where
  "inv_with W cs ns b \<longleftrightarrow> acct (ext_of W cs ns b) b \<and> shape W cs ns b"

text \<open>
  The phases of the runtime: once the owner has finished, or no runtime exists, nothing is queued
  and no instance is live; once the notifier has finished, no notification is left either.
\<close>

definition phase_ok :: "world \<Rightarrow> ptr list \<Rightarrow> ptr list \<Rightarrow> bridge \<Rightarrow> bool" where
  "phase_ok W cs ns b \<longleftrightarrow>
     state b \<in> {0, 1, 2, 3, 4, 5} \<and>
     (owner_done b \<longrightarrow> state b \<notin> {1, 2}) \<and>
     (state b \<in> {4, 5} \<longrightarrow> owner_done b) \<and>
     (state b = 0 \<or> owner_done b \<longrightarrow> cs = [] \<and> held W = [] \<and> live_instances b = []) \<and>
     (state b \<in> {0, 4, 5} \<longrightarrow> ns = [] \<and> calling W = [])"

definition bridge_inv :: "world \<Rightarrow> bridge \<Rightarrow> bool" where
  "bridge_inv W b \<longleftrightarrow> making W = [] \<and> raising W = {} \<and>
     (\<exists>cs. inv_with W cs (waiting W) b \<and> phase_ok W cs (waiting W) b)"

lemma bridge_inv_init: "bridge_inv empty_world init_bridge"
proof -
  have "acct (ext_of empty_world [] [] init_bridge) init_bridge"
    by (rule acct_eqI [OF acct_init])
      (simp add: ext_eq_def no_ext_def ext_of_def empty_world_def pipeline_def init_bridge_def due_def)
  then have "inv_with empty_world [] [] init_bridge"
    by (simp add: inv_with_def shape_def empty_world_def init_bridge_def pipeline_def)
  moreover have "phase_ok empty_world [] [] init_bridge"
    by (simp add: phase_ok_def empty_world_def init_bridge_def)
  ultimately show ?thesis by (auto simp: bridge_inv_def empty_world_def)
qed

subsection \<open>Field access after a wake-up\<close>

lemma wake_owner_fields [simp]:
  "insts (wake_owner e b) = insts b" "ops (wake_owner e b) = ops b" "resps (wake_owner e b) = resps b"
  "chunks (wake_owner e b) = chunks b" "op_next (wake_owner e b) = op_next b"
  "commands (wake_owner e b) = commands b" "notices (wake_owner e b) = notices b"
  "live_instances (wake_owner e b) = live_instances b" "state (wake_owner e b) = state b"
  "owner_done (wake_owner e b) = owner_done b" "owner_started (wake_owner e b) = owner_started b"
  "instances (wake_owner e b) = instances b" "active_ops (wake_owner e b) = active_ops b"
  "next_id (wake_owner e b) = next_id b" "retained_bytes (wake_owner e b) = retained_bytes b"
  "wake_fd (wake_owner e b) = wake_fd b"
  by (simp_all add: wake_owner_def)

subsection \<open>Steps that only drop objects or change counters\<close>

text \<open>
  \<open>fades b b'\<close>: the queues, the live list and the chunks are as before, no object was added, and what
  is left agrees with the old state in everything the protocol looks at.
\<close>

definition fades :: "bridge \<Rightarrow> bridge \<Rightarrow> bool" where
  "fades b b' \<longleftrightarrow>
     op_next b' = op_next b \<and> commands b' = commands b \<and> notices b' = notices b \<and>
     live_instances b' = live_instances b \<and> instances b' = instances b \<and> dom (chunks b') = dom (chunks b) \<and>
     state b' = state b \<and> owner_done b' = owner_done b \<and>
     (\<forall>p s'. insts b' p = Some s' \<longrightarrow> (\<exists>s. insts b p = Some s \<and> (s_closing s \<longrightarrow> s_closing s'))) \<and>
     (\<forall>p x'. ops b' p = Some x' \<longrightarrow> (\<exists>x. ops b p = Some x \<and> o_done x' = o_done x \<and> o_kind x' = o_kind x \<and>
        o_instance x' = o_instance x \<and> (o_response x \<noteq> None \<longrightarrow> o_response x' \<noteq> None) \<and>
        ev_response (o_event x') = ev_response (o_event x)))"

lemma fades_refl [simp]: "fades b b"
  by (simp add: fades_def)

lemma fades_trans [trans]:
  assumes "fades a b" "fades b c" shows "fades a c"
proof -
  have "\<exists>s. insts a p = Some s \<and> (s_closing s \<longrightarrow> s_closing s')" if "insts c p = Some s'" for p s'
    using assms that unfolding fades_def by metis
  moreover have "\<exists>x. ops a p = Some x \<and> o_done x' = o_done x \<and> o_kind x' = o_kind x \<and> o_instance x' = o_instance x \<and>
      (o_response x \<noteq> None \<longrightarrow> o_response x' \<noteq> None) \<and> ev_response (o_event x') = ev_response (o_event x)"
    if x: "ops c p = Some x'" for p x'
  proof -
    obtain y where "ops b p = Some y" "o_done x' = o_done y" "o_kind x' = o_kind y" "o_instance x' = o_instance y"
      "o_response y \<noteq> None \<longrightarrow> o_response x' \<noteq> None" "ev_response (o_event x') = ev_response (o_event y)"
      using assms(2) x unfolding fades_def by meson
    with assms(1) show ?thesis unfolding fades_def by metis
  qed
  ultimately show ?thesis using assms unfolding fades_def by simp
qed

lemma wake_owner_fades: "fades b (wake_owner e b)"
  by (simp add: fades_def)

lemma instance_drop_fades: "instance_drop p b = Some b' \<Longrightarrow> fades b b'"
  by (auto simp: instance_drop_def fades_def bind_eq_Some_conv split: if_splits)

lemma charge_fades: "charge p n b = Some (ok, b') \<Longrightarrow> fades b b'"
  by (auto simp: charge_def fades_def bind_eq_Some_conv split: if_splits)

lemma uncharge_fades: "uncharge p n b = Some b' \<Longrightarrow> fades b b'"
  by (auto simp: uncharge_def fades_def bind_eq_Some_conv split: if_splits)

lemma upd_inst_fades:
  "upd_inst p f b = Some b' \<Longrightarrow> (\<And>s. s_closing s \<Longrightarrow> s_closing (f s)) \<Longrightarrow> fades b b'"
  by (auto simp: upd_inst_def fades_def split: if_splits)

lemma upd_resp_fades: "upd_resp p f b = Some b' \<Longrightarrow> fades b b'"
  by (auto simp: upd_resp_def fades_def)

lemma release_response_fades: "release_response r b = Some b' \<Longrightarrow> fades b b'"
  unfolding release_response_def bind_eq_Some_conv
  by (auto dest!: uncharge_fades instance_drop_fades upd_inst_fades intro: fades_trans)

lemma response_drop_fades:
  assumes "response_drop q b = Some b'" shows "fades b b'"
proof -
  have *: "fades c (c\<lparr>resps := h\<rparr>)" for c h by (simp add: fades_def)
  show ?thesis using assms
    by (auto simp: response_drop_def bind_eq_Some_conv * split: option.splits if_splits
        dest!: release_response_fades intro: fades_trans)
qed

lemma uncharge_nonzero_fades: "uncharge_nonzero p n b = Some b' \<Longrightarrow> fades b b'"
  by (auto simp: uncharge_nonzero_def split: if_splits dest: uncharge_fades)

lemma release_op_fades: "release_op x b = Some b' \<Longrightarrow> fades b b'"
  unfolding release_op_def bind_eq_Some_conv
  by (auto dest!: uncharge_nonzero_fades response_drop_fades instance_drop_fades intro: fades_trans)

lemma op_drop_fades:
  assumes "op_drop p b = Some b'" shows "fades b b'"
proof -
  have *: "fades c (c\<lparr>ops := (ops c)(p := None)\<rparr>)" for c by (simp add: fades_def)
  have **: "fades b (b\<lparr>ops := (ops b)(p \<mapsto> x\<lparr>o_refs := n\<rparr>)\<rparr>)" if "ops b p = Some x" for x n
    using that by (simp add: fades_def)
  show ?thesis using assms
    by (auto simp: op_drop_def bind_eq_Some_conv * ** split: if_splits dest!: release_op_fades intro: fades_trans)
qed

text \<open>The shape survives, and the host may give up handles on the way.\<close>

lemma shape_fade:
  assumes "shape W cs ns b" "fades b b'"
    and W: "held W' = held W" "calling W' = calling W" "making W' = making W" "raising W' = raising W" "h_chunk W' = h_chunk W"
    and h: "\<And>p. 0 \<le> h_inst W' p" "\<And>p. h_inst W' p \<le> h_inst W p" "\<And>p. 0 \<le> h_resp W' p"
  shows "shape W' cs ns b'"
proof -
  have z: "h_inst W p = 0 \<Longrightarrow> h_inst W' p = 0" for p using h(1,2) [of p] by simp
  have ok: "op_ok W' cs b' p x'" if x': "ops b' p = Some x'" for p x'
  proof -
    obtain x where x: "ops b p = Some x" "o_done x' = o_done x" "o_kind x' = o_kind x" "o_instance x' = o_instance x"
      "o_response x \<noteq> None \<longrightarrow> o_response x' \<noteq> None" "ev_response (o_event x') = ev_response (o_event x)"
      using assms(2) x' unfolding fades_def by meson
    have o: "op_ok W cs b p x" using assms(1) x(1) by (simp add: shape_def)
    have "life_ok W b x \<Longrightarrow> life_ok W' b' x'"
      using assms(2) z x(2-4) unfolding life_ok_def lifecycle_def fades_def by metis
    then show ?thesis using o x(2-6) W by (simp add: op_ok_def)
  qed
  have un: "p = q" if "p \<notin> set (making W')" "q \<notin> set (making W')" "ops b' p = Some x'" "ops b' q = Some y'"
    "lifecycle x'" "lifecycle y'" "o_instance x' = o_instance y'" for p q x' y'
  proof -
    have orig: "\<exists>x. ops b r = Some x \<and> lifecycle x \<and> o_instance x = o_instance z" if "ops b' r = Some z" "lifecycle z" for r z
      using assms(2) that unfolding fades_def lifecycle_def by metis
    from orig [OF that(3,5)] orig [OF that(4,6)] that(1,2,7) show ?thesis
      using assms(1) W(3) unfolding shape_def by metis
  qed
  have cl: "p \<in> set (live_instances b') \<or> p \<in> raising W'" if "insts b' p = Some s'" "\<not> s_closing s'" for p s'
    using assms(1,2) that W(4) unfolding shape_def fades_def by metis
  have pipe: "pipeline W' cs ns = pipeline W cs ns" using W by (simp add: pipeline_def)
  show ?thesis using assms(1,2) ok cl h pipe W(5) un unfolding shape_def fades_def by simp
qed

lemma due_fade:
  assumes "fades b b'" "\<And>q. q \<in> set hl \<Longrightarrow> ops b' q \<noteq> None"
  shows "due hl (ops b') p = due hl (ops b) p"
proof -
  have "cell (\<lambda>x. of_bool (ev_response (o_event x) = Some p)) (ops b' q)
      = (cell (\<lambda>x. of_bool (ev_response (o_event x) = Some p)) (ops b q) :: int)" if q: "q \<in> set hl" for q
  proof -
    obtain x' where x': "ops b' q = Some x'" using assms(2) q by blast
    then obtain x where "ops b q = Some x" "ev_response (o_event x') = ev_response (o_event x)"
      using assms(1) unfolding fades_def by meson
    with x' show ?thesis by simp
  qed
  then show ?thesis by (simp add: due_def cong: map_cong)
qed

lemma pipeline_alloc:
  assumes "acct E b" "x_pipe E p = 1"
  shows "ops b p \<noteq> None"
proof -
  have "0 \<le> x_op E p" using acct_wf_ext [OF assms(1)] by (simp add: wf_ext_def)
  then show ?thesis using acct_ext_op [OF assms(1), of p] assms(2) by auto
qed

lemma inv_pipeline_alloc: "inv_with W cs ns b \<Longrightarrow> p \<in> set (pipeline W cs ns) \<Longrightarrow> ops b p \<noteq> None"
  unfolding inv_with_def by (elim conjE) (erule pipeline_alloc, simp add: ext_of_def)

lemma inv_fade:
  assumes i: "inv_with W cs ns b" and f: "fades b b'" and a: "acct (ext_of W' cs ns b) b'"
    and W: "held W' = held W" "calling W' = calling W" "making W' = making W" "raising W' = raising W" "h_chunk W' = h_chunk W"
    and h: "\<And>p. 0 \<le> h_inst W' p" "\<And>p. h_inst W' p \<le> h_inst W p" "\<And>p. 0 \<le> h_resp W' p"
  shows "inv_with W' cs ns b'"
proof -
  have "ops b' q \<noteq> None" if "q \<in> set (held W')" for q
    by (rule pipeline_alloc [OF a]) (use that in \<open>simp add: ext_of_def pipeline_def\<close>)
  then have "due (held W') (ops b') p = due (held W') (ops b) p" for p by (rule due_fade [OF f])
  moreover have "live_instances b' = live_instances b" using f by (simp add: fades_def)
  ultimately have "ext_of W' cs ns b' = ext_of W' cs ns b" by (simp add: ext_of_def)
  then show ?thesis using a shape_fade [OF _ f W h] i by (simp add: inv_with_def)
qed

lemma phase_fade:
  "phase_ok W cs ns b \<Longrightarrow> fades b b' \<Longrightarrow> held W' = held W \<Longrightarrow> calling W' = calling W \<Longrightarrow> phase_ok W' cs ns b'"
  by (simp add: phase_ok_def fades_def)

lemma bridge_fade:
  assumes "bridge_inv W b" and f: "fades b b'"
    and a: "\<And>cs ns. inv_with W cs ns b \<Longrightarrow> acct (ext_of W' cs ns b) b'"
    and W: "held W' = held W" "calling W' = calling W" "making W' = making W" "raising W' = raising W" "h_chunk W' = h_chunk W"
      "waiting W' = waiting W"
    and h: "\<And>p. 0 \<le> h_inst W' p" "\<And>p. h_inst W' p \<le> h_inst W p" "\<And>p. 0 \<le> h_resp W' p"
  shows "bridge_inv W' b'"
proof -
  obtain cs where c: "making W = []" "raising W = {}" "inv_with W cs (waiting W) b" "phase_ok W cs (waiting W) b"
    using assms(1) by (auto simp: bridge_inv_def)
  have "inv_with W' cs (waiting W) b'" by (rule inv_fade [OF c(3) f a [OF c(3)] W(1-5) h])
  moreover have "phase_ok W' cs (waiting W) b'" by (rule phase_fade [OF c(4) f W(1,2)])
  ultimately show ?thesis using c W by (auto simp: bridge_inv_def)
qed

lemma inv_same:
  assumes "inv_with W cs ns b" "insts b' = insts b" "ops b' = ops b" "resps b' = resps b"
    "chunks b' = chunks b" "op_next b' = op_next b" "commands b' = commands b" "notices b' = notices b"
    "live_instances b' = live_instances b" "instances b' = instances b" "active_ops b' = active_ops b"
    "retained_bytes b' = retained_bytes b"
  shows "inv_with W cs ns b'"
proof -
  have "ext_of W cs ns b' = ext_of W cs ns b" using assms by (simp add: ext_of_def)
  moreover have "op_ok W cs b' p x = op_ok W cs b p x" for p x using assms by (simp add: op_ok_def life_ok_def)
  moreover have "acct (ext_of W cs ns b) b'" using acct_same [of "ext_of W cs ns b" b b'] assms by (simp add: inv_with_def)
  ultimately show ?thesis using assms by (simp add: inv_with_def shape_def)
qed

subsection \<open>Queue steps\<close>

lemma append_queue:
  assumes "queue_rep (nxt, q) xs" "queue_rep (nxt, r) ys" "set xs \<inter> set ys = {}"
    "p \<notin> set xs" "p \<notin> set ys"
  obtains nxt' q' where "link_append p (nxt, q) = (nxt', q')" "queue_rep (nxt', q') (xs @ [p])"
    "queue_rep (nxt', r) ys"
  using link_append_rep [OF assms(1,4)] link_append_frame [OF assms(1,2,3,5)]
  by (metis prod.exhaust fst_conv)

lemma enqueue_ok:
  assumes "queue_rep (op_next b, commands b) cs" "queue_rep (op_next b, notices b) ns"
    "set cs \<inter> set ns = {}" "p \<notin> set cs" "p \<notin> set ns" "ops b p \<noteq> None" "\<And>q. q \<in> set cs \<Longrightarrow> ops b q \<noteq> None"
  obtains nxt q where "enqueue e p b = Some (wake_owner e (b\<lparr>op_next := nxt, commands := q\<rparr>))"
    "queue_rep (nxt, q) (cs @ [p])" "queue_rep (nxt, notices b) ns"
proof -
  have "append_ok p (commands b) b"
    using assms(1,6,7) by (cases "commands b") (auto simp: append_ok_def split: option.splits dest: queue_rep_tail)
  moreover obtain nxt q where "link_append p (op_next b, commands b) = (nxt, q)"
    "queue_rep (nxt, q) (cs @ [p])" "queue_rep (nxt, notices b) ns"
    by (rule append_queue [OF assms(1-5)])
  ultimately show ?thesis by (intro that [of q nxt]) (simp_all add: enqueue_def)
qed

lemma notice_ok:
  assumes "queue_rep (op_next b, commands b) cs" "queue_rep (op_next b, notices b) ns"
    "set cs \<inter> set ns = {}" "p \<notin> set cs" "p \<notin> set ns" "ops b p \<noteq> None" "\<And>q. q \<in> set ns \<Longrightarrow> ops b q \<noteq> None"
  obtains nxt q where "notice e p b = Some (wake_owner e (b\<lparr>op_next := nxt, notices := q\<rparr>))"
    "queue_rep (nxt, q) (ns @ [p])" "queue_rep (nxt, commands b) cs"
proof -
  have "append_ok p (notices b) b"
    using assms(2,6,7) by (cases "notices b") (auto simp: append_ok_def split: option.splits dest: queue_rep_tail)
  moreover have "set ns \<inter> set cs = {}" using assms(3) by auto
  moreover from this obtain nxt q where "link_append p (op_next b, notices b) = (nxt, q)"
    "queue_rep (nxt, q) (ns @ [p])" "queue_rep (nxt, commands b) cs"
    by (rule append_queue [OF assms(2,1) _ assms(5,4)])
  ultimately show ?thesis by (intro that [of q nxt]) (simp_all add: notice_def)
qed

end
