(* ===== verification/Bridge_Build.thy ===== *)
theory Bridge_Build
  imports Bridge_Inv
begin

text \<open>
  How a host call builds an operation: allocate it (\<open>new_op\<close>), charge and fill it, then queue it
  (\<open>enqueue\<close>) or give it up (\<open>abandon\<close>). Each step keeps \<open>inv_with\<close>, with the operation in the
  ghost field \<open>making\<close> meanwhile.
\<close>

definition alloc_ok :: "sys \<Rightarrow> bridge \<Rightarrow> bool" where
  "alloc_ok e b \<longleftrightarrow> (\<forall>i p. sys_alloc e i = Some p \<longrightarrow>
     insts b p = None \<and> ops b p = None \<and> resps b p = None \<and> chunks b p = None)"

lemma inv_acct: "inv_with W cs ns b \<Longrightarrow> acct (ext_of W cs ns b) b"
  by (simp add: inv_with_def)

lemma inv_shape: "inv_with W cs ns b \<Longrightarrow> shape W cs ns b"
  by (simp add: inv_with_def)

lemma inv_nonneg: "inv_with W cs ns b \<Longrightarrow> 0 \<le> h_inst W p" "inv_with W cs ns b \<Longrightarrow> 0 \<le> h_resp W p"
  by (simp_all add: inv_with_def shape_def)

lemma settled_ext_of [simp]: "settled (ext_of W cs ns b)"
  by (simp add: settled_def ext_of_def)

lemma pipeline_handles [simp]:
  "pipeline (W\<lparr>h_inst := f\<rparr>) cs ns = pipeline W cs ns" "pipeline (W\<lparr>h_resp := g\<rparr>) cs ns = pipeline W cs ns"
  "pipeline (W\<lparr>h_op := h\<rparr>) cs ns = pipeline W cs ns" "pipeline (W\<lparr>h_chunk := A\<rparr>) cs ns = pipeline W cs ns"
  "pipeline (W\<lparr>raising := A\<rparr>) cs ns = pipeline W cs ns"
  by (simp_all add: pipeline_def)

lemma due_other: "p \<notin> set hl \<Longrightarrow> due hl (h(p := v)) q = due hl h q"
  unfolding due_def by (rule arg_cong [where f = sum_list]) auto

lemma due_same:
  "h p = Some x \<Longrightarrow> ev_response (o_event x') = ev_response (o_event x) \<Longrightarrow> due hl (h(p \<mapsto> x')) q = due hl h q"
  unfolding due_def by (rule arg_cong [where f = sum_list]) auto

lemma due_nonneg [simp]: "0 \<le> due hl h q"
  unfolding due_def by (rule sum_list_nonneg) (auto simp: cell_def split: option.splits)

lemma making_disjoint:
  "inv_with W cs ns b \<Longrightarrow> p \<in> set (making W) \<Longrightarrow>
   p \<notin> set cs \<and> p \<notin> set (held W) \<and> p \<notin> set ns \<and> p \<notin> set (calling W)"
  by (auto simp: inv_with_def shape_def pipeline_def)

lemma free_not_piped:
  "inv_with W cs ns b \<Longrightarrow> ops b p = None \<Longrightarrow>
   p \<notin> set (making W) \<and> p \<notin> set cs \<and> p \<notin> set (held W) \<and> p \<notin> set ns \<and> p \<notin> set (calling W)"
  using inv_pipeline_alloc [of W cs ns b p] by (auto simp: pipeline_def)

lemma pipe_bump: "p \<notin> A \<Longrightarrow> (of_bool (q = p \<or> q \<in> A) :: int) = of_bool (q \<in> A) + (if q = p then 1 else 0)"
  by auto

lemma shape_new_op:
  assumes sh: "shape W cs ns b" and m: "making W = []"
    and np: "p \<notin> set cs \<and> p \<notin> set (held W) \<and> p \<notin> set ns \<and> p \<notin> set (calling W)"
    and o: "ops b' = (ops b)(p \<mapsto> fresh_op n kind sp cb ud)"
    and B: "op_next b' = op_next b" "commands b' = commands b" "notices b' = notices b"
      "live_instances b' = live_instances b" "instances b' = instances b" "chunks b' = chunks b"
    and I: "\<And>q s'. insts b' q = Some s' \<Longrightarrow> \<exists>s. insts b q = Some s \<and> s_closing s' = s_closing s"
  shows "shape (W\<lparr>making := [p], h_op := h\<rparr>) cs ns b'"
proof -
  let ?W = "W\<lparr>making := [p], h_op := h\<rparr>"
  have ok1: "op_ok ?W cs b' q x" if x: "ops b' q = Some x" for q x
  proof (cases "q = p")
    case True
    then show ?thesis using x o by (auto simp: op_ok_def fresh_op_def no_event_def)
  next
    case False
    then have "op_ok W cs b q x" using sh x o by (simp add: shape_def)
    moreover have "life_ok W b x \<Longrightarrow> life_ok ?W b' x" using B(4) I unfolding life_ok_def by fastforce
    ultimately show ?thesis using False m by (simp add: op_ok_def)
  qed
  have un: "q = r" if "q \<noteq> p" "r \<noteq> p" "ops b' q = Some x" "ops b' r = Some y"
     "lifecycle x" "lifecycle y" "o_instance x = o_instance y" for q r x y
  proof -
    have "ops b q = Some x" "ops b r = Some y" using that(1-4) o by simp_all
    then show ?thesis using sh that(5-7) m unfolding shape_def by (metis empty_iff empty_set)
  qed
  have cl: "q \<in> set (live_instances b') \<or> q \<in> raising W" if "insts b' q = Some s2" "\<not> s_closing s2" for q s2
    using sh I [OF that(1)] that(2) B(4) unfolding shape_def by metis
  show ?thesis using sh ok1 un cl B np m unfolding shape_def by (simp add: pipeline_def)
qed

lemma new_op_inv:
  assumes i: "inv_with W cs ns b" and m: "making W = []" and s: "insts b sp = Some s"
    and f: "\<And>p. mem = Some p \<Longrightarrow> ops b p = None"
  obtains (fail) "new_op kind sp cb ud mem b = Some (None, b)"
  | (ok) p b' s' where "mem = Some p" "new_op kind sp cb ud mem b = Some (Some p, b')"
      "inv_with (W\<lparr>making := [p], h_op := bump p 1 (h_op W)\<rparr>) cs ns b'"
      "ops b' = (ops b)(p \<mapsto> fresh_op (next_id b) kind sp cb ud)" "insts b' sp = Some s'"
      "s_closing s' = s_closing s" "s_refs s' = s_refs s + 1" "\<And>q. q \<noteq> sp \<Longrightarrow> insts b' q = insts b q"
      "resps b' = resps b" "chunks b' = chunks b" "live_instances b' = live_instances b" "instances b' = instances b"
      "commands b' = commands b" "notices b' = notices b" "state b' = state b" "owner_done b' = owner_done b"
      "h_op W p = 0" "ops b p = None"
proof (rule new_op_cases [OF s, of kind cb ud mem])
  assume "new_op kind sp cb ud mem b = Some (None, b)"
  then show thesis by (rule fail)
next
  fix p b1
  assume p: "mem = Some p" and c: "if kind \<le> 4 then charge sp sizeof_operation b = Some (True, b1) else b1 = b"
    and ex: "\<exists>s1. insts b1 sp = Some s1 \<and> new_op kind sp cb ud mem b = Some (Some p,
         b1\<lparr>insts := (insts b1)(sp \<mapsto> s1\<lparr>s_refs := s_refs s1 + 1, s_active := s_active s1 + 1,
                                     s_notifications := s_notifications s1 + 1\<rparr>),
           ops := (ops b)(p \<mapsto> fresh_op (next_id b) kind sp cb ud),
           next_id := next_id b + 1, active_ops := active_ops b + 1\<rparr>)"
  from ex obtain s1 b' where s1: "insts b1 sp = Some s1" and n: "new_op kind sp cb ud mem b = Some (Some p, b')"
    and b': "b' = b1\<lparr>insts := (insts b1)(sp \<mapsto> s1\<lparr>s_refs := s_refs s1 + 1, s_active := s_active s1 + 1,
                                     s_notifications := s_notifications s1 + 1\<rparr>),
           ops := (ops b)(p \<mapsto> fresh_op (next_id b) kind sp cb ud),
           next_id := next_id b + 1, active_ops := active_ops b + 1\<rparr>"
    by (elim exE conjE) (rule that [OF _ _ refl])
  let ?W = "W\<lparr>making := [p], h_op := bump p 1 (h_op W)\<rparr>"
  have free: "ops b p = None" using f p by simp
  note np = free_not_piped [OF i free]
  have b1: "resps b1 = resps b" "chunks b1 = chunks b" "op_next b1 = op_next b" "commands b1 = commands b"
    "notices b1 = notices b" "live_instances b1 = live_instances b" "instances b1 = instances b"
    "state b1 = state b" "owner_done b1 = owner_done b" "s_closing s1 = s_closing s" "s_refs s1 = s_refs s"
    "\<And>q. q \<noteq> sp \<Longrightarrow> insts b1 q = insts b q"
    using c s s1 by (auto simp: charge_def split: if_splits)
  have a: "acct ((ext_of W cs ns b)\<lparr>x_pipe := bump p 1 (x_pipe (ext_of W cs ns b)), x_op := bump p 1 (x_op (ext_of W cs ns b))\<rparr>) b'"
    unfolding b' by (rule new_op_acct [OF inv_acct [OF i] s free c s1])
  have F: "ops b' = (ops b)(p \<mapsto> fresh_op (next_id b) kind sp cb ud)" "\<exists>s'. insts b' sp = Some s' \<and> s_closing s' = s_closing s \<and> s_refs s' = s_refs s + 1"
    "\<And>q. q \<noteq> sp \<Longrightarrow> insts b' q = insts b q"
    "resps b' = resps b" "chunks b' = chunks b" "live_instances b' = live_instances b" "instances b' = instances b"
    "commands b' = commands b" "notices b' = notices b" "state b' = state b" "owner_done b' = owner_done b" "op_next b' = op_next b"
    using b1 by (simp_all add: b')
  have "pipeline ?W cs ns = p # pipeline W cs ns" "p \<notin> set (pipeline W cs ns)"
    using m np by (simp_all add: pipeline_def)
  then have "acct (ext_of ?W cs ns b') b'"
    by (intro acct_eqI [OF a]) (use np F(1,6) in \<open>simp add: ext_eq_def ext_of_def due_other pipe_bump\<close>)
  moreover have "shape ?W cs ns b'"
  proof (rule shape_new_op [OF _ m _ F(1,12,8,9,6,7,5)])
    show "shape W cs ns b" using i by (simp add: inv_with_def)
    show "\<exists>s. insts b q = Some s \<and> s_closing s' = s_closing s" if "insts b' q = Some s'" for q s'
      using that F(2,3) s by (cases "q = sp") auto
  qed (use np in blast)
  ultimately have "inv_with ?W cs ns b'" by (simp add: inv_with_def)
  moreover have "h_op W p = 0" using acct_free_op_ext [OF inv_acct [OF i] free] by (simp add: ext_of_def)
  moreover obtain s' where "insts b' sp = Some s'" "s_closing s' = s_closing s" "s_refs s' = s_refs s + 1" using F(2) by blast
  ultimately show thesis by (intro ok [OF p n _ F(1) _ _ _ F(3,4,5,6,7,8,9,10,11) _ free])
qed

text \<open>Charging the input of the operation and recording the charge in it.\<close>

lemma charge_input_inv:
  assumes i: "inv_with W cs ns b" and x: "ops b p = Some x" "o_input_charge x = 0"
    and c: "charge (o_instance x) n b = Some (True, b1)"
  shows "inv_with W cs ns (b1\<lparr>ops := (ops b1)(p \<mapsto> x\<lparr>o_input_charge := n\<rparr>)\<rparr>)"
proof (rule inv_fade [OF i])
  let ?x = "x\<lparr>o_input_charge := n\<rparr>"
  let ?b = "b1\<lparr>ops := (ops b1)(p \<mapsto> ?x)\<rparr>"
  have o: "ops b1 = ops b" using arg_cong [OF charge_frame [OF c], of ops] by simp
  have "fades b1 ?b" using o x(1) by (auto simp: fades_def)
  with charge_fades [OF c] show "fades b ?b" by (rule fades_trans)
  have pos: "0 < o_refs x" using inv_acct [OF i] x by (simp add: acct_def wf_heaps_def)
  have a1: "acct ((ext_of W cs ns b)\<lparr>x_credit := bump (o_instance x) (uint n) (x_credit (ext_of W cs ns b))\<rparr>) b1"
    by (rule charge_acct [OF inv_acct [OF i] c])
  show "acct (ext_of W cs ns b) ?b"
  proof (rule acct_write_op [OF a1, of p "Some x"])
    show "ext_eq (move_op p (Some x) (Some ?x) ((ext_of W cs ns b)\<lparr>x_credit := bump (o_instance x) (uint n)
        (x_credit (ext_of W cs ns b))\<rparr>)) (ext_of W cs ns b)"
      using x(2) by (simp add: ext_eq_def move_op_def counted_defs)
  qed (use o x pos acct_wf_ext [OF inv_acct [OF i]] in auto)
qed (simp_all add: inv_nonneg [OF i])

text \<open>Writing fields that no counter or protocol condition depends on.\<close>

definition keeps :: "hs_operation \<Rightarrow> hs_operation \<Rightarrow> bool" where
  "keeps x y \<longleftrightarrow> o_refs y = o_refs x \<and> o_kind y = o_kind x \<and> o_done y = o_done x \<and> o_instance y = o_instance x \<and>
     o_response y = o_response x \<and> o_input_charge y = o_input_charge x \<and>
     o_allocation_charge y = o_allocation_charge x \<and> ev_response (o_event y) = ev_response (o_event x)"

lemma write_op_inv:
  assumes i: "inv_with W cs ns b" and x: "ops b p = Some x" "keeps x y"
  shows "inv_with W cs ns (b\<lparr>ops := (ops b)(p \<mapsto> y)\<rparr>)"
proof (rule inv_fade [OF i])
  show "fades b (b\<lparr>ops := (ops b)(p \<mapsto> y)\<rparr>)" using x by (auto simp: fades_def keeps_def)
  have "0 < o_refs y" using inv_acct [OF i] x by (simp add: acct_def wf_heaps_def keeps_def)
  then show "acct (ext_of W cs ns b) (b\<lparr>ops := (ops b)(p \<mapsto> y)\<rparr>)"
    by (intro acct_write_op [OF inv_acct [OF i] x(1)])
      (use x acct_wf_ext [OF inv_acct [OF i]] in \<open>simp_all add: ext_eq_def move_op_def counted_defs keeps_def\<close>)
qed (simp_all add: inv_nonneg [OF i])

lemma enqueue_inv:
  assumes i: "inv_with W cs ns b" and m: "making W = [p]" and x: "ops b p = Some x"
    and r: "o_kind x \<in> {4, 7} \<Longrightarrow> o_response x \<noteq> None" and l: "life_ok W b x"
    and u: "\<And>q y. lifecycle x \<Longrightarrow> q \<noteq> p \<Longrightarrow> ops b q = Some y \<Longrightarrow> lifecycle y \<Longrightarrow> o_instance y \<noteq> o_instance x"
  obtains b' where "enqueue e p b = Some b'" "inv_with (W\<lparr>making := []\<rparr>) (cs @ [p]) ns b'"
    "state b' = state b" "owner_done b' = owner_done b" "live_instances b' = live_instances b"
    "insts b' = insts b" "ops b' = ops b" "resps b' = resps b" "chunks b' = chunks b"
proof -
  let ?W = "W\<lparr>making := []\<rparr>"
  have sh: "shape W cs ns b" using i by (simp add: inv_with_def)
  have d: "p \<notin> set cs" "p \<notin> set ns" "p \<notin> set (held W)" "p \<notin> set (calling W)" "set cs \<inter> set ns = {}"
    using sh m by (auto simp: shape_def pipeline_def)
  obtain nxt q where q: "enqueue e p b = Some (wake_owner e (b\<lparr>op_next := nxt, commands := q\<rparr>))"
      "queue_rep (nxt, q) (cs @ [p])" "queue_rep (nxt, notices b) ns"
  proof (rule enqueue_ok [of b cs ns p e])
    show "ops b r \<noteq> None" if "r \<in> set cs" for r
      using inv_pipeline_alloc [OF i, of r] that by (simp add: pipeline_def)
  qed (use sh d x in \<open>auto simp: shape_def\<close>)
  let ?b = "b\<lparr>op_next := nxt, commands := q\<rparr>"
  have ok1: "op_ok ?W (cs @ [p]) ?b r y" if y: "ops b r = Some y" for r y
  proof -
    have o: "op_ok W cs b r y" using sh y by (simp add: shape_def)
    have "life_ok W b z = life_ok ?W ?b z" for z by (simp add: life_ok_def)
    then show ?thesis using o m d x y r l by (cases "r = p") (auto simp: op_ok_def)
  qed
  have un: "s = t" if "ops b s = Some y" "ops b t = Some z" "lifecycle y" "lifecycle z" "o_instance y = o_instance z" for s t y z
  proof (cases "s = p \<or> t = p")
    case True
    with u that x show ?thesis by (metis option.inject)
  next
    case False
    with sh m that show ?thesis unfolding shape_def by (metis empty_iff empty_set list.set_cases set_ConsD)
  qed
  have "set (pipeline ?W (cs @ [p]) ns) = set (pipeline W cs ns)" using m by (auto simp: pipeline_def)
  then have "ext_of ?W (cs @ [p]) ns ?b = ext_of W cs ns b" by (simp add: ext_of_def)
  moreover have "acct (ext_of W cs ns b) ?b" by (rule acct_same [OF inv_acct [OF i]]) simp_all
  moreover have "shape ?W (cs @ [p]) ns ?b"
    using sh q(2,3) ok1 un m d unfolding shape_def by (simp add: pipeline_def)
  ultimately have "inv_with ?W (cs @ [p]) ns ?b" by (simp add: inv_with_def)
  then have "inv_with ?W (cs @ [p]) ns (wake_owner e ?b)" by (rule inv_same) simp_all
  then show ?thesis using that [OF q(1)] by simp
qed

lemma abandon_fades: "abandon p b = Some b' \<Longrightarrow> fades b b'"
proof -
  assume "abandon p b = Some b'"
  then obtain x b1 b2 where 1: "ops b p = Some x"
    "upd_inst (o_instance x) (\<lambda>s. s\<lparr>s_active := s_active s - 1, s_notifications := s_notifications s - 1\<rparr>) b = Some b1"
    "upd_op p (\<lambda>x. x\<lparr>o_refs := 1\<rparr>) (b1\<lparr>active_ops := active_ops b1 - 1\<rparr>) = Some b2" "op_drop p b2 = Some b'"
    by (auto simp: abandon_def bind_eq_Some_conv)
  have "fades b b1" by (rule upd_inst_fades [OF 1(2)]) simp
  moreover have "fades b1 b2" using 1(3) by (auto simp: upd_op_def fades_def split: if_splits)
  ultimately show ?thesis using op_drop_fades [OF 1(4)] fades_trans by blast
qed

lemma abandon_inv:
  assumes i: "inv_with W cs ns b" and m: "making W = [p]" and h: "h_op W p = 1"
  obtains b' where "abandon p b = Some b'" "fades b b'"
    "inv_with (W\<lparr>making := [], h_op := bump p (- 1) (h_op W)\<rparr>) cs ns b'"
proof -
  let ?E = "ext_of W cs ns b" and ?W = "W\<lparr>making := [], h_op := bump p (- 1) (h_op W)\<rparr>"
  have p: "p \<in> set (pipeline W cs ns)" using m by (simp add: pipeline_def)
  obtain x where x: "ops b p = Some x" using inv_pipeline_alloc [OF i p] by auto
  have nd: "\<not> o_done x" using i x m by (auto simp: inv_with_def shape_def op_ok_def)
  obtain b' where b': "abandon p b = Some b'"
    "acct (?E\<lparr>x_pipe := bump p (- 1) (x_pipe ?E), x_op := bump p (- 1) (x_op ?E)\<rparr>) b'"
    using abandon_acct [OF inv_acct [OF i] x nd] p h by (auto simp: ext_of_def settled_def)
  have f: "fades b b'" by (rule abandon_fades [OF b'(1)])
  note np = making_disjoint [OF i, of p]
  have gone: "ops b' p = None"
  proof (rule ccontr)
    assume "ops b' p \<noteq> None"
    then obtain y where y: "ops b' p = Some y" by auto
    have "cell o_refs (ops b' p) = 0" using b'(2) p h by (simp add: acct_def acct_op_def ext_of_def)
    moreover have "0 < o_refs y" using b'(2) y by (simp add: acct_def wf_heaps_def)
    ultimately show False using y by simp
  qed
  have "pipeline W cs ns = p # pipeline ?W cs ns" using m by (simp add: pipeline_def)
  moreover have "p \<notin> set (pipeline ?W cs ns)" using m np by (simp add: pipeline_def)
  ultimately have a: "acct (ext_of ?W cs ns b) b'"
    by (intro acct_eqI [OF b'(2)]) (simp add: ext_eq_def ext_of_def pipe_bump)
  have "ops b' q \<noteq> None" if "q \<in> set (held W)" for q
    by (rule pipeline_alloc [OF a]) (use that in \<open>simp add: ext_of_def pipeline_def\<close>)
  then have "due (held W) (ops b') q = due (held W) (ops b) q" for q by (rule due_fade [OF f])
  then have "ext_of ?W cs ns b' = ext_of ?W cs ns b" using f by (simp add: ext_of_def fades_def)
  moreover have "shape ?W cs ns b'"
  proof -
    have s1: "shape (W\<lparr>h_op := bump p (- 1) (h_op W)\<rparr>) cs ns b'"
      by (rule shape_fade [OF inv_shape [OF i] f]) (simp_all add: inv_nonneg [OF i])
    have "op_ok ?W cs b' q y" if "ops b' q = Some y" for q y
    proof -
      have "op_ok (W\<lparr>h_op := bump p (- 1) (h_op W)\<rparr>) cs b' q y" "q \<noteq> p" using s1 that gone by (auto simp: shape_def)
      then show ?thesis using m by (simp add: op_ok_def life_ok_def)
    qed
    moreover have "q = r" if "ops b' q = Some y" "ops b' r = Some z" "lifecycle y" "lifecycle z" "o_instance y = o_instance z" for q r y z
    proof -
      have "q \<noteq> p" "r \<noteq> p" using that gone by auto
      then show ?thesis using s1 m that unfolding shape_def by simp
    qed
    ultimately show ?thesis using s1 m unfolding shape_def by (simp add: pipeline_def)
  qed
  ultimately have "inv_with ?W cs ns b'" using a by (simp add: inv_with_def)
  then show ?thesis by (rule that [OF b'(1) f])
qed

end
