(* ===== verification/Bridge_Host.thy ===== *)
theory Bridge_Host
  imports Bridge_Build
begin

text \<open>
  The calls of the host (\<^verbatim>\<open>hs_*_async\<close>, \<^verbatim>\<open>hs_*_release\<close>, \<^verbatim>\<open>hs_operation_cancel\<close>) never touch a freed
  object and keep the invariant, on every branch, for a host that owns the handle it passes.
\<close>

subsection \<open>Releasing handles\<close>

lemma host_inst_alloc:
  assumes "inv_with W cs ns b" "0 < h_inst W p"
  shows "\<exists>s. insts b p = Some s"
  by (rule acct_ext_inst [OF inv_acct [OF assms(1)]]) (use assms(2) in \<open>simp add: ext_of_def add_pos_nonneg\<close>)

lemma host_resp_alloc:
  assumes "inv_with W cs ns b" "0 < h_resp W p"
  shows "\<exists>r. resps b p = Some r"
  by (rule acct_ext_resp [OF inv_acct [OF assms(1)]]) (use assms(2) in \<open>simp add: ext_of_def add_pos_nonneg\<close>)

lemma host_op_alloc:
  assumes "inv_with W cs ns b" "0 < h_op W p"
  shows "\<exists>x. ops b p = Some x"
  by (rule acct_ext_op [OF inv_acct [OF assms(1)]]) (use assms(2) in \<open>simp add: ext_of_def add_nonneg_pos\<close>)

lemma instance_drop_inv:
  assumes i: "bridge_inv W b" and h: "0 < h_inst W p"
  obtains b' where "instance_drop p b = Some b'" "bridge_inv (W\<lparr>h_inst := bump p (- 1) (h_inst W)\<rparr>) b'"
proof -
  obtain cs ns where c: "inv_with W cs ns b" using i by (auto simp: bridge_inv_def)
  let ?W = "W\<lparr>h_inst := bump p (- 1) (h_inst W)\<rparr>"
  have drop: "\<exists>b'. instance_drop p b = Some b' \<and> acct (ext_of ?W cs ns b) b'" if c: "inv_with W cs ns b" for cs ns
  proof -
    have "0 < x_inst (ext_of W cs ns b) p" using h by (simp add: ext_of_def add_pos_nonneg)
    then obtain b' where b': "instance_drop p b = Some b'"
      "acct ((ext_of W cs ns b)\<lparr>x_inst := bump p (- 1) (x_inst (ext_of W cs ns b))\<rparr>) b'"
      using instance_drop_acct [OF inv_acct [OF c], of p] by (auto simp: ext_of_def)
    have "acct (ext_of ?W cs ns b) b'" by (rule acct_eqI [OF b'(2)]) (simp add: ext_eq_def ext_of_def)
    with b'(1) show ?thesis by blast
  qed
  obtain b' where b': "instance_drop p b = Some b'" using drop [OF c] by blast
  have "bridge_inv ?W b'"
  proof (rule bridge_fade [OF i instance_drop_fades [OF b']])
    show "acct (ext_of ?W cs ns b) b'" if "inv_with W cs ns b" for cs ns using drop [OF that] b' by simp
  qed (use h inv_nonneg [OF c] in simp_all)
  with b' show ?thesis by (rule that)
qed

lemma op_drop_inv:
  assumes i: "bridge_inv W b" and h: "0 < h_op W p"
  obtains b' where "op_drop p b = Some b'" "bridge_inv (W\<lparr>h_op := bump p (- 1) (h_op W)\<rparr>) b'"
proof -
  obtain cs ns where c: "inv_with W cs ns b" using i by (auto simp: bridge_inv_def)
  have m: "making W = []" using i by (simp add: bridge_inv_def)
  let ?W = "W\<lparr>h_op := bump p (- 1) (h_op W)\<rparr>"
  have drop: "\<exists>b'. op_drop p b = Some b' \<and> acct (ext_of ?W cs ns b) b'" if c: "inv_with W cs ns b" for cs ns
  proof -
    let ?E = "ext_of W cs ns b"
    obtain x where x: "ops b p = Some x" using host_op_alloc [OF c h] by blast
    have "\<not> (\<not> o_done x \<and> o_refs x = 1)"
    proof
      assume a: "\<not> o_done x \<and> o_refs x = 1"
      then have "p \<in> set (pipeline W cs ns)" using c x by (auto simp: inv_with_def shape_def op_ok_def pipeline_def)
      moreover have "cell o_refs (ops b p) = x_pipe ?E p + x_op ?E p" using inv_acct [OF c] by (simp add: acct_def acct_op_def)
      ultimately show False using a x h by (simp add: ext_of_def)
    qed
    then obtain b' where b': "op_drop p b = Some b'" "acct (?E\<lparr>x_op := bump p (- 1) (x_op ?E), x_act := \<lambda>_. 0\<rparr>) b'"
      using op_drop_acct [OF inv_acct [OF c] x] h by (auto simp: ext_of_def)
    have "acct (ext_of ?W cs ns b) b'" by (rule acct_eqI [OF b'(2)]) (simp add: ext_eq_def ext_of_def)
    with b'(1) show ?thesis by blast
  qed
  obtain b' where b': "op_drop p b = Some b'" using drop [OF c] by blast
  have "bridge_inv ?W b'"
  proof (rule bridge_fade [OF i op_drop_fades [OF b']])
    show "acct (ext_of ?W cs ns b) b'" if "inv_with W cs ns b" for cs ns using drop [OF that] b' by simp
  qed (use inv_nonneg [OF c] in simp_all)
  with b' show ?thesis by (rule that)
qed

lemma response_drop_inv:
  assumes i: "inv_with W cs ns b" and h: "0 < h_resp W q"
  obtains b' where "response_drop (Some q) b = Some b'" "fades b b'"
    "inv_with (W\<lparr>h_resp := bump q (- 1) (h_resp W)\<rparr>) cs ns b'"
proof -
  let ?W = "W\<lparr>h_resp := bump q (- 1) (h_resp W)\<rparr>"
  obtain b' where b': "response_drop (Some q) b = Some b'"
    "acct ((ext_of W cs ns b)\<lparr>x_resp := bumpo (Some q) (- 1) (x_resp (ext_of W cs ns b))\<rparr>) b'"
    using response_drop_acct [OF inv_acct [OF i], of "Some q"] h by (auto simp: ext_of_def add_pos_nonneg)
  note f = response_drop_fades [OF b'(1)]
  have "acct (ext_of ?W cs ns b) b'" by (rule acct_eqI [OF b'(2)]) (simp add: ext_eq_def ext_of_def)
  then have "inv_with ?W cs ns b'"
    by (rule inv_fade [OF i f]) (use h inv_nonneg [OF i] in \<open>simp_all\<close>)
  with b'(1) f show ?thesis by (rule that)
qed

lemma release_barrier_ok: "insts b p = Some s \<Longrightarrow> \<exists>go. release_barrier rl p b = Some go"
  by (simp add: release_barrier_def)

lemma engine_release_inv:
  assumes i: "bridge_inv W b" and h: "0 < h_inst W p"
  shows "hs_engine_release rl (Some p) b = Some None \<or>
    (\<exists>b'. hs_engine_release rl (Some p) b = Some (Some b') \<and> bridge_inv (W\<lparr>h_inst := bump p (- 1) (h_inst W)\<rparr>) b')"
proof -
  obtain cs ns where c: "inv_with W cs ns b" using i by (auto simp: bridge_inv_def)
  obtain s where "insts b p = Some s" using host_inst_alloc [OF c h] by blast
  then obtain go where go: "release_barrier rl p b = Some go" using release_barrier_ok by blast
  obtain b' where "instance_drop p b = Some b'" "bridge_inv (W\<lparr>h_inst := bump p (- 1) (h_inst W)\<rparr>) b'"
    by (rule instance_drop_inv [OF i h])
  with go show ?thesis by (cases go) (simp_all add: hs_engine_release_def)
qed

lemma operation_release_inv:
  assumes i: "bridge_inv W b" and h: "0 < h_op W p"
  shows "hs_operation_release rl (Some p) b = Some None \<or>
    (\<exists>b'. hs_operation_release rl (Some p) b = Some (Some b') \<and> bridge_inv (W\<lparr>h_op := bump p (- 1) (h_op W)\<rparr>) b')"
proof -
  obtain cs ns where c: "inv_with W cs ns b" using i by (auto simp: bridge_inv_def)
  obtain x where x: "ops b p = Some x" using host_op_alloc [OF c h] by blast
  obtain s where s: "insts b (o_instance x) = Some s" using acct_op_inst [OF inv_acct [OF c] x] by blast
  then obtain go where go: "(if s_closed s then release_barrier rl (o_instance x) b else Some True) = Some go"
    using release_barrier_ok [OF s, of rl] by (cases "s_closed s") auto
  obtain b' where "op_drop p b = Some b'" "bridge_inv (W\<lparr>h_op := bump p (- 1) (h_op W)\<rparr>) b'"
    by (rule op_drop_inv [OF i h])
  with go x s show ?thesis by (cases go) (simp_all add: hs_operation_release_def)
qed

lemma bridge_write:
  assumes i: "bridge_inv W b" and x: "ops b p = Some x" "keeps x y"
  shows "bridge_inv W (b\<lparr>ops := (ops b)(p \<mapsto> y)\<rparr>)"
proof -
  obtain cs where c: "making W = []" "raising W = {}" "inv_with W cs (waiting W) b" "phase_ok W cs (waiting W) b"
    using i by (auto simp: bridge_inv_def)
  have "phase_ok W cs (waiting W) (b\<lparr>ops := (ops b)(p \<mapsto> y)\<rparr>)" using c(4) by (simp add: phase_ok_def)
  with write_op_inv [OF c(3) x] c(1,2) show ?thesis by (auto simp: bridge_inv_def)
qed

lemma wake_owner_inv:
  assumes "bridge_inv W b" shows "bridge_inv W (wake_owner e b)"
proof -
  obtain cs where c: "making W = []" "raising W = {}" "inv_with W cs (waiting W) b" "phase_ok W cs (waiting W) b"
    using assms by (auto simp: bridge_inv_def)
  have "inv_with W cs (waiting W) (wake_owner e b)" by (rule inv_same [OF c(3)]) simp_all
  moreover have "phase_ok W cs (waiting W) (wake_owner e b)" by (rule phase_fade [OF c(4) wake_owner_fades]) simp_all
  ultimately show ?thesis using c(1,2) by (auto simp: bridge_inv_def)
qed

lemma operation_cancel_inv:
  assumes i: "bridge_inv W b" and h: "0 < h_op W p"
  shows "\<exists>b'. hs_operation_cancel e (Some p) b = Some b' \<and> bridge_inv W b'"
proof -
  obtain cs ns where c: "inv_with W cs ns b" using i by (auto simp: bridge_inv_def)
  obtain x where x: "ops b p = Some x" using host_op_alloc [OF c h] by blast
  have "bridge_inv W (b\<lparr>ops := (ops b)(p \<mapsto> x\<lparr>o_cancelled := True\<rparr>)\<rparr>)"
    by (rule bridge_write [OF i x]) (simp add: keeps_def)
  with wake_owner_inv i x show ?thesis by (simp add: hs_operation_cancel_def upd_op_def)
qed

subsection \<open>Common parts of the asynchronous calls\<close>

text \<open>A successful asynchronous call hands the host a reference to the operation it returns.\<close>

definition grant :: "ptr option \<Rightarrow> world \<Rightarrow> world" where
  "grant p W = W\<lparr>h_op := bumpo p 1 (h_op W)\<rparr>"

lemma grant_None [simp]: "grant None W = W"
  by (simp add: grant_def bumpo_def)

definition call_ok :: "world \<Rightarrow> ((int \<times> ptr option) \<times> bridge) option \<Rightarrow> bool" where
  "call_ok W r \<longleftrightarrow> (\<exists>rc p b'. r = Some ((rc, p), b') \<and> bridge_inv (grant p W) b')"

lemma call_okI: "bridge_inv (grant p W) b' \<Longrightarrow> call_ok W (Some ((rc, p), b'))"
  by (simp add: call_ok_def)

lemma call_rejected: "bridge_inv W b \<Longrightarrow> call_ok W (Some ((rc, None), b))"
  by (simp add: call_ok_def)

lemma bridge_invI:
  "making W = [] \<Longrightarrow> raising W = {} \<Longrightarrow> waiting W = ns \<Longrightarrow> inv_with W cs ns b \<Longrightarrow> phase_ok W cs ns b \<Longrightarrow> bridge_inv W b"
  by (auto simp: bridge_inv_def)

lemma bridge_invE:
  assumes "bridge_inv W b"
  obtains cs ns where "making W = []" "raising W = {}" "waiting W = ns" "inv_with W cs ns b" "phase_ok W cs ns b"
  using assms by (auto simp: bridge_inv_def)

text \<open>An instance that is not closing is live, so the runtime is running: commands may be queued.\<close>

lemma open_live:
  assumes "inv_with W cs ns b" "raising W = {}" "insts b q = Some s" "\<not> s_closing s"
  shows "q \<in> set (live_instances b)"
  using assms by (auto simp: inv_with_def shape_def)

lemma phase_enqueue:
  assumes "phase_ok W cs ns b" "q \<in> set (live_instances b)" "held W' = held W" "calling W' = calling W"
    "state b' = state b" "owner_done b' = owner_done b" "live_instances b' = live_instances b"
  shows "phase_ok W' (cs @ [p]) ns b'"
  using assms by (auto simp: phase_ok_def)

lemma undo_grant:
  assumes "making W = []"
  shows "W\<lparr>making := [], h_op := bump p (- 1) (bump p 1 (h_op W))\<rparr> = W"
proof -
  have "bump p (- 1) (bump p 1 (h_op W)) = h_op W" by (auto simp: bump_def)
  with assms show ?thesis by simp
qed

text \<open>Giving up the operation that was just built leaves the host's world as it was.\<close>

lemma abandon_new:
  assumes m: "making W = []" "raising W = {}" "waiting W = ns" and p: "phase_ok W cs ns b" and h: "h_op W p = 0"
    and i: "inv_with (W\<lparr>making := [p], h_op := bump p 1 (h_op W)\<rparr>) cs ns b1"
    and B: "state b1 = state b" "owner_done b1 = owner_done b" "live_instances b1 = live_instances b"
  obtains b' where "abandon p b1 = Some b'" "bridge_inv W b'"
proof -
  obtain b' where b': "abandon p b1 = Some b'" "fades b1 b'"
    "inv_with (W\<lparr>making := [p], h_op := bump p 1 (h_op W)\<rparr>\<lparr>making := [], h_op := bump p (- 1)
       (h_op (W\<lparr>making := [p], h_op := bump p 1 (h_op W)\<rparr>))\<rparr>) cs ns b'"
    by (rule abandon_inv [OF i, of p]) (use h in auto)
  have "inv_with W cs ns b'" using b'(3) undo_grant [OF m(1)] by simp
  moreover have "phase_ok W cs ns b'"
    by (rule phase_fade [OF _ b'(2)]) (use p B in \<open>simp_all add: phase_ok_def\<close>)
  ultimately have "bridge_inv W b'" by (rule bridge_invI [OF m])
  with b'(1) show ?thesis by (rule that)
qed

text \<open>Queueing an operation that is not a life-cycle one.\<close>

lemma enqueue_new:
  assumes m: "making W = []" "raising W = {}" "waiting W = ns" and p: "phase_ok W cs ns b" and l: "q \<in> set (live_instances b)"
    and i: "inv_with (W\<lparr>making := [p], h_op := h\<rparr>) cs ns b1" and x: "ops b1 p = Some x" "o_kind x \<notin> {1, 2, 5, 6}"
    and r: "o_kind x \<in> {4, 7} \<Longrightarrow> o_response x \<noteq> None"
    and B: "state b1 = state b" "owner_done b1 = owner_done b" "live_instances b1 = live_instances b"
  obtains b' where "enqueue e p b1 = Some b'" "inv_with (W\<lparr>h_op := h\<rparr>) (cs @ [p]) ns b'"
    "phase_ok (W\<lparr>h_op := h\<rparr>) (cs @ [p]) ns b'" "resps b' = resps b1" "insts b' = insts b1"
proof -
  let ?W = "W\<lparr>making := [p], h_op := h\<rparr>"
  obtain b' where b': "enqueue e p b1 = Some b'" "inv_with (?W\<lparr>making := []\<rparr>) (cs @ [p]) ns b'"
    "state b' = state b1" "owner_done b' = owner_done b1" "live_instances b' = live_instances b1"
    "insts b' = insts b1" "resps b' = resps b1"
  proof (rule enqueue_inv [OF i _ x(1)])
    show "life_ok ?W b1 x" using x(2) by (simp add: life_ok_def lifecycle_def)
    show "o_instance y \<noteq> o_instance x" if "lifecycle x" for y using that x(2) by (simp add: lifecycle_def)
  qed (use r in auto)
  have W: "?W\<lparr>making := []\<rparr> = W\<lparr>h_op := h\<rparr>" using m(1) by simp
  have "phase_ok (W\<lparr>h_op := h\<rparr>) (cs @ [p]) ns b'"
    by (rule phase_enqueue [OF p l]) (simp_all add: b'(3-5) B)
  then show ?thesis using that [OF b'(1)] b'(2,6,7) W by simp
qed

subsection \<open>Submitting a request\<close>

lemma submit_locked_inv:
  assumes inv: "bridge_inv W b" and h: "0 < h_inst W q" and al: "alloc_ok e b"
  shows "call_ok W (submit_locked q r hs tot cb ud e b)"
proof -
  obtain cs ns where m: "making W = []" "raising W = {}" "waiting W = ns" and i: "inv_with W cs ns b" and ph: "phase_ok W cs ns b"
    using inv by (rule bridge_invE)
  obtain s where s: "insts b q = Some s" using host_inst_alloc [OF i h] by blast
  show ?thesis
  proof (cases "s_closing s \<or> s_active s \<ge> s_capacity s")
    case True
    then show ?thesis using s call_rejected [OF inv] by (auto simp: submit_locked_def)
  next
    case False
    then have nc: "\<not> s_closing s" "\<not> s_active s \<ge> s_capacity s" by simp_all
    then have live: "q \<in> set (live_instances b)" using open_live [OF i m(2) s] by simp
    have fr: "\<And>p. sys_alloc e 0 = Some p \<Longrightarrow> ops b p = None" using al by (auto simp: alloc_ok_def)
    show ?thesis
    proof (rule new_op_inv [OF i m(1) s fr, of "sys_alloc e 0" 3 "Some cb" ud])
      assume "new_op 3 q (Some cb) ud (sys_alloc e 0) b = Some (None, b)"
      then show ?thesis using s nc call_rejected [OF inv] by (simp add: submit_locked_def)
    next
      fix p b1 s1
      let ?W1 = "W\<lparr>making := [p], h_op := bump p 1 (h_op W)\<rparr>"
      let ?x = "fresh_op (next_id b) 3 q (Some cb) ud"
      let ?cost = "tot + ucast (rq_header_count r) * (sizeof_header + 2) + 2"
      assume n: "new_op 3 q (Some cb) ud (sys_alloc e 0) b = Some (Some p, b1)" and i1: "inv_with ?W1 cs ns b1"
        and o1: "ops b1 = (ops b)(p \<mapsto> ?x)" and s1: "insts b1 q = Some s1" and h0: "h_op W p = 0"
        and B1: "live_instances b1 = live_instances b" "state b1 = state b" "owner_done b1 = owner_done b"
      note sub = submit_locked_def s n nc Let_def
      have ab: "\<exists>b'. abandon p b2 = Some b' \<and> bridge_inv W b'"
        if "inv_with ?W1 cs ns b2" "live_instances b2 = live_instances b" "state b2 = state b" "owner_done b2 = owner_done b" for b2
        using abandon_new [OF m ph h0 that(1) that(3,4,2)] by blast
      obtain ok b2 where c: "charge q ?cost b1 = Some (ok, b2)" using charge_total [OF s1] by blast
      show ?thesis
      proof (cases ok)
        case False
        then have "b2 = b1" using charge_False c by simp
        then obtain b' where "abandon p b2 = Some b'" "bridge_inv W b'" using ab [OF i1 B1] by blast
        then show ?thesis using c \<open>\<not> ok\<close> call_rejected by (simp add: sub)
      next
        case True
        then have c1: "charge (o_instance ?x) ?cost b1 = Some (True, b2)" using c by (simp add: fresh_op_def)
        have f2: "fades b1 b2" by (rule charge_fades [OF c])
        have o2: "ops b2 = ops b1" using arg_cong [OF charge_frame [OF c], of ops] by simp
        let ?x3 = "?x\<lparr>o_input_charge := ?cost\<rparr>"
        let ?b3 = "b2\<lparr>ops := (ops b2)(p \<mapsto> ?x3)\<rparr>"
        have i3: "inv_with ?W1 cs ns ?b3"
          by (rule charge_input_inv [OF i1 _ _ c1]) (simp_all add: o1 fresh_op_def)
        have B3: "live_instances ?b3 = live_instances b" "state ?b3 = state b" "owner_done ?b3 = owner_done b"
          using f2 B1 by (simp_all add: fades_def)
        have u3: "upd_op p (\<lambda>x. x\<lparr>o_input_charge := ?cost\<rparr>) b2 = Some ?b3" by (simp add: upd_op_def o2 o1)
        show ?thesis
        proof (cases "copy_request (sys_alloc e) r hs")
          case None
          moreover obtain b' where "abandon p ?b3 = Some b'" "bridge_inv W b'" using ab [OF i3 B3] by blast
          ultimately show ?thesis using c True u3 call_rejected by (simp add: sub)
        next
          case (Some mth)
          obtain me t hd where cp: "copy_request (sys_alloc e) r hs = Some (me, t, hd)" using Some by (cases mth) auto
          let ?x4 = "?x3\<lparr>o_method := me, o_target := t, o_headers := hd\<rparr>"
          let ?b4 = "?b3\<lparr>ops := (ops ?b3)(p \<mapsto> ?x4)\<rparr>"
          have i4: "inv_with ?W1 cs ns ?b4" by (rule write_op_inv [OF i3, of p ?x3]) (simp_all add: keeps_def)
          obtain b' where b': "enqueue e p ?b4 = Some b'" "inv_with (W\<lparr>h_op := bump p 1 (h_op W)\<rparr>) (cs @ [p]) ns b'"
            "phase_ok (W\<lparr>h_op := bump p 1 (h_op W)\<rparr>) (cs @ [p]) ns b'"
            by (rule enqueue_new [OF m ph live i4, of ?x4]) (use B3 in \<open>simp_all add: fresh_op_def\<close>)
          have "bridge_inv (W\<lparr>h_op := bump p 1 (h_op W)\<rparr>) b'" by (rule bridge_invI [OF _ _ _ b'(2,3)]) (use m in auto)
          then have "call_ok W (Some ((HS_OK, Some p), b'))" by (intro call_okI) (simp add: grant_def bumpo_def)
          moreover have "upd_op p (\<lambda>x. x\<lparr>o_method := me, o_target := t, o_headers := hd\<rparr>) ?b3 = Some ?b4"
            by (simp add: upd_op_def)
          ultimately show ?thesis using c True u3 cp b'(1) by (simp add: sub)
        qed
      qed
    qed
  qed
qed

subsection \<open>Reading and releasing a response\<close>

text \<open>
  The operation under construction takes a reference to a response; \<open>d\<close> references to the operation
  itself are given up (\<^verbatim>\<open>o->refs = 1\<close> of an internal operation).
\<close>

lemma attach_response_inv:
  assumes i: "inv_with W cs ns b" and m: "making W = [p]" and x: "ops b p = Some x" "o_response x = None"
    and r: "resps b q = Some r" and d: "0 \<le> d" "d \<le> h_op W p"
    and y: "o_refs y = o_refs x - d" "o_kind y = o_kind x" "o_done y = o_done x" "o_instance y = o_instance x"
      "o_input_charge y = o_input_charge x" "o_allocation_charge y = o_allocation_charge x" "o_response y = Some q"
      "o_event y = o_event x"
    and r': "r_refs r' = r_refs r + 1" "r_instance r' = r_instance r" "r_metadata_charge r' = r_metadata_charge r"
      "r_chunks r' = r_chunks r"
  shows "inv_with (W\<lparr>h_op := bump p (- d) (h_op W)\<rparr>) cs ns (b\<lparr>ops := (ops b)(p \<mapsto> y), resps := (resps b)(q \<mapsto> r')\<rparr>)"
proof (rule inv_fade [OF i])
  let ?E = "ext_of W cs ns b" and ?b = "b\<lparr>ops := (ops b)(p \<mapsto> y)\<rparr>"
  show "fades b (b\<lparr>ops := (ops b)(p \<mapsto> y), resps := (resps b)(q \<mapsto> r')\<rparr>)" using x y by (auto simp: fades_def)
  have wf: "wf_ext ?E" by (rule acct_wf_ext [OF inv_acct [OF i]])
  have p: "x_pipe ?E p = 1" using m by (simp add: ext_of_def pipeline_def)
  have "cell o_refs (ops b p) = x_pipe ?E p + x_op ?E p" using inv_acct [OF i] by (simp add: acct_def acct_op_def)
  then have "0 < o_refs y" using x p y(1) d by (simp add: ext_of_def)
  moreover have "0 < r_refs r" using inv_acct [OF i] r by (simp add: acct_def wf_heaps_def)
  moreover let ?E1 = "?E\<lparr>x_op := bump p (- d) (x_op ?E), x_resp := bump q (- 1) (x_resp ?E)\<rparr>"
  let ?E2 = "?E\<lparr>x_op := bump p (- d) (x_op ?E)\<rparr>"
  let ?b1 = "b\<lparr>resps := (resps b)(q \<mapsto> r')\<rparr>"
  have w2: "wf_ext ?E2" using wf d by (simp add: wf_ext_def ext_of_def)
  have a1: "acct (?E\<lparr>x_resp := bump q 1 (x_resp ?E)\<rparr>) ?b1"
  proof (rule acct_write_resp [OF inv_acct [OF i] r])
    show "ext_eq (move_resp q (Some r) (Some r') ?E) (?E\<lparr>x_resp := bump q 1 (x_resp ?E)\<rparr>)"
      using r' by (simp add: ext_eq_def move_resp_def counted_defs)
    show "wf_ext (?E\<lparr>x_resp := bump q 1 (x_resp ?E)\<rparr>)" using wf by (simp add: wf_ext_def)
  qed (use r' \<open>0 < r_refs r\<close> in simp)
  have a2: "acct ?E2 (?b1\<lparr>ops := (ops ?b1)(p \<mapsto> y)\<rparr>)"
  proof (rule acct_write_op [OF a1, of p "Some x"])
    show "ext_eq (move_op p (Some x) (Some y) (?E\<lparr>x_resp := bump q 1 (x_resp ?E)\<rparr>)) ?E2"
      using x y by (simp add: ext_eq_def move_op_def counted_defs)
  qed (use x w2 \<open>0 < o_refs y\<close> in auto)
  have "acct (ext_of (W\<lparr>h_op := bump p (- d) (h_op W)\<rparr>) cs ns b) (?b1\<lparr>ops := (ops ?b1)(p \<mapsto> y)\<rparr>)"
    by (rule acct_eqI [OF a2]) (simp add: ext_eq_def ext_of_def)
  then show "acct (ext_of (W\<lparr>h_op := bump p (- d) (h_op W)\<rparr>) cs ns b) (b\<lparr>ops := (ops b)(p \<mapsto> y), resps := (resps b)(q \<mapsto> r')\<rparr>)"
    by (rule acct_same) simp_all
qed (simp_all add: inv_nonneg [OF i])

lemma read_async_inv:
  assumes inv: "bridge_inv W b" and h: "0 < h_resp W q" and al: "alloc_ok e b"
  shows "call_ok W (hs_response_read_async (Some q) n cb ud out e b)"
proof -
  obtain cs ns where m: "making W = []" "raising W = {}" "waiting W = ns" and i: "inv_with W cs ns b" and ph: "phase_ok W cs ns b"
    using inv by (rule bridge_invE)
  obtain r where r: "resps b q = Some r" using host_resp_alloc [OF i h] by blast
  obtain s where s: "insts b (r_instance r) = Some s" using acct_resp_inst [OF inv_acct [OF i] r] by blast
  note rej = call_rejected [OF inv]
  show ?thesis
  proof (cases "cb = None \<or> \<not> out \<or> r_released r \<or> s_closing s \<or> r_reading r \<or> s_active s \<ge> s_capacity s")
    case True
    then show ?thesis using r s rej by (auto simp: hs_response_read_async_def)
  next
    case False
    then have nc: "cb \<noteq> None" "out" "\<not> r_released r" "\<not> s_closing s" "\<not> r_reading r" "\<not> s_active s \<ge> s_capacity s" by simp_all
    note live = open_live [OF i m(2) s nc(4)]
    have fr: "\<And>p. sys_alloc e 0 = Some p \<Longrightarrow> ops b p = None" using al by (auto simp: alloc_ok_def)
    note rd = hs_response_read_async_def r s nc
    show ?thesis
    proof (rule new_op_inv [OF i m(1) s fr, of "sys_alloc e 0" 4 cb ud])
      assume "new_op 4 (r_instance r) cb ud (sys_alloc e 0) b = Some (None, b)"
      then show ?thesis using rej by (simp add: rd)
    next
      fix p b1
      let ?W1 = "W\<lparr>making := [p], h_op := bump p 1 (h_op W)\<rparr>"
      let ?x = "fresh_op (next_id b) 4 (r_instance r) cb ud"
      assume n: "new_op 4 (r_instance r) cb ud (sys_alloc e 0) b = Some (Some p, b1)" and i1: "inv_with ?W1 cs ns b1"
        and o1: "ops b1 = (ops b)(p \<mapsto> ?x)" and h0: "h_op W p = 0" and rs: "resps b1 = resps b"
        and B1: "live_instances b1 = live_instances b" "state b1 = state b" "owner_done b1 = owner_done b"
      let ?y = "?x\<lparr>o_response := Some q, o_max_bytes := read_size n (s_block_size s)\<rparr>"
      let ?r = "r\<lparr>r_refs := r_refs r + 1, r_reading := True\<rparr>"
      let ?b2 = "b1\<lparr>ops := (ops b1)(p \<mapsto> ?y), resps := (resps b1)(q \<mapsto> ?r)\<rparr>"
      have "inv_with (?W1\<lparr>h_op := bump p (- 0) (h_op ?W1)\<rparr>) cs ns ?b2"
        by (rule attach_response_inv [OF i1, of p ?x q r 0]) (simp_all add: o1 rs r h0 fresh_op_def)
      then have i2: "inv_with ?W1 cs ns ?b2" by (simp add: bump_def)
      obtain b' where b': "enqueue e p ?b2 = Some b'" "inv_with (W\<lparr>h_op := bump p 1 (h_op W)\<rparr>) (cs @ [p]) ns b'"
        "phase_ok (W\<lparr>h_op := bump p 1 (h_op W)\<rparr>) (cs @ [p]) ns b'"
        by (rule enqueue_new [OF m ph live i2, of ?y]) (use B1 in \<open>simp_all add: fresh_op_def\<close>)
      have "bridge_inv (W\<lparr>h_op := bump p 1 (h_op W)\<rparr>) b'" by (rule bridge_invI [OF _ _ _ b'(2,3)]) (use m in auto)
      then have "call_ok W (Some ((HS_OK, Some p), b'))" by (intro call_okI) (simp add: grant_def bumpo_def)
      moreover have "upd_op p (\<lambda>x. x\<lparr>o_response := Some q, o_max_bytes := read_size n (s_block_size s)\<rparr>) b1
          = Some (b1\<lparr>ops := (ops b1)(p \<mapsto> ?y)\<rparr>)" by (simp add: upd_op_def o1)
      moreover have "upd_resp q (\<lambda>r. r\<lparr>r_refs := r_refs r + 1, r_reading := True\<rparr>) (b1\<lparr>ops := (ops b1)(p \<mapsto> ?y)\<rparr>)
          = Some ?b2" by (simp add: upd_resp_def rs r)
      ultimately show ?thesis using n b'(1) by (simp add: rd)
    qed
  qed
qed

text \<open>Writing fields of a response or an instance that no counter depends on.\<close>

lemma write_resp_inv:
  assumes i: "inv_with W cs ns b" and r: "resps b q = Some r" "r_refs r' = r_refs r" "r_instance r' = r_instance r"
    "r_metadata_charge r' = r_metadata_charge r" "r_chunks r' = r_chunks r"
  shows "inv_with W cs ns (b\<lparr>resps := (resps b)(q \<mapsto> r')\<rparr>)"
proof (rule inv_fade [OF i])
  show "fades b (b\<lparr>resps := (resps b)(q \<mapsto> r')\<rparr>)" by (simp add: fades_def)
  have "0 < r_refs r" using inv_acct [OF i] r by (simp add: acct_def wf_heaps_def)
  then show "acct (ext_of W cs ns b) (b\<lparr>resps := (resps b)(q \<mapsto> r')\<rparr>)"
    by (intro acct_write_resp [OF inv_acct [OF i] r(1)])
      (use r acct_wf_ext [OF inv_acct [OF i]] in \<open>simp_all add: ext_eq_def move_resp_def counted_defs\<close>)
qed (simp_all add: inv_nonneg [OF i])

lemma write_inst_inv:
  assumes i: "inv_with W cs ns b" and s: "insts b q = Some s" "s_refs s' = s_refs s" "s_active s' = s_active s"
    "s_notifications s' = s_notifications s" "s_response_count s' = s_response_count s" "s_charged s' = s_charged s"
    "s_closing s \<Longrightarrow> s_closing s'"
  shows "inv_with W cs ns (b\<lparr>insts := (insts b)(q \<mapsto> s')\<rparr>)"
proof (rule inv_fade [OF i])
  show "fades b (b\<lparr>insts := (insts b)(q \<mapsto> s')\<rparr>)" using s by (auto simp: fades_def)
  have "0 < s_refs s" using inv_acct [OF i] s by (simp add: acct_def wf_heaps_def)
  then show "acct (ext_of W cs ns b) (b\<lparr>insts := (insts b)(q \<mapsto> s')\<rparr>)"
    by (intro acct_write_inst_only [OF inv_acct [OF i] s(1)])
      (use s acct_wf_ext [OF inv_acct [OF i]] in \<open>simp_all add: ext_eq_def move_inst_def\<close>)
qed (simp_all add: inv_nonneg [OF i])

end
