(* ===== verification/Bridge_Release.thy ===== *)
theory Bridge_Release
  imports Bridge_Host
begin

text \<open>
  Releasing responses and chunks, closing and creating instances: the host calls that move
  references between objects.
\<close>

subsection \<open>Releasing a response\<close>

lemma phase_same:
  "phase_ok W cs ns b \<Longrightarrow> state b' = state b \<Longrightarrow> owner_done b' = owner_done b \<Longrightarrow>
   live_instances b' = live_instances b \<Longrightarrow> held W' = held W \<Longrightarrow> calling W' = calling W \<Longrightarrow> phase_ok W' cs ns b'"
  by (simp add: phase_ok_def)

lemma release_notice_inv:
  assumes m: "making W = []" "raising W = {}" "waiting W = ns" and i: "inv_with W cs ns b" and ph: "phase_ok W cs ns b"
    and r: "resps b q = Some r'" "r_instance r' = r_instance r" and al: "alloc_ok e b"
  obtains b' cs' where "release_notice e q r b = Some b'" "inv_with W cs' ns b'" "phase_ok W cs' ns b'"
proof -
  obtain s where s: "insts b (r_instance r) = Some s" using acct_resp_inst [OF inv_acct [OF i] r(1)] r(2) by auto
  show thesis
  proof (cases "s_closing s")
    case True
    with s that [OF _ i ph] show ?thesis by (simp add: release_notice_def)
  next
    case nc: False
    note live = open_live [OF i m(2) s nc]
    have fr: "\<And>p. sys_alloc e 0 = Some p \<Longrightarrow> ops b p = None" using al by (auto simp: alloc_ok_def)
    show thesis
    proof (rule new_op_inv [OF i m(1) s fr, of "sys_alloc e 0" 7 None 0])
      assume "new_op 7 (r_instance r) None 0 (sys_alloc e 0) b = Some (None, b)"
      with s nc that [OF _ i ph] show ?thesis by (simp add: release_notice_def)
    next
      fix p b1
      let ?W1 = "W\<lparr>making := [p], h_op := bump p 1 (h_op W)\<rparr>"
      let ?x = "fresh_op (next_id b) 7 (r_instance r) None 0"
      assume n: "new_op 7 (r_instance r) None 0 (sys_alloc e 0) b = Some (Some p, b1)" and i1: "inv_with ?W1 cs ns b1"
        and o1: "ops b1 = (ops b)(p \<mapsto> ?x)" and h0: "h_op W p = 0" and rs: "resps b1 = resps b"
        and B1: "live_instances b1 = live_instances b" "state b1 = state b" "owner_done b1 = owner_done b"
      let ?y = "?x\<lparr>o_refs := 1, o_internal := True, o_response := Some q\<rparr>"
      let ?r = "r'\<lparr>r_refs := r_refs r' + 1\<rparr>"
      let ?b2 = "b1\<lparr>ops := (ops b1)(p \<mapsto> ?y), resps := (resps b1)(q \<mapsto> ?r)\<rparr>"
      have "inv_with (?W1\<lparr>h_op := bump p (- 1) (h_op ?W1)\<rparr>) cs ns ?b2"
        by (rule attach_response_inv [OF i1, of p ?x q r' 1]) (simp_all add: o1 rs r h0 fresh_op_def)
      moreover have "bump p (- 1) (bump p 1 (h_op W)) = h_op W" by (auto simp: bump_def)
      ultimately have i2: "inv_with (W\<lparr>making := [p], h_op := h_op W\<rparr>) cs ns ?b2" by simp
      obtain b' where b': "enqueue e p ?b2 = Some b'" "inv_with (W\<lparr>h_op := h_op W\<rparr>) (cs @ [p]) ns b'"
        "phase_ok (W\<lparr>h_op := h_op W\<rparr>) (cs @ [p]) ns b'"
        by (rule enqueue_new [OF m ph live i2, of ?y]) (use B1 in \<open>simp_all add: fresh_op_def\<close>)
      have "upd_op p (\<lambda>x. x\<lparr>o_refs := 1, o_internal := True, o_response := Some q\<rparr>) b1
          = Some (b1\<lparr>ops := (ops b1)(p \<mapsto> ?y)\<rparr>)" by (simp add: upd_op_def o1)
      moreover have "upd_resp q (\<lambda>r. r\<lparr>r_refs := r_refs r + 1\<rparr>) (b1\<lparr>ops := (ops b1)(p \<mapsto> ?y)\<rparr>) = Some ?b2"
        by (simp add: upd_resp_def rs r)
      ultimately have "release_notice e q r b = Some b'" using s nc n b'(1) by (simp add: release_notice_def)
      then show ?thesis using that b'(2,3) by simp
    qed
  qed
qed

lemma response_release_inv:
  assumes inv: "bridge_inv W b" and h: "0 < h_resp W q" and al: "alloc_ok e b"
  shows "\<exists>b'. hs_response_release e (Some q) b = Some b' \<and> bridge_inv (W\<lparr>h_resp := bump q (- 1) (h_resp W)\<rparr>) b'"
proof -
  obtain cs ns where m: "making W = []" "raising W = {}" "waiting W = ns" and i: "inv_with W cs ns b" and ph: "phase_ok W cs ns b"
    using inv by (rule bridge_invE)
  obtain r where r: "resps b q = Some r" using host_resp_alloc [OF i h] by blast
  have fin: "\<exists>b'. response_drop (Some q) b2 = Some b' \<and> bridge_inv (W\<lparr>h_resp := bump q (- 1) (h_resp W)\<rparr>) b'"
    if i2: "inv_with W cs2 ns b2" and p2: "phase_ok W cs2 ns b2" for cs2 b2
  proof -
    obtain b' where b': "response_drop (Some q) b2 = Some b'" "fades b2 b'"
      "inv_with (W\<lparr>h_resp := bump q (- 1) (h_resp W)\<rparr>) cs2 ns b'"
      by (rule response_drop_inv [OF i2 h])
    have "phase_ok (W\<lparr>h_resp := bump q (- 1) (h_resp W)\<rparr>) cs2 ns b'" by (rule phase_fade [OF p2 b'(2)]) simp_all
    with b' m show ?thesis by (auto intro: bridge_invI)
  qed
  show ?thesis
  proof (cases "r_released r")
    case True
    with fin [OF i ph] r show ?thesis by (simp add: hs_response_release_def)
  next
    case False
    let ?r = "r\<lparr>r_released := True\<rparr>"
    let ?b1 = "b\<lparr>resps := (resps b)(q \<mapsto> ?r)\<rparr>"
    have i1: "inv_with W cs ns ?b1" by (rule write_resp_inv [OF i r]) simp_all
    have p1: "phase_ok W cs ns ?b1" by (rule phase_same [OF ph]) simp_all
    obtain b2 cs2 where "release_notice e q r ?b1 = Some b2" "inv_with W cs2 ns b2" "phase_ok W cs2 ns b2"
      by (rule release_notice_inv [OF m i1 p1, of q ?r r e]) (use al r in \<open>auto simp: alloc_ok_def\<close>)
    with fin [of cs2 b2] r False show ?thesis by (simp add: hs_response_release_def upd_resp_def)
  qed
qed

subsection \<open>Releasing a chunk\<close>

text \<open>The chunk's cell plays no part in the drops, so it can be taken out of the heap first.\<close>

lemma uncharge_chunks: "uncharge p n (b\<lparr>chunks := h\<rparr>) = map_option (\<lambda>b. b\<lparr>chunks := h\<rparr>) (uncharge p n b)"
  by (cases "insts b p") (simp_all add: uncharge_def)

lemma instance_drop_chunks: "instance_drop p (b\<lparr>chunks := h\<rparr>) = map_option (\<lambda>b. b\<lparr>chunks := h\<rparr>) (instance_drop p b)"
  by (cases "insts b p") (simp_all add: instance_drop_def)

lemma upd_resp_chunks: "upd_resp p f (b\<lparr>chunks := h\<rparr>) = map_option (\<lambda>b. b\<lparr>chunks := h\<rparr>) (upd_resp p f b)"
  by (cases "resps b p") (simp_all add: upd_resp_def)

lemma release_response_chunks:
  "release_response r (b\<lparr>chunks := h\<rparr>) = map_option (\<lambda>b. b\<lparr>chunks := h\<rparr>) (release_response r b)"
  by (cases "insts b (r_instance r)") (auto simp: release_response_def uncharge_def upd_inst_def instance_drop_def)

lemma response_drop_chunks:
  "response_drop q (b\<lparr>chunks := h\<rparr>) = map_option (\<lambda>b. b\<lparr>chunks := h\<rparr>) (response_drop q b)"
proof (cases q)
  case (Some p)
  then show ?thesis
    by (cases "resps b p"; cases "release_response (the (resps b p)) b")
      (auto simp: response_drop_def release_response_chunks)
qed (simp add: response_drop_def)

definition chunk_drops :: "hs_chunk \<Rightarrow> bridge \<Rightarrow> bridge option" where
  "chunk_drops c b = do {
     b \<leftarrow> uncharge (c_instance c) (c_length c) b;
     b \<leftarrow> release_chunk_response c b;
     instance_drop (c_instance c) b
   }"

lemma chunk_drops_chunks:
  "chunk_drops c (b\<lparr>chunks := h\<rparr>) = map_option (\<lambda>b. b\<lparr>chunks := h\<rparr>) (chunk_drops c b)"
proof -
  have [simp]: "(map_option (\<lambda>b. b\<lparr>chunks := h\<rparr>) m) \<bind> f = m \<bind> (\<lambda>b. f (b\<lparr>chunks := h\<rparr>))" for m f
    by (cases m) simp_all
  have [simp]: "map_option (\<lambda>b. b\<lparr>chunks := h\<rparr>) (m \<bind> f) = m \<bind> (\<lambda>b. map_option (\<lambda>b. b\<lparr>chunks := h\<rparr>) (f b))" for m f
    by (cases m) simp_all
  have "release_chunk_response c (b\<lparr>chunks := h\<rparr>) = map_option (\<lambda>b. b\<lparr>chunks := h\<rparr>) (release_chunk_response c b)" for b
    by (simp add: release_chunk_response_def upd_resp_chunks response_drop_chunks split: option.splits)
  then show ?thesis by (simp add: chunk_drops_def uncharge_chunks instance_drop_chunks)
qed

lemma chunk_drops_acct:
  assumes a: "acct E b" and i: "0 < x_inst E (c_instance c)"
    and r: "\<And>p. c_response c = Some p \<Longrightarrow> 0 < x_resp E p"
    and z: "\<And>p. x_credit E p = (if p = c_instance c then uint (c_length c) else 0)" "\<And>p. x_count E p = 0"
      "\<And>p. x_act E p = 0" "\<And>p. x_note E p = 0" "\<And>p. x_rch E p = (if c_response c = Some p then 1 else 0)"
  shows "\<exists>b'. chunk_drops c b = Some b' \<and> acct (E\<lparr>x_inst := bump (c_instance c) (- 1) (x_inst E),
     x_resp := bumpo (c_response c) (- 1) (x_resp E), x_credit := \<lambda>_. 0, x_rch := \<lambda>_. 0\<rparr>) b'"
proof -
  let ?i = "c_instance c" and ?n = "c_length c"
  obtain s where s: "insts b ?i = Some s" using acct_ext_inst [OF a i] by blast
  obtain b1 where b1: "uncharge ?i ?n b = Some b1" "acct (E\<lparr>x_credit := bump ?i (- uint ?n) (x_credit E)\<rparr>) b1"
    using uncharge_acct [OF a _ s, of ?n] z(1) by auto
  let ?E1 = "E\<lparr>x_credit := \<lambda>_. 0\<rparr>"
  have a1: "acct ?E1 b1" by (rule acct_eqI [OF b1(2)]) (simp add: ext_eq_def z(1))
  let ?E2 = "E\<lparr>x_credit := \<lambda>_. 0, x_rch := \<lambda>_. 0, x_resp := bumpo (c_response c) (- 1) (x_resp E)\<rparr>"
  obtain b2 where b2: "release_chunk_response c b1 = Some b2" "acct ?E2 b2"
  proof (cases "c_response c")
    case None
    have "acct ?E2 b1" by (rule acct_eqI [OF a1]) (simp add: ext_eq_def z(5) None)
    then show thesis by (rule that [rotated]) (simp add: release_chunk_response_def None)
  next
    case (Some q)
    obtain rr where rr: "resps b1 q = Some rr" using acct_ext_resp [OF a1, of q] r [OF Some] by auto
    let ?r = "rr\<lparr>r_chunks := r_chunks rr - 1\<rparr>" and ?E = "E\<lparr>x_credit := \<lambda>_. 0, x_rch := \<lambda>_. 0\<rparr>"
    have a2: "acct ?E (b1\<lparr>resps := (resps b1)(q := Some ?r)\<rparr>)"
    proof (rule acct_write_resp [OF a1 rr])
      show "ext_eq (move_resp q (Some rr) (Some ?r) ?E1) ?E"
        by (simp add: ext_eq_def move_resp_def counted_defs z(5) Some)
      show "wf_ext ?E" using acct_wf_ext [OF a1] by (simp add: wf_ext_def)
      show "0 < r_refs r" if "Some ?r = Some r" for r using that a1 rr by (auto simp: acct_def wf_heaps_def)
    qed
    obtain b2 where "response_drop (Some q) (b1\<lparr>resps := (resps b1)(q := Some ?r)\<rparr>) = Some b2"
      "acct (?E\<lparr>x_resp := bumpo (Some q) (- 1) (x_resp ?E)\<rparr>) b2"
      using response_drop_acct [OF a2, of "Some q"] z r Some by auto
    then show thesis by (intro that [of b2]) (simp_all add: release_chunk_response_def Some upd_resp_def rr)
  qed
  obtain b3 where b3: "instance_drop ?i b2 = Some b3" "acct (?E2\<lparr>x_inst := bump ?i (- 1) (x_inst ?E2)\<rparr>) b3"
    using instance_drop_acct [OF b2(2), of ?i] z i by auto
  have "chunk_drops c b = Some b3" using b1(1) b2(1) b3(1) by (simp add: chunk_drops_def)
  moreover have "acct (E\<lparr>x_inst := bump ?i (- 1) (x_inst E), x_resp := bumpo (c_response c) (- 1) (x_resp E),
      x_credit := \<lambda>_. 0, x_rch := \<lambda>_. 0\<rparr>) b3"
    by (rule acct_eqI [OF b3(2)]) (simp add: ext_eq_def)
  ultimately show ?thesis by blast
qed

lemma release_chunk_response_fades: "release_chunk_response c b = Some b' \<Longrightarrow> fades b b'"
  by (auto simp: release_chunk_response_def bind_eq_Some_conv split: option.splits
      dest!: upd_resp_fades response_drop_fades intro: fades_trans)

lemma chunk_drops_fades: "chunk_drops c b = Some b' \<Longrightarrow> fades b b'"
  by (auto simp: chunk_drops_def bind_eq_Some_conv
      dest!: uncharge_fades release_chunk_response_fades instance_drop_fades intro: fades_trans)

lemma chunk_release_inv:
  assumes inv: "bridge_inv W b" and q: "q \<in> h_chunk W"
  shows "\<exists>b'. hs_chunk_release e (Some q) b = Some b' \<and> bridge_inv (W\<lparr>h_chunk := h_chunk W - {q}\<rparr>) b'"
proof -
  obtain cs ns where m: "making W = []" "raising W = {}" "waiting W = ns" and i: "inv_with W cs ns b" and ph: "phase_ok W cs ns b"
    using inv by (rule bridge_invE)
  let ?E = "ext_of W cs ns b" and ?W = "W\<lparr>h_chunk := h_chunk W - {q}\<rparr>"
  have "dom (chunks b) = h_chunk W" using inv_shape [OF i] by (simp add: shape_def)
  then obtain c where c: "chunks b q = Some c" using q by blast
  let ?E1 = "?E\<lparr>x_inst := bump (c_instance c) 1 (x_inst ?E), x_resp := bumpo (c_response c) 1 (x_resp ?E),
     x_credit := bump (c_instance c) (uint (c_length c)) (x_credit ?E), x_rch := bumpo (c_response c) 1 (x_rch ?E)\<rparr>"
  have wf: "wf_ext ?E" by (rule acct_wf_ext [OF inv_acct [OF i]])
  let ?h = "(chunks b)(q := None)"
  have a1: "acct ?E1 (b\<lparr>chunks := ?h\<rparr>)"
    by (rule acct_write_chunk [OF inv_acct [OF i] c])
      (use wf in \<open>simp_all add: ext_eq_def move_chunk_def counted_defs wf_ext_def\<close>)
  have nn: "0 \<le> x_inst ?E p" "0 \<le> x_resp ?E p" for p using wf by (simp_all add: wf_ext_def)
  have "\<exists>b'. chunk_drops c (b\<lparr>chunks := ?h\<rparr>) = Some b' \<and> acct (?E1\<lparr>x_inst := bump (c_instance c) (- 1) (x_inst ?E1),
     x_resp := bumpo (c_response c) (- 1) (x_resp ?E1), x_credit := \<lambda>_. 0, x_rch := \<lambda>_. 0\<rparr>) b'"
    by (rule chunk_drops_acct [OF a1]) (use nn in \<open>simp_all add: add_nonneg_pos\<close>, simp_all add: ext_of_def)
  then obtain b2 where b2: "chunk_drops c (b\<lparr>chunks := ?h\<rparr>) = Some b2" "acct (?E1\<lparr>x_inst := bump (c_instance c) (- 1) (x_inst ?E1),
     x_resp := bumpo (c_response c) (- 1) (x_resp ?E1), x_credit := \<lambda>_. 0, x_rch := \<lambda>_. 0\<rparr>) b2"
    by blast
  have a2: "acct (ext_of ?W cs ns (b\<lparr>chunks := ?h\<rparr>)) b2"
    by (rule acct_eqI [OF b2(2)]) (simp add: ext_eq_def ext_of_def)
  obtain b3 where b3: "chunk_drops c b = Some b3" "b2 = b3\<lparr>chunks := ?h\<rparr>"
    using b2(1) by (auto simp: chunk_drops_chunks)
  have f: "fades (b\<lparr>chunks := ?h\<rparr>) b2" by (rule chunk_drops_fades [OF b2(1)])
  have sh: "shape ?W cs ns (b\<lparr>chunks := ?h\<rparr>)"
  proof -
    have "op_ok ?W cs (b\<lparr>chunks := ?h\<rparr>) p x = op_ok W cs b p x" for p x by (simp add: op_ok_def life_ok_def)
    then show ?thesis using inv_shape [OF i] c by (auto simp: shape_def)
  qed
  have "shape ?W cs ns b2" by (rule shape_fade [OF sh f]) (use inv_nonneg [OF i] in simp_all)
  moreover have "acct (ext_of ?W cs ns b2) b2"
  proof -
    have "ops b2 p \<noteq> None" if "p \<in> set (held ?W)" for p
      by (rule pipeline_alloc [OF a2]) (use that in \<open>simp add: ext_of_def pipeline_def\<close>)
    then have "due (held ?W) (ops b2) p = due (held ?W) (ops (b\<lparr>chunks := ?h\<rparr>)) p" for p by (rule due_fade [OF f])
    then have "ext_of ?W cs ns b2 = ext_of ?W cs ns (b\<lparr>chunks := ?h\<rparr>)" using f by (simp add: ext_of_def fades_def)
    with a2 show ?thesis by simp
  qed
  ultimately have i2: "inv_with ?W cs ns b2" by (simp add: inv_with_def)
  have "phase_ok ?W cs ns b2" by (rule phase_fade [OF _ f]) (use ph in \<open>simp_all add: phase_ok_def\<close>)
  with i2 have "bridge_inv ?W b2" using m by (auto intro: bridge_invI)
  then have w: "bridge_inv ?W (wake_owner e b2)" by (rule wake_owner_inv)
  have "b3 = b3\<lparr>chunks := chunks b\<rparr>" using chunk_drops_chunks [of c "chunks b" b] b3(1) by simp
  then have "chunks b3 = chunks b" by (rule ssubst) simp
  then have "hs_chunk_release e (Some q) b = Some ((wake_owner e b3)\<lparr>chunks := ?h\<rparr>)"
    using c b3(1) by (auto simp: hs_chunk_release_def chunk_drops_def bind_eq_Some_conv)
  moreover have "(wake_owner e b3)\<lparr>chunks := ?h\<rparr> = wake_owner e b2"
    by (simp add: b3(2) wake_owner_def)
  ultimately show ?thesis using w by simp
qed

subsection \<open>Closing an instance\<close>

lemma close_async_inv:
  assumes inv: "bridge_inv W b" and h: "0 < h_inst W q" and al: "alloc_ok e b"
  shows "call_ok W (close_async (Some q) cb ud out e b)"
proof -
  obtain cs ns where m: "making W = []" "raising W = {}" "waiting W = ns" and i: "inv_with W cs ns b" and ph: "phase_ok W cs ns b"
    using inv by (rule bridge_invE)
  obtain s where s: "insts b q = Some s" using host_inst_alloc [OF i h] by blast
  note rej = call_rejected [OF inv]
  show ?thesis
  proof (cases "cb = None \<or> \<not> out \<or> s_closing s")
    case True
    then show ?thesis using s rej by (auto simp: close_async_def)
  next
    case False
    then have nc: "cb \<noteq> None" "out" "\<not> s_closing s" by simp_all
    note live = open_live [OF i m(2) s nc(3)]
    have fr: "\<And>p. sys_alloc e 0 = Some p \<Longrightarrow> ops b p = None" using al by (auto simp: alloc_ok_def)
    let ?k = "if s_server s then 6 else 5 :: int"
    note cl = close_async_def s nc
    show ?thesis
    proof (rule new_op_inv [OF i m(1) s fr, of "sys_alloc e 0" ?k cb ud])
      assume "new_op ?k q cb ud (sys_alloc e 0) b = Some (None, b)"
      then show ?thesis using rej by (simp add: cl)
    next
      fix p b1 s1
      let ?W1 = "W\<lparr>making := [p], h_op := bump p 1 (h_op W)\<rparr>"
      let ?x = "fresh_op (next_id b) ?k q cb ud"
      assume n: "new_op ?k q cb ud (sys_alloc e 0) b = Some (Some p, b1)" and i1: "inv_with ?W1 cs ns b1"
        and o1: "ops b1 = (ops b)(p \<mapsto> ?x)" and s1: "insts b1 q = Some s1"
        and B1: "live_instances b1 = live_instances b" "state b1 = state b" "owner_done b1 = owner_done b"
      let ?b2 = "b1\<lparr>insts := (insts b1)(q \<mapsto> s1\<lparr>s_closing := True\<rparr>)\<rparr>"
      have i2: "inv_with ?W1 cs ns ?b2" by (rule write_inst_inv [OF i1 s1]) simp_all
      have kk: "o_kind ?x \<in> {5, 6}" "o_instance ?x = q" by (simp_all add: fresh_op_def)
      have other: "o_instance y \<noteq> q" if y: "p' \<noteq> p" "ops ?b2 p' = Some y" "lifecycle y" for p' y
      proof
        assume e: "o_instance y = q"
        have "ops b p' = Some y" using y(1,2) o1 by simp
        then have "op_ok W cs b p' y" using inv_shape [OF i] by (simp add: shape_def)
        then have "life_ok W b y" using m by (simp add: op_ok_def)
        with y(3) e h s nc(3) show False by (auto simp: life_ok_def lifecycle_def)
      qed
      obtain b' where b': "enqueue e p ?b2 = Some b'" "inv_with (?W1\<lparr>making := []\<rparr>) (cs @ [p]) ns b'"
        "state b' = state ?b2" "owner_done b' = owner_done ?b2" "live_instances b' = live_instances ?b2"
      proof (rule enqueue_inv [OF i2, of p ?x e])
        show "life_ok ?W1 ?b2 ?x" using kk live B1(1) by (simp add: life_ok_def fresh_op_def)
        show "o_instance y \<noteq> o_instance ?x" if "p' \<noteq> p" "ops ?b2 p' = Some y" "lifecycle y" for p' y
          using other [OF that] kk(2) by simp
      qed (use kk o1 in \<open>auto\<close>)
      have "phase_ok (?W1\<lparr>making := []\<rparr>) (cs @ [p]) ns b'"
        by (rule phase_enqueue [OF ph live]) (simp_all add: b'(3-5) B1)
      then have "bridge_inv (?W1\<lparr>making := []\<rparr>) b'" by (intro bridge_invI [OF _ _ _ b'(2)]) (use m in auto)
      moreover have "?W1\<lparr>making := []\<rparr> = grant (Some p) W" using m(1) by (simp add: grant_def bumpo_def)
      ultimately have "call_ok W (Some ((HS_OK, Some p), b'))" by (intro call_okI) simp
      moreover have "upd_inst q (\<lambda>s. s\<lparr>s_closing := True\<rparr>) b1 = Some ?b2" by (simp add: upd_inst_def s1)
      ultimately show ?thesis using n b'(1) by (simp add: cl)
    qed
  qed
qed

end
