(* ===== verification/Bridge_Create.thy ===== *)
theory Bridge_Create
  imports Bridge_Release
begin

text \<open>
  Creating an instance. The new instance belongs to the call (\<open>raising\<close>) until it enters the live
  list together with its first operation, or is freed again on a failure path.
\<close>

lemma unallocated_inst:
  assumes i: "inv_with W cs ns b" and s: "insts b sp = None"
  shows "h_inst W sp = 0" "sp \<notin> set (live_instances b)" "\<And>q x. ops b q = Some x \<Longrightarrow> o_instance x \<noteq> sp"
proof -
  have "\<not> 0 < x_inst (ext_of W cs ns b) sp" using acct_ext_inst [OF inv_acct [OF i], of sp] s by auto
  then have "h_inst W sp + of_bool (sp \<in> set (live_instances b)) \<le> 0" by (simp add: ext_of_def)
  then show "h_inst W sp = 0" "sp \<notin> set (live_instances b)"
    using inv_nonneg(1) [OF i, of sp] by (cases "sp \<in> set (live_instances b)", simp_all)+
  show "o_instance x \<noteq> sp" if "ops b q = Some x" for q x
    using acct_op_inst [OF inv_acct [OF i] that] s by auto
qed

lemma raise_inv:
  assumes i: "inv_with W cs ns b" and r: "raising W = {}" and s: "insts b sp = None"
  shows "inv_with (W\<lparr>h_inst := bump sp 1 (h_inst W), raising := {sp}\<rparr>) cs ns
    (b\<lparr>insts := (insts b)(sp \<mapsto> new_instance n srv), next_id := n'\<rparr>)"
proof -
  let ?W = "W\<lparr>h_inst := bump sp 1 (h_inst W), raising := {sp}\<rparr>"
  let ?s = "new_instance n srv" and ?b = "b\<lparr>insts := (insts b)(sp \<mapsto> new_instance n srv), next_id := n'\<rparr>"
  let ?E = "ext_of W cs ns b"
  have a: "acct (?E\<lparr>x_inst := bump sp 1 (x_inst ?E)\<rparr>) (b\<lparr>insts := (insts b)(sp := Some ?s), retained_bytes := retained_bytes b\<rparr>)"
  proof (rule acct_write_inst [OF inv_acct [OF i] s])
    show "ext_eq (move_inst sp None (Some ?s) ?E) (?E\<lparr>x_inst := bump sp 1 (x_inst ?E)\<rparr>)"
      by (simp add: ext_eq_def move_inst_def new_instance_def)
    show "wf_ext (?E\<lparr>x_inst := bump sp 1 (x_inst ?E)\<rparr>)"
      using acct_wf_ext [OF inv_acct [OF i]] by (simp add: wf_ext_def)
    show "uint (retained_bytes b) \<le> 67108864" using inv_acct [OF i] by (simp add: acct_def acct_total_def)
  qed (auto simp: new_instance_def)
  have a': "acct (ext_of ?W cs ns ?b) ?b"
    by (rule acct_same [OF acct_eqI [OF a]]) (simp_all add: ext_eq_def ext_of_def)
  note un = unallocated_inst [OF i s]
  have "op_ok ?W cs ?b p x" if x: "ops b p = Some x" for p x
  proof -
    have "op_ok W cs b p x" using inv_shape [OF i] x by (simp add: shape_def)
    moreover have "o_instance x \<noteq> sp" by (rule un(3) [OF x])
    ultimately show ?thesis by (auto simp: op_ok_def life_ok_def)
  qed
  then have "shape ?W cs ns ?b" using inv_shape [OF i] r unfolding shape_def by simp
  with a' show ?thesis by (simp add: inv_with_def)
qed

lemma lower_inv:
  assumes i: "inv_with (W\<lparr>raising := {sp}\<rparr>) cs ns b" and r: "raising W = {}" and s: "insts b sp = None"
  shows "inv_with W cs ns b"
proof -
  have "op_ok (W\<lparr>raising := {sp}\<rparr>) cs b p x = op_ok W cs b p x" for p x by (simp add: op_ok_def life_ok_def)
  moreover have "p \<in> set (live_instances b)" if "insts b p = Some t" "\<not> s_closing t" for p t
    using inv_shape [OF i] that s unfolding shape_def by fastforce
  ultimately have "shape W cs ns b" using inv_shape [OF i] r unfolding shape_def by simp
  moreover have "ext_of (W\<lparr>raising := {sp}\<rparr>) cs ns b = ext_of W cs ns b" by (simp add: ext_of_def)
  ultimately show ?thesis using i by (simp add: inv_with_def)
qed

text \<open>Entering the live list.\<close>

lemma publish_inv:
  assumes i: "inv_with (W\<lparr>h_inst := bump sp 1 (h_inst W), raising := {sp}\<rparr>) cs ns b" and r: "raising W = {}"
    and z: "h_inst W sp = 0" "sp \<notin> set (live_instances b)" "\<And>p. 0 \<le> h_inst W p"
  shows "inv_with W cs ns (b\<lparr>live_instances := sp # live_instances b, instances := instances b + 1\<rparr>)"
proof -
  let ?W = "W\<lparr>h_inst := bump sp 1 (h_inst W), raising := {sp}\<rparr>"
  let ?b = "b\<lparr>live_instances := sp # live_instances b, instances := instances b + 1\<rparr>"
  have "acct (ext_of W cs ns ?b) ?b"
    by (rule acct_same [OF acct_eqI [OF inv_acct [OF i]]]) (use z(2) in \<open>auto simp: ext_eq_def ext_of_def pipe_bump\<close>)
  moreover have "op_ok W cs ?b p x" if "ops b p = Some x" for p x
  proof -
    have "op_ok ?W cs b p x" using inv_shape [OF i] that by (simp add: shape_def)
    then show ?thesis using z(1) by (auto simp: op_ok_def life_ok_def split: if_splits)
  qed
  then have "shape W cs ns ?b" using inv_shape [OF i] r z unfolding shape_def by auto
  ultimately show ?thesis by (simp add: inv_with_def)
qed

text \<open>After \<open>abandon\<close>, the call's own reference to the new instance is the last one.\<close>

lemma abandon_refs:
  assumes "abandon p b = Some b'" "ops b p = Some x" "o_response x = None" "insts b (o_instance x) = Some s" "s_refs s = 2"
  shows "\<exists>s'. insts b' (o_instance x) = Some s' \<and> s_refs s' = 1"
  using assms
  by (auto simp: abandon_def upd_inst_def upd_op_def op_drop_def release_op_def uncharge_nonzero_def uncharge_def
      response_drop_def instance_drop_def split: if_splits)

text \<open>The failure path after the operation was built: both new objects go again.\<close>

lemma create_undo_inv:
  assumes m: "making W = []" "raising W = {}" "waiting W = ns" and ph: "phase_ok W cs ns b1" and h: "h_op W p = 0" "h_inst W sp = 0"
    and i: "inv_with (W\<lparr>h_inst := bump sp 1 (h_inst W), raising := {sp}, making := [p], h_op := bump p 1 (h_op W)\<rparr>) cs ns b1"
      (is "inv_with ?W1 cs ns b1")
    and x: "ops b1 p = Some x" "o_response x = None" "o_instance x = sp" and s: "insts b1 sp = Some s" "s_refs s = 2"
  shows "call_ok W (create_undo e p sp b1)"
proof -
  let ?W0 = "W\<lparr>h_inst := bump sp 1 (h_inst W), raising := {sp}\<rparr>"
  obtain b2 where b2: "abandon p b1 = Some b2" "fades b1 b2"
    "inv_with (?W1\<lparr>making := [], h_op := bump p (- 1) (h_op ?W1)\<rparr>) cs ns b2"
    by (rule abandon_inv [OF i, of p]) (use h in auto)
  have W0: "?W1\<lparr>making := [], h_op := bump p (- 1) (h_op ?W1)\<rparr> = ?W0" using undo_grant [of ?W0 p] m(1) by simp
  with b2(3) have i2: "inv_with ?W0 cs ns b2" by simp
  obtain s2 where s2: "insts b2 sp = Some s2" "s_refs s2 = 1" using abandon_refs [OF b2(1) x(1,2)] x(3) s by auto
  let ?b3 = "b2\<lparr>insts := (insts b2)(sp := None)\<rparr>"
  have d: "instance_drop sp b2 = Some ?b3" using s2 by (simp add: instance_drop_def)
  let ?E = "ext_of ?W0 cs ns b2"
  have "\<exists>b'. instance_drop sp b2 = Some b' \<and> acct (?E\<lparr>x_inst := bump sp (- 1) (x_inst ?E)\<rparr>) b'"
    by (rule instance_drop_acct [OF inv_acct [OF i2]]) (simp_all add: ext_of_def h)
  then have a3: "acct (?E\<lparr>x_inst := bump sp (- 1) (x_inst ?E)\<rparr>) ?b3" using d by auto
  have "inv_with (W\<lparr>raising := {sp}\<rparr>) cs ns ?b3"
  proof (rule inv_fade [OF i2 instance_drop_fades [OF d]])
    show "acct (ext_of (W\<lparr>raising := {sp}\<rparr>) cs ns b2) ?b3"
      by (rule acct_eqI [OF a3]) (simp add: ext_eq_def ext_of_def)
    show "0 \<le> h_inst (W\<lparr>raising := {sp}\<rparr>) p" for p
      using inv_nonneg(1) [OF i2, of p] h(2) by (cases "p = sp") simp_all
  qed (use inv_nonneg(2) [OF i2] in simp_all)
  then have i3: "inv_with W cs ns ?b3" by (rule lower_inv [OF _ m(2)]) simp
  have "phase_ok W cs ns ?b3"
    by (rule phase_fade [OF ph fades_trans [OF b2(2) instance_drop_fades [OF d]]]) simp_all
  with i3 have "bridge_inv W ?b3" by (rule bridge_invI [OF m])
  then have "bridge_inv W (wake_owner e ?b3)" by (rule wake_owner_inv)
  then show ?thesis using b2(1) d by (simp add: create_undo_def call_rejected)
qed

lemma create_rest_inv:
  assumes inv: "bridge_inv W b" and st: "state b \<in> {1, 2}" and k: "kind \<in> {1, 2}" and al: "alloc_ok e b"
  shows "call_ok W (create_rest kind json len cb ud e b)"
proof (cases "next_id b \<ge> INT_MAX - 1 \<or> sys_alloc e 0 = None")
  case True
  then show ?thesis using call_rejected [OF inv] call_rejected [OF wake_owner_inv [OF inv]]
    by (auto simp: create_rest_def)
next
  case False
  then obtain sp where nl: "\<not> 2147483646 \<le> next_id b" and sp: "sys_alloc e 0 = Some sp" by auto
  obtain cs ns where m: "making W = []" "raising W = {}" "waiting W = ns" and i: "inv_with W cs ns b" and ph: "phase_ok W cs ns b"
    using inv by (rule bridge_invE)
  have free: "insts b sp = None" using al sp by (simp add: alloc_ok_def)
  note un = unallocated_inst [OF i free]
  let ?W0 = "W\<lparr>h_inst := bump sp 1 (h_inst W), raising := {sp}\<rparr>"
  let ?n = "new_instance (next_id b) (kind = 2)"
  let ?b0 = "b\<lparr>insts := (insts b)(sp \<mapsto> ?n), next_id := next_id b + 1\<rparr>"
  have i0: "inv_with ?W0 cs ns ?b0" by (rule raise_inv [OF i m(2) free])
  have fr: "\<And>p. sys_alloc e 1 = Some p \<Longrightarrow> ops ?b0 p = None" using al by (auto simp: alloc_ok_def)
  note cr = create_rest_def nl sp
  have m0: "making ?W0 = []" and s0: "insts ?b0 sp = Some ?n" using m(1) by simp_all
  show ?thesis
  proof (rule new_op_inv [OF i0 m0 s0 fr, of "sys_alloc e 1" kind "Some cb" ud])
    assume n: "new_op kind sp (Some cb) ud (sys_alloc e 1) ?b0 = Some (None, ?b0)"
    have "inv_with W cs ns (?b0\<lparr>insts := (insts ?b0)(sp := None)\<rparr>)"
      by (rule inv_same [OF i]) (use free in auto)
    moreover have "phase_ok W cs ns (?b0\<lparr>insts := (insts ?b0)(sp := None)\<rparr>)" by (rule phase_same [OF ph]) simp_all
    ultimately have "bridge_inv W (?b0\<lparr>insts := (insts ?b0)(sp := None)\<rparr>)" by (rule bridge_invI [OF m])
    then show ?thesis using n call_rejected [OF wake_owner_inv] by (simp add: cr)
  next
    fix p b1 s1
    let ?W1 = "?W0\<lparr>making := [p], h_op := bump p 1 (h_op ?W0)\<rparr>"
    let ?x = "fresh_op (next_id ?b0) kind sp (Some cb) ud"
    assume n: "new_op kind sp (Some cb) ud (sys_alloc e 1) ?b0 = Some (Some p, b1)" and i1: "inv_with ?W1 cs ns b1"
      and o1: "ops b1 = (ops ?b0)(p \<mapsto> ?x)" and s1: "insts b1 sp = Some s1" "s_refs s1 = s_refs ?n + 1"
      and h0: "h_op ?W0 p = 0" and B1: "live_instances b1 = live_instances ?b0" "state b1 = state ?b0" "owner_done b1 = owner_done ?b0"
    have refs: "s_refs s1 = 2" using s1(2) by (simp add: new_instance_def)
    have ph1: "phase_ok W cs ns b1" by (rule phase_same [OF ph]) (use B1 in simp_all)
    let ?c = "of_nat (len + 1) :: u64"
    obtain ok b2 where c: "charge sp ?c b1 = Some (ok, b2)" using charge_total [OF s1(1)] by blast
    show ?thesis
    proof (cases ok)
      case False
      then have "b2 = b1" using charge_False c by simp
      moreover have "call_ok W (create_undo e p sp b1)"
        by (rule create_undo_inv [OF m ph1 _ un(1) _ _ _ _ s1(1) refs, of p ?x]) (use i1 h0 o1 in \<open>simp_all add: fresh_op_def\<close>)
      ultimately show ?thesis using n c False by (simp add: cr)
    next
      case True
      let ?x2 = "?x\<lparr>o_input_charge := ?c\<rparr>"
      let ?b2 = "b2\<lparr>ops := (ops b2)(p \<mapsto> ?x2)\<rparr>"
      have o2: "ops b2 = ops b1" using arg_cong [OF charge_frame [OF c], of ops] by simp
      have f2: "fades b1 b2" by (rule charge_fades [OF c])
      have i2: "inv_with ?W1 cs ns ?b2"
        by (rule charge_input_inv [OF i1, of p ?x]) (use c True o1 in \<open>simp_all add: fresh_op_def\<close>)
      have ph2: "phase_ok W cs ns ?b2" by (rule phase_same [OF ph1]) (use f2 in \<open>simp_all add: fades_def\<close>)
      have u2: "upd_op p (\<lambda>x. x\<lparr>o_input_charge := ?c\<rparr>) b2 = Some ?b2" by (simp add: upd_op_def o2 o1)
      show ?thesis
      proof (cases "sys_alloc e 2 = None")
        case none: True
        obtain s2 where s2: "insts ?b2 sp = Some s2" "s_refs s2 = 2"
          using c True s1(1) refs by (auto simp: charge_def split: if_splits)
        have "call_ok W (create_undo e p sp ?b2)"
          by (rule create_undo_inv [OF m ph2 _ un(1) _ _ _ _ s2, of p ?x2]) (use i2 h0 in \<open>simp_all add: fresh_op_def\<close>)
        then show ?thesis using n c True u2 none by (simp add: cr)
      next
        case some: False
        let ?in = "take len (case json of None \<Rightarrow> [] | Some j \<Rightarrow> j)"
        let ?x3 = "?x2\<lparr>o_input := ?in\<rparr>" and ?b3 = "?b2\<lparr>ops := (ops ?b2)(p \<mapsto> ?x2\<lparr>o_input := ?in\<rparr>)\<rparr>"
        have i3: "inv_with ?W1 cs ns ?b3" by (rule write_op_inv [OF i2, of p ?x2]) (simp_all add: keeps_def)
        let ?b4 = "?b3\<lparr>live_instances := sp # live_instances ?b3, instances := instances ?b3 + 1\<rparr>"
        let ?W4 = "W\<lparr>making := [p], h_op := bump p 1 (h_op W)\<rparr>"
        have L: "live_instances ?b3 = live_instances b" "state ?b3 = state b" "owner_done ?b3 = owner_done b"
          using f2 B1 by (simp_all add: fades_def)
        have "?W1 = ?W4\<lparr>h_inst := bump sp 1 (h_inst ?W4), raising := {sp}\<rparr>" by (cases W) simp
        with i3 have i3': "inv_with (?W4\<lparr>h_inst := bump sp 1 (h_inst ?W4), raising := {sp}\<rparr>) cs ns ?b3" by (rule subst [rotated])
        have i4: "inv_with ?W4 cs ns ?b4"
          by (rule publish_inv [OF i3']) (use un(1,2) m L(1) inv_nonneg(1) [OF i] in simp_all)
        obtain b' where b': "enqueue e p ?b4 = Some b'" "inv_with (?W4\<lparr>making := []\<rparr>) (cs @ [p]) ns b'"
          "state b' = state ?b4" "owner_done b' = owner_done ?b4"
        proof (rule enqueue_inv [OF i4, of p ?x3 e])
          show "life_ok ?W4 ?b4 ?x3" using k un(1) by (auto simp: life_ok_def fresh_op_def)
          show "o_instance y \<noteq> o_instance ?x3" if "q \<noteq> p" "ops ?b4 q = Some y" for q y
            using un(3) [of q y] that o1 o2 by (simp add: fresh_op_def)
        qed (use k in \<open>auto simp: fresh_op_def\<close>)
        have "phase_ok (?W4\<lparr>making := []\<rparr>) (cs @ [p]) ns b'"
          using ph st b'(3,4) L by (auto simp: phase_ok_def)
        then have "bridge_inv (?W4\<lparr>making := []\<rparr>) b'" by (intro bridge_invI [OF _ _ _ b'(2)]) (use m in auto)
        moreover have "?W4\<lparr>making := []\<rparr> = grant (Some p) W" using m(1) by (simp add: grant_def bumpo_def)
        ultimately have "call_ok W (Some ((HS_OK, Some p), b'))" by (intro call_okI) simp
        moreover have "upd_op p (\<lambda>x. x\<lparr>o_input := ?in\<rparr>) ?b2 = Some ?b3" by (simp add: upd_op_def)
        moreover obtain v where "sys_alloc e 2 = Some v" using some by auto
        ultimately show ?thesis using n c True u2 b'(1) by (simp add: cr)
      qed
    qed
  qed
qed

subsection \<open>Starting the runtime\<close>

lemma start_runtime_cases:
  assumes "start_runtime rl e b = Some (ok, b')"
  shows "insts b' = insts b \<and> ops b' = ops b \<and> resps b' = resps b \<and> chunks b' = chunks b \<and> op_next b' = op_next b \<and>
    commands b' = commands b \<and> notices b' = notices b \<and> live_instances b' = live_instances b \<and>
    instances b' = instances b \<and> active_ops b' = active_ops b \<and> retained_bytes b' = retained_bytes b"
  using assms by (auto simp: start_runtime_def Let_def split: if_splits)

lemma start_runtime_inv:
  assumes inv: "bridge_inv W b" and s: "start_runtime rl e b = Some (ok, b')"
  shows "bridge_inv W b'" "ok \<Longrightarrow> state b' \<in> {1, 2}"
proof -
  obtain cs ns where m: "making W = []" "raising W = {}" "waiting W = ns" and i: "inv_with W cs ns b" and ph: "phase_ok W cs ns b"
    using inv by (rule bridge_invE)
  have "inv_with W cs ns b'" by (rule inv_same [OF i]) (use start_runtime_cases [OF s] in simp_all)
  moreover have "phase_ok W cs ns b'"
    using s ph by (auto simp: start_runtime_def Let_def phase_ok_def split: if_splits)
  ultimately show "bridge_inv W b'" by (rule bridge_invI [OF m])
  show "ok \<Longrightarrow> state b' \<in> {1, 2}"
    using s ph by (auto simp: start_runtime_def Let_def phase_ok_def split: if_splits)
qed

lemma create_resume_inv:
  assumes inv: "bridge_inv W b" and k: "kind \<in> {1, 2}" and al: "alloc_ok e b"
  shows "create_resume rl kind json len cb ud e b = Some None \<or>
    (\<exists>r. create_resume rl kind json len cb ud e b = Some (Some r) \<and> call_ok W (Some r))"
proof (cases "start_runtime rl e b")
  case None
  then show ?thesis by (simp add: create_resume_def)
next
  case (Some r)
  obtain ok b1 where r: "start_runtime rl e b = Some (ok, b1)" using Some by (cases r) auto
  note s = start_runtime_inv [OF inv r]
  show ?thesis
  proof (cases ok)
    case False
    then show ?thesis using r call_rejected [OF s(1)] by (simp add: create_resume_def)
  next
    case True
    have "alloc_ok e b1" using al start_runtime_cases [OF r] by (simp add: alloc_ok_def)
    then have "call_ok W (create_rest kind json len cb ud e b1)" using create_rest_inv [OF s(1) s(2) [OF True] k] by blast
    then show ?thesis using r True by (auto simp: create_resume_def call_ok_def)
  qed
qed

lemma create_async_inv:
  assumes inv: "bridge_inv W b" and k: "kind \<in> {1, 2}" and al: "alloc_ok e b"
  shows "create_async rl kind json len cb ud out e b = Some None \<or>
    (\<exists>r. create_async rl kind json len cb ud out e b = Some (Some r) \<and> call_ok W (Some r))"
  using create_resume_inv [OF inv k al] call_rejected [OF inv]
  by (auto simp: create_async_def split: option.splits)

end
