(* ===== verification/Bridge_Owner.thy ===== *)
theory Bridge_Owner
  imports Bridge_Create
begin

text \<open>
  The owner's and the notifier's side of the runtime: taking commands, building results, completing
  operations, delivering notifications, and the shutdown of both threads.
\<close>

subsection \<open>Taking a command\<close>

lemma due_append: "due (hl @ [p]) h q = due hl h q + due [p] h q"
  by (simp add: due_def)

lemma take_inv:
  assumes i: "inv_with W (p # cs) ns b" and m: "making W = []"
    and q: "queue_rep (nxt, q) cs" "queue_rep (nxt, notices b) ns"
  shows "inv_with (W\<lparr>held := held W @ [p]\<rparr>) cs ns (b\<lparr>op_next := nxt, commands := q\<rparr>)"
proof -
  let ?W = "W\<lparr>held := held W @ [p]\<rparr>" and ?b = "b\<lparr>op_next := nxt, commands := q\<rparr>"
  have sh: "shape W (p # cs) ns b" by (rule inv_shape [OF i])
  obtain x where x: "ops b p = Some x" using inv_pipeline_alloc [OF i, of p] by (auto simp: pipeline_def)
  have "op_ok W (p # cs) b p x" using sh x by (simp add: shape_def)
  then have z: "due [p] (ops b) r = 0" for r using x by (simp add: op_ok_def due_def)
  have "set (pipeline ?W cs ns) = set (pipeline W (p # cs) ns)" by (auto simp: pipeline_def)
  then have "acct (ext_of ?W cs ns ?b) ?b"
    by (intro acct_same [OF acct_eqI [OF inv_acct [OF i]]]) (simp_all add: ext_eq_def ext_of_def due_append z)
  moreover have "op_ok ?W cs ?b r y" if "ops b r = Some y" for r y
  proof -
    have "op_ok W (p # cs) b r y" using sh that by (simp add: shape_def)
    then show ?thesis using m by (auto simp: op_ok_def life_ok_def)
  qed
  then have "shape ?W cs ns ?b" using sh q m unfolding shape_def by (auto simp: pipeline_def)
  ultimately show ?thesis by (simp add: inv_with_def)
qed

lemma phase_take:
  "phase_ok W (p # cs) ns b \<Longrightarrow> phase_ok (W\<lparr>held := held W @ [p]\<rparr>) cs ns (b\<lparr>op_next := nxt, commands := q\<rparr>)"
  by (auto simp: phase_ok_def)

text \<open>What the owner takes it holds.\<close>

definition hold :: "ptr option \<Rightarrow> world \<Rightarrow> world" where
  "hold p W = (case p of None \<Rightarrow> W | Some q \<Rightarrow> W\<lparr>held := held W @ [q]\<rparr>)"

lemma pop_inv:
  assumes inv: "bridge_inv W b"
  shows "\<exists>p b'. hs_bridge_pop b = Some (p, b') \<and> bridge_inv (hold p W) b'"
proof -
  obtain cs ns where m: "making W = []" "raising W = {}" "waiting W = ns" and i: "inv_with W cs ns b" and ph: "phase_ok W cs ns b"
    using inv by (rule bridge_invE)
  have q: "queue_rep (op_next b, commands b) cs" "queue_rep (op_next b, notices b) ns"
    using inv_shape [OF i] by (simp_all add: shape_def)
  show ?thesis
  proof (cases cs)
    case Nil
    then have "link_pop (op_next b, commands b) = None" using q(1) link_pop_Nil by simp
    then show ?thesis using inv by (simp add: hs_bridge_pop_def hold_def)
  next
    case (Cons p cs')
    then obtain c' where c': "link_pop (op_next b, commands b) = Some (p, (op_next b, c'))" "queue_rep (op_next b, c') cs'"
      using link_pop_Cons [of "(op_next b, commands b)" p cs'] q(1) by auto
    have d: "p \<notin> set cs'" "p \<notin> set ns" using inv_shape [OF i] Cons by (auto simp: shape_def pipeline_def)
    have "ops b p \<noteq> None" using inv_pipeline_alloc [OF i, of p] Cons by (simp add: pipeline_def)
    then have r: "hs_bridge_pop b = Some (Some p, b\<lparr>op_next := (op_next b)(p := None), commands := c'\<rparr>)"
      using c'(1) by (auto simp: hs_bridge_pop_def)
    have "inv_with (hold (Some p) W) cs' ns (b\<lparr>op_next := (op_next b)(p := None), commands := c'\<rparr>)"
      unfolding hold_def option.case
      by (rule take_inv [OF _ m(1)]) (use i Cons c'(2) q(2) d in \<open>simp_all add: queue_rep_frame\<close>)
    moreover have "phase_ok (hold (Some p) W) cs' ns (b\<lparr>op_next := (op_next b)(p := None), commands := c'\<rparr>)"
      using phase_take ph Cons by (simp add: hold_def)
    ultimately have "bridge_inv (hold (Some p) W) (b\<lparr>op_next := (op_next b)(p := None), commands := c'\<rparr>)"
      using m by (auto simp: hold_def intro: bridge_invI)
    with r show ?thesis by blast
  qed
qed

lemma drain_inv:
  assumes inv: "bridge_inv W b"
  shows "\<exists>p b'. owner_drain b = Some (p, b') \<and> bridge_inv (hold p W) b'"
proof -
  obtain cs ns where m: "making W = []" "raising W = {}" "waiting W = ns" and i: "inv_with W cs ns b" and ph: "phase_ok W cs ns b"
    using inv by (rule bridge_invE)
  have q: "queue_rep (op_next b, commands b) cs" "queue_rep (op_next b, notices b) ns"
    using inv_shape [OF i] by (simp_all add: shape_def)
  show ?thesis
  proof (cases cs)
    case Nil
    then have "link_pop (op_next b, commands b) = None" using q(1) link_pop_Nil by simp
    then show ?thesis using inv by (simp add: owner_drain_def hold_def)
  next
    case (Cons p cs')
    then obtain c' where c': "link_pop (op_next b, commands b) = Some (p, (op_next b, c'))" "queue_rep (op_next b, c') cs'"
      using link_pop_Cons [of "(op_next b, commands b)" p cs'] q(1) by auto
    have "ops b p \<noteq> None" using inv_pipeline_alloc [OF i, of p] Cons by (simp add: pipeline_def)
    then have r: "owner_drain b = Some (Some p, b\<lparr>op_next := op_next b, commands := c'\<rparr>)"
      using c'(1) by (auto simp: owner_drain_def)
    have "inv_with (hold (Some p) W) cs' ns (b\<lparr>op_next := op_next b, commands := c'\<rparr>)"
      unfolding hold_def option.case by (rule take_inv [OF _ m(1)]) (use i Cons c'(2) q(2) in simp_all)
    moreover have "phase_ok (hold (Some p) W) cs' ns (b\<lparr>op_next := op_next b, commands := c'\<rparr>)"
      using phase_take [of W p cs' ns b c' "op_next b"] ph Cons by (simp add: hold_def)
    ultimately have "bridge_inv (hold (Some p) W) (b\<lparr>op_next := op_next b, commands := c'\<rparr>)"
      using m by (auto simp: hold_def intro: bridge_invI)
    with r show ?thesis by blast
  qed
qed

subsection \<open>Steps that write only the phase\<close>

lemma bridge_same:
  assumes inv: "bridge_inv W b" and "insts b' = insts b" "ops b' = ops b" "resps b' = resps b"
    "chunks b' = chunks b" "op_next b' = op_next b" "commands b' = commands b" "notices b' = notices b"
    "live_instances b' = live_instances b" "instances b' = instances b" "active_ops b' = active_ops b"
    "retained_bytes b' = retained_bytes b" and ph: "\<And>cs ns. inv_with W cs ns b \<Longrightarrow> phase_ok W cs ns b \<Longrightarrow> phase_ok W cs ns b'"
  shows "bridge_inv W b'"
proof -
  obtain cs ns where m: "making W = []" "raising W = {}" "waiting W = ns" and i: "inv_with W cs ns b" and p: "phase_ok W cs ns b"
    using inv by (rule bridge_invE)
  have "inv_with W cs ns b'" by (rule inv_same [OF i]) (use assms in simp_all)
  then show ?thesis using ph [OF i p] by (rule bridge_invI [OF m])
qed

lemma attach_inv: "bridge_inv W b \<Longrightarrow> state b \<in> {1, 2} \<Longrightarrow> bridge_inv W (hs_bridge_attach e fd b)"
  unfolding hs_bridge_attach_def
  by (rule wake_owner_inv) (erule bridge_same, auto simp: phase_ok_def)

lemma ack_inv: "bridge_inv W b \<Longrightarrow> bridge_inv W (hs_bridge_ack b)"
  unfolding hs_bridge_ack_def by (erule bridge_same) (auto simp: phase_ok_def)

lemma idle_inv: "bridge_inv W b \<Longrightarrow> state b \<in> {1, 2} \<Longrightarrow> bridge_inv W (snd (hs_bridge_idle b))"
  unfolding hs_bridge_idle_def by (auto simp: Let_def elim!: bridge_same) (auto simp: phase_ok_def)

lemma owner_exit_inv: "bridge_inv W b \<Longrightarrow> state b \<in> {1, 2, 3} \<Longrightarrow> bridge_inv W (owner_exit b)"
  unfolding owner_exit_def by (erule bridge_same) (auto simp: phase_ok_def)

lemma reap_claim_inv: "bridge_inv W b \<Longrightarrow> reap_claim b = Some b' \<Longrightarrow> bridge_inv W b'"
  unfolding reap_claim_def by (auto split: if_splits elim!: bridge_same simp: phase_ok_def)

lemma reap_finish_inv: "bridge_inv W b \<Longrightarrow> state b = 5 \<Longrightarrow> bridge_inv W (reap_finish b)"
  unfolding reap_finish_def by (erule bridge_same) (auto simp: phase_ok_def)

lemma notify_exit_inv:
  assumes inv: "bridge_inv W b" and s: "notify_exit b = Some b'" "state b \<in> {1, 2, 3}" "calling W = []"
  shows "bridge_inv W b'"
proof -
  have b': "b' = b\<lparr>state := 4\<rparr>" "fst (notices b) = None" "owner_done b"
    using s by (simp_all add: notify_exit_def split: if_splits)
  show ?thesis unfolding b'(1)
  proof (rule bridge_same [OF inv])
    fix cs ns assume i: "inv_with W cs ns b" and p: "phase_ok W cs ns b"
    have "queue_rep (op_next b, notices b) ns" using inv_shape [OF i] by (simp add: shape_def)
    then have "ns = []" using b'(2) queue_rep_head [of "op_next b" "fst (notices b)" "snd (notices b)" ns] by simp
    then show "phase_ok W cs ns (b\<lparr>state := 4\<rparr>)" using p b'(3) s(3) by (auto simp: phase_ok_def)
  qed simp_all
qed

subsection \<open>Completing an operation\<close>

text \<open>
  What the parts of \<open>hs_bridge_complete\<close> leave alone. During completion of \<open>p\<close> the only open account is
  the instance's \<open>active\<close> counter, which is settled last; the operation keeps its instance alive.
\<close>

definition tracks :: "ptr \<Rightarrow> bridge \<Rightarrow> bridge \<Rightarrow> bool" where
  "tracks p b b' \<longleftrightarrow>
     op_next b' = op_next b \<and> commands b' = commands b \<and> notices b' = notices b \<and> state b' = state b \<and>
     owner_done b' = owner_done b \<and> chunks b' = chunks b \<and>
     (\<forall>q s'. insts b' q = Some s' \<longrightarrow> (\<exists>s. insts b q = Some s \<and> (s_closing s \<longrightarrow> s_closing s'))) \<and>
     (\<forall>q. q \<noteq> p \<longrightarrow> ops b' q = ops b q) \<and>
     (\<forall>x. ops b p = Some x \<longrightarrow> (\<exists>x'. ops b' p = Some x' \<and> o_kind x' = o_kind x \<and> o_instance x' = o_instance x \<and>
        o_response x' = o_response x \<and> o_done x' = o_done x))"

lemma tracks_refl [simp]: "tracks p b b"
  by (simp add: tracks_def)

lemma tracks_trans:
  assumes "tracks p a b" "tracks p b c" shows "tracks p a c"
proof -
  have "\<exists>s. insts a q = Some s \<and> (s_closing s \<longrightarrow> s_closing s')" if "insts c q = Some s'" for q s'
    using assms that unfolding tracks_def by metis
  moreover have "\<exists>x'. ops c p = Some x' \<and> o_kind x' = o_kind x \<and> o_instance x' = o_instance x \<and>
        o_response x' = o_response x \<and> o_done x' = o_done x" if "ops a p = Some x" for x
    using assms that unfolding tracks_def by metis
  ultimately show ?thesis using assms unfolding tracks_def by simp
qed

lemma tracks_fade:
  "fades b b' \<Longrightarrow> ops b' = ops b \<Longrightarrow> chunks b' = chunks b \<Longrightarrow> tracks p b b'"
  by (simp add: tracks_def fades_def)

definition settling :: "ptr \<Rightarrow> ext \<Rightarrow> bool" where
  "settling i E \<longleftrightarrow> (\<forall>p. x_credit E p = 0 \<and> x_count E p = 0 \<and> x_note E p = 0 \<and> x_rch E p = 0 \<and> (x_act E p \<noteq> 0 \<longrightarrow> p = i))"

lemma op_points_pos:
  assumes "acct E b" "ops b p = Some x"
  shows "0 < heap_sum (op_points (o_instance x)) (ops b)"
  using heap_sum_ge_cell [of "ops b" "op_points (o_instance x)" p x] assms acct_finite [OF assms(1)]
  by (simp add: op_points_def)

lemma write_op_acct:
  assumes "acct E b" "ops b p = Some x" "o_refs y = o_refs x" "o_done y = o_done x" "o_instance y = o_instance x"
    "o_response y = o_response x" "o_input_charge y = o_input_charge x" "o_allocation_charge y = o_allocation_charge x"
  shows "acct E (b\<lparr>ops := (ops b)(p := Some y)\<rparr>)"
proof -
  have "0 < o_refs x" using assms by (simp add: acct_def wf_heaps_def)
  then show ?thesis
    by (intro acct_write_op [OF assms(1,2)])
      (use assms acct_wf_ext [OF assms(1)] in \<open>simp_all add: ext_eq_def move_op_def counted_defs\<close>)
qed

lemma write_resp_acct:
  assumes "acct E b" "resps b q = Some r" "r_refs y = r_refs r" "r_instance y = r_instance r"
    "r_metadata_charge y = r_metadata_charge r" "r_chunks y = r_chunks r"
  shows "acct E (b\<lparr>resps := (resps b)(q := Some y)\<rparr>)"
proof -
  have "0 < r_refs r" using assms by (simp add: acct_def wf_heaps_def)
  then show ?thesis
    by (intro acct_write_resp [OF assms(1,2)])
      (use assms acct_wf_ext [OF assms(1)] in \<open>simp_all add: ext_eq_def move_resp_def counted_defs\<close>)
qed

lemma complete_event_ok:
  assumes a: "acct E b" and x: "ops b p = Some x" and s: "settling (o_instance x) E"
    and r: "\<And>q. code \<noteq> 0 \<Longrightarrow> ev_response ev = Some q \<Longrightarrow> 0 < x_resp E q"
  shows "\<exists>b'. complete_event p ev code b = Some b' \<and> tracks p b b' \<and> live_instances b' = live_instances b \<and> instances b' = instances b \<and>
    acct (E\<lparr>x_resp := bumpo (if code = 0 then None else ev_response ev) (- 1) (x_resp E)\<rparr>) b'"
proof (cases "code \<noteq> 0 \<and> ev_response ev \<noteq> None")
  case False
  then have "complete_event p ev code b = Some b" "(if code = 0 then None else ev_response ev) = None"
    by (auto simp: complete_event_def)
  with a show ?thesis by (simp add: bumpo_def)
next
  case True
  then obtain q where q: "code \<noteq> 0" "ev_response ev = Some q" by auto
  have act: "0 < heap_sum (op_points i) (ops b) \<or> x_act E i = 0" for i
    using op_points_pos [OF a x] s by (auto simp: settling_def)
  obtain b1 where b1: "response_drop (Some q) b = Some b1" "acct (E\<lparr>x_resp := bumpo (Some q) (- 1) (x_resp E)\<rparr>) b1"
    using response_drop_acct [OF a, of "Some q"] r q act s by (auto simp: settling_def)
  note fr = response_drop_frame [OF b1(1)]
  have f: "ops b1 = ops b" "chunks b1 = chunks b" "live_instances b1 = live_instances b" "instances b1 = instances b"
    using arg_cong [OF fr, of ops] arg_cong [OF fr, of chunks] arg_cong [OF fr, of live_instances] arg_cong [OF fr, of instances] by simp_all
  let ?y = "x\<lparr>o_event := (o_event x)\<lparr>ev_response := None\<rparr>\<rparr>"
  let ?b = "b1\<lparr>ops := (ops b1)(p := Some ?y)\<rparr>"
  have "acct (E\<lparr>x_resp := bumpo (Some q) (- 1) (x_resp E)\<rparr>) ?b"
    by (rule write_op_acct [OF b1(2), of p x]) (simp_all add: f x)
  moreover have "tracks p b ?b"
    by (rule tracks_trans [OF tracks_fade [OF response_drop_fades [OF b1(1)] f(1,2)]]) (use f x in \<open>auto simp: tracks_def\<close>)
  moreover have "complete_event p ev code b = Some ?b" using q b1(1) f x by (simp add: complete_event_def upd_op_def)
  ultimately show ?thesis using q f by simp
qed

definition retires :: "int \<Rightarrow> int \<Rightarrow> bool" where
  "retires kind code \<longleftrightarrow> kind \<in> {1, 2} \<and> code \<noteq> 0 \<or> kind \<in> {5, 6}"

definition delivers :: "int \<Rightarrow> int \<Rightarrow> bool" where
  "delivers kind code \<longleftrightarrow> kind \<in> {1, 2} \<and> code = 0"

text \<open>Ending the life of an instance: it leaves the live list and its reference is dropped.\<close>

lemma retire_ok:
  assumes a: "acct E b" and x: "ops b p = Some x" "o_instance x = i" and st: "settling i E" and l: "0 < x_inst E i"
    and s: "insts b i = Some s" "s_refs s' = s_refs s" "s_active s' = s_active s" "s_notifications s' = s_notifications s"
      "s_response_count s' = s_response_count s" "s_charged s' = s_charged s" "s_closing s \<Longrightarrow> s_closing s'"
  shows "\<exists>b'. retire_instance i (b\<lparr>insts := (insts b)(i \<mapsto> s')\<rparr>) = Some b' \<and> tracks p b b' \<and>
    live_instances b' = remove1 i (live_instances b) \<and> instances b' = instances b - 1 \<and>
    (s_closing s' \<longrightarrow> (\<forall>t. insts b' i = Some t \<longrightarrow> s_closing t)) \<and>
    acct (E\<lparr>x_inst := bump i (- 1) (x_inst E)\<rparr>) b'"
proof -
  let ?b = "b\<lparr>insts := (insts b)(i \<mapsto> s')\<rparr>"
  let ?c = "?b\<lparr>live_instances := remove1 i (live_instances b), instances := instances b - 1\<rparr>"
  have pos: "0 < s_refs s'" using acct_inst_pos [OF a s(1)] s(2) by simp
  have "acct E ?b"
    by (rule acct_write_inst_only [OF a s(1)]) (use s pos acct_wf_ext [OF a] in \<open>simp_all add: ext_eq_def move_inst_def\<close>)
  then have a1: "acct E ?c" by (rule acct_same) simp_all
  have "0 < heap_sum (op_points i) (ops ?c)" using op_points_pos [OF a x(1)] x(2) by simp
  then obtain b' where b': "instance_drop i ?c = Some b'" "acct (E\<lparr>x_inst := bump i (- 1) (x_inst E)\<rparr>) b'"
    using instance_drop_acct [OF a1 l] st by (auto simp: settling_def)
  have "retire_instance i ?b = Some b'" using b'(1) by (simp add: retire_instance_def unlink_instance_def)
  moreover have "tracks p b b' \<and> live_instances b' = remove1 i (live_instances b) \<and> instances b' = instances b - 1 \<and>
    (s_closing s' \<longrightarrow> (\<forall>t. insts b' i = Some t \<longrightarrow> s_closing t))"
    using b'(1) s x by (auto simp: instance_drop_def tracks_def split: if_splits)
  ultimately show ?thesis using b'(2) by blast
qed

lemma complete_lifecycle_ok:
  assumes a: "acct E b" and x: "ops b p = Some x" "o_instance x = i" and st: "settling i E"
    and l: "retires kind code \<Longrightarrow> 0 < x_inst E i"
  shows "\<exists>b'. complete_lifecycle p i kind code b = Some b' \<and> tracks p b b' \<and>
    live_instances b' = (if retires kind code then remove1 i (live_instances b) else live_instances b) \<and>
    instances b' = (if retires kind code then instances b - 1 else instances b) \<and>
    (kind \<in> {1, 2} \<and> code \<noteq> 0 \<longrightarrow> (\<forall>t. insts b' i = Some t \<longrightarrow> s_closing t)) \<and>
    acct (E\<lparr>x_inst := bump i (if delivers kind code then 1 else if retires kind code then - 1 else 0) (x_inst E)\<rparr>) b'"
proof -
  obtain s where s: "insts b i = Some s" using acct_op_inst [OF a x(1)] x(2) by auto
  consider (deliver) "delivers kind code" | (fail) "kind \<in> {1, 2}" "code \<noteq> 0" | (close) "kind \<in> {5, 6}"
    | (other) "\<not> retires kind code" "\<not> delivers kind code"
    by (auto simp: retires_def delivers_def)
  then show ?thesis
  proof cases
    case deliver
    let ?s = "s\<lparr>s_refs := s_refs s + 1\<rparr>" and ?E = "E\<lparr>x_inst := bump i 1 (x_inst E)\<rparr>"
    let ?y = "x\<lparr>o_event := (if kind = 1 then (o_event x)\<lparr>ev_engine := Some i\<rparr> else (o_event x)\<lparr>ev_server := Some i\<rparr>)\<rparr>"
    let ?b1 = "b\<lparr>insts := (insts b)(i \<mapsto> ?s)\<rparr>" let ?b2 = "?b1\<lparr>ops := (ops ?b1)(p := Some ?y)\<rparr>"
    have a1: "acct ?E ?b1"
      by (rule acct_write_inst_only [OF a s])
        (use acct_wf_ext [OF a] acct_inst_pos [OF a s] in \<open>simp_all add: ext_eq_def move_inst_def wf_ext_def\<close>)
    have "acct ?E ?b2" by (rule write_op_acct [OF a1, of p x]) (simp_all add: x)
    moreover have "tracks p b ?b2" using x s by (auto simp: tracks_def)
    moreover have "complete_lifecycle p i kind code b = Some ?b2"
      using deliver s x by (auto simp: complete_lifecycle_def delivers_def upd_inst_def upd_op_def)
    ultimately show ?thesis using deliver by (auto simp: delivers_def retires_def)
  next
    case fail
    let ?s = "s\<lparr>s_closing := True, s_closed := True\<rparr>"
    have r: "retires kind code" "\<not> delivers kind code" using fail by (simp_all add: retires_def delivers_def)
    have "complete_lifecycle p i kind code b = retire_instance i (b\<lparr>insts := (insts b)(i \<mapsto> ?s)\<rparr>)"
      using fail s by (auto simp: complete_lifecycle_def upd_inst_def)
    with retire_ok [OF a x st l [OF r(1)] s, of ?s] show ?thesis using r by auto
  next
    case close
    let ?s = "s\<lparr>s_closed := True\<rparr>"
    have r: "retires kind code" "\<not> delivers kind code" "kind \<notin> {1, 2}" using close by (auto simp: retires_def delivers_def)
    have "complete_lifecycle p i kind code b = retire_instance i (b\<lparr>insts := (insts b)(i \<mapsto> ?s)\<rparr>)"
      using close s by (auto simp: complete_lifecycle_def upd_inst_def)
    with retire_ok [OF a x st l [OF r(1)] s, of ?s] show ?thesis using r by auto
  next
    case other
    have "bump i 0 (x_inst E) = x_inst E" by (simp add: bump_def)
    with other a show ?thesis by (auto simp: complete_lifecycle_def retires_def delivers_def)
  qed
qed

end
