(* ===== verification/Bridge_Complete.thy ===== *)
theory Bridge_Complete
  imports Bridge_Owner
begin

text \<open>Completion of an operation, delivery of its notification, and the end of the owner.\<close>

lemma shape_op: "shape W cs ns b \<Longrightarrow> ops b p = Some x \<Longrightarrow> op_ok W cs b p x"
  by (simp add: shape_def)

lemma shape_unique:
  "shape W cs ns b \<Longrightarrow> making W = [] \<Longrightarrow> ops b p = Some x \<Longrightarrow> ops b q = Some y \<Longrightarrow> lifecycle x \<Longrightarrow> lifecycle y \<Longrightarrow>
   o_instance x = o_instance y \<Longrightarrow> p = q"
  unfolding shape_def by simp

lemma retires_lifecycle: "\<not> o_done x \<Longrightarrow> retires (o_kind x) code \<or> delivers (o_kind x) code \<Longrightarrow> lifecycle x"
  by (auto simp: retires_def delivers_def lifecycle_def)

text \<open>The world after \<open>p\<close> was completed with \<open>code\<close>: its results are the host's.\<close>

definition done_world :: "ptr \<Rightarrow> hs_operation \<Rightarrow> int \<Rightarrow> world \<Rightarrow> world" where
  "done_world p x code W = W\<lparr>held := remove1 p (held W), waiting := waiting W @ [p],
     h_inst := bump (o_instance x) (if delivers (o_kind x) code then 1 else 0) (h_inst W),
     h_resp := bumpo (if code = 0 then ev_response (o_event x) else None) 1 (h_resp W)\<rparr>"

lemma int_length_remove1: "i \<in> set l \<Longrightarrow> int (length (remove1 i l)) = int (length l) - 1"
  by (induction l) auto

lemma complete_shape:
  assumes sh: "shape W cs ns b" and p: "p \<in> set (held W)" and m: "making W = []" and x: "ops b p = Some x"
    and o: "\<And>q. q \<noteq> p \<Longrightarrow> ops b' q = ops b q" "ops b' p = Some x'" "o_done x'" "o_kind x' = o_kind x"
      "o_instance x' = o_instance x" "o_response x' = o_response x"
    and I: "\<And>q s'. insts b' q = Some s' \<Longrightarrow> \<exists>s. insts b q = Some s \<and> (s_closing s \<longrightarrow> s_closing s')"
    and L: "live_instances b' = (if retires (o_kind x) code then remove1 (o_instance x) (live_instances b) else live_instances b)"
      "instances b' = (if retires (o_kind x) code then instances b - 1 else instances b)"
    and C: "\<And>t. o_kind x \<in> {1, 2} \<Longrightarrow> code \<noteq> 0 \<Longrightarrow> insts b' (o_instance x) = Some t \<Longrightarrow> s_closing t"
    and K: "chunks b' = chunks b"
    and Q: "queue_rep (op_next b', commands b') cs" "queue_rep (op_next b', notices b') (ns @ [p])"
  shows "shape (done_world p x code W) cs (ns @ [p]) b'"
proof -
  let ?W = "done_world p x code W" and ?i = "o_instance x"
  have dist: "distinct (pipeline W cs ns)" "distinct (held W)" using sh by (auto simp: shape_def pipeline_def)
  have pn: "p \<notin> set cs" "p \<notin> set ns" "p \<notin> set (calling W)" using dist(1) p by (auto simp: pipeline_def)
  have hl: "set (held ?W) = set (held W) - {p}" "making ?W = []" "calling ?W = calling W" "raising ?W = raising W"
    using dist(2) m by (simp_all add: done_world_def)
  have okp: "op_ok W cs b p x" by (rule shape_op [OF sh x])
  then have nd: "\<not> o_done x" using p by (simp add: op_ok_def)
  have lx: "life_ok W b x" using okp m by (simp add: op_ok_def)
  have live: "q \<in> set (live_instances b')" if "q \<in> set (live_instances b)" "q \<noteq> ?i \<or> \<not> retires (o_kind x) code" for q
    using that L(1) by auto
  have ok1: "op_ok ?W cs b' r y" if y: "ops b' r = Some y" "r \<noteq> p" for r y
  proof -
    have y': "ops b r = Some y" using y o(1) by simp
    have oky: "op_ok W cs b r y" by (rule shape_op [OF sh y'])
    have "life_ok ?W b' y" if ly: "life_ok W b y"
    proof (cases "lifecycle y")
      case True
      have ne: "o_instance y \<noteq> ?i" if "retires (o_kind x) code \<or> delivers (o_kind x) code"
        using shape_unique [OF sh m y' x True retires_lifecycle [OF nd that]] y(2) by auto
      have "s_closing s'" if "o_kind y \<in> {5, 6}" "insts b' (o_instance y) = Some s'" for s'
        using I [OF that(2)] ly True that(1) by (auto simp: life_ok_def)
      moreover have "h_inst ?W (o_instance y) = 0" if "o_kind y \<in> {1, 2}"
        using ly True that ne by (auto simp: life_ok_def done_world_def)
      moreover have "o_instance y \<in> set (live_instances b')" using live [of "o_instance y"] ly True ne by (auto simp: life_ok_def)
      ultimately show ?thesis by (simp add: life_ok_def)
    qed (simp add: life_ok_def)
    then show ?thesis using oky y(2) hl m by (auto simp: op_ok_def)
  qed
  have ok2: "op_ok ?W cs b' p x'"
    using o(3-6) okp pn hl m by (auto simp: op_ok_def life_ok_def lifecycle_def)
  have ok: "op_ok ?W cs b' r y" if "ops b' r = Some y" for r y
    using ok1 [OF that] ok2 o(2) that by (cases "r = p") auto
  have un: "r = s" if "ops b' r = Some y" "ops b' s = Some z" "lifecycle y" "lifecycle z" "o_instance y = o_instance z" for r s y z
  proof -
    have "r \<noteq> p" "s \<noteq> p" using that o(2,3) by (auto simp: lifecycle_def)
    then show ?thesis using shape_unique [OF sh m _ _ that(3-5)] that(1,2) o(1) by simp
  qed
  have cl: "q \<in> set (live_instances b') \<or> q \<in> raising ?W" if c: "insts b' q = Some s'" "\<not> s_closing s'" for q s'
  proof -
    obtain s where s: "insts b q = Some s" "\<not> s_closing s" using I [OF c(1)] c(2) by auto
    then have in_b: "q \<in> set (live_instances b) \<or> q \<in> raising W" using sh by (auto simp: shape_def)
    moreover have "\<not> retires (o_kind x) code" if "q = ?i"
    proof
      assume r: "retires (o_kind x) code"
      then have "lifecycle x" using retires_lifecycle [OF nd] by blast
      then show False using C lx r that c s by (auto simp: retires_def life_ok_def)
    qed
    ultimately show ?thesis using live [of q] hl(4) by auto
  qed
  have ilive: "?i \<in> set (live_instances b)" if "retires (o_kind x) code"
    using lx retires_lifecycle [OF nd, of code] that by (simp add: life_ok_def)
  have cnt: "instances b' = int (length (live_instances b'))"
    using L ilive int_length_remove1 [of ?i "live_instances b"] sh unfolding shape_def by simp
  have "distinct (pipeline ?W cs (ns @ [p]))"
    using dist(1) pn p m by (auto simp: pipeline_def done_world_def)
  moreover have "distinct (live_instances b')" using L(1) sh by (simp add: shape_def)
  moreover have "0 \<le> h_inst ?W q \<and> 0 \<le> h_resp ?W q" for q using sh by (simp add: shape_def done_world_def)
  moreover have "h_chunk ?W = h_chunk W" by (simp add: done_world_def)
  ultimately show ?thesis using Q cnt K ok un cl sh unfolding shape_def by simp
qed

lemma due_remove:
  assumes "distinct hl" "p \<in> set hl" "h p = Some x" "\<And>q. q \<noteq> p \<Longrightarrow> h' q = h q"
  shows "due (remove1 p hl) h' q = due hl h q - of_bool (ev_response (o_event x) = Some q)"
proof -
  have "due (remove1 p hl) h' q = due (remove1 p hl) h q"
    unfolding due_def by (rule arg_cong [where f = sum_list]) (use assms(1,4) in auto)
  then show ?thesis
    using assms(2,3) sum_list_map_remove1 [OF assms(2), of "\<lambda>q'. cell (\<lambda>x. of_bool (ev_response (o_event x) = Some q)) (h q') :: int"]
    by (simp add: due_def)
qed

lemma complete_reading_ok:
  assumes a: "acct E b" and y: "ops b p = Some y" "o_response y = o_response x"
  shows "\<exists>b'. complete_reading x b = Some b' \<and> tracks p b b' \<and> live_instances b' = live_instances b \<and>
    instances b' = instances b \<and> insts b' = insts b \<and> acct E b'"
proof (cases "o_response x")
  case None
  with a show ?thesis by (simp add: complete_reading_def)
next
  case (Some q)
  then obtain r where r: "resps b q = Some r" using acct_op_resp [OF a y(1)] y(2) by auto
  have "acct E (b\<lparr>resps := (resps b)(q := Some (r\<lparr>r_reading := False\<rparr>))\<rparr>)" by (rule write_resp_acct [OF a r]) simp_all
  moreover have "tracks p b (b\<lparr>resps := h\<rparr>)" for h by (simp add: tracks_def)
  ultimately show ?thesis using Some r a by (simp add: complete_reading_def upd_resp_def)
qed

text \<open>The work of \<open>hs_bridge_complete\<close> up to the notification.\<close>

lemma complete_acct:
  assumes i: "inv_with W cs ns b" and m: "making W = []" and p: "p \<in> set (held W)" and x: "ops b p = Some x"
    and x1: "x1 = x\<lparr>o_done := True, o_event := ev\<rparr>"
  obtains b2 b3 b4 b5 where
    "complete_event p (o_event x) code (b\<lparr>ops := (ops b)(p \<mapsto> x1)\<rparr>) = Some b2"
    "complete_lifecycle p (o_instance x) (o_kind x) code b2 = Some b3" "complete_reading x b3 = Some b4"
    "upd_inst (o_instance x) (\<lambda>s. s\<lparr>s_active := s_active s - 1\<rparr>) b4 = Some b5"
    "tracks p (b\<lparr>ops := (ops b)(p \<mapsto> x1)\<rparr>) b5"
    "live_instances b5 = (if retires (o_kind x) code then remove1 (o_instance x) (live_instances b) else live_instances b)"
    "instances b5 = (if retires (o_kind x) code then instances b - 1 else instances b)"
    "o_kind x \<in> {1, 2} \<longrightarrow> code \<noteq> 0 \<longrightarrow> (\<forall>t. insts b5 (o_instance x) = Some t \<longrightarrow> s_closing t)"
    "acct ((ext_of W cs ns b)\<lparr>x_resp := bumpo (if code = 0 then None else ev_response (o_event x)) (- 1) (x_resp (ext_of W cs ns b)),
       x_inst := bump (o_instance x) (if delivers (o_kind x) code then 1 else if retires (o_kind x) code then - 1 else 0)
         (x_inst (ext_of W cs ns b))\<rparr>) b5"
proof -
  let ?i = "o_instance x" and ?E = "ext_of W cs ns b" and ?b1 = "b\<lparr>ops := (ops b)(p \<mapsto> x1)\<rparr>"
  let ?E1 = "?E\<lparr>x_act := bump ?i 1 (x_act ?E)\<rparr>"
  note sh = inv_shape [OF i]
  have okp: "op_ok W cs b p x" by (rule shape_op [OF sh x])
  then have nd: "\<not> o_done x" using p by (simp add: op_ok_def)
  have wf: "wf_ext ?E" by (rule acct_wf_ext [OF inv_acct [OF i]])
  have "0 < o_refs x1" using inv_acct [OF i] x x1 by (simp add: acct_def wf_heaps_def)
  then have a1: "acct ?E1 (b\<lparr>ops := (ops b)(p := Some x1)\<rparr>)"
    by (intro acct_write_op [OF inv_acct [OF i] x])
      (use nd wf in \<open>auto simp: x1 ext_eq_def move_op_def counted_defs wf_ext_def\<close>)
  have sE: "settling ?i ?E1" by (simp add: settling_def ext_of_def)
  have o1: "ops ?b1 p = Some x1" "o_instance x1 = ?i" "o_response x1 = o_response x" using x1 by simp_all
  have due1: "0 < x_resp ?E1 q" if "ev_response (o_event x) = Some q" for q
  proof -
    have "due (held W) (ops b) q = due (remove1 p (held W)) (ops b) q + 1"
      using due_remove [of "held W" p "ops b" x "ops b" q] p x sh that by (simp add: shape_def pipeline_def)
    then have "0 < h_resp W q + due (held W) (ops b) q"
      using inv_nonneg(2) [OF i, of q] due_nonneg [of "remove1 p (held W)" "ops b" q] by linarith
    then show ?thesis by (simp add: ext_of_def)
  qed
  let ?E2 = "?E1\<lparr>x_resp := bumpo (if code = 0 then None else ev_response (o_event x)) (- 1) (x_resp ?E1)\<rparr>"
  have "\<exists>b'. complete_event p (o_event x) code ?b1 = Some b' \<and> tracks p ?b1 b' \<and> live_instances b' = live_instances ?b1 \<and>
      instances b' = instances ?b1 \<and> acct ?E2 b'"
    by (rule complete_event_ok [OF a1 o1(1)]) (use o1 sE due1 in simp_all)
  then obtain b2 where b2: "complete_event p (o_event x) code ?b1 = Some b2" "tracks p ?b1 b2"
    "live_instances b2 = live_instances b" "instances b2 = instances b" "acct ?E2 b2" by auto
  obtain x2 where x2: "ops b2 p = Some x2" "o_instance x2 = ?i" "o_response x2 = o_response x"
    using b2(2) o1 unfolding tracks_def by force
  have live: "0 < x_inst ?E2 ?i" if r: "retires (o_kind x) code"
  proof -
    have "?i \<in> set (live_instances b)"
      using okp m r retires_lifecycle [OF nd, of code] by (simp add: op_ok_def life_ok_def)
    then show ?thesis using inv_nonneg(1) [OF i, of ?i] by (simp add: ext_of_def)
  qed
  let ?E3 = "?E2\<lparr>x_inst := bump ?i (if delivers (o_kind x) code then 1 else if retires (o_kind x) code then - 1 else 0) (x_inst ?E2)\<rparr>"
  have sE2: "settling ?i ?E2" by (simp add: settling_def ext_of_def)
  have L: "\<exists>b'. complete_lifecycle p ?i (o_kind x) code b2 = Some b' \<and> tracks p b2 b' \<and>
    live_instances b' = (if retires (o_kind x) code then remove1 ?i (live_instances b2) else live_instances b2) \<and>
    instances b' = (if retires (o_kind x) code then instances b2 - 1 else instances b2) \<and>
    (o_kind x \<in> {1, 2} \<and> code \<noteq> 0 \<longrightarrow> (\<forall>t. insts b' ?i = Some t \<longrightarrow> s_closing t)) \<and> acct ?E3 b'"
    by (rule complete_lifecycle_ok [OF b2(5) x2(1,2) sE2 live])
  then obtain b3 where b3: "complete_lifecycle p ?i (o_kind x) code b2 = Some b3" "tracks p b2 b3"
    "live_instances b3 = (if retires (o_kind x) code then remove1 ?i (live_instances b2) else live_instances b2)"
    "instances b3 = (if retires (o_kind x) code then instances b2 - 1 else instances b2)"
    "o_kind x \<in> {1, 2} \<and> code \<noteq> 0 \<longrightarrow> (\<forall>t. insts b3 ?i = Some t \<longrightarrow> s_closing t)" "acct ?E3 b3"
    by (elim exE conjE)
  obtain x3 where x3: "ops b3 p = Some x3" "o_instance x3 = ?i" "o_response x3 = o_response x"
    using b3(2) x2 unfolding tracks_def by force
  obtain b4 where b4: "complete_reading x b3 = Some b4" "tracks p b3 b4" "live_instances b4 = live_instances b3"
    "instances b4 = instances b3" "insts b4 = insts b3" "acct ?E3 b4"
    using complete_reading_ok [OF b3(6) x3(1,3)] by blast
  obtain x4 where x4: "ops b4 p = Some x4" "o_instance x4 = ?i"
    using b4(2) x3 unfolding tracks_def by force
  obtain s where s: "insts b4 ?i = Some s" using acct_op_inst [OF b4(6) x4(1)] x4(2) by auto
  let ?s = "s\<lparr>s_active := s_active s - 1\<rparr>" let ?b5 = "b4\<lparr>insts := (insts b4)(?i \<mapsto> ?s)\<rparr>"
  let ?E5 = "?E\<lparr>x_resp := bumpo (if code = 0 then None else ev_response (o_event x)) (- 1) (x_resp ?E),
       x_inst := bump ?i (if delivers (o_kind x) code then 1 else if retires (o_kind x) code then - 1 else 0) (x_inst ?E)\<rparr>"
  have a5: "acct ?E5 ?b5"
  proof (rule acct_write_inst_only [OF b4(6) s])
    show "ext_eq (move_inst ?i (Some s) (Some ?s) ?E3) ?E5" by (simp add: ext_eq_def move_inst_def)
    show "wf_ext ?E5" using acct_wf_ext [OF b4(6)] by (simp add: wf_ext_def)
  qed (use acct_inst_pos [OF b4(6) s] in simp_all)
  have t5: "tracks p b4 ?b5" using s x4 by (auto simp: tracks_def)
  have u5: "upd_inst ?i (\<lambda>s. s\<lparr>s_active := s_active s - 1\<rparr>) b4 = Some ?b5" using s by (simp add: upd_inst_def)
  have "tracks p ?b1 ?b5" by (rule tracks_trans [OF tracks_trans [OF tracks_trans [OF b2(2) b3(2)] b4(2)] t5])
  moreover have "o_kind x \<in> {1, 2} \<longrightarrow> code \<noteq> 0 \<longrightarrow> (\<forall>t. insts ?b5 ?i = Some t \<longrightarrow> s_closing t)"
    using b3(5) s b4(5) by auto
  ultimately show thesis
    by (intro that [OF b2(1) b3(1) b4(1) u5 _ _ _ _ a5]) (use b2(3,4) b3(3,4) b4(3,4) in auto)
qed

lemma complete_inv:
  assumes inv: "bridge_inv W b" and p: "p \<in> set (held W)" and x: "ops b p = Some x"
  shows "\<exists>b'. hs_bridge_complete e p code kind b = Some b' \<and> bridge_inv (done_world p x code W) b'"
proof -
  obtain cs ns where m: "making W = []" "raising W = {}" "waiting W = ns" and i: "inv_with W cs ns b" and ph: "phase_ok W cs ns b"
    using inv by (rule bridge_invE)
  let ?i = "o_instance x" and ?W = "done_world p x code W" and ?E = "ext_of W cs ns b"
  let ?ev = "(o_event x)\<lparr>ev_code := code, ev_kind := (if kind \<ge> 0 then kind else ev_kind (o_event x))\<rparr>"
  let ?x1 = "x\<lparr>o_done := True, o_event := ?ev\<rparr>"
  note sh = inv_shape [OF i]
  have nd: "\<not> o_done x" using shape_op [OF sh x] p by (simp add: op_ok_def)
  obtain b2 b3 b4 b5 where c: "complete_event p (o_event x) code (b\<lparr>ops := (ops b)(p \<mapsto> ?x1)\<rparr>) = Some b2"
    "complete_lifecycle p ?i (o_kind x) code b2 = Some b3" "complete_reading x b3 = Some b4"
    "upd_inst ?i (\<lambda>s. s\<lparr>s_active := s_active s - 1\<rparr>) b4 = Some b5"
    and t: "tracks p (b\<lparr>ops := (ops b)(p \<mapsto> ?x1)\<rparr>) b5"
    and L: "live_instances b5 = (if retires (o_kind x) code then remove1 ?i (live_instances b) else live_instances b)"
      "instances b5 = (if retires (o_kind x) code then instances b - 1 else instances b)"
    and C: "o_kind x \<in> {1, 2} \<longrightarrow> code \<noteq> 0 \<longrightarrow> (\<forall>t. insts b5 ?i = Some t \<longrightarrow> s_closing t)"
    and a: "acct (?E\<lparr>x_resp := bumpo (if code = 0 then None else ev_response (o_event x)) (- 1) (x_resp ?E),
       x_inst := bump ?i (if delivers (o_kind x) code then 1 else if retires (o_kind x) code then - 1 else 0) (x_inst ?E)\<rparr>) b5"
    by (rule complete_acct [OF i m(1) p x refl, where code = code and ev = ?ev])
  obtain x5 where x5: "ops b5 p = Some x5" "o_done x5" "o_kind x5 = o_kind x" "o_instance x5 = ?i" "o_response x5 = o_response x"
    using t unfolding tracks_def by force
  have T: "op_next b5 = op_next b" "commands b5 = commands b" "notices b5 = notices b" "state b5 = state b"
      "owner_done b5 = owner_done b" "chunks b5 = chunks b" "\<And>q. q \<noteq> p \<Longrightarrow> ops b5 q = ops b q"
      "\<And>q s'. insts b5 q = Some s' \<Longrightarrow> \<exists>s. insts b q = Some s \<and> (s_closing s \<longrightarrow> s_closing s')"
    using t unfolding tracks_def by simp_all
  have d: "p \<notin> set cs" "p \<notin> set ns" "set cs \<inter> set ns = {}" "distinct (held W)"
    using sh p by (auto simp: shape_def pipeline_def)
  obtain nxt q where q: "notice e p b5 = Some (wake_owner e (b5\<lparr>op_next := nxt, notices := q\<rparr>))"
    "queue_rep (nxt, q) (ns @ [p])" "queue_rep (nxt, commands b5) cs"
  proof (rule notice_ok [of b5 cs ns p e])
    show "ops b5 r \<noteq> None" if "r \<in> set ns" for r
    proof -
      have "r \<noteq> p" using that d(2) by auto
      then show ?thesis using inv_pipeline_alloc [OF i, of r] that T(7) by (simp add: pipeline_def)
    qed
  qed (use sh T d x5(1) in \<open>auto simp: shape_def\<close>)
  let ?b6 = "b5\<lparr>op_next := nxt, notices := q\<rparr>"
  have s6: "shape ?W cs (ns @ [p]) ?b6"
    by (rule complete_shape [OF sh p m(1) x, of ?b6 x5]) (use T L C x5 q(2,3) in auto)
  have lv: "of_bool (r \<in> set (live_instances b5)) = (of_bool (r \<in> set (live_instances b)) :: int)
      - (if r = ?i \<and> retires (o_kind x) code then 1 else 0)" for r
  proof -
    have "?i \<in> set (live_instances b)" if "retires (o_kind x) code"
      using shape_op [OF sh x] m retires_lifecycle [OF nd, of code] that by (simp add: op_ok_def life_ok_def)
    moreover have "distinct (live_instances b)" using sh by (simp add: shape_def)
    ultimately show ?thesis using L(1) by auto
  qed
  have "set (pipeline ?W cs (ns @ [p])) = set (pipeline W cs ns)"
    using p d(4) by (auto simp: pipeline_def done_world_def)
  moreover have "due (held ?W) (ops b5) r = due (held W) (ops b) r - of_bool (ev_response (o_event x) = Some r)" for r
    using due_remove [of "held W" p "ops b" x "ops b5" r] d(4) p x T(7) by (simp add: done_world_def)
  moreover have "\<not> (delivers (o_kind x) code \<and> retires (o_kind x) code)" by (auto simp: delivers_def retires_def)
  ultimately have "ext_eq (?E\<lparr>x_resp := bumpo (if code = 0 then None else ev_response (o_event x)) (- 1) (x_resp ?E),
       x_inst := bump ?i (if delivers (o_kind x) code then 1 else if retires (o_kind x) code then - 1 else 0) (x_inst ?E)\<rparr>)
       (ext_of ?W cs (ns @ [p]) ?b6)"
    by (simp add: ext_eq_def ext_of_def lv) (auto simp: done_world_def)
  from acct_eqI [OF a this] have "acct (ext_of ?W cs (ns @ [p]) ?b6) ?b6" by (rule acct_same) simp_all
  with s6 have i6: "inv_with ?W cs (ns @ [p]) ?b6" by (simp add: inv_with_def)
  have "phase_ok ?W cs (ns @ [p]) ?b6"
    using ph p T(4,5) L(1) by (cases "held W") (auto simp: phase_ok_def done_world_def)
  with i6 have "bridge_inv ?W ?b6" by (intro bridge_invI) (use m in \<open>simp_all add: done_world_def\<close>)
  then have "bridge_inv ?W (wake_owner e ?b6)" by (rule wake_owner_inv)
  moreover have "hs_bridge_complete e p code kind b = Some (wake_owner e ?b6)"
    using x nd c q(1) by (simp add: hs_bridge_complete_def upd_op_def)
  ultimately show ?thesis by blast
qed

end
