(* ===== verification/Bridge_Deliver.thy ===== *)
theory Bridge_Deliver
  imports Bridge_Complete
begin

text \<open>The notifier's two critical sections, the owner's end, and the results the owner builds.\<close>

subsection \<open>Notifications\<close>

text \<open>The notifier takes an operation off the notice queue and runs its callback.\<close>

definition call_world :: "ptr option \<Rightarrow> world \<Rightarrow> world" where
  "call_world p W = (case p of None \<Rightarrow> W | Some q \<Rightarrow> W\<lparr>calling := [q], waiting := tl (waiting W)\<rparr>)"

lemma notify_take_inv:
  assumes inv: "bridge_inv W b" and c: "calling W = []"
  shows "\<exists>p b'. notify_take b = Some (p, b') \<and> bridge_inv (call_world p W) b' \<and>
    (case p of None \<Rightarrow> waiting W = [] | Some q \<Rightarrow> \<exists>rest. waiting W = q # rest)"
proof -
  obtain cs ns where m: "making W = []" "raising W = {}" "waiting W = ns" and i: "inv_with W cs ns b" and ph: "phase_ok W cs ns b"
    using inv by (rule bridge_invE)
  note sh = inv_shape [OF i]
  have q: "queue_rep (op_next b, notices b) ns" using sh by (simp add: shape_def)
  show ?thesis
  proof (cases ns)
    case Nil
    then have "link_pop (op_next b, notices b) = None" using q link_pop_Nil by simp
    then show ?thesis using inv Nil m(3) by (simp add: notify_take_def call_world_def)
  next
    case (Cons p ns')
    then obtain n' where n': "link_pop (op_next b, notices b) = Some (p, (op_next b, n'))" "queue_rep (op_next b, n') ns'"
      using link_pop_Cons [of "(op_next b, notices b)" p ns'] q by auto
    have "ops b p \<noteq> None" using inv_pipeline_alloc [OF i, of p] Cons by (simp add: pipeline_def)
    then have r: "notify_take b = Some (Some p, b\<lparr>op_next := op_next b, notices := n'\<rparr>)"
      using n'(1) by (auto simp: notify_take_def)
    let ?W = "W\<lparr>calling := [p], waiting := ns'\<rparr>" and ?b = "b\<lparr>op_next := op_next b, notices := n'\<rparr>"
    have "set (pipeline ?W cs ns') = set (pipeline W cs ns)" using Cons c by (auto simp: pipeline_def)
    then have "acct (ext_of ?W cs ns' ?b) ?b"
      by (intro acct_same [OF acct_eqI [OF inv_acct [OF i]]]) (simp_all add: ext_eq_def ext_of_def)
    moreover have "op_ok ?W cs ?b r y = op_ok W cs b r y" for r y by (simp add: op_ok_def life_ok_def)
    then have "shape ?W cs ns' ?b" using sh n'(2) Cons c unfolding shape_def by (auto simp: pipeline_def)
    moreover have "phase_ok ?W cs ns' ?b" using ph Cons by (auto simp: phase_ok_def)
    ultimately have "bridge_inv ?W ?b" using m by (intro bridge_invI) (simp_all add: inv_with_def)
    with r show ?thesis using Cons m(3) by (simp add: call_world_def)
  qed
qed

lemma shape_uncall:
  "shape W cs ns b \<Longrightarrow> shape (W\<lparr>calling := []\<rparr>) cs ns b"
proof -
  assume s: "shape W cs ns b"
  have "op_ok (W\<lparr>calling := []\<rparr>) cs b p x = op_ok W cs b p x" for p x by (simp add: op_ok_def life_ok_def)
  moreover have "distinct (pipeline (W\<lparr>calling := []\<rparr>) cs ns)" using s by (auto simp: shape_def pipeline_def)
  ultimately show ?thesis using s unfolding shape_def by simp
qed

lemma notify_retire_acct:
  assumes a: "acct E b" and x: "ops b p = Some x" "o_done x" and e: "x_pipe E p = 1" and z: "settled E"
  shows "\<exists>b1 b2. upd_inst (o_instance x) (\<lambda>s. s\<lparr>s_notifications := s_notifications s - 1\<rparr>) b = Some b1 \<and>
    op_drop p (b1\<lparr>active_ops := active_ops b1 - 1\<rparr>) = Some b2 \<and> acct (E\<lparr>x_pipe := bump p (- 1) (x_pipe E)\<rparr>) b2 \<and> fades b b2"
proof -
  let ?i = "o_instance x"
  obtain s where s: "insts b ?i = Some s" using acct_op_inst [OF a x(1)] by blast
  let ?s = "s\<lparr>s_notifications := s_notifications s - 1\<rparr>" and ?E1 = "E\<lparr>x_note := bump ?i (- 1) (x_note E)\<rparr>"
  let ?b1 = "b\<lparr>insts := (insts b)(?i \<mapsto> ?s)\<rparr>" let ?b2 = "?b1\<lparr>active_ops := active_ops ?b1 - 1\<rparr>"
  have wf: "wf_ext E" by (rule acct_wf_ext [OF a])
  have a1: "acct ?E1 ?b1"
    by (rule acct_write_inst_only [OF a s]) (use wf acct_inst_pos [OF a s] in \<open>simp_all add: ext_eq_def move_inst_def wf_ext_def\<close>)
  have a2: "acct (?E1\<lparr>x_ops := x_ops ?E1 + (- 1)\<rparr>) ?b2" by (rule acct_cong [OF a1]) simp_all
  let ?E3 = "E\<lparr>x_pipe := bump p (- 1) (x_pipe E), x_op := bump p 1 (x_op E)\<rparr>"
  have a3: "acct ?E3 ?b2"
    by (rule acct_eqI [OF acct_move_pipe [OF a2, of p x "- 1"]])
      (use x(1) e wf in \<open>auto simp: ext_eq_def move_pipe_def wf_ext_def\<close>)
  have "0 \<le> x_op E p" using wf by (simp add: wf_ext_def)
  then obtain b3 where b3: "op_drop p ?b2 = Some b3" "acct (?E3\<lparr>x_op := bump p (- 1) (x_op ?E3), x_act := \<lambda>_. 0\<rparr>) b3"
    using op_drop_acct [OF a3, of p x] x z by (auto simp: settled_def)
  have "acct (E\<lparr>x_pipe := bump p (- 1) (x_pipe E)\<rparr>) b3"
    by (rule acct_eqI [OF b3(2)]) (use z in \<open>simp add: ext_eq_def settled_def\<close>)
  moreover have "fades b ?b2" using s by (auto simp: fades_def)
  then have "fades b b3" using op_drop_fades [OF b3(1)] fades_trans by blast
  ultimately show ?thesis using b3(1) s by (simp add: upd_inst_def)
qed

lemma notify_retire_inv:
  assumes inv: "bridge_inv W b" and c: "calling W = [p]"
  shows "\<exists>b'. notify_retire e p b = Some b' \<and> bridge_inv (W\<lparr>calling := []\<rparr>) b'"
proof -
  obtain cs ns where m: "making W = []" "raising W = {}" "waiting W = ns" and i: "inv_with W cs ns b" and ph: "phase_ok W cs ns b"
    using inv by (rule bridge_invE)
  note sh = inv_shape [OF i]
  let ?E = "ext_of W cs ns b" and ?W = "W\<lparr>calling := []\<rparr>"
  have p: "p \<in> set (pipeline W cs ns)" using c by (simp add: pipeline_def)
  obtain x where x: "ops b p = Some x" using inv_pipeline_alloc [OF i p] by auto
  have np: "p \<notin> set (pipeline ?W cs ns)" using sh c by (auto simp: shape_def pipeline_def)
  then have d: "o_done x" using shape_op [OF sh x] by (auto simp: op_ok_def pipeline_def)
  obtain b1 b2 where b: "upd_inst (o_instance x) (\<lambda>s. s\<lparr>s_notifications := s_notifications s - 1\<rparr>) b = Some b1"
    "op_drop p (b1\<lparr>active_ops := active_ops b1 - 1\<rparr>) = Some b2"
    "acct (?E\<lparr>x_pipe := bump p (- 1) (x_pipe ?E)\<rparr>) b2" "fades b b2"
    using notify_retire_acct [OF inv_acct [OF i] x d] p by (auto simp: ext_of_def settled_def)
  have "set (pipeline W cs ns) = insert p (set (pipeline ?W cs ns))" using c by (auto simp: pipeline_def)
  then have a2: "acct (ext_of ?W cs ns b) b2"
    by (intro acct_eqI [OF b(3)]) (use np in \<open>simp add: ext_eq_def ext_of_def pipe_bump\<close>)
  have "ops b2 q \<noteq> None" if "q \<in> set (held ?W)" for q
    by (rule pipeline_alloc [OF a2]) (use that in \<open>simp add: ext_of_def pipeline_def\<close>)
  then have "due (held ?W) (ops b2) q = due (held ?W) (ops b) q" for q by (rule due_fade [OF b(4)])
  then have "ext_of ?W cs ns b2 = ext_of ?W cs ns b" using b(4) by (simp add: ext_of_def fades_def)
  with a2 have "acct (ext_of ?W cs ns b2) b2" by simp
  moreover have "shape ?W cs ns b2"
    by (rule shape_uncall) (rule shape_fade [OF sh b(4)], simp_all add: inv_nonneg [OF i])
  moreover have "phase_ok ?W cs ns b2" using ph b(4) by (auto simp: phase_ok_def fades_def)
  ultimately have "bridge_inv ?W b2" using m by (intro bridge_invI) (simp_all add: inv_with_def)
  then have "bridge_inv ?W (wake_owner e b2)" by (rule wake_owner_inv)
  moreover have "notify_retire e p b = Some (wake_owner e b2)" using x b(1,2) by (simp add: notify_retire_def)
  ultimately show ?thesis by blast
qed

subsection \<open>The end of the owner\<close>

lemma retire_all_inv:
  assumes "inv_with W [] ns b" "live_instances b = ps" "held W = []" "making W = []" "raising W = {}"
  shows "\<exists>b'. retire_all ps b = Some b' \<and> inv_with W [] ns b' \<and> live_instances b' = [] \<and> state b' = state b \<and>
    owner_done b' = owner_done b"
  using assms
proof (induction ps arbitrary: b)
  case Nil
  then show ?case by (auto intro: inv_same)
next
  case (Cons p ps)
  note i = Cons.prems(1) note sh = inv_shape [OF i]
  let ?E = "ext_of W [] ns b"
  have dl: "p \<notin> set ps" "distinct ps" using sh Cons.prems(2) by (auto simp: shape_def)
  have l: "0 < x_inst ?E p" using inv_nonneg(1) [OF i, of p] Cons.prems(2) by (simp add: ext_of_def)
  obtain s where s: "insts b p = Some s" using acct_ext_inst [OF inv_acct [OF i] l] by blast
  let ?s = "s\<lparr>s_closed := True, s_closing := True\<rparr>"
  let ?b1 = "b\<lparr>live_instances := ps, insts := (insts b)(p \<mapsto> ?s)\<rparr>" let ?b2 = "?b1\<lparr>instances := instances ?b1 - 1\<rparr>"
  have "acct ?E (b\<lparr>insts := (insts b)(p \<mapsto> ?s)\<rparr>)"
    by (rule acct_write_inst_only [OF inv_acct [OF i] s])
      (use acct_wf_ext [OF inv_acct [OF i]] acct_inst_pos [OF inv_acct [OF i] s] in \<open>simp_all add: ext_eq_def move_inst_def\<close>)
  then have a2: "acct ?E ?b2" by (rule acct_same) simp_all
  obtain b3 where b3: "instance_drop p ?b2 = Some b3" "acct (?E\<lparr>x_inst := bump p (- 1) (x_inst ?E)\<rparr>) b3"
    using instance_drop_acct [OF a2 l] by (auto simp: ext_of_def)
  have F: "ops b3 = ops b" "live_instances b3 = ps" "instances b3 = instances b - 1" "op_next b3 = op_next b"
    "commands b3 = commands b" "notices b3 = notices b" "chunks b3 = chunks b" "state b3 = state b" "owner_done b3 = owner_done b"
    using b3(1) by (auto simp: instance_drop_def split: if_splits)
  have I: "\<And>q t. insts b3 q = Some t \<Longrightarrow> if q = p then s_closing t else insts b q = Some t"
    using b3(1) by (auto simp: instance_drop_def split: if_splits)
  have "acct (ext_of W [] ns b3) b3"
    by (rule acct_eqI [OF b3(2)]) (use Cons.prems(2) F dl in \<open>auto simp: ext_eq_def ext_of_def\<close>)
  moreover have "op_ok W [] b3 q x" if "ops b3 q = Some x" for q x
  proof -
    have "op_ok W [] b q x" using shape_op [OF sh] that F by simp
    then show ?thesis using Cons.prems(3,4) by (simp add: op_ok_def life_ok_def lifecycle_def)
  qed
  moreover have "q \<in> set ps" if "insts b3 q = Some t" "\<not> s_closing t" for q t
    using I [OF that(1)] that(2) sh Cons.prems(2,5) by (auto simp: shape_def split: if_splits)
  ultimately have "inv_with W [] ns b3"
    using sh F dl Cons.prems(2,5) unfolding inv_with_def shape_def by simp
  then obtain b' where b': "retire_all ps b3 = Some b'" "inv_with W [] ns b'" "live_instances b' = []" "state b' = state b3"
    "owner_done b' = owner_done b3"
    using Cons.IH [OF _ F(2) Cons.prems(3-5)] by blast
  moreover have "retire_all (p # ps) b = retire_all ps b3" using s b3(1) by (simp add: upd_inst_def)
  ultimately show ?case using F by auto
qed

lemma owner_finish_inv:
  assumes inv: "bridge_inv W b" and h: "held W = []" and st: "state b = 3" and c: "fst (commands b) = None"
  shows "\<exists>b'. owner_finish b = Some b' \<and> bridge_inv W b'"
proof -
  obtain cs ns where m: "making W = []" "raising W = {}" "waiting W = ns" and i: "inv_with W cs ns b" and ph: "phase_ok W cs ns b"
    using inv by (rule bridge_invE)
  have "queue_rep (op_next b, commands b) cs" using inv_shape [OF i] by (simp add: shape_def)
  then have cs: "cs = []" using c queue_rep_head [of "op_next b" "fst (commands b)" "snd (commands b)" cs] by simp
  obtain b1 where b1: "retire_all (live_instances b) b = Some b1" "inv_with W [] ns b1" "live_instances b1 = []" "state b1 = state b"
    using retire_all_inv [of W ns b "live_instances b"] i cs h m by auto
  have "inv_with W [] ns (b1\<lparr>owner_done := True\<rparr>)" by (rule inv_same [OF b1(2)]) simp_all
  moreover have "phase_ok W [] ns (b1\<lparr>owner_done := True\<rparr>)"
    using b1(3,4) st h by (simp add: phase_ok_def)
  ultimately have "bridge_inv W (b1\<lparr>owner_done := True\<rparr>)" by (rule bridge_invI [OF m])
  moreover have "owner_finish b = Some (b1\<lparr>owner_done := True\<rparr>)" using b1(1) c by (simp add: owner_finish_def)
  ultimately show ?thesis by blast
qed

subsection \<open>Building results\<close>

lemma held_alloc:
  "inv_with W cs ns b \<Longrightarrow> p \<in> set (held W) \<Longrightarrow> \<exists>x. ops b p = Some x"
  using inv_pipeline_alloc [of W cs ns b p] by (auto simp: pipeline_def)

lemma limits_inv:
  assumes inv: "bridge_inv W b" and p: "p \<in> set (held W)"
  shows "\<exists>b'. hs_bridge_limits p c k g r b = Some b' \<and> bridge_inv W b'"
proof -
  obtain cs ns where m: "making W = []" "raising W = {}" "waiting W = ns" and i: "inv_with W cs ns b" and ph: "phase_ok W cs ns b"
    using inv by (rule bridge_invE)
  obtain x where x: "ops b p = Some x" using held_alloc [OF i p] by blast
  obtain s where s: "insts b (o_instance x) = Some s" using acct_op_inst [OF inv_acct [OF i] x] by blast
  let ?s = "s\<lparr>s_capacity := c, s_block_size := k, s_budget := word_of_int g, s_response_limit := r\<rparr>"
  let ?b = "b\<lparr>insts := (insts b)(o_instance x \<mapsto> ?s)\<rparr>"
  have "inv_with W cs ns ?b" by (rule write_inst_inv [OF i s]) simp_all
  moreover have "phase_ok W cs ns ?b" by (rule phase_same [OF ph]) simp_all
  ultimately have "bridge_inv W ?b" by (rule bridge_invI [OF m])
  then show ?thesis using x s by (simp add: hs_bridge_limits_def upd_inst_def)
qed

text \<open>A result was added to the event of a held operation; nothing else the protocol sees changed.\<close>

lemma result_inv:
  assumes i: "inv_with W cs ns b" and p: "p \<in> set (held W)" and x: "ops b p = Some x"
    and o: "ops b' = (ops b)(p \<mapsto> x\<lparr>o_event := ev\<rparr>)"
    and I: "\<And>q s'. insts b' q = Some s' \<Longrightarrow> \<exists>s. insts b q = Some s \<and> s_closing s' = s_closing s"
    and F: "op_next b' = op_next b" "commands b' = commands b" "notices b' = notices b"
      "live_instances b' = live_instances b" "instances b' = instances b" "dom (chunks b') = dom (chunks b) \<union> C"
    and a: "acct (ext_of (W\<lparr>h_chunk := h_chunk W \<union> C\<rparr>) cs ns b') b'"
  shows "inv_with (W\<lparr>h_chunk := h_chunk W \<union> C\<rparr>) cs ns b'"
proof -
  let ?W = "W\<lparr>h_chunk := h_chunk W \<union> C\<rparr>"
  note sh = inv_shape [OF i]
  have pn: "p \<notin> set cs" "p \<notin> set (making W)" using sh p by (auto simp: shape_def pipeline_def)
  have orig: "\<exists>z. ops b q = Some z \<and> o_done y = o_done z \<and> o_kind y = o_kind z \<and> o_instance y = o_instance z \<and>
      o_response y = o_response z \<and> (q \<noteq> p \<longrightarrow> y = z)" if "ops b' q = Some y" for q y
    using that o x by (cases "q = p") auto
  have ok: "op_ok ?W cs b' q y" if y: "ops b' q = Some y" for q y
  proof -
    obtain z where z: "ops b q = Some z" "o_done y = o_done z" "o_kind y = o_kind z" "o_instance y = o_instance z"
      "o_response y = o_response z" "q \<noteq> p \<longrightarrow> y = z" using orig [OF y] by blast
    have lc: "lifecycle y = lifecycle z" using z(2,3) by (simp add: lifecycle_def)
    have ly: "life_ok ?W b' y" if l: "life_ok W b z"
    proof -
      have "s_closing s'" if "lifecycle z" "o_kind z \<in> {5, 6}" "insts b' (o_instance z) = Some s'" for s'
        using I [OF that(3)] that(1,2) l by (auto simp: life_ok_def)
      with l show ?thesis unfolding life_ok_def lc z(3,4) F(4) by simp
    qed
    show ?thesis
    proof (cases "q = p")
      case True
      with shape_op [OF sh z(1)] z(2-5) pn ly show ?thesis by (simp add: op_ok_def)
    next
      case False
      with shape_op [OF sh z(1)] z(6) ly show ?thesis by (simp add: op_ok_def)
    qed
  qed
  have un: "q = r" if t: "q \<notin> set (making W)" "r \<notin> set (making W)" "ops b' q = Some y" "ops b' r = Some z" "lifecycle y" "lifecycle z"
     "o_instance y = o_instance z" for q r y z
  proof -
    obtain y0 where "ops b q = Some y0" "lifecycle y0" "o_instance y0 = o_instance y"
      using orig [OF t(3)] t(5) by (auto simp: lifecycle_def)
    moreover obtain z0 where "ops b r = Some z0" "lifecycle z0" "o_instance z0 = o_instance z"
      using orig [OF t(4)] t(6) by (auto simp: lifecycle_def)
    ultimately show ?thesis using sh t(1,2,7) unfolding shape_def by simp
  qed
  have cl: "q \<in> set (live_instances b') \<or> q \<in> raising W" if "insts b' q = Some s'" "\<not> s_closing s'" for q s'
    using I [OF that(1)] that(2) sh F(4) by (auto simp: shape_def)
  have "shape ?W cs ns b'" using sh ok un cl F unfolding shape_def by simp
  with a show ?thesis by (simp add: inv_with_def)
qed

lemma due_set:
  assumes "distinct hl" "p \<in> set hl" "h p = Some x" "ev_response (o_event x) = None" "ev_response ev = Some q"
  shows "due hl (h(p \<mapsto> x\<lparr>o_event := ev\<rparr>)) r = due hl h r + (if r = q then 1 else 0)"
proof -
  let ?h = "h(p \<mapsto> x\<lparr>o_event := ev\<rparr>)"
  have "due (remove1 p hl) h r = due hl ?h r - of_bool (Some q = Some r)"
    using due_remove [of hl p ?h "x\<lparr>o_event := ev\<rparr>" h r] assms by simp
  moreover have "due (remove1 p hl) h r = due hl h r"
    using due_remove [of hl p h x h r] assms by simp
  ultimately show ?thesis by auto
qed

lemma response_acct:
  assumes a: "acct E b" and x: "ops b p = Some x" and s: "insts b (o_instance x) = Some s" and q: "resps b q = None"
    and c: "charge (o_instance x) n b = Some (True, b1)"
    and r: "r_refs r = 1" "r_instance r = o_instance x" "r_metadata_charge r = n" "r_chunks r = 0" and xr: "x_resp E q = 0"
  shows "\<exists>s1. insts b1 (o_instance x) = Some s1 \<and> s_closing s1 = s_closing s \<and>
    acct (E\<lparr>x_resp := bump q 1 (x_resp E)\<rparr>)
      (b1\<lparr>insts := (insts b1)(o_instance x \<mapsto> s1\<lparr>s_response_count := s_response_count s1 + 1, s_refs := s_refs s1 + 1\<rparr>),
         ops := (ops b)(p \<mapsto> x\<lparr>o_event := ev\<rparr>), resps := (resps b)(q \<mapsto> r)\<rparr>)"
proof -
  let ?i = "o_instance x"
  obtain s1 where s1: "insts b1 ?i = Some s1" "s_closing s1 = s_closing s" using c s by (auto simp: charge_def split: if_splits)
  have f: "ops b1 = ops b" "resps b1 = resps b" using charge_frame [OF c] by (auto dest: arg_cong [where f = ops] arg_cong [where f = resps])
  let ?E1 = "E\<lparr>x_credit := bump ?i (uint n) (x_credit E)\<rparr>"
  have a1: "acct ?E1 b1" by (rule charge_acct [OF a c])
  let ?s = "s1\<lparr>s_response_count := s_response_count s1 + 1, s_refs := s_refs s1 + 1\<rparr>"
  let ?E2 = "?E1\<lparr>x_inst := bump ?i 1 (x_inst E), x_count := bump ?i 1 (x_count E)\<rparr>"
  let ?b2 = "b1\<lparr>insts := (insts b1)(?i \<mapsto> ?s)\<rparr>"
  have a2: "acct ?E2 ?b2"
    by (rule acct_write_inst_only [OF a1 s1(1)])
      (use acct_wf_ext [OF a1] acct_inst_pos [OF a1 s1(1)] in \<open>simp_all add: ext_eq_def move_inst_def wf_ext_def\<close>)
  have a3: "acct ?E2 (?b2\<lparr>ops := (ops ?b2)(p := Some (x\<lparr>o_event := ev\<rparr>))\<rparr>)"
    by (rule write_op_acct [OF a2, of p x]) (simp_all add: f x)
  let ?b3 = "?b2\<lparr>ops := (ops ?b2)(p := Some (x\<lparr>o_event := ev\<rparr>))\<rparr>"
  have "acct (E\<lparr>x_resp := bump q 1 (x_resp E)\<rparr>) (?b3\<lparr>resps := (resps ?b3)(q := Some r)\<rparr>)"
  proof (rule acct_write_resp [OF a3, of q None])
    show "ext_eq (move_resp q None (Some r) ?E2) (E\<lparr>x_resp := bump q 1 (x_resp E)\<rparr>)"
      using r by (simp add: ext_eq_def move_resp_def counted_defs)
    show "wf_ext (E\<lparr>x_resp := bump q 1 (x_resp E)\<rparr>)" using acct_wf_ext [OF a] by (simp add: wf_ext_def)
  qed (use f q r in auto)
  then have "acct (E\<lparr>x_resp := bump q 1 (x_resp E)\<rparr>)
      (b1\<lparr>insts := (insts b1)(?i \<mapsto> ?s), ops := (ops b)(p \<mapsto> x\<lparr>o_event := ev\<rparr>), resps := (resps b)(q \<mapsto> r)\<rparr>)"
    by (rule acct_same) (simp_all add: f)
  with s1 show ?thesis by blast
qed

lemma response_inv:
  assumes inv: "bridge_inv W b" and p: "p \<in> set (held W)" and x: "ops b p = Some x" "ev_response (o_event x) = None"
    and al: "alloc_ok e b"
  shows "\<exists>r b'. hs_bridge_response e p rid status len count b = Some (r, b') \<and> bridge_inv W b'"
proof -
  obtain cs ns where m: "making W = []" "raising W = {}" "waiting W = ns" and i: "inv_with W cs ns b" and ph: "phase_ok W cs ns b"
    using inv by (rule bridge_invE)
  obtain s where s: "insts b (o_instance x) = Some s" using acct_op_inst [OF inv_acct [OF i] x(1)] by blast
  let ?cost = "sizeof_response + of_nat count * sizeof_header"
  obtain ok b1 where c: "charge (o_instance x) ?cost b = Some (ok, b1)" using charge_total [OF s] by blast
  show ?thesis
  proof (cases "sys_alloc e 0 = None \<or> count \<noteq> 0 \<and> sys_alloc e 1 = None \<or> s_response_count s \<ge> s_response_limit s \<or> \<not> ok")
    case True
    then show ?thesis using inv x(1) s c charge_False [of "o_instance x" ?cost b b1]
      by (auto simp: hs_bridge_response_def Let_def split: option.splits)
  next
    case False
    then obtain q where q: "sys_alloc e 0 = Some q" and nf: "\<not> (count \<noteq> 0 \<and> sys_alloc e 1 = None)"
      "\<not> s_response_count s \<ge> s_response_limit s" "ok" by auto
    let ?ev = "(o_event x)\<lparr>ev_response := Some q, ev_kind := HS_RESULT_HANDLED\<rparr>"
    let ?r = "\<lparr>r_refs = 1, r_id = rid, r_reading = False, r_released = False, r_chunks = 0, r_instance = o_instance x,
        r_meta = \<lparr>m_struct_size = sizeof_response_meta, m_abi_major = 1, m_status = status,
          m_header_count = of_nat count, m_headers = replicate count (None, None),
          m_content_length = (if len \<ge> 0 then word_of_int len else 0), m_has_content_length = (len \<ge> 0)\<rparr>,
        r_metadata_charge = ?cost\<rparr>"
    have free: "resps b q = None" using al q by (simp add: alloc_ok_def)
    have xr: "x_resp (ext_of W cs ns b) q = 0"
    proof -
      have "\<not> 0 < x_resp (ext_of W cs ns b) q" using acct_ext_resp [OF inv_acct [OF i], of q] free by auto
      moreover have "0 \<le> x_resp (ext_of W cs ns b) q" using acct_wf_ext [OF inv_acct [OF i]] by (simp add: wf_ext_def)
      ultimately show ?thesis by simp
    qed
    have c': "charge (o_instance x) ?cost b = Some (True, b1)" using c nf(3) by simp
    have r: "r_refs ?r = 1" "r_instance ?r = o_instance x" "r_metadata_charge ?r = ?cost" "r_chunks ?r = 0" by simp_all
    obtain s1 where s1: "insts b1 (o_instance x) = Some s1" "s_closing s1 = s_closing s" and
      a: "acct ((ext_of W cs ns b)\<lparr>x_resp := bump q 1 (x_resp (ext_of W cs ns b))\<rparr>)
        (b1\<lparr>insts := (insts b1)(o_instance x \<mapsto> s1\<lparr>s_response_count := s_response_count s1 + 1, s_refs := s_refs s1 + 1\<rparr>),
         ops := (ops b)(p \<mapsto> x\<lparr>o_event := ?ev\<rparr>), resps := (resps b)(q \<mapsto> ?r)\<rparr>)" (is "acct _ ?b")
      using response_acct [OF inv_acct [OF i] x(1) s free c' r xr, of ?ev] by blast
    have f: "ops b1 = ops b" "resps b1 = resps b" "chunks b1 = chunks b" "op_next b1 = op_next b" "commands b1 = commands b"
      "notices b1 = notices b" "live_instances b1 = live_instances b" "instances b1 = instances b" "state b1 = state b"
      "owner_done b1 = owner_done b" "\<And>t. t \<noteq> o_instance x \<Longrightarrow> insts b1 t = insts b t"
      using c' s by (auto simp: charge_def split: if_splits)
    have dh: "distinct (held W)" using inv_shape [OF i] by (simp add: shape_def pipeline_def)
    have ds: "due (held W) ((ops b)(p \<mapsto> x\<lparr>o_event := ?ev\<rparr>)) t = due (held W) (ops b) t + (if t = q then 1 else 0)" for t
      by (rule due_set [OF dh p]) (use x in simp_all)
    have "inv_with (W\<lparr>h_chunk := h_chunk W \<union> {}\<rparr>) cs ns ?b"
    proof (rule result_inv [OF i p x(1), of ?b ?ev])
      show "\<exists>u. insts b t = Some u \<and> s_closing s' = s_closing u" if "insts ?b t = Some s'" for t s'
        using that s s1(2) f(11) by (cases "t = o_instance x") auto
      show "acct (ext_of (W\<lparr>h_chunk := h_chunk W \<union> {}\<rparr>) cs ns ?b) ?b"
        by (rule acct_eqI [OF a]) (simp add: ext_eq_def ext_of_def f ds)
    qed (simp_all add: f)
    then have "inv_with W cs ns ?b" by simp
    moreover have "phase_ok W cs ns ?b" by (rule phase_same [OF ph]) (simp_all add: f)
    ultimately have "bridge_inv W ?b" by (rule bridge_invI [OF m])
    moreover have "hs_bridge_response e p rid status len count b = Some (Some q, ?b)"
      using q nf c' s s1(1) x(1) f by (simp add: hs_bridge_response_def Let_def upd_inst_def upd_op_def)
    ultimately show ?thesis by blast
  qed
qed

subsection \<open>Headers and chunks\<close>

text \<open>Whatever has been charged to one response together with a new charge stays within the total.\<close>

lemma metadata_no_wrap:
  assumes a: "acct E b" and r: "resps b q = Some r" and c: "charge (r_instance r) n b = Some (True, b1)"
  shows "uint (r_metadata_charge r + n) = uint (r_metadata_charge r) + uint n"
proof -
  let ?i = "r_instance r"
  have a1: "acct (E\<lparr>x_credit := bump ?i (uint n) (x_credit E)\<rparr>) b1" by (rule charge_acct [OF a c])
  have rs: "resps b1 = resps b" using charge_frame [OF c] by (auto dest: arg_cong [where f = resps])
  obtain s where s: "insts b1 ?i = Some s" using c by (auto simp: charge_def bind_eq_Some_conv split: if_splits)
  have "uint (r_metadata_charge r) \<le> heap_sum (resp_credit ?i) (resps b1)"
    using heap_sum_ge_cell [of "resps b1" "resp_credit ?i" q r] rs r acct_finite [OF a1] by (simp add: resp_credit_def)
  moreover have "0 \<le> x_credit E ?i" using acct_wf_ext [OF a] by (simp add: wf_ext_def)
  moreover have "uint (s_charged s) = x_credit E ?i + uint n + heap_sum (op_credit ?i) (ops b1)
      + heap_sum (resp_credit ?i) (resps b1) + heap_sum (chunk_credit ?i) (chunks b1)"
  proof -
    have "cell (\<lambda>s. uint (s_charged s)) (insts b1 ?i) = x_credit (E\<lparr>x_credit := bump ?i (uint n) (x_credit E)\<rparr>) ?i
      + heap_sum (op_credit ?i) (ops b1) + heap_sum (resp_credit ?i) (resps b1) + heap_sum (chunk_credit ?i) (chunks b1)"
      using a1 by (simp only: acct_def acct_credit_def)
    then show ?thesis using s by simp
  qed
  moreover have "uint (s_charged s) \<le> 67108864"
    using acct_credit_le_total [OF a1 s] a1 by (simp add: acct_def acct_total_def)
  moreover have "0 \<le> heap_sum (op_credit ?i) (ops b1)" "0 \<le> heap_sum (chunk_credit ?i) (chunks b1)" by simp_all
  ultimately have "uint (r_metadata_charge r) + uint n \<le> 67108864" by linarith
  then show ?thesis by (intro uint_add_no_wrap) simp
qed

lemma charge_metadata_inv:
  assumes i: "inv_with W cs ns b" and r: "resps b q = Some r" and c: "charge (r_instance r) n b = Some (True, b1)"
  shows "inv_with W cs ns (b1\<lparr>resps := (resps b1)(q \<mapsto> r\<lparr>r_metadata_charge := r_metadata_charge r + n\<rparr>)\<rparr>)"
proof (rule inv_fade [OF i])
  let ?r = "r\<lparr>r_metadata_charge := r_metadata_charge r + n\<rparr>" and ?E = "ext_of W cs ns b"
  have rs: "resps b1 = resps b" using charge_frame [OF c] by (auto dest: arg_cong [where f = resps])
  have "fades b1 (b1\<lparr>resps := h\<rparr>)" for h by (simp add: fades_def)
  then show "fades b (b1\<lparr>resps := (resps b1)(q \<mapsto> ?r)\<rparr>)" using charge_fades [OF c] fades_trans by blast
  have a1: "acct (?E\<lparr>x_credit := bump (r_instance r) (uint n) (x_credit ?E)\<rparr>) b1"
    by (rule charge_acct [OF inv_acct [OF i] c])
  have "0 < r_refs r" using inv_acct [OF i] r by (simp add: acct_def wf_heaps_def)
  show "acct ?E (b1\<lparr>resps := (resps b1)(q \<mapsto> ?r)\<rparr>)"
  proof (rule acct_write_resp [OF a1, of q "Some r"])
    show "ext_eq (move_resp q (Some r) (Some ?r) (?E\<lparr>x_credit := bump (r_instance r) (uint n) (x_credit ?E)\<rparr>)) ?E"
      using metadata_no_wrap [OF inv_acct [OF i] r c] by (simp add: ext_eq_def move_resp_def counted_defs)
  qed (use rs r \<open>0 < r_refs r\<close> acct_wf_ext [OF inv_acct [OF i]] in auto)
qed (simp_all add: inv_nonneg [OF i])

lemma due_pos:
  assumes "p \<in> set hl" "h p = Some x" "ev_response (o_event x) = Some q"
  shows "0 < due hl h q"
proof -
  have "due hl h q = due (remove1 p hl) h q + 1"
    using assms sum_list_map_remove1 [OF assms(1), of "\<lambda>q'. cell (\<lambda>x. of_bool (ev_response (o_event x) = Some q)) (h q') :: int"]
    by (simp add: due_def)
  then show ?thesis using due_nonneg [of "remove1 p hl" h q] by linarith
qed

lemma due_resp_alloc:
  assumes i: "inv_with W cs ns b" and p: "p \<in> set (held W)" "ops b p = Some x" "ev_response (o_event x) = Some q"
  shows "\<exists>r. resps b q = Some r"
  by (rule acct_ext_resp [OF inv_acct [OF i]])
    (use due_pos [OF p(1), of "ops b"] p inv_nonneg(2) [OF i, of q] in \<open>simp add: ext_of_def add_nonneg_pos\<close>)

lemma set_header_inv:
  assumes inv: "bridge_inv W b" and p: "p \<in> set (held W)" "ops b p = Some x" "ev_response (o_event x) = Some q"
    and l: "\<And>r. resps b q = Some r \<Longrightarrow> j < length (m_headers (r_meta r))"
  shows "\<exists>ok b'. hs_bridge_set_header e q j k v b = Some (ok, b') \<and> bridge_inv W b'"
proof -
  obtain cs ns where m: "making W = []" "raising W = {}" "waiting W = ns" and i: "inv_with W cs ns b" and ph: "phase_ok W cs ns b"
    using inv by (rule bridge_invE)
  obtain r where r: "resps b q = Some r" using due_resp_alloc [OF i p] by blast
  let ?n = "of_nat (length k) + of_nat (length v) + 2 :: u64"
  obtain s where "insts b (r_instance r) = Some s" using acct_resp_inst [OF inv_acct [OF i] r] by blast
  then obtain ok b1 where c: "charge (r_instance r) ?n b = Some (ok, b1)" using charge_total by blast
  show ?thesis
  proof (cases ok)
    case False
    then show ?thesis using r c inv charge_False [of "r_instance r" ?n b b1] by (auto simp: hs_bridge_set_header_def Let_def)
  next
    case True
    with c have c': "charge (r_instance r) ?n b = Some (True, b1)" by simp
    have rs: "resps b1 = resps b" using charge_frame [OF c] by (auto dest: arg_cong [where f = resps])
    let ?r = "r\<lparr>r_metadata_charge := r_metadata_charge r + ?n\<rparr>"
    let ?b2 = "b1\<lparr>resps := (resps b1)(q \<mapsto> ?r)\<rparr>"
    have i2: "inv_with W cs ns ?b2" by (rule charge_metadata_inv [OF i r c'])
    have ph2: "phase_ok W cs ns ?b2" by (rule phase_same [OF ph]) (use charge_fades [OF c] in \<open>simp_all add: fades_def\<close>)
    define name where "name = copy_span (sys_alloc e 0) \<lparr>sp_data = Some k, sp_length = of_nat (length k)\<rparr>"
    define val where "val = (if name = None then None else copy_span (sys_alloc e 1) \<lparr>sp_data = Some v, sp_length = of_nat (length v)\<rparr>)"
    let ?r3 = "?r\<lparr>r_meta := (r_meta ?r)\<lparr>m_headers := (m_headers (r_meta ?r))[j := (name, val)]\<rparr>\<rparr>"
    let ?b3 = "?b2\<lparr>resps := (resps ?b2)(q \<mapsto> ?r3)\<rparr>"
    have "inv_with W cs ns ?b3" by (rule write_resp_inv [OF i2, of q ?r]) simp_all
    moreover have "phase_ok W cs ns ?b3" by (rule phase_same [OF ph2]) simp_all
    ultimately have "bridge_inv W ?b3" by (rule bridge_invI [OF m])
    moreover have "hs_bridge_set_header e q j k v b = Some (name \<noteq> None \<and> val \<noteq> None, ?b3)"
      using r c' rs l [OF r] by (simp add: hs_bridge_set_header_def Let_def upd_resp_def name_def val_def)
    ultimately show ?thesis by blast
  qed
qed

lemma chunk_acct:
  assumes a: "acct E b" and x: "ops b p = Some x" and s: "insts b (o_instance x) = Some s" and r: "resps b q = Some r"
    and f: "chunks b k = None" and c: "charge (o_instance x) n b = Some (True, b1)"
    and ch: "c_instance ch = o_instance x" "c_response ch = Some q" "c_length ch = n"
  shows "\<exists>s1. insts b1 (o_instance x) = Some s1 \<and> s_closing s1 = s_closing s \<and>
    acct E (b1\<lparr>insts := (insts b1)(o_instance x \<mapsto> s1\<lparr>s_refs := s_refs s1 + 1\<rparr>),
      resps := (resps b)(q \<mapsto> r\<lparr>r_refs := r_refs r + 1, r_chunks := r_chunks r + 1\<rparr>),
      ops := (ops b)(p \<mapsto> x\<lparr>o_event := ev\<rparr>), chunks := (chunks b)(k \<mapsto> ch)\<rparr>)"
proof -
  let ?i = "o_instance x"
  obtain s1 where s1: "insts b1 ?i = Some s1" "s_closing s1 = s_closing s" using c s by (auto simp: charge_def split: if_splits)
  have fr: "ops b1 = ops b" "resps b1 = resps b" "chunks b1 = chunks b"
    using charge_frame [OF c] by (auto dest: arg_cong [where f = ops] arg_cong [where f = resps] arg_cong [where f = chunks])
  let ?E1 = "E\<lparr>x_credit := bump ?i (uint n) (x_credit E)\<rparr>"
  have a1: "acct ?E1 b1" by (rule charge_acct [OF a c])
  let ?b2 = "b1\<lparr>insts := (insts b1)(?i \<mapsto> s1\<lparr>s_refs := s_refs s1 + 1\<rparr>)\<rparr>" and ?E2 = "?E1\<lparr>x_inst := bump ?i 1 (x_inst E)\<rparr>"
  have a2: "acct ?E2 ?b2"
    by (rule acct_write_inst_only [OF a1 s1(1)])
      (use acct_wf_ext [OF a1] acct_inst_pos [OF a1 s1(1)] in \<open>simp_all add: ext_eq_def move_inst_def wf_ext_def\<close>)
  let ?r = "r\<lparr>r_refs := r_refs r + 1, r_chunks := r_chunks r + 1\<rparr>"
  let ?b3 = "?b2\<lparr>resps := (resps ?b2)(q := Some ?r)\<rparr>" and ?E3 = "?E2\<lparr>x_resp := bump q 1 (x_resp E), x_rch := bump q 1 (x_rch E)\<rparr>"
  have "0 < r_refs r" using a r by (simp add: acct_def wf_heaps_def)
  then have a3: "acct ?E3 ?b3"
    by (intro acct_write_resp [OF a2, of q "Some r"])
      (use fr r acct_wf_ext [OF a2] in \<open>auto simp: ext_eq_def move_resp_def counted_defs wf_ext_def\<close>)
  let ?b4 = "?b3\<lparr>ops := (ops ?b3)(p := Some (x\<lparr>o_event := ev\<rparr>))\<rparr>"
  have a4: "acct ?E3 ?b4" by (rule write_op_acct [OF a3, of p x]) (simp_all add: fr x)
  have "acct E (?b4\<lparr>chunks := (chunks ?b4)(k := Some ch)\<rparr>)"
  proof (rule acct_write_chunk [OF a4, of k None])
    show "ext_eq (move_chunk k None (Some ch) ?E3) E" using ch by (simp add: ext_eq_def move_chunk_def counted_defs)
  qed (use fr f acct_wf_ext [OF a] in auto)
  then have "acct E (b1\<lparr>insts := (insts b1)(?i \<mapsto> s1\<lparr>s_refs := s_refs s1 + 1\<rparr>), resps := (resps b)(q \<mapsto> ?r),
      ops := (ops b)(p \<mapsto> x\<lparr>o_event := ev\<rparr>), chunks := (chunks b)(k \<mapsto> ch)\<rparr>)"
    by (rule acct_same) (simp_all add: fr)
  with s1 show ?thesis by blast
qed

definition chunk_of :: "sys \<Rightarrow> int \<Rightarrow> ptr set" where
  "chunk_of e rc = (case sys_alloc e 0 of Some k \<Rightarrow> if rc = 0 then {k} else {} | None \<Rightarrow> {})"

lemma chunk_inv:
  assumes inv: "bridge_inv W b" and p: "p \<in> set (held W)" and x: "ops b p = Some x" "o_response x = Some q"
    and al: "alloc_ok e b"
  shows "\<exists>rc b'. hs_bridge_chunk e p d b = Some (rc, b') \<and> bridge_inv (W\<lparr>h_chunk := h_chunk W \<union> chunk_of e rc\<rparr>) b'"
proof -
  obtain cs ns where m: "making W = []" "raising W = {}" "waiting W = ns" and i: "inv_with W cs ns b" and ph: "phase_ok W cs ns b"
    using inv by (rule bridge_invE)
  obtain s where s: "insts b (o_instance x) = Some s" using acct_op_inst [OF inv_acct [OF i] x(1)] by blast
  obtain r where r: "resps b q = Some r" using acct_op_resp [OF inv_acct [OF i] x] by blast
  let ?n = "of_nat (length d) :: u64"
  obtain ok b1 where c: "charge (o_instance x) ?n b = Some (ok, b1)" using charge_total [OF s] by blast
  show ?thesis
  proof (cases "sys_alloc e 0 = None \<or> d \<noteq> [] \<and> sys_alloc e 1 = None \<or> \<not> ok")
    case True
    then have "hs_bridge_chunk e p d b = Some (HS_ERR_LIMIT, b)"
      using x(1) c charge_False [of "o_instance x" ?n b b1] by (auto simp: hs_bridge_chunk_def split: option.splits)
    moreover have "chunk_of e HS_ERR_LIMIT = {}" by (simp add: chunk_of_def hs_codes split: option.splits)
    ultimately show ?thesis using inv by simp
  next
    case False
    then obtain k where k: "sys_alloc e 0 = Some k" and nf: "\<not> (d \<noteq> [] \<and> sys_alloc e 1 = None)" "ok" by auto
    have free: "chunks b k = None" using al k by (simp add: alloc_ok_def)
    have c': "charge (o_instance x) ?n b = Some (True, b1)" using c nf(2) by simp
    let ?ev = "(o_event x)\<lparr>ev_chunk := Some k, ev_kind := HS_RESULT_CHUNK\<rparr>"
    let ?ch = "\<lparr>c_instance = o_instance x, c_response = Some q, c_bytes = d, c_length = ?n\<rparr>"
    have ch: "c_instance ?ch = o_instance x" "c_response ?ch = Some q" "c_length ?ch = ?n" by simp_all
    obtain s1 where s1: "insts b1 (o_instance x) = Some s1" "s_closing s1 = s_closing s" and
      a: "acct (ext_of W cs ns b) (b1\<lparr>insts := (insts b1)(o_instance x \<mapsto> s1\<lparr>s_refs := s_refs s1 + 1\<rparr>),
      resps := (resps b)(q \<mapsto> r\<lparr>r_refs := r_refs r + 1, r_chunks := r_chunks r + 1\<rparr>),
      ops := (ops b)(p \<mapsto> x\<lparr>o_event := ?ev\<rparr>), chunks := (chunks b)(k \<mapsto> ?ch)\<rparr>)" (is "acct _ ?b")
      using chunk_acct [OF inv_acct [OF i] x(1) s r free c' ch, of ?ev] by blast
    have f: "ops b1 = ops b" "resps b1 = resps b" "chunks b1 = chunks b" "op_next b1 = op_next b" "commands b1 = commands b"
      "notices b1 = notices b" "live_instances b1 = live_instances b" "instances b1 = instances b" "state b1 = state b"
      "owner_done b1 = owner_done b" "\<And>t. t \<noteq> o_instance x \<Longrightarrow> insts b1 t = insts b t"
      using c' s by (auto simp: charge_def split: if_splits)
    have "inv_with (W\<lparr>h_chunk := h_chunk W \<union> {k}\<rparr>) cs ns ?b"
    proof (rule result_inv [OF i p x(1), of ?b ?ev])
      show "\<exists>u. insts b t = Some u \<and> s_closing s' = s_closing u" if "insts ?b t = Some s'" for t s'
        using that s s1(2) f(11) by (cases "t = o_instance x") auto
      show "acct (ext_of (W\<lparr>h_chunk := h_chunk W \<union> {k}\<rparr>) cs ns ?b) ?b"
        by (rule acct_eqI [OF a]) (simp add: ext_eq_def ext_of_def f due_same x(1))
    qed (auto simp: f)
    moreover have "phase_ok (W\<lparr>h_chunk := h_chunk W \<union> {k}\<rparr>) cs ns ?b" by (rule phase_same [OF ph]) (simp_all add: f)
    ultimately have "bridge_inv (W\<lparr>h_chunk := h_chunk W \<union> {k}\<rparr>) ?b" by (intro bridge_invI) (use m in simp_all)
    moreover have "hs_bridge_chunk e p d b = Some (0, ?b)"
      using k nf c' s s1(1) x r f by (auto simp: hs_bridge_chunk_def upd_inst_def upd_op_def upd_resp_def)
    ultimately show ?thesis using k by (simp add: chunk_of_def)
  qed
qed

end
