(* ===== verification/Call_Machine.thy ===== *)
theory Call_Machine
  imports HS_Prelude
begin

text \<open>
  The contract every component of the program is verified against. A component is a machine: \<open>run c s\<close> executes
  one call, one critical section or one step of a thread, and is \<open>None\<close> when it touches memory it must not touch;
  \<open>legal c s\<close> is what the caller owes in state \<open>s\<close>. An execution is a sequence of calls, so any interleaving of
  the threads is one. The locale \<open>call_machine\<close> is the interface between a component's steps and its properties: the
  component shows that a legal call succeeds and keeps its invariant, and gets that every lawful execution succeeds.
  Its interpretations are the C ABI runtime (\<open>Bridge_System\<close>), the synchronous calls (\<open>Bridge_Sync_Props\<close>), the TLS objects
  (\<open>Tls_Life\<close>), the I/O executor (\<open>Native_System\<close>) and the Node.js addon (\<open>Node_Props\<close>).
\<close>

fun exec_calls :: "('c \<Rightarrow> 's \<Rightarrow> 's option) \<Rightarrow> 'c list \<Rightarrow> 's \<Rightarrow> 's option" where
  "exec_calls run [] s = Some s"
| "exec_calls run (c # cs) s = (case run c s of None \<Rightarrow> None | Some s' \<Rightarrow> exec_calls run cs s')"

fun lawful_calls :: "('c \<Rightarrow> 's \<Rightarrow> 's option) \<Rightarrow> ('c \<Rightarrow> 's \<Rightarrow> bool) \<Rightarrow> 'c list \<Rightarrow> 's \<Rightarrow> bool" where
  "lawful_calls run legal [] s = True"
| "lawful_calls run legal (c # cs) s = (legal c s \<and> (case run c s of None \<Rightarrow> True | Some s' \<Rightarrow> lawful_calls run legal cs s'))"

lemma exec_append:
  "exec_calls run (cs @ ds) s = (case exec_calls run cs s of None \<Rightarrow> None | Some s' \<Rightarrow> exec_calls run ds s')"
  by (induction cs arbitrary: s) (auto split: option.split)

lemma lawful_append:
  "lawful_calls run legal (cs @ ds) s \<longleftrightarrow> lawful_calls run legal cs s \<and>
     (case exec_calls run cs s of None \<Rightarrow> True | Some s' \<Rightarrow> lawful_calls run legal ds s')"
  by (induction cs arbitrary: s) (auto split: option.split)

locale call_machine =
  fixes run :: "'c \<Rightarrow> 's \<Rightarrow> 's option" and legal :: "'c \<Rightarrow> 's \<Rightarrow> bool" and inv :: "'s \<Rightarrow> bool"
  assumes call_inv: "inv s \<Longrightarrow> legal c s \<Longrightarrow> \<exists>s'. run c s = Some s' \<and> inv s'"
begin

lemma exec_safe: "inv s \<Longrightarrow> lawful_calls run legal cs s \<Longrightarrow> \<exists>s'. exec_calls run cs s = Some s' \<and> inv s'"
proof (induction cs arbitrary: s)
  case (Cons c cs)
  obtain s' where "run c s = Some s'" "inv s'" using call_inv [of s c] Cons.prems by auto
  then show ?case using Cons.IH [of s'] Cons.prems(2) by simp
qed simp

lemma exec_keeps: "inv s \<Longrightarrow> lawful_calls run legal cs s \<Longrightarrow> exec_calls run cs s = Some s' \<Longrightarrow> inv s'"
  using exec_safe [of s cs] by auto

text \<open>What every legal call keeps, every lawful execution keeps.\<close>

lemma exec_stable:
  assumes keep: "\<And>c s s'. c \<in> set cs \<Longrightarrow> legal c s \<Longrightarrow> run c s = Some s' \<Longrightarrow> P s \<Longrightarrow> P s'"
    and s: "lawful_calls run legal cs s" "exec_calls run cs s = Some s'" "P s"
  shows "P s'"
  using assms
proof (induction cs arbitrary: s)
  case (Cons c cs)
  then obtain t where "run c s = Some t" "lawful_calls run legal cs t" "exec_calls run cs t = Some s'" by (auto split: option.splits)
  then show ?case using Cons.IH [of t] Cons.prems by (metis list.set_intros lawful_calls.simps(2))
qed simp

end

end
