(* ===== verification/Bridge_System.thy ===== *)
theory Bridge_System
  imports Bridge_Deliver Call_Machine
begin

text \<open>
  The runtime as a state machine. A \<open>call\<close> is one critical section of one thread: an exported
  function called by the host, a function the MoonBit owner calls, or a turn of the notifier. \<open>run\<close>
  executes it and keeps the ghost \<open>world\<close> up to date; its \<open>None\<close> is an access to a freed object. A
  call that has to wait leaves the state as it is. \<open>legal\<close> is what the callers owe the library:

  \<^item> the host passes handles it owns, and a header array as long as it says;
  \<^item> \<open>malloc\<close> returns fresh memory (\<open>alloc_ok\<close>);
  \<^item> the owner works on commands it has popped and not completed, builds one response per request,
    writes headers inside the array it asked for, sends chunks for reads only, and completes
    everything it has popped before it returns;
  \<^item> the notifier is sequential: take, call back, retire.

  Any sequence of legal calls is a possible interleaving, since every body runs under the mutex.
\<close>

datatype (plugins only: code size) call =
    CreateEngine role "bytes option" nat "nat option" nat bool sys
  | StartServer role "bytes option" nat "nat option" nat bool sys
  | ResumeCreate role int "bytes option" nat nat nat sys
  | CloseAsync "ptr option" "nat option" nat bool sys
  | ReleaseInstance role "ptr option"
  | ReleaseOperation role "ptr option"
  | CancelOperation "ptr option" sys
  | Submit "ptr option" "hs_request_t option" "nat option" nat bool sys
  | ReadAsync "ptr option" u32 "nat option" nat bool sys
  | ReleaseResponse "ptr option" sys
  | ReleaseChunk "ptr option" sys
  | ReapClaim
  | ReapFinish
  | Attach int sys
  | Ack
  | Pop
  | Idle
  | Limits ptr int int int int
  | BuildResponse ptr int int int nat sys
  | SetHeader ptr nat bytes bytes sys
  | BuildChunk ptr bytes sys
  | Complete ptr int int sys
  | OwnerExit
  | OwnerDrain
  | OwnerFinish
  | NotifyTake
  | NotifyRetire sys
  | NotifyExit

type_synonym sysstate = "world \<times> bridge"

definition granted :: "world \<Rightarrow> ((int \<times> ptr option) \<times> bridge) option \<Rightarrow> sysstate option" where
  "granted W r = map_option (\<lambda>((rc, p), b). (grant p W, b)) r"

text \<open>A call that may wait: the inner \<open>None\<close> leaves everything as it is.\<close>

definition waited :: "sysstate \<Rightarrow> ('a \<Rightarrow> sysstate) \<Rightarrow> 'a option option \<Rightarrow> sysstate option" where
  "waited s f r = map_option (\<lambda>x. case x of None \<Rightarrow> s | Some y \<Rightarrow> f y) r"

definition drop_handle :: "(ptr \<Rightarrow> int) \<Rightarrow> ptr option \<Rightarrow> ptr \<Rightarrow> int" where
  "drop_handle f p = bumpo p (- 1) f"

primrec run_on :: "call \<Rightarrow> world \<Rightarrow> bridge \<Rightarrow> sysstate option" where
  "run_on (CreateEngine rl j n cb ud out e) W b =
     waited (W, b) (\<lambda>((rc, p), b). (grant p W, b)) (hs_engine_create_async rl j n cb ud out e b)"
| "run_on (StartServer rl j n cb ud out e) W b =
     waited (W, b) (\<lambda>((rc, p), b). (grant p W, b)) (hs_server_start_async rl j n cb ud out e b)"
| "run_on (ResumeCreate rl k j n cb ud e) W b =
     waited (W, b) (\<lambda>((rc, p), b). (grant p W, b)) (create_resume rl k j n cb ud e b)"
| "run_on (CloseAsync q cb ud out e) W b = granted W (close_async q cb ud out e b)"
| "run_on (ReleaseInstance rl q) W b =
     waited (W, b) (\<lambda>b. (W\<lparr>h_inst := drop_handle (h_inst W) q\<rparr>, b)) (hs_engine_release rl q b)"
| "run_on (ReleaseOperation rl p) W b =
     waited (W, b) (\<lambda>b. (W\<lparr>h_op := drop_handle (h_op W) p\<rparr>, b)) (hs_operation_release rl p b)"
| "run_on (CancelOperation p e) W b = map_option (Pair W) (hs_operation_cancel e p b)"
| "run_on (Submit q r cb ud out e) W b = granted W (hs_submit_async q r cb ud out e b)"
| "run_on (ReadAsync q n cb ud out e) W b = granted W (hs_response_read_async q n cb ud out e b)"
| "run_on (ReleaseResponse q e) W b =
     map_option (Pair (W\<lparr>h_resp := drop_handle (h_resp W) q\<rparr>)) (hs_response_release e q b)"
| "run_on (ReleaseChunk q e) W b =
     map_option (Pair (W\<lparr>h_chunk := h_chunk W - set_option q\<rparr>)) (hs_chunk_release e q b)"
| "run_on ReapClaim W b = Some (W, case reap_claim b of None \<Rightarrow> b | Some b' \<Rightarrow> b')"
| "run_on ReapFinish W b = Some (W, reap_finish b)"
| "run_on (Attach fd e) W b = Some (W, hs_bridge_attach e fd b)"
| "run_on Ack W b = Some (W, hs_bridge_ack b)"
| "run_on Pop W b = map_option (\<lambda>(p, b). (hold p W, b)) (hs_bridge_pop b)"
| "run_on Idle W b = Some (W, snd (hs_bridge_idle b))"
| "run_on (Limits p c k g r) W b = map_option (Pair W) (hs_bridge_limits p c k g r b)"
| "run_on (BuildResponse p i st n c e) W b = map_option (\<lambda>(_, b). (W, b)) (hs_bridge_response e p i st n c b)"
| "run_on (SetHeader p i k v e) W b = (case map_option (\<lambda>x. ev_response (o_event x)) (ops b p) of
     Some (Some q) \<Rightarrow> map_option (\<lambda>(_, b). (W, b)) (hs_bridge_set_header e q i k v b)
   | _ \<Rightarrow> None)"
| "run_on (BuildChunk p d e) W b =
     map_option (\<lambda>(rc, b). (W\<lparr>h_chunk := h_chunk W \<union> chunk_of e rc\<rparr>, b)) (hs_bridge_chunk e p d b)"
| "run_on (Complete p code kind e) W b = (case ops b p of
     None \<Rightarrow> None
   | Some x \<Rightarrow> map_option (Pair (done_world p x code W)) (hs_bridge_complete e p code kind b))"
| "run_on OwnerExit W b = Some (W, owner_exit b)"
| "run_on OwnerDrain W b = map_option (\<lambda>(p, b). (hold p W, b)) (owner_drain b)"
| "run_on OwnerFinish W b = map_option (Pair W) (owner_finish b)"
| "run_on NotifyTake W b = map_option (\<lambda>(p, b). (call_world p W, b)) (notify_take b)"
| "run_on (NotifyRetire e) W b = (case calling W of
     [] \<Rightarrow> None
   | p # _ \<Rightarrow> map_option (Pair (W\<lparr>calling := []\<rparr>)) (notify_retire e p b))"
| "run_on NotifyExit W b = Some (W, case notify_exit b of None \<Rightarrow> b | Some b' \<Rightarrow> b')"

definition run :: "call \<Rightarrow> sysstate \<Rightarrow> sysstate option" where
  "run c s = run_on c (fst s) (snd s)"

lemma run_pair [simp]: "run c (W, b) = run_on c W b"
  by (simp add: run_def)


definition owns :: "(ptr \<Rightarrow> int) \<Rightarrow> ptr option \<Rightarrow> bool" where
  "owns f p = (case p of None \<Rightarrow> True | Some q \<Rightarrow> 0 < f q)"

text \<open>The header array of a request is as long as its count says.\<close>

definition request_ok :: "hs_request_t option \<Rightarrow> bool" where
  "request_ok r = (case r of None \<Rightarrow> True | Some r \<Rightarrow>
     (case rq_headers r of None \<Rightarrow> True | Some a \<Rightarrow> unat (rq_header_count r) \<le> length a))"

primrec legal_on :: "call \<Rightarrow> world \<Rightarrow> bridge \<Rightarrow> bool" where
  "legal_on (CreateEngine rl j n cb ud out e) W b = alloc_ok e b"
| "legal_on (StartServer rl j n cb ud out e) W b = alloc_ok e b"
| "legal_on (ResumeCreate rl k j n cb ud e) W b = (alloc_ok e b \<and> k \<in> {1, 2})"
| "legal_on (CloseAsync q cb ud out e) W b = (owns (h_inst W) q \<and> alloc_ok e b)"
| "legal_on (ReleaseInstance rl q) W b = owns (h_inst W) q"
| "legal_on (ReleaseOperation rl p) W b = owns (h_op W) p"
| "legal_on (CancelOperation p e) W b = owns (h_op W) p"
| "legal_on (Submit q r cb ud out e) W b = (owns (h_inst W) q \<and> request_ok r \<and> alloc_ok e b)"
| "legal_on (ReadAsync q n cb ud out e) W b = (owns (h_resp W) q \<and> alloc_ok e b)"
| "legal_on (ReleaseResponse q e) W b = (owns (h_resp W) q \<and> alloc_ok e b)"
| "legal_on (ReleaseChunk q e) W b = (set_option q \<subseteq> h_chunk W)"
| "legal_on ReapClaim W b = True"
| "legal_on ReapFinish W b = (state b = 5)"
| "legal_on (Attach fd e) W b = (state b \<in> {1, 2})"
| "legal_on Ack W b = True"
| "legal_on Pop W b = True"
| "legal_on Idle W b = (state b \<in> {1, 2})"
| "legal_on (Limits p c k g r) W b = (p \<in> set (held W))"
| "legal_on (BuildResponse p i st n c e) W b =
     (p \<in> set (held W) \<and> map_option (\<lambda>x. ev_response (o_event x)) (ops b p) = Some None \<and> alloc_ok e b)"
| "legal_on (SetHeader p i k v e) W b = (p \<in> set (held W) \<and> (case map_option (\<lambda>x. ev_response (o_event x)) (ops b p) of
     Some (Some q) \<Rightarrow> (case resps b q of None \<Rightarrow> True | Some r \<Rightarrow> i < length (m_headers (r_meta r)))
   | _ \<Rightarrow> False))"
| "legal_on (BuildChunk p d e) W b =
     (p \<in> set (held W) \<and> map_option o_kind (ops b p) = Some 4 \<and> alloc_ok e b)"
| "legal_on (Complete p code kind e) W b = (p \<in> set (held W))"
| "legal_on OwnerExit W b = (state b \<in> {1, 2, 3})"
| "legal_on OwnerDrain W b = True"
| "legal_on OwnerFinish W b = (held W = [] \<and> state b = 3 \<and> fst (commands b) = None)"
| "legal_on NotifyTake W b = (calling W = [])"
| "legal_on (NotifyRetire e) W b = (length (calling W) = 1)"
| "legal_on NotifyExit W b = (calling W = [] \<and> state b \<in> {1, 2, 3})"

definition legal :: "call \<Rightarrow> sysstate \<Rightarrow> bool" where
  "legal c s = legal_on c (fst s) (snd s)"

lemma legal_pair [simp]: "legal c (W, b) = legal_on c W b"
  by (simp add: legal_def)


subsection \<open>Each legal call is safe and keeps the invariant\<close>

definition safe :: "sysstate option \<Rightarrow> bool" where
  "safe r \<longleftrightarrow> (\<exists>W b. r = Some (W, b) \<and> bridge_inv W b)"

lemma safe_Some [simp]: "safe (Some (W, b)) = bridge_inv W b"
  by (simp add: safe_def)

lemma granted_safe: "call_ok W r \<Longrightarrow> safe (granted W r)"
  by (auto simp: call_ok_def granted_def)

lemma waited_safe:
  "bridge_inv W b \<Longrightarrow> r = Some None \<or> (\<exists>q. r = Some (Some q) \<and> call_ok W (Some q)) \<Longrightarrow>
   safe (waited (W, b) (\<lambda>((rc, p), b). (grant p W, b)) r)"
  by (auto simp: waited_def call_ok_def)

lemma submit_safe:
  assumes inv: "bridge_inv W b" and l: "owns (h_inst W) q" "request_ok r" "alloc_ok e b"
  shows "call_ok W (hs_submit_async q r cb ud out e b)"
proof (cases "out \<and> cb \<noteq> None \<and> q \<noteq> None \<and> r \<noteq> None")
  case False
  then show ?thesis using call_rejected [OF inv] by (auto simp: hs_submit_async_def split: option.splits bool.splits)
next
  case True
  then obtain f p rq where o: "out" "cb = Some f" "q = Some p" "r = Some rq" by auto
  note loc = submit_locked_inv [OF inv _ l(3)]
  show ?thesis using o l call_rejected [OF inv] loc
    by (auto simp: hs_submit_async_def owns_def request_ok_def Let_def split: option.splits)
qed

lemma call_safe:
  assumes inv: "bridge_inv W b" and l: "legal c (W, b)"
  shows "safe (run c (W, b))"
proof (cases c)
  case (Complete p code kind e)
  obtain cs ns where i: "inv_with W cs ns b" using inv by (rule bridge_invE)
  obtain x where "ops b p = Some x" using held_alloc [OF i] l Complete by auto
  with complete_inv [OF inv _ this, of e code kind] l Complete show ?thesis by auto
next
  case (BuildChunk p d e)
  obtain cs ns where i: "making W = []" "inv_with W cs ns b" using inv by (rule bridge_invE)
  obtain x where x: "ops b p = Some x" "o_kind x = 4" using l BuildChunk by auto
  have "p \<in> set (held W)" using l BuildChunk by simp
  moreover have "op_ok W cs b p x" by (rule shape_op [OF inv_shape [OF i(2)] x(1)])
  ultimately obtain q where "o_response x = Some q" using x(2) i(1) by (auto simp: op_ok_def)
  with chunk_inv [OF inv _ x(1), of q e d] l BuildChunk show ?thesis by auto
next
  case (BuildResponse p i st n cn e)
  then obtain x where "ops b p = Some x" "ev_response (o_event x) = None" using l by auto
  with response_inv [OF inv _ this, of e i st n cn] l BuildResponse show ?thesis by auto
next
  case (SetHeader p i k v e)
  then obtain x q where x: "ops b p = Some x" "ev_response (o_event x) = Some q" using l by (auto split: option.splits)
  have "i < length (m_headers (r_meta r))" if "resps b q = Some r" for r using l SetHeader x that by simp
  with set_header_inv [OF inv _ x, of i e k v] l SetHeader x show ?thesis by auto
next
  case (ReleaseInstance rl q)
  show ?thesis
  proof (cases q)
    case (Some p)
    with engine_release_inv [OF inv, of p rl] l ReleaseInstance inv show ?thesis
      by (auto simp: owns_def waited_def drop_handle_def bumpo_def)
  qed (use inv ReleaseInstance in \<open>simp add: hs_engine_release_def waited_def drop_handle_def bumpo_def\<close>)
next
  case (ReleaseOperation rl q)
  show ?thesis
  proof (cases q)
    case (Some p)
    with operation_release_inv [OF inv, of p rl] l ReleaseOperation inv show ?thesis
      by (auto simp: owns_def waited_def drop_handle_def bumpo_def)
  qed (use inv ReleaseOperation in \<open>simp add: hs_operation_release_def waited_def drop_handle_def bumpo_def\<close>)
next
  case (CancelOperation q e)
  show ?thesis
  proof (cases q)
    case (Some p)
    with operation_cancel_inv [OF inv, of p e] l CancelOperation show ?thesis by (auto simp: owns_def)
  qed (use inv CancelOperation in \<open>simp add: hs_operation_cancel_def\<close>)
next
  case (ReleaseResponse q e)
  show ?thesis
  proof (cases q)
    case (Some p)
    with response_release_inv [OF inv, of p e] l ReleaseResponse show ?thesis
      by (auto simp: owns_def drop_handle_def bumpo_def)
  qed (use inv ReleaseResponse in \<open>simp add: hs_response_release_def drop_handle_def bumpo_def\<close>)
next
  case (ReleaseChunk q e)
  show ?thesis
  proof (cases q)
    case (Some p)
    with chunk_release_inv [OF inv, of p e] l ReleaseChunk show ?thesis by auto
  qed (use inv ReleaseChunk in \<open>simp add: hs_chunk_release_def\<close>)
next
  case (CloseAsync q cb ud out e)
  show ?thesis
  proof (cases q)
    case (Some p)
    with close_async_inv [OF inv, of p e cb ud out] l CloseAsync show ?thesis by (auto simp: owns_def intro: granted_safe)
  qed (use call_rejected [OF inv] CloseAsync in \<open>auto simp: close_async_def intro: granted_safe\<close>)
next
  case (ReadAsync q n cb ud out e)
  show ?thesis
  proof (cases q)
    case (Some p)
    with read_async_inv [OF inv, of p e n cb ud out] l ReadAsync show ?thesis by (auto simp: owns_def intro: granted_safe)
  qed (use call_rejected [OF inv] ReadAsync in \<open>auto simp: hs_response_read_async_def intro: granted_safe\<close>)
next
  case (NotifyRetire e)
  then obtain p where "calling W = [p]" using l by (auto simp: length_Suc_conv)
  with notify_retire_inv [OF inv, of p e] NotifyRetire show ?thesis by auto
next
  case (CreateEngine rl j n cb ud out e)
  with create_async_inv [OF inv, of 1 e rl j n cb ud out] waited_safe [OF inv] l show ?thesis
    by (simp add: hs_engine_create_async_def)
next
  case (StartServer rl j n cb ud out e)
  with create_async_inv [OF inv, of 2 e rl j n cb ud out] waited_safe [OF inv] l show ?thesis
    by (simp add: hs_server_start_async_def)
next
  case (ResumeCreate rl k j n cb ud e)
  with create_resume_inv [OF inv, of k e rl j n cb ud] waited_safe [OF inv] l show ?thesis by simp
next
  case (Submit q r cb ud out e)
  with submit_safe [OF inv, of q r e cb ud out] l show ?thesis by (simp add: granted_safe)
next
  case ReapClaim
  with reap_claim_inv [OF inv] inv show ?thesis by (auto split: option.splits)
next
  case NotifyExit
  with notify_exit_inv [OF inv] inv l show ?thesis by (auto split: option.splits)
next
  case Pop
  with pop_inv [OF inv] show ?thesis by auto
next
  case OwnerDrain
  with drain_inv [OF inv] show ?thesis by auto
next
  case OwnerFinish
  with owner_finish_inv [OF inv] l show ?thesis by auto
next
  case NotifyTake
  with notify_take_inv [OF inv] l show ?thesis by auto
next
  case (Limits p u k g r)
  with limits_inv [OF inv, of p u k g r] l show ?thesis by auto
qed (use inv l attach_inv ack_inv idle_inv owner_exit_inv reap_finish_inv in auto)

subsection \<open>Reachable states and executions\<close>

inductive step :: "sysstate \<Rightarrow> call \<Rightarrow> sysstate \<Rightarrow> bool" where
  step: "legal c s \<Longrightarrow> run c s = Some s' \<Longrightarrow> step s c s'"

inductive reach :: "sysstate \<Rightarrow> bool" where
  start: "reach (empty_world, init_bridge)"
| next_state: "reach s \<Longrightarrow> step s c s' \<Longrightarrow> reach s'"

inductive_simps step_simps: "step s c s'"
inductive_cases reach_cases: "reach s"

lemma reach_inv: "reach s \<Longrightarrow> bridge_inv (fst s) (snd s)"
proof (induction rule: reach.induct)
  case start
  then show ?case by (simp add: bridge_inv_init)
next
  case (next_state s c s')
  then have "safe (run c (fst s, snd s))" by (intro call_safe) (simp_all add: step_simps)
  then show ?case using next_state.hyps by (auto simp: step_simps safe_def)
qed

abbreviation execute :: "call list \<Rightarrow> sysstate \<Rightarrow> sysstate option" where
  "execute \<equiv> exec_calls run"

abbreviation lawful :: "call list \<Rightarrow> sysstate \<Rightarrow> bool" where
  "lawful \<equiv> lawful_calls run legal"

interpretation bm: call_machine run legal "\<lambda>s. bridge_inv (fst s) (snd s)"
proof
  fix s c assume "bridge_inv (fst s) (snd s)" "legal c s"
  then have "safe (run c (fst s, snd s))" by (intro call_safe) simp_all
  then show "\<exists>s'. run c s = Some s' \<and> bridge_inv (fst s') (snd s')" by (auto simp: safe_def)
qed

lemmas execute_safe = bm.exec_safe

lemma execute_reach:
  "reach s \<Longrightarrow> lawful cs s \<Longrightarrow> execute cs s = Some s' \<Longrightarrow> reach s'"
  by (rule bm.exec_stable [of cs reach]) (auto intro: reach.next_state step.step)

subsection \<open>The order of notifications\<close>

text \<open>What an execution completes, and what it notifies, in order.\<close>

definition completes :: "call \<Rightarrow> ptr list" where
  "completes c = (case c of Complete p _ _ _ \<Rightarrow> [p] | _ \<Rightarrow> [])"

definition notifies :: "call \<Rightarrow> sysstate \<Rightarrow> ptr list" where
  "notifies c s = (case c of NotifyTake \<Rightarrow> (case notify_take (snd s) of Some (Some p, _) \<Rightarrow> [p] | _ \<Rightarrow> []) | _ \<Rightarrow> [])"

fun notified :: "call list \<Rightarrow> sysstate \<Rightarrow> ptr list" where
  "notified [] s = []"
| "notified (c # cs) s = notifies c s @ (case run c s of None \<Rightarrow> [] | Some s' \<Rightarrow> notified cs s')"

lemma waiting_grant [simp]: "waiting (grant p W) = waiting W" "waiting (hold q W) = waiting W"
  by (simp_all add: grant_def hold_def split: option.splits)

lemma waited_Some: "waited s f r = Some t \<Longrightarrow> t = s \<or> (\<exists>y. t = f y)"
  by (auto simp: waited_def split: option.splits)

lemma granted_Some: "granted W r = Some (W', b') \<Longrightarrow> waiting W' = waiting W"
  by (auto simp: granted_def)

lemma run_waiting:
  assumes "run c (W, b) = Some (W', b')" "completes c = []" "c \<noteq> NotifyTake"
  shows "waiting W' = waiting W"
proof (cases c)
  case (SetHeader p i k v e)
  then show ?thesis using assms(1) by (simp split: option.splits)
next
  case (NotifyRetire e)
  then show ?thesis using assms(1) by (auto split: list.splits)
next
  case (Complete p code kind e)
  then show ?thesis using assms(2) by (simp add: completes_def)
qed (use assms in \<open>auto dest!: waited_Some dest: granted_Some\<close>)

lemma waiting_step:
  assumes inv: "bridge_inv W b" and l: "legal c (W, b)" and r: "run c (W, b) = Some (W', b')"
  shows "waiting W @ completes c = notifies c (W, b) @ waiting W'"
proof (cases "c = NotifyTake \<or> completes c \<noteq> []")
  case False
  then have "waiting W' = waiting W" using run_waiting [OF r] by blast
  moreover have "notifies c (W, b) = []" using False by (cases c) (simp_all add: notifies_def)
  ultimately show ?thesis using False by simp
next
  case True
  show ?thesis
  proof (cases c)
    case NotifyTake
    then have "calling W = []" using l by simp
    then obtain p b1 where n: "notify_take b = Some (p, b1)" "case p of None \<Rightarrow> waiting W = [] | Some q \<Rightarrow> \<exists>rest. waiting W = q # rest"
      using notify_take_inv [OF inv] by blast
    then show ?thesis using r NotifyTake by (auto simp: completes_def notifies_def call_world_def split: option.splits)
  next
    case (Complete p code kind e)
    then show ?thesis using r by (auto simp: completes_def notifies_def done_world_def split: option.splits)
  qed (use True in \<open>simp_all add: completes_def\<close>)
qed

lemma waiting_execute:
  "bridge_inv (fst s) (snd s) \<Longrightarrow> lawful cs s \<Longrightarrow> execute cs s = Some s' \<Longrightarrow>
   waiting (fst s) @ concat (map completes cs) = notified cs s @ waiting (fst s')"
proof (induction cs arbitrary: s)
  case (Cons c cs)
  then obtain t where t: "run c s = Some t" "lawful cs t" "execute cs t = Some s'" "legal c s" by (auto split: option.splits)
  have "safe (run c (fst s, snd s))" using call_safe [OF Cons.prems(1)] t(4) by simp
  then have it: "bridge_inv (fst t) (snd t)" using t(1) by (auto simp: safe_def)
  have "waiting (fst s) @ completes c = notifies c s @ waiting (fst t)"
    using waiting_step [OF Cons.prems(1), of c "fst t" "snd t"] t by simp
  then have "waiting (fst s) @ concat (map completes (c # cs)) = notifies c s @ (waiting (fst t) @ concat (map completes cs))"
    by (metis append_assoc concat.simps(2) list.simps(9))
  with Cons.IH [OF it t(2,3)] t(1) show ?case by simp
qed simp

end
