(* ===== verification/Bridge_Props.thy ===== *)
theory Bridge_Props
  imports Bridge_System
begin

text \<open>
  What the C ABI runtime guarantees, for every interleaving of legal calls, and a concrete execution
  that serves as the example for the statements with hypotheses.
\<close>

subsection \<open>A concrete execution\<close>

text \<open>
  A host creates an engine from a one byte configuration; the owner attaches its wake pipe, takes the
  command and completes it; the notifier delivers it; the host releases the operation.
\<close>

definition demo_sys :: sys where
  "demo_sys = \<lparr>sys_write = True, sys_alloc = (\<lambda>i. if i < 3 then Some (i + 1) else None), sys_thread = (\<lambda>_. True)\<rparr>"

definition demo_create :: call where
  "demo_create = CreateEngine Host (Some [123]) 1 (Some 7) 0 True demo_sys"

definition demo :: "call list" where
  "demo = [demo_create, Attach 5 demo_sys, Pop, Complete 2 0 (- 1) demo_sys, NotifyTake, NotifyRetire demo_sys]"

lemmas demo_defs = demo_def demo_create_def demo_sys_def empty_world_def init_bridge_def

lemmas model_defs = hs_engine_create_async_def create_async_def create_resume_def create_rest_def start_runtime_def
  new_op_def charge_def upd_inst_def upd_op_def enqueue_def append_ok_def link_append_def wake_owner_def
  new_instance_def hs_bridge_attach_def hs_bridge_pop_def link_pop_def hs_bridge_complete_def complete_event_def
  complete_lifecycle_def complete_reading_def notice_def notify_take_def notify_retire_def op_drop_def
  release_op_def uncharge_nonzero_def uncharge_def response_drop_def instance_drop_def
  waited_def grant_def hold_def done_world_def call_world_def delivers_def no_event_def sizeof_operation_def

lemma demo_lawful: "lawful demo (empty_world, init_bridge)"
  by (simp add: demo_defs model_defs alloc_ok_def)

lemma demo_end:
  "\<exists>W b. execute demo (empty_world, init_bridge) = Some (W, b) \<and> state b = 2 \<and> live_instances b = [1] \<and>
    h_inst W 1 = 1 \<and> h_op W 2 = 1 \<and> held W = [] \<and> calling W = [] \<and> (\<exists>x. ops b 2 = Some x \<and> o_done x) \<and> retained_bytes b = 210"
  by (simp add: demo_defs model_defs)

definition demo_state :: sysstate where
  "demo_state = the (execute demo (empty_world, init_bridge))"

lemma demo_reach: "reach demo_state"
  using execute_reach [OF reach.start demo_lawful] demo_end by (auto simp: demo_state_def)

lemma demo_facts:
  "state (snd demo_state) = 2" "h_inst (fst demo_state) 1 = 1" "h_op (fst demo_state) 2 = 1"
  "held (fst demo_state) = []" "calling (fst demo_state) = []" "\<exists>x. ops (snd demo_state) 2 = Some x \<and> o_done x"
  using demo_end by (auto simp: demo_state_def)

subsection \<open>Memory safety\<close>

text \<open>C2: Memory safety of the C ABI runtime. Whatever the interleaving of the host's calls, the owner's and the
  notifier's critical sections, as long as each caller keeps its side of the contract, no call reads,
  writes or frees an instance, operation, response or chunk that has been freed.\<close>

theorem bridge_memory_safe:
  assumes "lawful cs (empty_world, init_bridge)"
  shows "\<exists>W b. execute cs (empty_world, init_bridge) = Some (W, b)"
  using execute_safe [OF _ assms] bridge_inv_init by auto

theorem bridge_memory_safe_witness:
  "lawful demo (empty_world, init_bridge) \<and> (\<exists>W b. execute demo (empty_world, init_bridge) = Some (W, b))"
  using bridge_memory_safe [OF demo_lawful] demo_lawful by simp

subsection \<open>No leaks\<close>

lemma refs_zero_empty:
  assumes "\<And>p. cell f (h p) = 0" "\<And>p x. h p = Some x \<Longrightarrow> 0 < f x"
  shows "h = Map.empty"
proof
  fix p
  show "h p = None"
  proof (cases "h p")
    case (Some x)
    then show ?thesis using assms(1) [of p] assms(2) [of p x] by simp
  qed
qed

definition no_handles :: "world \<Rightarrow> bool" where
  "no_handles W \<longleftrightarrow> (\<forall>p. h_inst W p = 0 \<and> h_resp W p = 0 \<and> h_op W p = 0) \<and> h_chunk W = {}"

lemma empty_heaps:
  assumes i: "inv_with W [] [] b" and h: "no_handles W" and w: "held W = []" "calling W = []" "making W = []" "live_instances b = []"
  shows "ops b = Map.empty \<and> chunks b = Map.empty \<and> resps b = Map.empty \<and> insts b = Map.empty"
proof -
  let ?E = "ext_of W [] [] b"
  note a = inv_acct [OF i]
  have E: "x_inst ?E p = 0" "x_resp ?E p = 0" "x_pipe ?E p = 0" "x_op ?E p = 0" for p
    using h w by (simp_all add: ext_of_def no_handles_def due_def pipeline_def)
  have o: "ops b = Map.empty"
    by (rule refs_zero_empty [of o_refs]) (use a E in \<open>simp_all add: acct_def acct_op_def wf_heaps_def\<close>)
  have c: "chunks b = Map.empty" using inv_shape [OF i] h by (simp add: shape_def no_handles_def)
  have r: "resps b = Map.empty"
    by (rule refs_zero_empty [of r_refs]) (use a E o c in \<open>simp_all add: acct_def acct_resp_def wf_heaps_def\<close>)
  have "insts b = Map.empty"
    by (rule refs_zero_empty [of s_refs]) (use a E o c r in \<open>simp_all add: acct_def acct_inst_def wf_heaps_def\<close>)
  with o c r show ?thesis by simp
qed

text \<open>C3: No leaks. When the runtime has been shut down and reaped (\<open>state\<close> is 0) and the host has released every
  handle it was given, nothing is left allocated, no byte is charged, and all counters are zero.\<close>

theorem bridge_no_leak:
  assumes "reach (W, b)" "state b = 0" "no_handles W"
  shows "insts b = Map.empty \<and> ops b = Map.empty \<and> resps b = Map.empty \<and> chunks b = Map.empty \<and>
    retained_bytes b = 0 \<and> active_ops b = 0 \<and> instances b = 0"
proof -
  obtain cs ns where m: "making W = []" "raising W = {}" "waiting W = ns" and i: "inv_with W cs ns b" and ph: "phase_ok W cs ns b"
    using reach_inv [OF assms(1)] by (auto elim: bridge_invE)
  have e: "cs = []" "ns = []" "held W = []" "calling W = []" "live_instances b = []" using ph assms(2) by (auto simp: phase_ok_def)
  have h: "ops b = Map.empty \<and> chunks b = Map.empty \<and> resps b = Map.empty \<and> insts b = Map.empty"
    by (rule empty_heaps) (use i assms(3) e m in simp_all)
  then have "uint (retained_bytes b) = 0" "active_ops b = 0"
    using inv_acct [OF i] by (simp_all add: acct_def acct_total_def acct_count_def ext_of_def)
  moreover have "instances b = 0" using inv_shape [OF i] e by (simp add: shape_def)
  ultimately show ?thesis using h by (simp add: uint_0_iff)
qed

text \<open>The shortest complete life: the second thread does not start, the notifier ends, the host reaps it.\<close>

definition failed_start :: "call list" where
  "failed_start = [CreateEngine Host None 0 (Some 7) 0 True (demo_sys\<lparr>sys_thread := (\<lambda>i. i = 0)\<rparr>), NotifyExit, ReapClaim, ReapFinish]"

lemma failed_start_ends:
  "lawful failed_start (empty_world, init_bridge)"
  "\<exists>b. execute failed_start (empty_world, init_bridge) = Some (empty_world, b) \<and> state b = 0 \<and> owner_done b"
  by (simp_all add: failed_start_def demo_defs model_defs alloc_ok_def notify_exit_def reap_claim_def reap_finish_def
      bumpo_def)

theorem bridge_no_leak_witness:
  "\<exists>b. reach (empty_world, b) \<and> owner_done b \<and> state b = 0 \<and> insts b = Map.empty \<and> retained_bytes b = 0"
proof -
  obtain b where b: "execute failed_start (empty_world, init_bridge) = Some (empty_world, b)" "state b = 0" "owner_done b"
    using failed_start_ends(2) by blast
  have r: "reach (empty_world, b)" by (rule execute_reach [OF reach.start failed_start_ends(1) b(1)])
  have "no_handles empty_world" by (simp add: no_handles_def empty_world_def)
  with bridge_no_leak [OF r b(2)] r b show ?thesis by blast
qed

subsection \<open>The memory budget\<close>

text \<open>C5: The 64 MiB budget. \<open>retained_bytes\<close> never exceeds it, is exactly the sum of what the instances are charged, and
  every instance is charged exactly what its live operations, responses and chunks account for: the
  unsigned counters of \<open>charge\<close> and \<open>uncharge\<close> never wrap.\<close>

theorem bridge_budget:
  assumes "reach (W, b)"
  shows "uint (retained_bytes b) \<le> 67108864 \<and> uint (retained_bytes b) = heap_sum (\<lambda>_ s. uint (s_charged s)) (insts b) \<and>
    (\<forall>p s. insts b p = Some s \<longrightarrow> uint (s_charged s) = heap_sum (op_credit p) (ops b) + heap_sum (resp_credit p) (resps b)
       + heap_sum (chunk_credit p) (chunks b))"
proof -
  obtain cs ns where i: "inv_with W cs ns b" using reach_inv [OF assms] by (auto elim: bridge_invE)
  have "cell (\<lambda>s. uint (s_charged s)) (insts b p) = heap_sum (op_credit p) (ops b) + heap_sum (resp_credit p) (resps b)
       + heap_sum (chunk_credit p) (chunks b)" for p
    using inv_acct [OF i] by (simp add: acct_def acct_credit_def ext_of_def)
  then have "uint (s_charged s) = heap_sum (op_credit p) (ops b) + heap_sum (resp_credit p) (resps b)
       + heap_sum (chunk_credit p) (chunks b)" if "insts b p = Some s" for p s using that by (metis cell_simps(2))
  with inv_acct [OF i] show ?thesis by (simp add: acct_def acct_total_def)
qed

theorem bridge_budget_witness:
  "reach demo_state \<and> uint (retained_bytes (snd demo_state)) \<le> 67108864"
  using bridge_budget [of "fst demo_state" "snd demo_state"] demo_reach by simp

subsection \<open>Exactly one notification, in order\<close>

text \<open>C4: Every completed operation is notified exactly once, in completion order: along any execution the operations
  whose callback has been started, followed by those still queued, are the completed ones, in the order in
  which the owner completed them.\<close>

theorem bridge_notify_order:
  assumes "lawful cs (empty_world, init_bridge)" "execute cs (empty_world, init_bridge) = Some (W, b)"
  shows "concat (map completes cs) = notified cs (empty_world, init_bridge) @ waiting W \<and>
    queue_rep (op_next b, notices b) (waiting W)"
proof -
  obtain s where s: "execute cs (empty_world, init_bridge) = Some s" "bridge_inv (fst s) (snd s)"
    using execute_safe [OF _ assms(1)] bridge_inv_init by auto
  then have "bridge_inv W b" using assms(2) by auto
  then have "queue_rep (op_next b, notices b) (waiting W)" by (auto simp: bridge_inv_def inv_with_def shape_def)
  moreover have "concat (map completes cs) = notified cs (empty_world, init_bridge) @ waiting W"
    using waiting_execute [OF _ assms] bridge_inv_init by (simp add: empty_world_def)
  ultimately show ?thesis by simp
qed

theorem bridge_notify_order_witness:
  "lawful demo (empty_world, init_bridge) \<and> concat (map completes demo) = [2] \<and>
   notified demo (empty_world, init_bridge) @ waiting (fst demo_state) = [2]"
proof -
  obtain W b where e: "execute demo (empty_world, init_bridge) = Some (W, b)" using demo_end by blast
  have "concat (map completes demo) = [2]" by (simp add: demo_def demo_create_def completes_def)
  with bridge_notify_order [OF demo_lawful e] demo_lawful e show ?thesis by (simp add: demo_state_def)
qed

subsection \<open>Shutdown\<close>

lemma reach_invE:
  assumes "reach (W, b)"
  obtains cs where "making W = []" "raising W = {}" "inv_with W cs (waiting W) b" "phase_ok W cs (waiting W) b"
  using reach_inv [OF assms] by (auto simp: bridge_inv_def)

lemma pipeline_empty:
  assumes i: "inv_with W cs ns b" and z: "active_ops b = 0"
  shows "pipeline W cs ns = []"
proof (rule ccontr)
  assume "pipeline W cs ns \<noteq> []"
  then obtain p where p: "p \<in> set (pipeline W cs ns)" by (cases "pipeline W cs ns") auto
  let ?E = "ext_of W cs ns b"
  obtain x where x: "ops b p = Some x" using inv_pipeline_alloc [OF i p] by auto
  have "op_piped (x_pipe ?E) p x \<le> heap_sum (op_piped (x_pipe ?E)) (ops b)"
    by (rule heap_sum_ge_cell) (use x acct_finite [OF inv_acct [OF i]] in \<open>simp_all add: op_piped_def ext_of_def\<close>)
  moreover have "active_ops b = heap_sum (op_piped (x_pipe ?E)) (ops b)"
    using inv_acct [OF i] by (simp add: acct_def acct_count_def ext_of_def)
  ultimately show False using p z by (simp add: op_piped_def ext_of_def)
qed

text \<open>C8: The owner stops only when nothing is outstanding. If \<open>hs_bridge_idle\<close> answers yes, both queues are empty, no
  command is in the owner's hands, no callback is running, and no instance is live.\<close>

theorem bridge_idle:
  assumes "reach (W, b)" "fst (hs_bridge_idle b)"
  shows "commands b = (None, None) \<and> notices b = (None, None) \<and> held W = [] \<and> calling W = [] \<and> live_instances b = []"
proof -
  obtain cs where i: "inv_with W cs (waiting W) b" using assms(1) by (rule reach_invE)
  have z: "instances b = 0" "active_ops b = 0" using assms(2) by (simp_all add: hs_bridge_idle_def Let_def)
  have "pipeline W cs (waiting W) = []" by (rule pipeline_empty [OF i z(2)])
  then have e: "cs = []" "waiting W = []" "held W = []" "calling W = []" by (simp_all add: pipeline_def)
  have q: "queue_rep (op_next b, commands b) []" "queue_rep (op_next b, notices b) []" "live_instances b = []"
    using inv_shape [OF i] e z by (simp_all add: shape_def)
  have "c = (None, None)" if "queue_rep (n, c) []" for n c using that by (cases c) (simp add: queue_rep_def)
  with q e show ?thesis by blast
qed

theorem bridge_idle_witness:
  "reach (empty_world, init_bridge) \<and> fst (hs_bridge_idle init_bridge) \<and> commands init_bridge = (None, None)"
proof -
  have "fst (hs_bridge_idle init_bridge)" by (simp add: hs_bridge_idle_def init_bridge_def)
  with bridge_idle [OF reach.start this] reach.start show ?thesis by simp
qed

text \<open>C7: No command is stranded. Once the owner has announced its end, the command queue is empty and stays out of
  reach: every instance is closing, and a submission to one the host still holds is refused, without an
  operation and without any change of state.\<close>

theorem bridge_no_stranded_command:
  assumes "reach (W, b)" "owner_done b" "0 < h_inst W q" "request_ok r"
  shows "commands b = (None, None) \<and> (\<forall>p s. insts b p = Some s \<longrightarrow> s_closing s) \<and>
    (\<exists>rc. hs_submit_async (Some q) r cb ud out e b = Some ((rc, None), b) \<and> rc \<noteq> HS_OK)"
proof -
  obtain cs where m: "raising W = {}" and i: "inv_with W cs (waiting W) b" and ph: "phase_ok W cs (waiting W) b"
    using assms(1) by (rule reach_invE)
  have e: "cs = []" "live_instances b = []" using ph assms(2) by (auto simp: phase_ok_def)
  then have "queue_rep (op_next b, commands b) []" using inv_shape [OF i] by (simp add: shape_def)
  then have c: "commands b = (None, None)" by (cases "commands b") (simp add: queue_rep_def)
  have cl: "s_closing s" if "insts b p = Some s" for p s
    using inv_shape [OF i] that e m by (auto simp: shape_def)
  obtain s where s: "insts b q = Some s" using host_inst_alloc [OF i assms(3)] by blast
  then have "submit_locked q rq hs tot f ud e b = Some ((HS_ERR_CLOSED, None), b)" for rq hs tot f
    using cl [OF s] by (simp add: submit_locked_def)
  then have "\<exists>rc. hs_submit_async (Some q) r cb ud out e b = Some ((rc, None), b) \<and> rc \<noteq> HS_OK"
    using assms(4) by (auto simp: hs_submit_async_def request_ok_def hs_codes Let_def split: option.splits bool.splits)
  with c cl show ?thesis by blast
qed

text \<open>The example, continued: the owner leaves its loop although an engine is live.\<close>

definition early_end :: "call list" where
  "early_end = demo @ [OwnerExit, OwnerFinish]"

lemma early_end_facts:
  "lawful early_end (empty_world, init_bridge)"
  "\<exists>W b. execute early_end (empty_world, init_bridge) = Some (W, b) \<and> owner_done b \<and> h_inst W 1 = 1"
  by (simp_all add: early_end_def demo_defs model_defs alloc_ok_def owner_exit_def owner_finish_def)

theorem bridge_no_stranded_command_witness:
  "\<exists>W b rc. reach (W, b) \<and> owner_done b \<and> 0 < h_inst W 1 \<and>
    hs_submit_async (Some 1) None (Some 3) 0 True demo_sys b = Some ((rc, None), b) \<and> rc \<noteq> HS_OK"
proof -
  obtain W b where w: "execute early_end (empty_world, init_bridge) = Some (W, b)" "owner_done b" "h_inst W 1 = 1"
    using early_end_facts(2) by blast
  have r: "reach (W, b)" by (rule execute_reach [OF reach.start early_end_facts(1) w(1)])
  have h: "0 < h_inst W 1" using w(3) by simp
  have "request_ok None" by (simp add: request_ok_def)
  with bridge_no_stranded_command [OF r w(2) h, of None "Some 3" 0 True demo_sys] r w h show ?thesis by blast
qed

subsection \<open>Counters\<close>

lemma heap_sum_card:
  assumes "finite (dom h)"
  shows "heap_sum (\<lambda>p x. of_bool (P p x)) h = int (card {p. \<exists>x. h p = Some x \<and> P p x})"
proof -
  have "heap_sum (\<lambda>p x. of_bool (P p x)) h = (\<Sum>p\<in>dom h. if p \<in> {p. \<exists>x. h p = Some x \<and> P p x} then 1 else 0)"
    unfolding heap_sum_def by (rule sum.cong) auto
  also have "\<dots> = int (card {p. \<exists>x. h p = Some x \<and> P p x})"
  proof -
    have "dom h \<inter> {p. \<exists>x. h p = Some x \<and> P p x} = {p. \<exists>x. h p = Some x \<and> P p x}" by auto
    then show ?thesis using sum.inter_restrict [OF assms, of "\<lambda>_. 1 :: int" "{p. \<exists>x. h p = Some x \<and> P p x}", symmetric] by simp
  qed
  finally show ?thesis .
qed

text \<open>C9: The counters the limits are checked against are exact: \<open>instances\<close> is the number of live instances,
  \<open>active_ops\<close> the number of operations whose notification has not returned, and for each instance \<open>active\<close> is the
  number of its unfinished operations and \<open>response_count\<close> the number of its allocated responses.\<close>

theorem bridge_counters:
  assumes "reach (W, b)"
  shows "\<exists>cs. instances b = int (length (live_instances b)) \<and> distinct (live_instances b) \<and>
    queue_rep (op_next b, commands b) cs \<and>
    active_ops b = int (length (cs @ held W @ waiting W @ calling W)) \<and>
    (\<forall>p s. insts b p = Some s \<longrightarrow>
       s_active s = int (card {q. \<exists>x. ops b q = Some x \<and> o_instance x = p \<and> \<not> o_done x}) \<and>
       s_response_count s = int (card {q. \<exists>r. resps b q = Some r \<and> r_instance r = p}))"
proof -
  obtain cs where m: "making W = []" and i: "inv_with W cs (waiting W) b" using assms by (rule reach_invE)
  let ?E = "ext_of W cs (waiting W) b"
  note a = inv_acct [OF i] note sh = inv_shape [OF i]
  have fin: "finite (dom (ops b))" "finite (dom (resps b))" using acct_finite [OF a] by auto
  define l where "l = pipeline W cs (waiting W)"
  have "{q. \<exists>x. ops b q = Some x \<and> q \<in> set l} = set l" using inv_pipeline_alloc [OF i] by (auto simp: l_def)
  then have "heap_sum (\<lambda>q x. of_bool (q \<in> set l)) (ops b) = int (card (set l))"
    using heap_sum_card [OF fin(1), of "\<lambda>q x. q \<in> set l"] by simp
  moreover have "op_piped (x_pipe ?E) = (\<lambda>q x. of_bool (q \<in> set l))"
    by (intro ext) (simp add: op_piped_def ext_of_def l_def)
  moreover have "active_ops b = heap_sum (op_piped (x_pipe ?E)) (ops b)" using a by (simp add: acct_def acct_count_def ext_of_def)
  moreover have "card (set l) = length l" using sh unfolding l_def by (intro distinct_card) (simp add: shape_def)
  ultimately have "active_ops b = int (length l)" by simp
  then have act: "active_ops b = int (length (cs @ held W @ waiting W @ calling W))" using m by (simp add: l_def pipeline_def)
  have "s_active s = int (card {q. \<exists>x. ops b q = Some x \<and> o_instance x = p \<and> \<not> o_done x}) \<and>
       s_response_count s = int (card {q. \<exists>r. resps b q = Some r \<and> r_instance r = p})" if s: "insts b p = Some s" for p s
  proof -
    have "cell s_active (insts b p) = heap_sum (op_open p) (ops b)" "cell s_response_count (insts b p) = heap_sum (resp_points p) (resps b)"
      using a by (simp_all add: acct_def acct_count_def ext_of_def)
    moreover have "op_open p = (\<lambda>q x. of_bool (o_instance x = p \<and> \<not> o_done x))" "resp_points p = (\<lambda>q r. of_bool (r_instance r = p))"
      by (intro ext; simp add: counted_defs)+
    ultimately show ?thesis using s heap_sum_card [OF fin(1), of "\<lambda>q x. o_instance x = p \<and> \<not> o_done x"]
        heap_sum_card [OF fin(2), of "\<lambda>q r. r_instance r = p"] by simp
  qed
  with act sh show ?thesis by (intro exI [of _ cs]) (simp add: shape_def)
qed

theorem bridge_counters_witness:
  "reach demo_state \<and> instances (snd demo_state) = int (length (live_instances (snd demo_state)))"
  using bridge_counters [of "fst demo_state" "snd demo_state"] demo_reach by auto

subsection \<open>The type of the heap\<close>

text \<open>
  Every pointer leads to an object of its type: the pointers stored in objects, the two linked queues (acyclic, disjoint, ending in
  their tail), and the list of live instances. A queued command is not done, a queued notice is.
\<close>

definition objects_typed :: "bridge \<Rightarrow> bool" where
  "objects_typed b \<longleftrightarrow>
     (\<forall>x\<in>ran (ops b). o_instance x \<in> dom (insts b) \<and> set_option (o_response x) \<subseteq> dom (resps b)) \<and>
     (\<forall>r\<in>ran (resps b). r_instance r \<in> dom (insts b)) \<and>
     (\<forall>c\<in>ran (chunks b). c_instance c \<in> dom (insts b) \<and> set_option (c_response c) \<subseteq> dom (resps b))"

definition queues_typed :: "bridge \<Rightarrow> bool" where
  "queues_typed b \<longleftrightarrow> (\<exists>cs ns. queue_rep (op_next b, commands b) cs \<and> queue_rep (op_next b, notices b) ns \<and> distinct (cs @ ns) \<and>
     (\<forall>p\<in>set cs. \<exists>x. ops b p = Some x \<and> \<not> o_done x) \<and> (\<forall>p\<in>set ns. \<exists>x. ops b p = Some x \<and> o_done x))"

definition bridge_typed :: "bridge \<Rightarrow> bool" where
  "bridge_typed b \<longleftrightarrow> objects_typed b \<and> queues_typed b \<and> distinct (live_instances b) \<and>
     set (live_instances b) \<subseteq> dom (insts b) \<and> state b \<in> {0, 1, 2, 3, 4, 5}"

lemma acct_objects_typed: "acct E b \<Longrightarrow> objects_typed b"
  unfolding objects_typed_def
  by (auto simp: ran_def dest: acct_op_inst acct_op_resp acct_resp_inst acct_chunk_inst acct_chunk_resp)

lemma inv_queues_typed:
  assumes i: "inv_with W cs ns b" and m: "making W = []"
  shows "queues_typed b"
proof -
  note sh = inv_shape [OF i]
  have d: "distinct (cs @ held W @ ns @ calling W)" using sh m by (simp add: shape_def pipeline_def)
  have x: "\<exists>x. ops b p = Some x \<and> op_ok W cs b p x" if "p \<in> set (cs @ ns)" for p
    using inv_pipeline_alloc [OF i, of p] sh that by (auto simp: pipeline_def shape_def)
  have "\<forall>p\<in>set cs. \<exists>x. ops b p = Some x \<and> \<not> o_done x"
  proof
    fix p assume p: "p \<in> set cs"
    obtain y where "ops b p = Some y" "op_ok W cs b p y" using x [of p] p by auto
    then show "\<exists>x. ops b p = Some x \<and> \<not> o_done x" using p unfolding op_ok_def by blast
  qed
  moreover have "\<forall>p\<in>set ns. \<exists>x. ops b p = Some x \<and> o_done x"
  proof
    fix p assume p: "p \<in> set ns"
    then have "p \<notin> set (making W) \<and> p \<notin> set cs \<and> p \<notin> set (held W)" using d m by auto
    moreover obtain y where "ops b p = Some y" "op_ok W cs b p y" using x [of p] p by auto
    ultimately show "\<exists>x. ops b p = Some x \<and> o_done x" unfolding op_ok_def by blast
  qed
  moreover have "distinct (cs @ ns)" using d by auto
  ultimately show ?thesis using sh unfolding queues_typed_def shape_def by blast
qed



end
