(* ===== verification/Bridge_Calls.thy ===== *)
theory Bridge_Calls
  imports Bridge_Props
begin

text \<open>Functional behaviour of single calls: rejected submissions, size checks, error texts.\<close>

subsection \<open>A rejected submission has no effect\<close>

lemma abandon_undoes:
  assumes s: "insts b sp = Some s" "0 < s_refs s" and f: "ops b p = None"
    and n: "new_op 3 sp cb ud (Some p) b = Some (Some p, b1)"
  shows "abandon p b1 = Some (b\<lparr>next_id := next_id b + 1\<rparr>)"
    "charge sp c b1 = Some (True, b2) \<Longrightarrow> upd_op p (\<lambda>x. x\<lparr>o_input_charge := c\<rparr>) b2 = Some b3 \<Longrightarrow>
     abandon p b3 = Some (b\<lparr>next_id := next_id b + 1\<rparr>)"
proof -
  have "(ops b)(p := None) = ops b" using f by auto
  moreover have "(insts b)(sp \<mapsto> s) = insts b" using s by auto
  ultimately show "abandon p b1 = Some (b\<lparr>next_id := next_id b + 1\<rparr>)"
    using s n by (auto simp: new_op_def charge_def upd_inst_def abandon_def upd_op_def op_drop_def release_op_def
        uncharge_nonzero_def uncharge_def response_drop_def instance_drop_def split: if_splits)
  show "abandon p b3 = Some (b\<lparr>next_id := next_id b + 1\<rparr>)"
    if "charge sp c b1 = Some (True, b2)" "upd_op p (\<lambda>x. x\<lparr>o_input_charge := c\<rparr>) b2 = Some b3"
    using that s n \<open>(ops b)(p := None) = ops b\<close> \<open>(insts b)(sp \<mapsto> s) = insts b\<close>
    by (auto simp: new_op_def charge_def upd_inst_def abandon_def upd_op_def op_drop_def release_op_def
        uncharge_nonzero_def uncharge_def response_drop_def instance_drop_def split: if_splits)
qed

lemma new_op_None: "new_op k sp cb ud mem b = Some (None, b1) \<Longrightarrow> b1 = b"
  by (auto simp: new_op_def charge_def bind_eq_Some_conv split: if_splits option.splits)

lemma new_op_Some: "new_op k sp cb ud mem b = Some (Some p, b1) \<Longrightarrow> mem = Some p"
  by (auto simp: new_op_def bind_eq_Some_conv split: if_splits option.splits)

lemma submit_locked_rejected:
  assumes s: "insts b q = Some s" "0 < s_refs s" and al: "alloc_ok e b"
    and r: "submit_locked q rq hs tot cb ud e b = Some ((rc, o'), b')" "rc \<noteq> HS_OK"
  shows "o' = None \<and> (b' = b \<or> b' = b\<lparr>next_id := next_id b + 1\<rparr>)"
proof (cases "s_closing s \<or> s_active s \<ge> s_capacity s")
  case True
  then have "submit_locked q rq hs tot cb ud e b = Some ((if s_closing s then HS_ERR_CLOSED else HS_ERR_LIMIT, None), b)"
    using s by (cases "s_closing s") (simp_all add: submit_locked_def)
  then show ?thesis using r by simp
next
  case False
  then have nc: "\<not> s_closing s" "\<not> s_active s \<ge> s_capacity s" by simp_all
  let ?c = "tot + ucast (rq_header_count rq) * (sizeof_header + 2) + 2"
  obtain op b1 where n: "new_op 3 q (Some cb) ud (sys_alloc e 0) b = Some (op, b1)"
    using r(1) s nc by (auto simp: submit_locked_def bind_eq_Some_conv)
  show ?thesis
  proof (cases op)
    case None
    then show ?thesis using r n s nc new_op_None by (auto simp: submit_locked_def)
  next
    case (Some p)
    then have mem: "sys_alloc e 0 = Some p" using n new_op_Some by auto
    then have f: "ops b p = None" and n': "new_op 3 q (Some cb) ud (Some p) b = Some (Some p, b1)"
      using al n Some by (auto simp: alloc_ok_def)
    note un = abandon_undoes [OF s f n']
    obtain ok b2 where c: "charge q ?c b1 = Some (ok, b2)"
      using r(1) s nc n Some by (auto simp: submit_locked_def Let_def bind_eq_Some_conv)
    show ?thesis
    proof (cases ok)
      case False
      then show ?thesis using r s nc n Some c un(1) charge_False [of q ?c b1 b2]
        by (auto simp: submit_locked_def Let_def bind_eq_Some_conv)
    next
      case True
      then obtain b3 where u: "upd_op p (\<lambda>x. x\<lparr>o_input_charge := ?c\<rparr>) b2 = Some b3"
        using r(1) s nc n Some c by (auto simp: submit_locked_def Let_def bind_eq_Some_conv)
      have "copy_request (sys_alloc e) rq hs = None"
        using r s nc n Some c True u by (auto simp: submit_locked_def Let_def bind_eq_Some_conv split: option.splits)
      then show ?thesis using r s nc n Some c True u un(2) [of ?c b2 b3]
        by (auto simp: submit_locked_def Let_def bind_eq_Some_conv)
    qed
  qed
qed

lemma submit_cases:
  assumes "request_ok r"
  shows "(\<exists>rc. hs_submit_async (Some q) r cb ud out e b = Some ((rc, None), b)) \<or>
    (\<exists>rq hs tot f. hs_submit_async (Some q) r cb ud out e b = submit_locked q rq hs tot f ud e b)"
proof (cases "out \<and> cb \<noteq> None \<and> r \<noteq> None")
  case False
  then show ?thesis by (auto simp: hs_submit_async_def split: option.splits bool.splits)
next
  case True
  then obtain f rq where o: "out" "cb = Some f" "r = Some rq" by auto
  show ?thesis using o assms by (auto simp: hs_submit_async_def request_ok_def Let_def split: option.splits) blast+
qed

text \<open>C11: A refused submission has no effect: whatever the reason (bad arguments, limits, closed instance, exhausted
  budget, failed allocation half way through copying), no operation is returned and the state is the old one,
  except that an operation number may have been used up.\<close>

theorem submit_rejected:
  assumes "reach (W, b)" "legal (Submit (Some q) r cb ud out e) (W, b)"
    and "hs_submit_async (Some q) r cb ud out e b = Some ((rc, o'), b')" "rc \<noteq> HS_OK"
  shows "o' = None \<and> (b' = b \<or> b' = b\<lparr>next_id := next_id b + 1\<rparr>)"
proof -
  obtain cs where i: "inv_with W cs (waiting W) b" using assms(1) by (rule reach_invE)
  have h: "0 < h_inst W q" "alloc_ok e b" using assms(2) by (simp_all add: owns_def)
  obtain s where s: "insts b q = Some s" using host_inst_alloc [OF i h(1)] by blast
  note loc = submit_locked_rejected [OF s acct_inst_pos [OF inv_acct [OF i] s] h(2) _ assms(4)]
  have "request_ok r" using assms(2) by simp
  from submit_cases [OF this, of q cb ud out e b] show ?thesis
  proof
    assume "\<exists>rc. hs_submit_async (Some q) r cb ud out e b = Some ((rc, None), b)"
    then show ?thesis using assms(3) by auto
  next
    assume "\<exists>rq hs tot f. hs_submit_async (Some q) r cb ud out e b = submit_locked q rq hs tot f ud e b"
    then obtain rq hs tot f where "submit_locked q rq hs tot f ud e b = Some ((rc, o'), b')" using assms(3) by auto
    then show ?thesis by (rule loc)
  qed
qed

definition bad_request :: hs_request_t where
  "bad_request = \<lparr>rq_struct_size = 56, rq_abi_major = 1, rq_method = \<lparr>sp_data = None, sp_length = 3\<rparr>,
     rq_target = \<lparr>sp_data = Some [47], sp_length = 1\<rparr>, rq_headers = None, rq_header_count = 0\<rparr>"

definition fresh_sys :: sys where
  "fresh_sys = demo_sys\<lparr>sys_alloc := (\<lambda>i. if i < 5 then Some (i + 10) else None)\<rparr>"

lemma bad_submit:
  "legal (Submit (Some 1) (Some bad_request) (Some 3) 0 True fresh_sys) demo_state"
  "\<exists>b'. hs_submit_async (Some 1) (Some bad_request) (Some 3) 0 True fresh_sys (snd demo_state) = Some ((HS_ERR_INVALID_ARG, None), b')"
  by (simp_all add: demo_state_def demo_defs model_defs alloc_ok_def owns_def request_ok_def bad_request_def fresh_sys_def
      legal_def hs_submit_async_def submit_locked_def sizeof_request_def sizeof_header_def copy_request_def copy_span_def abandon_def)

theorem submit_rejected_witness:
  "\<exists>b'. reach demo_state \<and> hs_submit_async (Some 1) (Some bad_request) (Some 3) 0 True fresh_sys (snd demo_state)
      = Some ((HS_ERR_INVALID_ARG, None), b') \<and>
    (b' = snd demo_state \<or> b' = (snd demo_state)\<lparr>next_id := next_id (snd demo_state) + 1\<rparr>)"
proof -
  obtain b' where b': "hs_submit_async (Some 1) (Some bad_request) (Some 3) 0 True fresh_sys (snd demo_state)
      = Some ((HS_ERR_INVALID_ARG, None), b')" using bad_submit(2) by blast
  have "HS_ERR_INVALID_ARG \<noteq> HS_OK" by (simp add: hs_codes)
  with submit_rejected [of "fst demo_state" "snd demo_state" 1 "Some bad_request" "Some 3" 0 True fresh_sys] b' bad_submit(1) demo_reach
  show ?thesis by auto
qed

subsection \<open>Size checks\<close>

lemma header_total_exact:
  assumes "header_total hs tot = Some t" "tot \<le> 65536"
  shows "t \<le> 65536 \<and> uint t = uint tot + (\<Sum>(n, v)\<leftarrow>hs. uint (sp_length n) + uint (sp_length v))"
  using assms
proof (induction hs tot rule: header_total.induct)
  case (2 n v hs tot)
  let ?l = "sp_length n + sp_length v"
  have g: "sp_length n \<le> 65536" "sp_length v \<le> 65536" "tot + ?l \<le> 65536" "header_total hs (tot + ?l) = Some t"
    using 2(2) by (auto simp: Let_def split: if_splits)
  have b: "uint (sp_length n) \<le> 65536" "uint (sp_length v) \<le> 65536" "uint tot \<le> 65536"
    using g(1,2) 2(3) by (simp_all add: word_le_def)
  have l: "uint ?l = uint (sp_length n) + uint (sp_length v)" by (rule uint_add_no_wrap) (use b in simp)
  have t: "uint (tot + ?l) = uint tot + uint ?l" by (rule uint_add_no_wrap) (use b l in simp)
  have c: "\<not> (sp_length n > 65536 \<or> sp_length v > 65536)" using g(1,2) by auto
  have "\<not> tot + ?l > 65536" using g(3) by auto
  from 2(1) [OF c refl this g(4,3)] show ?case using l t by simp
qed simp

text \<open>The request size check is exact. When \<open>hs_submit_async\<close> gets past its loop, the running total has not wrapped: it is
  the true number of bytes of method, target, names and values, and it is at most 65536.\<close>

theorem submit_total_exact:
  assumes "sp_length (rq_method r) \<le> 64" "sp_length (rq_target r) \<le> 16384"
    and "header_total hs (sp_length (rq_method r) + sp_length (rq_target r)) = Some t"
  shows "uint t = uint (sp_length (rq_method r)) + uint (sp_length (rq_target r))
      + (\<Sum>(n, v)\<leftarrow>hs. uint (sp_length n) + uint (sp_length v)) \<and> uint t \<le> 65536"
proof -
  let ?m = "sp_length (rq_method r)" and ?t = "sp_length (rq_target r)"
  have b: "uint ?m \<le> 64" "uint ?t \<le> 16384" using assms(1,2) by (simp_all add: word_le_def)
  have s: "uint (?m + ?t) = uint ?m + uint ?t" by (rule uint_add_no_wrap) (use b in simp)
  have "?m + ?t \<le> 65536" unfolding word_le_def s using b by simp
  from header_total_exact [OF assms(3) this] show ?thesis using s by (simp add: word_le_def)
qed

theorem submit_total_exact_witness:
  "header_total [(\<lparr>sp_data = Some [1], sp_length = 1\<rparr>, \<lparr>sp_data = Some [2, 3], sp_length = 2\<rparr>)]
     (sp_length (rq_method bad_request) + sp_length (rq_target bad_request)) = Some 7 \<and> uint (7 :: u64) \<le> 65536"
proof -
  let ?hs = "[(\<lparr>sp_data = Some [1], sp_length = 1\<rparr>, \<lparr>sp_data = Some [2, 3], sp_length = 2\<rparr>)]"
  have "sp_length (rq_method bad_request) \<le> 64" "sp_length (rq_target bad_request) \<le> 16384"
    "header_total ?hs (sp_length (rq_method bad_request) + sp_length (rq_target bad_request)) = Some 7"
    by (simp_all add: bad_request_def)
  from submit_total_exact [OF this] this(3) show ?thesis by simp
qed

subsection \<open>Error texts\<close>

text \<open>\<open>hs_error_copy\<close> stays inside the caller's buffer of \<open>cap\<close> bytes, always terminates what it wrote, copies the longest
  prefix that fits, leaves the rest of the buffer alone, and returns the full length of the message.\<close>

theorem error_copy_bounds:
  assumes "0 < cap" "cap \<le> length d"
  shows "\<exists>d'. hs_error_copy code (Some d) cap = Some (length (error_message code), Some d') \<and> length d' = length d \<and>
    take (min (length (error_message code)) (cap - 1)) d' = take (min (length (error_message code)) (cap - 1)) (error_message code) \<and>
    d' ! min (length (error_message code)) (cap - 1) = CHR 0x00 \<and> drop cap d' = drop cap d"
proof -
  let ?s = "error_message code" let ?n = "length ?s" let ?k = "min ?n (cap - 1)"
  let ?d = "take ?k ?s @ CHR 0x00 # drop (?k + 1) d"
  have k: "?k < cap" "?k \<le> ?n" "?k < length d" using assms by auto
  have "(if ?n < cap - 1 then ?n else cap - 1) = ?k" by auto
  then have "hs_error_copy code (Some d) cap = Some (?n, Some ?d)" using assms k by (simp add: hs_error_copy_def Let_def)
  moreover have "drop cap ?d = drop cap d"
  proof -
    have l: "length (take ?k ?s @ [CHR 0x00]) = ?k + 1" using k by simp
    have "drop cap ((take ?k ?s @ [CHR 0x00]) @ drop (?k + 1) d) = drop (cap - (?k + 1)) (drop (?k + 1) d)"
      unfolding drop_append l using k l by simp
    moreover have "cap - (?k + 1) + (?k + 1) = cap" using k by simp
    ultimately show ?thesis by (simp only: drop_drop append_assoc append_Cons append_Nil)
  qed
  moreover have "length (take ?k ?s) = ?k" using k by simp
  then have "?d ! ?k = CHR 0x00" "take ?k ?d = take ?k ?s" by (metis nth_append_length, simp)
  ultimately show ?thesis using k by (intro exI [of _ ?d]) simp
qed

theorem error_copy_bounds_witness:
  "hs_error_copy 11 (Some ''xxxxxxxx'') 3 = Some (4, Some (''Bu'' @ CHR 0x00 # ''xxxxx''))"
proof -
  have "(0::nat) < 3" "(3::nat) \<le> length ''xxxxxxxx''" by simp_all
  then obtain d' where "hs_error_copy 11 (Some ''xxxxxxxx'') 3 = Some (length (error_message 11), Some d')" "drop 3 d' = drop 3 ''xxxxxxxx''"
    using error_copy_bounds by metis
  then show ?thesis by (simp add: hs_error_copy_def Let_def error_message_def error_messages_def)
qed

end
