(* ===== verification/Bridge_Blocks.thy ===== *)
theory Bridge_Blocks
  imports Bridge_Model "HOL-Library.Multiset"
begin

text \<open>
  The small blocks of \<^verbatim>\<open>c_abi/runtime/bridge.c\<close>: copied spans and arrays of headers, with the pointers between them.
  \<open>Bridge_Model\<close> keeps the copied bytes in the operation and the response; here they are in a heap of their own, so that a leak, a
  second \<open>free\<close> or a write outside a block is visible. \<open>malloc\<close> answers from \<open>mem\<close>, call by call. A \<open>free\<close> of what is not
  allocated, an access outside a block and an answer that names an allocated block are \<open>None\<close>.
\<close>

subsection \<open>Blocks\<close>

record cspan =
  cs_data :: "ptr option"
  cs_length :: u64

definition zero_span :: cspan where
  "zero_span = \<lparr>cs_data = None, cs_length = 0\<rparr>"

datatype block = Bytes bytes | Headers "(cspan \<times> cspan) list"

type_synonym blocks = "ptr \<rightharpoonup> block"

definition malloc :: "ptr option \<Rightarrow> block \<Rightarrow> blocks \<Rightarrow> (ptr option \<times> blocks) option" where
  "malloc mem x h = (case mem of
     None \<Rightarrow> Some (None, h)
   | Some p \<Rightarrow> if h p = None then Some (Some p, h(p \<mapsto> x)) else None)"

definition free :: "ptr option \<Rightarrow> blocks \<Rightarrow> blocks option" where
  "free p h = (case p of
     None \<Rightarrow> Some h
   | Some p \<Rightarrow> if h p = None then None else Some (h(p := None)))"

definition free_span :: "cspan \<Rightarrow> blocks \<Rightarrow> blocks option" where
  "free_span s = free (cs_data s)"

definition headers_at :: "ptr option \<Rightarrow> blocks \<Rightarrow> (cspan \<times> cspan) list option" where
  "headers_at p h = (case p of
     None \<Rightarrow> None
   | Some p \<Rightarrow> (case h p of Some (Headers a) \<Rightarrow> Some a | _ \<Rightarrow> None))"

text \<open>The loop of \<open>free_headers\<close> from index \<open>i\<close>, with \<open>n\<close> headers to go.\<close>

fun free_loop :: "ptr option \<Rightarrow> nat \<Rightarrow> nat \<Rightarrow> blocks \<Rightarrow> blocks option" where
  "free_loop p i 0 h = Some h"
| "free_loop p i (Suc n) h = do {
     a \<leftarrow> headers_at p h;
     if i \<ge> length a then None
     else do {
       h \<leftarrow> free_span (fst (a ! i)) h;
       a \<leftarrow> headers_at p h;
       h \<leftarrow> free_span (snd (a ! i)) h;
       free_loop p (i + 1) n h
     }
   }"

definition free_headers :: "ptr option \<Rightarrow> nat \<Rightarrow> blocks \<Rightarrow> blocks option" where
  "free_headers p n h = do { h \<leftarrow> free_loop p 0 n h; free p h }"

subsection \<open>Copying\<close>

text \<open>\<open>out\<close> is what the target holds before; it is kept when the copy fails.\<close>

definition copy_span_block :: "ptr option \<Rightarrow> hs_span_t \<Rightarrow> cspan \<Rightarrow> blocks \<Rightarrow> (bool \<times> cspan \<times> blocks) option" where
  "copy_span_block mem sp out h =
     (if sp_length sp > 1048576 \<or> (sp_length sp \<noteq> 0 \<and> sp_data sp = None) then Some (False, out, h)
      else let n = unat (sp_length sp); src = (case sp_data sp of None \<Rightarrow> [] | Some d \<Rightarrow> d)
      in if length src < n then None
         else do {
           (p, h) \<leftarrow> malloc mem (Bytes (take n src @ [0])) h;
           Some (case p of None \<Rightarrow> (False, out, h) | Some p \<Rightarrow> (True, \<lparr>cs_data = Some p, cs_length = sp_length sp\<rparr>, h))
         })"

text \<open>\<open>headers[i].name\<close> and \<open>headers[i].value\<close> of the array at \<open>p\<close>, the value only when the name was copied.\<close>

definition set_pair :: "(nat \<Rightarrow> ptr option) \<Rightarrow> nat \<Rightarrow> ptr \<Rightarrow> nat \<Rightarrow> hs_span_t \<Rightarrow> hs_span_t \<Rightarrow> blocks \<Rightarrow> (bool \<times> blocks) option" where
  "set_pair mem k p i n v h = do {
     a \<leftarrow> headers_at (Some p) h;
     if i \<ge> length a then None
     else do {
       (ok, s, h) \<leftarrow> copy_span_block (mem k) n (fst (a ! i)) h;
       let a = a[i := (s, snd (a ! i))]; h = h(p \<mapsto> Headers a)
       in if \<not> ok then Some (False, h)
          else do {
            (ok, s, h) \<leftarrow> copy_span_block (mem (k + 1)) v (snd (a ! i)) h;
            Some (ok, h(p \<mapsto> Headers (a[i := (fst (a ! i), s)])))
          }
     }
   }"

fun set_pairs :: "(nat \<Rightarrow> ptr option) \<Rightarrow> nat \<Rightarrow> ptr \<Rightarrow> nat \<Rightarrow> hs_header_t list \<Rightarrow> blocks \<Rightarrow> (bool \<times> blocks) option" where
  "set_pairs mem k p i [] h = Some (True, h)"
| "set_pairs mem k p i ((n, v) # hs) h = do {
     (ok, h) \<leftarrow> set_pair mem k p i n v h;
     if ok then set_pairs mem (k + 2) p (i + 1) hs h else Some (False, h)
   }"

text \<open>The fields of an operation that own blocks; \<open>calloc\<close> zeroes them.\<close>

record request_blocks =
  rb_method :: cspan
  rb_target :: cspan
  rb_headers :: "ptr option"
  rb_count :: nat

definition no_blocks :: request_blocks where
  "no_blocks = \<lparr>rb_method = zero_span, rb_target = zero_span, rb_headers = None, rb_count = 0\<rparr>"

text \<open>The copying part of \<open>hs_submit_async\<close>, from \<open>int valid = ...\<close> on.\<close>

definition copy_request_blocks :: "(nat \<Rightarrow> ptr option) \<Rightarrow> hs_request_t \<Rightarrow> hs_header_t list \<Rightarrow> blocks
    \<Rightarrow> (bool \<times> request_blocks \<times> blocks) option" where
  "copy_request_blocks mem r hs h = do {
     (valid, m, h) \<leftarrow> copy_span_block (mem 1) (rq_method r) zero_span h;
     let o1 = no_blocks\<lparr>rb_method := m\<rparr> in
     if \<not> valid then Some (False, o1, h)
     else do {
       (valid, t, h) \<leftarrow> copy_span_block (mem 2) (rq_target r) zero_span h;
       let o2 = o1\<lparr>rb_target := t\<rparr> in
       if \<not> valid \<or> hs = [] then Some (valid, o2, h)
       else do {
         (p, h) \<leftarrow> malloc (mem 3) (Headers (replicate (length hs) (zero_span, zero_span))) h;
         case p of
           None \<Rightarrow> Some (False, o2, h)
         | Some p \<Rightarrow> do {
             (valid, h) \<leftarrow> set_pairs mem 4 p 0 hs h;
             Some (valid, o2\<lparr>rb_headers := Some p, rb_count := length hs\<rparr>, h)
           }
       }
     }
   }"

text \<open>The part of \<open>op_drop\<close> that frees them.\<close>

definition free_request :: "request_blocks \<Rightarrow> blocks \<Rightarrow> blocks option" where
  "free_request r h = do {
     h \<leftarrow> free_span (rb_method r) h;
     h \<leftarrow> free_span (rb_target r) h;
     free_headers (rb_headers r) (rb_count r) h
   }"

end
