(* ===== verification/Bridge_Blocks_Props.thy ===== *)
theory Bridge_Blocks_Props
  imports Bridge_Blocks
begin

text \<open>
  Ownership of the small blocks: whatever the allocator refuses on the way, an operation and a response own exactly the blocks that
  were allocated for them, and freeing gives the heap back as it was.
\<close>

subsection \<open>Owned blocks\<close>

text \<open>The heap \<open>h'\<close> is \<open>h\<close> and the blocks \<open>M\<close>, each once.\<close>

definition own :: "blocks \<Rightarrow> blocks \<Rightarrow> ptr multiset \<Rightarrow> bool" where
  "own h h' M \<longleftrightarrow> (\<forall>p. count M p \<le> 1) \<and> (\<forall>p. p \<in># M \<longrightarrow> h p = None \<and> h' p \<noteq> None) \<and> (\<forall>p. p \<notin># M \<longrightarrow> h' p = h p)"

lemma own_empty [simp]: "own h h' {#} \<longleftrightarrow> h' = h"
  by (auto simp: own_def)

lemma own_once:
  assumes "own h h' (A + M)" "p \<in># M"
  shows "p \<notin># A"
proof -
  have "count A p + count M p \<le> 1" using assms(1) unfolding own_def by (metis count_union)
  moreover have "1 \<le> count M p" using assms(2) by simp
  ultimately have "count A p = 0" by linarith
  then show ?thesis by (simp add: not_in_iff)
qed

lemma own_malloc:
  assumes "own h h' M" "h' p = None"
  shows "own h (h'(p \<mapsto> x)) (add_mset p M)"
proof -
  have "p \<notin># M" using assms by (auto simp: own_def)
  then have "count M p = 0" "h p = None" using assms by (auto simp: own_def not_in_iff)
  then show ?thesis using assms by (auto simp: own_def)
qed

lemma own_write: "own h h' M \<Longrightarrow> p \<in># M \<Longrightarrow> own h (h'(p \<mapsto> x)) M"
  by (auto simp: own_def)

lemma own_free:
  assumes "own h h' (add_mset p M)"
  shows "own h (h'(p := None)) M"
proof -
  have "p \<notin># M" using own_once [of h h' M "{#p#}" p] assms by simp
  moreover have "h p = None" using assms by (simp add: own_def)
  moreover have "count M q \<le> 1" for q
  proof -
    have "count (add_mset p M) q \<le> 1" using assms unfolding own_def by blast
    then show ?thesis by (simp split: if_splits)
  qed
  moreover have "h q = None \<and> h' q \<noteq> None" if "q \<in># M" for q using assms that by (simp add: own_def)
  moreover have "h' q = h q" if "q \<notin># M" "q \<noteq> p" for q using assms that by (simp add: own_def)
  ultimately show ?thesis unfolding own_def by (metis fun_upd_apply)
qed

definition sp :: "cspan \<Rightarrow> ptr multiset" where
  "sp s = (case cs_data s of None \<Rightarrow> {#} | Some p \<Rightarrow> {#p#})"

definition pp :: "cspan \<times> cspan \<Rightarrow> ptr multiset" where
  "pp a = sp (fst a) + sp (snd a)"

definition ptrs :: "(cspan \<times> cspan) list \<Rightarrow> ptr multiset" where
  "ptrs a = sum_list (map pp a)"

lemma ptrs_simps [simp]: "ptrs [] = {#}" "ptrs (x # a) = pp x + ptrs a" "ptrs (a @ c) = ptrs a + ptrs c"
  by (simp_all add: ptrs_def)

lemma sp_zero [simp]: "sp zero_span = {#}" "cs_data s = None \<Longrightarrow> sp s = {#}"
  by (simp_all add: sp_def zero_span_def)

lemma ptrs_zero [simp]: "ptrs (replicate n (zero_span, zero_span)) = {#}"
  by (induction n) (simp_all add: pp_def)

lemma ptrs_update: "i < length a \<Longrightarrow> ptrs (a[i := x]) + pp (a ! i) = ptrs a + pp x"
  by (induction a arbitrary: i) (auto simp: nth_Cons ac_simps split: nat.splits)

subsection \<open>Freeing\<close>

lemma free_span_own:
  assumes "own h h' (sp s + M)"
  shows "\<exists>h2. free_span s h' = Some h2 \<and> own h h2 M \<and> (\<forall>q. q \<in># M \<longrightarrow> h2 q = h' q)"
proof (cases "cs_data s")
  case None
  then show ?thesis using assms by (simp add: free_span_def free_def)
next
  case (Some p)
  then have o: "own h h' (add_mset p M)" using assms by (simp add: sp_def)
  then have "h' p \<noteq> None" by (simp add: own_def)
  moreover have "p \<notin># M" using own_once [of h h' "{#p#}" M p] o by auto
  ultimately show ?thesis using own_free [OF o] Some by (auto simp: free_span_def free_def)
qed

lemma free_loop_own:
  assumes "h' p = Some (Headers a)" "i + n \<le> length a" "own h h' (ptrs (take n (drop i a)) + M)" "p \<in># M"
  shows "\<exists>h2. free_loop (Some p) i n h' = Some h2 \<and> own h h2 M"
  using assms
proof (induction n arbitrary: i h')
  case 0
  then show ?case by simp
next
  case (Suc n)
  let ?R = "ptrs (take n (drop (Suc i) a)) + M"
  have "drop i a = a ! i # drop (Suc i) a" using Suc.prems(2) by (simp add: Cons_nth_drop_Suc)
  then have "own h h' (sp (fst (a ! i)) + (sp (snd (a ! i)) + ?R))" using Suc.prems(3) by (simp add: pp_def ac_simps)
  then obtain h1 where h1: "free_span (fst (a ! i)) h' = Some h1" "own h h1 (sp (snd (a ! i)) + ?R)" "h1 p = h' p"
    using free_span_own Suc.prems(4) by (metis (no_types, lifting) union_iff)
  then obtain h2 where h2: "free_span (snd (a ! i)) h1 = Some h2" "own h h2 ?R" "h2 p = h1 p"
    using free_span_own Suc.prems(4) by (metis (no_types, lifting) union_iff)
  then show ?case using Suc.IH [of h2 "Suc i"] Suc.prems h1 by (simp add: headers_at_def)
qed

lemma free_headers_own:
  assumes "h' p = Some (Headers a)" "own h h' (ptrs a + add_mset p M)"
  shows "\<exists>h2. free_headers (Some p) (length a) h' = Some h2 \<and> own h h2 M"
proof -
  obtain h1 where h1: "free_loop (Some p) 0 (length a) h' = Some h1" "own h h1 (add_mset p M)"
    using free_loop_own [of h' p a 0 "length a" h "add_mset p M"] assms by auto
  then have "h1 p \<noteq> None" by (simp add: own_def)
  then show ?thesis using own_free [OF h1(2)] h1(1) by (auto simp: free_headers_def free_def)
qed

subsection \<open>Copying\<close>

text \<open>The caller's span is readable; the answers from the \<open>k\<close>-th on are blocks that are free now, and different.\<close>

definition readable :: "hs_span_t \<Rightarrow> bool" where
  "readable s \<longleftrightarrow> unat (sp_length s) \<le> length (case sp_data s of None \<Rightarrow> [] | Some d \<Rightarrow> d)"

definition fresh :: "(nat \<Rightarrow> ptr option) \<Rightarrow> nat \<Rightarrow> blocks \<Rightarrow> bool" where
  "fresh mem k h \<longleftrightarrow> (\<forall>i\<ge>k. \<forall>p. mem i = Some p \<longrightarrow> h p = None \<and> (\<forall>j\<ge>k. mem j = Some p \<longrightarrow> j = i))"

lemma fresh_later:
  assumes "fresh mem k h" "k < k'" "\<And>q. h q = None \<Longrightarrow> mem k \<noteq> Some q \<Longrightarrow> h' q = None"
  shows "fresh mem k' h'"
proof -
  have "h' p = None" if i: "i \<ge> k'" "mem i = Some p" for i p
  proof (rule assms(3))
    show "h p = None" using assms(1,2) i unfolding fresh_def by (meson less_imp_le order_trans)
    show "mem k \<noteq> Some p" using assms(1,2) i unfolding fresh_def by (metis less_imp_le order_trans order_refl not_less)
  qed
  moreover have "j = i" if "i \<ge> k'" "j \<ge> k'" "mem i = Some p" "mem j = Some p" for i j p
    using assms(1,2) that unfolding fresh_def by (meson less_imp_le order_trans)
  ultimately show ?thesis unfolding fresh_def by blast
qed

lemma fresh_write:
  assumes "fresh mem k h" "h p \<noteq> None"
  shows "fresh mem k (h(p \<mapsto> x))"
  unfolding fresh_def
proof (intro allI impI)
  fix i q assume i: "k \<le> i" "mem i = Some q"
  then have "h q = None \<and> (\<forall>j\<ge>k. mem j = Some q \<longrightarrow> j = i)" using assms(1) unfolding fresh_def by blast
  moreover from this have "q \<noteq> p" using assms(2) by auto
  ultimately show "(h(p \<mapsto> x)) q = None \<and> (\<forall>j\<ge>k. mem j = Some q \<longrightarrow> j = i)" by simp
qed

text \<open>The block holds the bytes and a zero.\<close>

definition holds :: "blocks \<Rightarrow> cspan \<Rightarrow> bytes \<Rightarrow> bool" where
  "holds h s d \<longleftrightarrow> unat (cs_length s) = length d \<and> (\<exists>p. cs_data s = Some p \<and> h p = Some (Bytes (d @ [0])))"

lemma holds_later: "holds h s d \<Longrightarrow> (\<And>q. q \<in># sp s \<Longrightarrow> h' q = h q) \<Longrightarrow> holds h' s d"
  by (auto simp: holds_def sp_def)

lemma copy_span_block_own:
  assumes "own h h1 M" "cs_data s0 = None" "readable x" "fresh mem k h1"
  shows "\<exists>ok s h2. copy_span_block (mem k) x s0 h1 = Some (ok, s, h2) \<and> own h h2 (sp s + M) \<and> fresh mem (Suc k) h2 \<and>
    (\<forall>q. h1 q \<noteq> None \<longrightarrow> h2 q = h1 q) \<and>
    (case copy_span (mem k) x of None \<Rightarrow> \<not> ok \<and> s = s0 | Some d \<Rightarrow> ok \<and> holds h2 s d)"
proof (cases "sp_length x > 1048576 \<or> (sp_length x \<noteq> 0 \<and> sp_data x = None) \<or> mem k = None")
  case True
  moreover have "\<not> length (case sp_data x of None \<Rightarrow> [] | Some d \<Rightarrow> d) < unat (sp_length x)" using assms(3) by (simp add: readable_def)
  ultimately have "copy_span_block (mem k) x s0 h1 = Some (False, s0, h1)" "copy_span (mem k) x = None"
    by (auto simp: copy_span_block_def copy_span_def malloc_def Let_def)
  moreover have "fresh mem (Suc k) h1" by (rule fresh_later [OF assms(4)]) simp_all
  ultimately show ?thesis using assms(1,2) by auto
next
  case False
  let ?src = "case sp_data x of None \<Rightarrow> [] | Some d \<Rightarrow> d"
  let ?d = "take (unat (sp_length x)) ?src"
  obtain p where p: "mem k = Some p" using False by auto
  then have free: "h1 p = None" using assms(4) unfolding fresh_def by blast
  let ?h = "h1(p \<mapsto> Bytes (?d @ [0]))" and ?s = "\<lparr>cs_data = Some p, cs_length = sp_length x\<rparr>"
  have len: "\<not> length ?src < unat (sp_length x)" using assms(3) by (simp add: readable_def)
  have "copy_span_block (mem k) x s0 h1 = Some (True, ?s, ?h)" using False p free len
    by (simp add: copy_span_block_def malloc_def Let_def del: fun_upd_apply)
  moreover have "copy_span (mem k) x = Some ?d" using False by (simp add: copy_span_def)
  moreover have "own h ?h (sp ?s + M)" using own_malloc [OF assms(1) free] by (simp add: sp_def)
  moreover have "fresh mem (Suc k) ?h" using p by (intro fresh_later [OF assms(4)]) auto
  moreover have "holds ?h ?s ?d" using len by (simp add: holds_def)
  ultimately show ?thesis using free by auto
qed

text \<open>One pair: the name and the value, or only the name, or none.\<close>

definition pair_copy :: "(nat \<Rightarrow> ptr option) \<Rightarrow> nat \<Rightarrow> hs_header_t \<Rightarrow> (bytes \<times> bytes) option" where
  "pair_copy mem k nv = do { n \<leftarrow> copy_span (mem k) (fst nv); v \<leftarrow> copy_span (mem (k + 1)) (snd nv); Some (n, v) }"

definition holds_pair :: "blocks \<Rightarrow> cspan \<times> cspan \<Rightarrow> bytes \<times> bytes \<Rightarrow> bool" where
  "holds_pair h a d \<longleftrightarrow> holds h (fst a) (fst d) \<and> holds h (snd a) (snd d)"

lemma set_pair_own:
  assumes "h1 p = Some (Headers a)" "i < length a" "a ! i = (zero_span, zero_span)" "own h h1 (ptrs a + M)" "p \<in># M"
    "readable n" "readable v" "fresh mem k h1"
  shows "\<exists>ok x h2. set_pair mem k p i n v h1 = Some (ok, h2) \<and> h2 p = Some (Headers (a[i := x])) \<and>
    own h h2 (ptrs (a[i := x]) + M) \<and> fresh mem (k + 2) h2 \<and> (\<forall>q. h1 q \<noteq> None \<and> q \<noteq> p \<longrightarrow> h2 q = h1 q) \<and>
    (case pair_copy mem k (n, v) of None \<Rightarrow> \<not> ok | Some d \<Rightarrow> ok \<and> holds_pair h2 x d)"
proof -
  let ?M = "ptrs a + M"
  have z: "cs_data zero_span = None" by (simp add: zero_span_def)
  have pp0: "ptrs (a[i := x]) = ptrs a + pp x" for x using ptrs_update [OF assms(2), of x] assms(3) by (simp add: pp_def)
  have pM: "p \<in># sp s + ?M" for s using assms(5) by simp
  obtain ok1 s1 g1 where n: "copy_span_block (mem k) n zero_span h1 = Some (ok1, s1, g1)" "own h g1 (sp s1 + ?M)" "fresh mem (Suc k) g1"
    "\<forall>q. h1 q \<noteq> None \<longrightarrow> g1 q = h1 q" "case copy_span (mem k) n of None \<Rightarrow> \<not> ok1 \<and> s1 = zero_span | Some d \<Rightarrow> ok1 \<and> holds g1 s1 d"
    using copy_span_block_own [OF assms(4) z assms(6,8)] by blast
  let ?a1 = "a[i := (s1, zero_span)]"
  let ?g1 = "g1(p \<mapsto> Headers ?a1)"
  have own1: "own h ?g1 (sp s1 + ?M)" by (rule own_write [OF n(2) pM])
  have g1p: "g1 p \<noteq> None" using n(4) assms(1) by simp
  have fr1: "fresh mem (Suc k) ?g1" by (rule fresh_write [OF n(3) g1p])
  show ?thesis
  proof (cases ok1)
    case False
    then have "set_pair mem k p i n v h1 = Some (False, ?g1)" using assms(1-3) n(1) by (simp add: set_pair_def headers_at_def Let_def)
    moreover have "copy_span (mem k) n = None" using n(5) False by (simp split: option.splits)
    moreover have "fresh mem (k + 2) ?g1" by (rule fresh_later [OF fr1]) simp_all
    moreover have "own h ?g1 (ptrs ?a1 + M)" using own1 by (simp add: pp0 pp_def ac_simps)
    moreover have "\<forall>q. h1 q \<noteq> None \<and> q \<noteq> p \<longrightarrow> ?g1 q = h1 q" using n(4) by simp
    ultimately show ?thesis by (intro exI [of _ False] exI [of _ "(s1, zero_span)"] exI [of _ ?g1]) (simp add: pair_copy_def)
  next
    case True
    obtain ok2 s2 g2 where v: "copy_span_block (mem (Suc k)) v zero_span ?g1 = Some (ok2, s2, g2)" "own h g2 (sp s2 + (sp s1 + ?M))"
      "fresh mem (Suc (Suc k)) g2" "\<forall>q. ?g1 q \<noteq> None \<longrightarrow> g2 q = ?g1 q"
      "case copy_span (mem (Suc k)) v of None \<Rightarrow> \<not> ok2 \<and> s2 = zero_span | Some d \<Rightarrow> ok2 \<and> holds g2 s2 d"
      using copy_span_block_own [OF own1 z assms(7) fr1] by blast
    let ?g2 = "g2(p \<mapsto> Headers (a[i := (s1, s2)]))"
    have run: "set_pair mem k p i n v h1 = Some (ok2, ?g2)" using assms(1-3) n(1) v(1) True
      by (simp add: set_pair_def headers_at_def Let_def del: fun_upd_apply)
    have M2: "own h g2 (ptrs (a[i := (s1, s2)]) + M)" using v(2) by (simp add: pp0 pp_def ac_simps)
    then have own2: "own h ?g2 (ptrs (a[i := (s1, s2)]) + M)" using assms(5) by (intro own_write) simp_all
    have "g2 p \<noteq> None" using v(4) by simp
    then have fr2: "fresh mem (k + 2) ?g2" using fresh_write [OF v(3)] by simp
    have keep: "\<forall>q. h1 q \<noteq> None \<and> q \<noteq> p \<longrightarrow> ?g2 q = h1 q" using n(4) v(4) by simp
    have np: "p \<notin># sp s1 + sp s2"
    proof -
      have "own h g2 ((sp s1 + sp s2) + ?M)" using v(2) by (simp add: ac_simps)
      then show ?thesis by (rule own_once) (use assms(5) in simp)
    qed
    have "case pair_copy mem k (n, v) of None \<Rightarrow> \<not> ok2 | Some d \<Rightarrow> ok2 \<and> holds_pair ?g2 (s1, s2) d"
    proof (cases "pair_copy mem k (n, v)")
      case None
      then show ?thesis using n(5) v(5) True by (auto simp: pair_copy_def split: option.splits)
    next
      case (Some d)
      then have d: "copy_span (mem k) n = Some (fst d)" "copy_span (mem (Suc k)) v = Some (snd d)" by (auto simp: pair_copy_def split: bind_splits)
      have "holds ?g2 s1 (fst d)"
      proof (rule holds_later [of g1])
        show "holds g1 s1 (fst d)" using n(5) d(1) by simp
        show "?g2 q = g1 q" if "q \<in># sp s1" for q
        proof -
          have "g1 q \<noteq> None" using n(2) that unfolding own_def by (metis union_iff)
          moreover have "q \<noteq> p" using np that by auto
          ultimately show ?thesis using v(4) by auto
        qed
      qed
      moreover have "holds ?g2 s2 (snd d)" by (rule holds_later [of g2]) (use v(5) d(2) np in auto)
      ultimately show ?thesis using Some v(5) d(2) by (simp add: holds_pair_def)
    qed
    then show ?thesis using run own2 fr2 keep by (intro exI [of _ ok2] exI [of _ "(s1, s2)"] exI [of _ ?g2]) simp
  qed
qed

lemma copy_headers_Cons:
  "copy_headers mem k (nv # hs) = do { d \<leftarrow> pair_copy mem k nv; ds \<leftarrow> copy_headers mem (k + 2) hs; Some (d # ds) }"
  by (cases nv) (simp add: pair_copy_def)

lemma holds_pair_later: "holds_pair h x d \<Longrightarrow> (\<And>q. q \<in># pp x \<Longrightarrow> h' q = h q) \<Longrightarrow> holds_pair h' x d"
  unfolding holds_pair_def pp_def by (auto intro: holds_later)

lemma ptrs_nth: "i < length a \<Longrightarrow> q \<in># pp (a ! i) \<Longrightarrow> q \<in># ptrs a"
  by (induction a arbitrary: i) (auto simp: nth_Cons split: nat.splits)

lemma set_pairs_own:
  assumes "h1 p = Some (Headers a)" "i + length hs \<le> length a" "\<forall>j. i \<le> j \<and> j < i + length hs \<longrightarrow> a ! j = (zero_span, zero_span)"
    "own h h1 (ptrs a + M)" "p \<in># M" "\<forall>nv\<in>set hs. readable (fst nv) \<and> readable (snd nv)" "fresh mem k h1"
  shows "\<exists>ok a' h2. set_pairs mem k p i hs h1 = Some (ok, h2) \<and> h2 p = Some (Headers a') \<and> length a' = length a \<and> (\<forall>j<i. a' ! j = a ! j) \<and>
    own h h2 (ptrs a' + M) \<and> (\<forall>q. h1 q \<noteq> None \<and> q \<noteq> p \<longrightarrow> h2 q = h1 q) \<and>
    (case copy_headers mem k hs of None \<Rightarrow> \<not> ok
     | Some ds \<Rightarrow> ok \<and> length ds = length hs \<and> (\<forall>j<length hs. holds_pair h2 (a' ! (i + j)) (ds ! j)))"
  using assms
proof (induction hs arbitrary: k i a h1)
  case Nil
  then show ?case by auto
next
  case (Cons nv hs)
  obtain n v where nv: "nv = (n, v)" by fastforce
  have i: "i < length a" "a ! i = (zero_span, zero_span)" using Cons.prems(2,3) by simp_all
  have rd: "readable n" "readable v" using Cons.prems(6) nv by simp_all
  obtain ok x g where g: "set_pair mem k p i n v h1 = Some (ok, g)" "g p = Some (Headers (a[i := x]))" "own h g (ptrs (a[i := x]) + M)"
    "fresh mem (k + 2) g" "\<forall>q. h1 q \<noteq> None \<and> q \<noteq> p \<longrightarrow> g q = h1 q"
    "case pair_copy mem k (n, v) of None \<Rightarrow> \<not> ok | Some d \<Rightarrow> ok \<and> holds_pair g x d"
    using set_pair_own [OF Cons.prems(1) i Cons.prems(4,5) rd Cons.prems(7)] by blast
  show ?case
  proof (cases ok)
    case False
    then have "copy_headers mem k (nv # hs) = None" using g(6) nv by (simp add: copy_headers_Cons split: option.splits)
    moreover have "\<forall>j<i. a[i := x] ! j = a ! j" by simp
    ultimately show ?thesis using g False nv
      by (intro exI [of _ False] exI [of _ "a[i := x]"] exI [of _ g]) simp
  next
    case True
    have rest: "Suc i + length hs \<le> length (a[i := x])" "\<forall>j. Suc i \<le> j \<and> j < Suc i + length hs \<longrightarrow> a[i := x] ! j = (zero_span, zero_span)"
      "\<forall>nv\<in>set hs. readable (fst nv) \<and> readable (snd nv)" using Cons.prems(2,3,6) by simp_all
    obtain ok2 a' h2 where r: "set_pairs mem (k + 2) p (Suc i) hs g = Some (ok2, h2)" "h2 p = Some (Headers a')" "length a' = length a"
      "\<forall>j<Suc i. a' ! j = a[i := x] ! j" "own h h2 (ptrs a' + M)" "\<forall>q. g q \<noteq> None \<and> q \<noteq> p \<longrightarrow> h2 q = g q"
      "case copy_headers mem (k + 2) hs of None \<Rightarrow> \<not> ok2
       | Some ds \<Rightarrow> ok2 \<and> length ds = length hs \<and> (\<forall>j<length hs. holds_pair h2 (a' ! (Suc i + j)) (ds ! j))"
      using Cons.IH [OF g(2) rest(1,2) g(3) Cons.prems(5) rest(3) g(4)] by auto
    have x: "a' ! i = x" using r(4) i(1) by simp
    have "set_pairs mem k p i (nv # hs) h1 = Some (ok2, h2)" using g(1) r(1) True nv by simp
    moreover have "\<forall>q. h1 q \<noteq> None \<and> q \<noteq> p \<longrightarrow> h2 q = h1 q" using g(5) r(6) by metis
    moreover have "\<forall>j<i. a' ! j = a ! j" using r(4) by simp
    moreover have "case copy_headers mem k (nv # hs) of None \<Rightarrow> \<not> ok2
      | Some ds \<Rightarrow> ok2 \<and> length ds = length (nv # hs) \<and> (\<forall>j<length (nv # hs). holds_pair h2 (a' ! (i + j)) (ds ! j))"
    proof (cases "copy_headers mem (k + 2) hs")
      case None
      then show ?thesis using r(7) by (simp add: copy_headers_Cons split: option.splits bind_splits)
    next
      case (Some ds)
      obtain d where d: "pair_copy mem k nv = Some d" "holds_pair g x d" using g(6) True nv by (auto split: option.splits)
      have "holds_pair h2 x d"
      proof (rule holds_pair_later [OF d(2)])
        fix q assume "q \<in># pp x"
        then have "q \<in># ptrs (a[i := x])" using ptrs_nth [of i "a[i := x]"] i(1) by simp
        moreover from this have "q \<noteq> p" using own_once [OF g(3) Cons.prems(5)] by auto
        ultimately show "h2 q = g q" using g(3) r(6) unfolding own_def by (metis union_iff)
      qed
      then show ?thesis using Some d(1) r(7) x by (auto simp: copy_headers_Cons nth_Cons split: nat.splits)
    qed
    ultimately show ?thesis using r(2,3,5) by blast
  qed
qed

subsection \<open>A request\<close>

text \<open>The blocks of the operation hold the copied request, every string followed by a zero.\<close>

definition request_holds :: "blocks \<Rightarrow> request_blocks \<Rightarrow> bytes \<times> bytes \<times> (bytes \<times> bytes) list \<Rightarrow> bool" where
  "request_holds h rb d = (case d of (m, t, hs) \<Rightarrow>
     holds h (rb_method rb) m \<and> holds h (rb_target rb) t \<and> rb_count rb = length hs \<and>
     (if hs = [] then rb_headers rb = None
      else case headers_at (rb_headers rb) h of None \<Rightarrow> False
        | Some a \<Rightarrow> length a = length hs \<and> (\<forall>j<length hs. holds_pair h (a ! j) (hs ! j))))"

definition owned :: "blocks \<Rightarrow> request_blocks \<Rightarrow> ptr multiset \<Rightarrow> bool" where
  "owned h rb N \<longleftrightarrow> (case rb_headers rb of
     None \<Rightarrow> rb_count rb = 0 \<and> N = sp (rb_method rb) + sp (rb_target rb)
   | Some p \<Rightarrow> \<exists>a. h p = Some (Headers a) \<and> rb_count rb = length a \<and> N = sp (rb_method rb) + (sp (rb_target rb) + (ptrs a + {#p#})))"

lemma free_request_own:
  assumes "own h h1 N" "owned h1 rb N"
  shows "free_request rb h1 = Some h"
proof -
  define R where "R = (case rb_headers rb of None \<Rightarrow> {#} | Some p \<Rightarrow> (case h1 p of Some (Headers a) \<Rightarrow> ptrs a + {#p#} | _ \<Rightarrow> {#}))"
  have N: "N = sp (rb_method rb) + (sp (rb_target rb) + R)" using assms(2) by (auto simp: owned_def R_def split: option.splits)
  obtain h2 where h2: "free_span (rb_method rb) h1 = Some h2" "own h h2 (sp (rb_target rb) + R)" "\<forall>q. q \<in># sp (rb_target rb) + R \<longrightarrow> h2 q = h1 q"
    using free_span_own assms(1) unfolding N by blast
  obtain h3 where h3: "free_span (rb_target rb) h2 = Some h3" "own h h3 R" "\<forall>q. q \<in># R \<longrightarrow> h3 q = h2 q"
    using free_span_own [OF h2(2)] by blast
  show ?thesis
  proof (cases "rb_headers rb")
    case None
    then have "R = {#}" "rb_count rb = 0" using assms(2) by (simp_all add: R_def owned_def)
    then show ?thesis using h2(1) h3 None by (simp add: free_request_def free_headers_def free_def)
  next
    case (Some p)
    then obtain a where a: "h1 p = Some (Headers a)" "rb_count rb = length a" using assms(2) by (auto simp: owned_def)
    then have R: "R = ptrs a + add_mset p {#}" using Some by (simp add: R_def)
    then have "h3 p = Some (Headers a)" using h2(3) h3(3) a(1) by simp
    then show ?thesis using free_headers_own [of h3 p a h "{#}"] h3(2) h2(1) h3(1) R a(2) Some by (auto simp: free_request_def)
  qed
qed

lemma copy_request_own:
  assumes "readable (rq_method r)" "readable (rq_target r)" "\<forall>nv\<in>set hs. readable (fst nv) \<and> readable (snd nv)" "fresh mem 1 h"
  shows "\<exists>ok rb h1 N. copy_request_blocks mem r hs h = Some (ok, rb, h1) \<and> own h h1 N \<and> owned h1 rb N \<and>
    (case copy_request mem r hs of None \<Rightarrow> \<not> ok | Some d \<Rightarrow> ok \<and> request_holds h1 rb d)"
proof -
  have z: "cs_data zero_span = None" and h: "own h h {#}" by (simp_all add: zero_span_def)
  obtain ok1 m g1 where m: "copy_span_block (mem 1) (rq_method r) zero_span h = Some (ok1, m, g1)" "own h g1 (sp m + {#})"
    "fresh mem (Suc 1) g1" "case copy_span (mem 1) (rq_method r) of None \<Rightarrow> \<not> ok1 \<and> m = zero_span | Some d \<Rightarrow> ok1 \<and> holds g1 m d"
    using copy_span_block_own [OF h z assms(1,4)] by blast
  have f2: "fresh mem 2 g1" using m(3) by (simp add: numeral_2_eq_2)
  obtain ok2 t g2 where t: "copy_span_block (mem 2) (rq_target r) zero_span g1 = Some (ok2, t, g2)" "own h g2 (sp t + (sp m + {#}))"
    "fresh mem (Suc 2) g2" "\<forall>q. g1 q \<noteq> None \<longrightarrow> g2 q = g1 q"
    "case copy_span (mem 2) (rq_target r) of None \<Rightarrow> \<not> ok2 \<and> t = zero_span | Some d \<Rightarrow> ok2 \<and> holds g2 t d"
    using copy_span_block_own [OF m(2) z assms(2) f2] by blast
  have f3: "fresh mem 3 g2" using t(3) by (simp add: eval_nat_numeral)
  have mt: "holds g2 m d" if "holds g1 m d" for d
  proof (rule holds_later [OF that])
    fix q assume "q \<in># sp m"
    then have "g1 q \<noteq> None" using m(2) unfolding own_def by simp
    then show "g2 q = g1 q" using t(4) by blast
  qed
  let ?o = "no_blocks\<lparr>rb_method := m, rb_target := t\<rparr>"
  have two: "own h g2 (sp m + sp t)" using t(2) by (simp add: ac_simps)
  show ?thesis
  proof (cases "ok1 \<and> ok2 \<and> hs \<noteq> [] \<and> mem 3 \<noteq> None")
    case False
    show ?thesis
    proof (cases ok1)
      case no: False
      then have "copy_request_blocks mem r hs h = Some (False, no_blocks\<lparr>rb_method := m\<rparr>, g1)" using m(1) by (simp add: copy_request_blocks_def)
      moreover have "copy_request mem r hs = None" using m(4) no by (simp add: copy_request_def split: option.splits)
      moreover have "owned g1 (no_blocks\<lparr>rb_method := m\<rparr>) (sp m + {#})" by (simp add: owned_def no_blocks_def)
      ultimately show ?thesis using m(2) by auto
    next
      case ok1: True
      have ow: "owned g2 ?o (sp m + sp t)" by (simp add: owned_def no_blocks_def)
      show ?thesis
      proof (cases "ok2 \<and> hs = []")
        case True
        then have "copy_request_blocks mem r hs h = Some (True, ?o, g2)" using m(1) t(1) ok1 by (simp add: copy_request_blocks_def)
        moreover obtain dm dt where "copy_request mem r hs = Some (dm, dt, [])" "holds g2 m dm" "holds g2 t dt"
          using m(4) t(5) ok1 True mt by (auto simp: copy_request_def split: option.splits)
        ultimately show ?thesis using two ow by (auto simp: request_holds_def no_blocks_def)
      next
        case no: False
        then have "copy_request_blocks mem r hs h = Some (False, ?o, g2)" using m(1) t(1) ok1 False
          by (auto simp: copy_request_blocks_def malloc_def Let_def)
        moreover have "copy_request mem r hs = None" using t(5) ok1 False no by (auto simp: copy_request_def split: option.splits bind_splits)
        ultimately show ?thesis using two ow by auto
      qed
    qed
  next
    case True
    then obtain p where p: "mem 3 = Some p" by auto
    then have free: "g2 p = None" using f3 unfolding fresh_def by blast
    let ?z = "replicate (length hs) (zero_span, zero_span)"
    let ?g = "g2(p \<mapsto> Headers ?z)"
    have own3: "own h ?g (ptrs ?z + add_mset p (sp m + sp t))" using own_malloc [OF two free] by simp
    have f4: "fresh mem 4 ?g"
    proof (rule fresh_later [OF f3])
      show "(3 :: nat) < 4" by simp
      show "?g q = None" if "g2 q = None" "mem 3 \<noteq> Some q" for q using that p by auto
    qed
    have len: "0 + length hs \<le> length ?z" "\<forall>j. 0 \<le> j \<and> j < 0 + length hs \<longrightarrow> ?z ! j = (zero_span, zero_span)" by simp_all
    have at: "?g p = Some (Headers ?z)" and pin: "p \<in># add_mset p (sp m + sp t)" by simp_all
    obtain ok3 a g3 where r: "set_pairs mem 4 p 0 hs ?g = Some (ok3, g3)" "g3 p = Some (Headers a)" "length a = length ?z"
      "own h g3 (ptrs a + add_mset p (sp m + sp t))" "\<forall>q. ?g q \<noteq> None \<and> q \<noteq> p \<longrightarrow> g3 q = ?g q"
      "case copy_headers mem 4 hs of None \<Rightarrow> \<not> ok3
       | Some ds \<Rightarrow> ok3 \<and> length ds = length hs \<and> (\<forall>j<length hs. holds_pair g3 (a ! (0 + j)) (ds ! j))"
      using set_pairs_own [OF at len own3 pin assms(3) f4] by (elim exE conjE) (rule that)
    let ?rb = "?o\<lparr>rb_headers := Some p, rb_count := length hs\<rparr>"
    have "copy_request_blocks mem r hs h = Some (ok3, ?rb, g3)"
      using m(1) t(1) True p free r(1) by (simp add: copy_request_blocks_def malloc_def Let_def del: fun_upd_apply)
    moreover have "owned g3 ?rb (ptrs a + add_mset p (sp m + sp t))" using r(2,3) by (simp add: owned_def no_blocks_def ac_simps)
    moreover have "case copy_request mem r hs of None \<Rightarrow> \<not> ok3 | Some d \<Rightarrow> ok3 \<and> request_holds g3 ?rb d"
    proof (cases "copy_headers mem 4 hs")
      case None
      then show ?thesis using r(6) by (simp add: copy_request_def split: option.splits bind_splits)
    next
      case (Some ds)
      have keep: "g3 q = g2 q" if "q \<in># sp m + sp t" for q
      proof -
        have "g2 q \<noteq> None" using two that unfolding own_def by blast
        then show ?thesis using r(5) free by (metis fun_upd_apply)
      qed
      obtain dm dt where d: "copy_span (mem 1) (rq_method r) = Some dm" "copy_span (mem 2) (rq_target r) = Some dt" "holds g2 m dm" "holds g2 t dt"
        using m(4) t(5) True mt by (auto split: option.splits)
      have "holds g3 m dm" "holds g3 t dt" using holds_later [OF d(3)] holds_later [OF d(4)] keep by simp_all
      moreover have "ds \<noteq> []" using Some True r(6) by auto
      ultimately show ?thesis using Some d(1,2) p True r(2,3,6) by (simp add: copy_request_def request_holds_def no_blocks_def headers_at_def)
    qed
    ultimately show ?thesis using r(4) by blast
  qed
qed

text \<open>C1: whichever allocations fail, the copying part of \<open>hs_submit_async\<close> stays in its blocks and leaves the operation owning exactly the
  blocks that were allocated: freeing the operation gives the heap back as it was, nothing leaked and nothing freed twice.
  It succeeds exactly when the copy of the request does, and then the blocks hold the method, the target and every header,
  each followed by a zero.\<close>
theorem request_blocks_owned:
  assumes "readable (rq_method r)" "readable (rq_target r)" "\<forall>nv\<in>set hs. readable (fst nv) \<and> readable (snd nv)" "fresh mem 1 h"
  shows "\<exists>ok rb h1. copy_request_blocks mem r hs h = Some (ok, rb, h1) \<and> free_request rb h1 = Some h \<and>
    (case copy_request mem r hs of None \<Rightarrow> \<not> ok | Some d \<Rightarrow> ok \<and> request_holds h1 rb d)"
  using copy_request_own [OF assms] free_request_own by blast

text \<open>A request with one header, and the sixth allocation failing: the name is copied, the value is not.\<close>

definition one_header :: hs_request_t where
  "one_header = \<lparr>rq_struct_size = 56, rq_abi_major = 1, rq_method = \<lparr>sp_data = Some [71], sp_length = 1\<rparr>,
     rq_target = \<lparr>sp_data = Some [47], sp_length = 1\<rparr>, rq_headers = None, rq_header_count = 1\<rparr>"

definition header_a :: hs_header_t where
  "header_a = (\<lparr>sp_data = Some [97], sp_length = 1\<rparr>, \<lparr>sp_data = Some [98, 99], sp_length = 2\<rparr>)"

definition five_blocks :: "nat \<Rightarrow> ptr option" where
  "five_blocks i = (if i < 5 then Some (10 + i) else None)"

theorem request_blocks_owned_witness:
  "\<exists>rb h1. copy_request_blocks five_blocks one_header [header_a] (Map.empty(3 \<mapsto> Bytes [7])) = Some (False, rb, h1) \<and>
     free_request rb h1 = Some (Map.empty(3 \<mapsto> Bytes [7]))"
proof -
  let ?h = "Map.empty(3 \<mapsto> Bytes [7])"
  have "fresh five_blocks 1 ?h" by (auto simp: fresh_def five_blocks_def)
  moreover have "readable (rq_method one_header)" "readable (rq_target one_header)" "readable (fst header_a)" "readable (snd header_a)"
    by (simp_all add: readable_def one_header_def header_a_def)
  moreover have "copy_request five_blocks one_header [header_a] = None"
    by (simp add: copy_request_def copy_span_def five_blocks_def one_header_def header_a_def)
  ultimately show ?thesis using request_blocks_owned [of one_header "[header_a]" five_blocks ?h] by auto
qed

subsection \<open>A response\<close>

text \<open>Calls of \<open>hs_bridge_set_header\<close> on one response, each with its outcome.\<close>

fun set_headers :: "(nat \<Rightarrow> ptr option) \<Rightarrow> nat \<Rightarrow> ptr \<Rightarrow> (nat \<times> hs_header_t) list \<Rightarrow> blocks \<Rightarrow> (bool list \<times> blocks) option" where
  "set_headers mem k p [] h = Some ([], h)"
| "set_headers mem k p ((i, n, v) # cs) h = do {
     (ok, h) \<leftarrow> set_pair mem k p i n v h;
     (oks, h) \<leftarrow> set_headers mem (k + 2) p cs h;
     Some (ok # oks, h)
   }"

lemma set_headers_own:
  assumes "h1 p = Some (Headers a)" "\<forall>c\<in>set cs. fst c < length a \<and> a ! fst c = (zero_span, zero_span)" "distinct (map fst cs)"
    "own h h1 (ptrs a + M)" "p \<in># M" "\<forall>c\<in>set cs. readable (fst (snd c)) \<and> readable (snd (snd c))" "fresh mem k h1"
  shows "\<exists>oks a' h2. set_headers mem k p cs h1 = Some (oks, h2) \<and> h2 p = Some (Headers a') \<and> length a' = length a \<and> own h h2 (ptrs a' + M)"
  using assms
proof (induction cs arbitrary: k a h1)
  case Nil
  then show ?case by auto
next
  case (Cons c cs)
  obtain i n v where c: "c = (i, n, v)" by (metis prod_cases3)
  have i: "i < length a" "a ! i = (zero_span, zero_span)" "readable n" "readable v" using Cons.prems(2,6) c by simp_all
  obtain ok x g where g: "set_pair mem k p i n v h1 = Some (ok, g)" "g p = Some (Headers (a[i := x]))" "own h g (ptrs (a[i := x]) + M)"
    "fresh mem (k + 2) g" using set_pair_own [OF Cons.prems(1) i(1,2) Cons.prems(4,5) i(3,4) Cons.prems(7)] by blast
  have "\<forall>c\<in>set cs. fst c < length (a[i := x]) \<and> a[i := x] ! fst c = (zero_span, zero_span)"
    using Cons.prems(2,3) c by (auto simp: nth_list_update image_iff)
  then show ?case using Cons.IH [OF g(2) _ _ g(3) Cons.prems(5) _ g(4)] Cons.prems(3,6) g(1) c by force
qed

text \<open>Every header set at most once, in any order and with any failures: dropping the response gives the heap back.\<close>

lemma response_blocks_owned:
  assumes "mem 0 = Some p" "fresh mem 0 h" "\<forall>c\<in>set cs. fst c < len" "distinct (map fst cs)"
    "\<forall>c\<in>set cs. readable (fst (snd c)) \<and> readable (snd (snd c))"
  shows "\<exists>h0 oks h1. malloc (mem 0) (Headers (replicate len (zero_span, zero_span))) h = Some (Some p, h0) \<and>
    set_headers mem 1 p cs h0 = Some (oks, h1) \<and> free_headers (Some p) len h1 = Some h"
proof -
  let ?z = "replicate len (zero_span, zero_span)"
  let ?h = "h(p \<mapsto> Headers ?z)"
  have free: "h p = None" using assms(1,2) unfolding fresh_def by blast
  have own: "own h ?h (ptrs ?z + {#p#})" using own_malloc [of h h "{#}" p] free by simp
  have fr: "fresh mem 1 ?h" by (rule fresh_later [OF assms(2)]) (use assms(1) in auto)
  have cs: "\<forall>c\<in>set cs. fst c < length ?z \<and> ?z ! fst c = (zero_span, zero_span)" using assms(3) by simp
  have at: "?h p = Some (Headers ?z)" by simp
  obtain oks a h1 where r: "set_headers mem 1 p cs ?h = Some (oks, h1)" "h1 p = Some (Headers a)" "length a = len" "own h h1 (ptrs a + {#p#})"
    using set_headers_own [OF at cs assms(4) own _ assms(5) fr] by auto
  have "malloc (mem 0) (Headers ?z) h = Some (Some p, ?h)" using assms(1) free by (simp add: malloc_def)
  then show ?thesis using free_headers_own [of h1 p a h "{#}"] r by auto
qed

text \<open>Setting a header twice would lose the first pair of blocks.\<close>

lemma set_twice_leaks:
  "\<exists>h1 h2. set_headers (\<lambda>i. Some (10 + i)) 1 10 [(0, header_a), (0, header_a)] [10 \<mapsto> Headers [(zero_span, zero_span)]] = Some ([True, True], h1) \<and>
     free_headers (Some 10) 1 h1 = Some h2 \<and> h2 11 \<noteq> None"
  by (simp add: set_pair_def headers_at_def copy_span_block_def malloc_def header_a_def zero_span_def free_headers_def free_span_def free_def Let_def)

end
