(* ===== verification/Bridge_Tags.thy ===== *)
theory Bridge_Tags
  imports Bridge_System
begin

text \<open>
  Which callback an operation runs, with which user data, and whether it has been completed: its \<^emph>\<open>tag\<close>. No
  critical section changes the tag of an operation, except that completing sets the flag, and a new operation carries the
  callback it was created with. The synchronous calls rest on this.
\<close>

definition tag :: "bridge \<Rightarrow> ptr \<Rightarrow> (nat option \<times> nat \<times> bool) option" where
  "tag b p = map_option (\<lambda>x. (o_callback x, o_user_data x, o_done x)) (ops b p)"

definition tags_kept :: "bridge \<Rightarrow> bridge \<Rightarrow> bool" where
  "tags_kept b b' \<longleftrightarrow> (\<forall>p. tag b' p = None \<or> tag b' p = tag b p)"

definition tags_new :: "nat option \<Rightarrow> nat \<Rightarrow> bridge \<Rightarrow> bridge \<Rightarrow> bool" where
  "tags_new cb ud b b' \<longleftrightarrow> (\<forall>p. tag b' p = None \<or> tag b' p = tag b p \<or> tag b p = None \<and> tag b' p = Some (cb, ud, False))"

named_theorems tag_rules \<open>functions that keep tags\<close>

lemma tags_same: "ops b' = ops b \<Longrightarrow> tags_kept b b'"
  by (simp add: tags_kept_def tag_def)

lemma tags_trans [trans]: "tags_kept a b \<Longrightarrow> tags_kept b c \<Longrightarrow> tags_kept a c"
  unfolding tags_kept_def by metis

lemma tags_refl [simp]: "tags_kept b b"
  by (simp add: tags_same)

lemma tags_new_kept: "tags_kept b b' \<Longrightarrow> tags_new cb ud b b'"
  unfolding tags_kept_def tags_new_def by blast

lemma tags_new_trans: "tags_new cb ud a b \<Longrightarrow> tags_kept b c \<Longrightarrow> tags_new cb ud a c"
  unfolding tags_kept_def tags_new_def by metis

lemma tags_ops: "ops b' = ops b \<Longrightarrow> tags_kept c b' = tags_kept c b"
  by (simp add: tags_kept_def tag_def)

lemma tags_wake [simp]: "tags_kept c (wake_owner e b) = tags_kept c b"
  by (rule tags_ops) simp

lemma tags_live [simp]: "tags_kept c (b\<lparr>live_instances := l, instances := n\<rparr>) = tags_kept c b"
  by (rule tags_ops) simp

lemma tags_heaps [simp]: "tags_kept c (b\<lparr>resps := h\<rparr>) = tags_kept c b" "tags_kept c (b\<lparr>chunks := g\<rparr>) = tags_kept c b"
  by (rule tags_ops; simp)+

lemma instance_drop_same: "instance_drop p b = Some b' \<Longrightarrow> ops b' = ops b"
  by (auto simp: instance_drop_def bind_eq_Some_conv split: if_splits)

lemma charge_same: "charge p n b = Some (ok, b') \<Longrightarrow> ops b' = ops b"
  by (auto simp: charge_def bind_eq_Some_conv split: if_splits)

lemma uncharge_same: "uncharge p n b = Some b' \<Longrightarrow> ops b' = ops b"
  by (auto simp: uncharge_def bind_eq_Some_conv)

lemma uncharge_nonzero_same: "uncharge_nonzero p n b = Some b' \<Longrightarrow> ops b' = ops b"
  by (auto simp: uncharge_nonzero_def uncharge_same split: if_splits)

lemma upd_inst_same: "upd_inst p f b = Some b' \<Longrightarrow> ops b' = ops b"
  by (auto simp: upd_inst_def)

lemma upd_resp_same: "upd_resp p f b = Some b' \<Longrightarrow> ops b' = ops b"
  by (auto simp: upd_resp_def)

lemma release_response_same: "release_response r b = Some b' \<Longrightarrow> ops b' = ops b"
  by (auto simp: release_response_def bind_eq_Some_conv dest!: uncharge_same upd_inst_same instance_drop_same)

lemma response_drop_same: "response_drop q b = Some b' \<Longrightarrow> ops b' = ops b"
  by (auto simp: response_drop_def bind_eq_Some_conv dest!: release_response_same split: option.splits if_splits)

lemma release_op_same: "release_op x b = Some b' \<Longrightarrow> ops b' = ops b"
  by (auto simp: release_op_def bind_eq_Some_conv dest!: uncharge_nonzero_same response_drop_same instance_drop_same)

lemma enqueue_same: "enqueue e p b = Some b' \<Longrightarrow> ops b' = ops b"
  by (auto simp: enqueue_def Let_def split: if_splits prod.splits)

lemma notice_same: "notice e p b = Some b' \<Longrightarrow> ops b' = ops b"
  by (auto simp: notice_def Let_def split: if_splits prod.splits)

lemma retire_instance_same: "retire_instance p b = Some b' \<Longrightarrow> ops b' = ops b"
  by (auto simp: retire_instance_def unlink_instance_def Let_def dest: instance_drop_same)

lemma complete_reading_same: "complete_reading x b = Some b' \<Longrightarrow> ops b' = ops b"
  by (auto simp: complete_reading_def split: option.splits if_splits dest: upd_resp_same)

lemma retire_all_same: "retire_all l b = Some b' \<Longrightarrow> ops b' = ops b"
  by (induction l arbitrary: b) (auto simp: bind_eq_Some_conv dest!: upd_inst_same instance_drop_same)

lemmas ops_same = instance_drop_same charge_same uncharge_same uncharge_nonzero_same upd_inst_same upd_resp_same
  release_response_same response_drop_same release_op_same enqueue_same notice_same retire_instance_same
  complete_reading_same retire_all_same

lemma upd_op_tags:
  assumes "upd_op p f b = Some b'" and "\<And>x. o_callback (f x) = o_callback x" "\<And>x. o_user_data (f x) = o_user_data x" "\<And>x. o_done (f x) = o_done x"
  shows "tags_kept b b'"
  using assms by (auto simp: upd_op_def tags_kept_def tag_def)

lemma op_drop_tags: "op_drop p b = Some b' \<Longrightarrow> tags_kept b b'"
  by (auto simp: op_drop_def bind_eq_Some_conv tags_kept_def tag_def dest!: release_op_same split: if_splits)

lemma abandon_tags:
  assumes "abandon p b = Some b'" shows "tags_kept b b'"
proof -
  obtain i b1 b2 where s: "upd_inst i (\<lambda>s. s\<lparr>s_active := s_active s - 1, s_notifications := s_notifications s - 1\<rparr>) b = Some b1"
      "upd_op p (\<lambda>x. x\<lparr>o_refs := 1\<rparr>) (b1\<lparr>active_ops := active_ops b1 - 1\<rparr>) = Some b2" "op_drop p b2 = Some b'"
    using assms unfolding abandon_def bind_eq_Some_conv by blast
  have "tags_kept b (b1\<lparr>active_ops := active_ops b1 - 1\<rparr>)" by (rule tags_same) (use upd_inst_same [OF s(1)] in simp)
  also have "tags_kept \<dots> b2" by (rule upd_op_tags [OF s(2)]) simp_all
  also have "tags_kept b2 b'" by (rule op_drop_tags [OF s(3)])
  finally show ?thesis .
qed

lemma abandon_frees:
  assumes "abandon p b = Some b'" shows "tag b' p = None"
proof -
  obtain c b2 where s: "upd_op p (\<lambda>x. x\<lparr>o_refs := 1\<rparr>) c = Some b2" "op_drop p b2 = Some b'"
    using assms unfolding abandon_def bind_eq_Some_conv by blast
  obtain x where "ops b2 p = Some x" "o_refs x = 1" using s(1) by (auto simp: upd_op_def)
  then have "ops b' p = None" using s(2) by (auto simp: op_drop_def bind_eq_Some_conv)
  then show ?thesis by (simp add: tag_def)
qed

lemma tag_same: "ops b' = ops b \<Longrightarrow> tag b' p = tag b p"
  by (simp add: tag_def)

lemma new_op_tags:
  assumes "new_op kind sp cb ud mem b = Some (p, b')" and "\<And>q. mem = Some q \<Longrightarrow> ops b q = None"
  shows "tags_new cb ud b b' \<and> (case p of None \<Rightarrow> ops b' = ops b | Some q \<Rightarrow> tag b' q = Some (cb, ud, False) \<and> tag b q = None) \<and>
    (\<forall>q. tag b q = None \<longrightarrow> tag b' q \<noteq> None \<longrightarrow> p = Some q)"
proof (cases "insts b sp")
  case None
  then have "p = None \<and> b' = b" using assms(1) by (auto simp: new_op_def charge_def upd_inst_def split: if_splits option.splits)
  then show ?thesis by (simp add: tags_new_kept)
next
  case (Some s)
  then show ?thesis
  proof (cases rule: new_op_cases [of b sp s kind cb ud mem])
    case fail
    then show ?thesis using assms(1) by (simp add: tags_new_kept)
  next
    case (ok q b1)
    then have o: "p = Some q" "ops b' = (ops b)(q \<mapsto> fresh_op (next_id b) kind sp cb ud)" using assms(1) by auto
    moreover have "ops b q = None" using assms(2) ok by simp
    ultimately show ?thesis by (simp add: tags_new_def tag_def fresh_op_def)
  qed
qed

subsection \<open>Calls that create an operation\<close>

definition issued :: "nat option \<Rightarrow> nat \<Rightarrow> bridge \<Rightarrow> ((int \<times> ptr option) \<times> bridge) option \<Rightarrow> bool" where
  "issued cb ud b r \<longleftrightarrow> (case r of None \<Rightarrow> True | Some ((rc, p), b') \<Rightarrow>
     tags_new cb ud b b' \<and> (\<forall>q. p = Some q \<longrightarrow> ops b q = None) \<and> (\<forall>q. tag b q = None \<longrightarrow> tag b' q \<noteq> None \<longrightarrow> p = Some q))"

lemma kept_None: "tags_kept b b' \<Longrightarrow> tag b q = None \<Longrightarrow> tag b' q = None"
  unfolding tags_kept_def by metis

lemma issued_kept: "tags_kept b b' \<Longrightarrow> issued cb ud b (Some ((rc, None), b'))"
  by (simp add: issued_def tags_new_kept kept_None)

lemma issued_None [simp]: "issued cb ud b None"
  by (simp add: issued_def)

text \<open>A new operation, then steps that keep tags.\<close>

lemma issued_new:
  assumes n: "new_op kind sp cb ud (sys_alloc e i) b0 = Some (p, b1)" and a: "alloc_ok e b" and o: "ops b0 = ops b"
    and k: "tags_kept b1 b'" and r: "q = None \<or> q = p" and z: "q = None \<Longrightarrow> p = None \<or> tag b' (the p) = None"
  shows "issued cb ud b (Some ((rc, q), b'))"
proof -
  have fresh: "sys_alloc e i = Some x \<Longrightarrow> ops b0 x = None" for x using a o by (auto simp: alloc_ok_def)
  have t: "tag b0 = tag b" using o by (simp add: tag_def fun_eq_iff)
  note new = new_op_tags [OF n fresh]
  have "tags_new cb ud b b'" using new t tags_new_trans [OF _ k] by (simp add: tags_new_def)
  moreover have "ops b y = None" if "q = Some y" for y using new r that o t by (auto simp: tag_def)
  moreover have "q = Some y" if y: "tag b y = None" "tag b' y \<noteq> None" for y
  proof -
    have "tag b1 y \<noteq> None" using k y(2) unfolding tags_kept_def by metis
    then have "p = Some y" using new t y(1) by auto
    then show ?thesis using r z y(2) by auto
  qed
  ultimately show ?thesis by (simp add: issued_def)
qed

definition after :: "ptr option \<Rightarrow> bridge \<Rightarrow> ((int \<times> ptr option) \<times> bridge) option \<Rightarrow> bool" where
  "after p b r \<longleftrightarrow> (\<forall>rc q b'. r = Some ((rc, q), b') \<longrightarrow> tags_kept b b' \<and> (q = None \<or> q = p) \<and>
     (q = None \<longrightarrow> p = None \<or> tag b' (the p) = None))"

lemma issued_bind:
  assumes "alloc_ok e b" and "ops b0 = ops b"
    and "\<And>p b1. new_op kind sp cb ud (sys_alloc e i) b0 = Some (p, b1) \<Longrightarrow> after p b1 (f p b1)"
  shows "issued cb ud b (new_op kind sp cb ud (sys_alloc e i) b0 \<bind> (\<lambda>(p, b1). f p b1))"
proof (cases "new_op kind sp cb ud (sys_alloc e i) b0")
  case (Some n)
  obtain p b1 where n: "n = (p, b1)" by (cases n)
  show ?thesis
  proof (cases "f p b1")
    case s: (Some r)
    obtain rc q b' where r: "r = ((rc, q), b')" by (cases r) auto
    then have "tags_kept b1 b' \<and> (q = None \<or> q = p) \<and> (q = None \<longrightarrow> p = None \<or> tag b' (the p) = None)" using assms(3) Some n s by (simp add: after_def)
    then show ?thesis using issued_new [of kind sp cb ud e i b0 p b1 b b' q rc] assms(1,2) Some n s r by simp
  qed (simp add: Some n)
qed simp

lemma close_async_issued:
  assumes "alloc_ok e b"
  shows "issued cb ud b (close_async sp cb ud out e b)"
proof -
  have "issued cb ud b (new_op k q cb ud (sys_alloc e 0) b \<bind> (\<lambda>(op, b). case op of None \<Rightarrow> Some ((HS_ERR_LIMIT, None), b)
      | Some p \<Rightarrow> upd_inst q (\<lambda>s. s\<lparr>s_closing := True\<rparr>) b \<bind> (\<lambda>b. enqueue e p b \<bind> (\<lambda>b. Some ((HS_OK, Some p), b)))))" for k q
    by (rule issued_bind [OF assms refl])
      (auto simp: after_def bind_eq_Some_conv intro!: tags_same dest!: ops_same split: option.splits)
  then show ?thesis
    by (cases sp) (auto simp: close_async_def issued_kept bind_eq_Some_conv Let_def split: bind_split)
qed

lemma kept_same: "ops b' = ops b \<Longrightarrow> tags_kept c b \<Longrightarrow> tags_kept c b'"
  by (simp add: tags_kept_def tag_def)

text \<open>An update of an operation that keeps its tag, before or after steps that leave the operations alone.\<close>

lemma upd_op_kept:
  assumes "upd_op p f b = Some b'" "tags_kept c b"
    and "\<And>x. o_callback (f x) = o_callback x" "\<And>x. o_user_data (f x) = o_user_data x" "\<And>x. o_done (f x) = o_done x"
  shows "tags_kept c b'"
  using tags_trans [OF assms(2) upd_op_tags [OF assms(1,3-5)]] .

lemma abandon_kept: "abandon p b = Some b' \<Longrightarrow> tags_kept c b \<Longrightarrow> tags_kept c b'"
  using tags_trans [OF _ abandon_tags] .

lemma read_async_issued:
  assumes "alloc_ok e b"
  shows "issued cb ud b (hs_response_read_async rp n cb ud out e b)"
proof -
  have "issued cb ud b (new_op 4 i cb ud (sys_alloc e 0) b \<bind> (\<lambda>(op, b). case op of None \<Rightarrow> Some ((HS_ERR_LIMIT, None), b)
      | Some p \<Rightarrow> upd_op p (\<lambda>x. x\<lparr>o_response := Some q, o_max_bytes := m\<rparr>) b \<bind>
          (\<lambda>b. upd_resp q (\<lambda>r. r\<lparr>r_refs := r_refs r + 1, r_reading := True\<rparr>) b \<bind>
          (\<lambda>b. enqueue e p b \<bind> (\<lambda>b. Some ((HS_OK, Some p), b))))))" for i q m
    by (rule issued_bind [OF assms refl])
      (auto simp: after_def bind_eq_Some_conv split: option.splits elim!: upd_op_kept dest!: ops_same intro: kept_same)
  then show ?thesis
    by (cases rp) (auto simp: hs_response_read_async_def issued_kept bind_eq_Some_conv Let_def split: bind_split)
qed

lemma after_bind:
  assumes "\<And>x. m = Some x \<Longrightarrow> after p b (f x)"
  shows "after p b (m \<bind> f)"
  using assms by (cases m) (simp_all add: after_def)

lemma after_SomeI:
  "tags_kept b b' \<Longrightarrow> after p b (Some ((rc, p), b'))"
  "tags_kept b b' \<Longrightarrow> tag b' x = None \<Longrightarrow> after (Some x) b (Some ((rc, None), b'))"
  by (simp_all add: after_def)

lemma submit_locked_issued:
  assumes "alloc_ok e b"
  shows "issued (Some cb) ud b (submit_locked q r hs tot cb ud e b)"
proof -
  define f where "f cost p b = (charge q cost b \<bind> (\<lambda>(ok, b). if \<not> ok then abandon p b \<bind> (\<lambda>b. Some ((HS_ERR_LIMIT, None), b))
       else upd_op p (\<lambda>x. x\<lparr>o_input_charge := cost\<rparr>) b \<bind> (\<lambda>b. case copy_request (sys_alloc e) r hs of
           None \<Rightarrow> abandon p b \<bind> (\<lambda>b. Some ((HS_ERR_INVALID_ARG, None), b))
         | Some (m, t, h) \<Rightarrow> upd_op p (\<lambda>x. x\<lparr>o_method := m, o_target := t, o_headers := h\<rparr>) b \<bind>
             (\<lambda>b. enqueue e p b \<bind> (\<lambda>b. Some ((HS_OK, Some p), b))))))" for cost p b
  have f: "after (Some p) b (f cost p b)" for cost p b
    by (auto simp: f_def intro!: after_bind after_SomeI elim!: upd_op_kept abandon_kept kept_same dest!: ops_same intro!: abandon_frees split: option.splits)
  have "issued (Some cb) ud b (new_op 3 q (Some cb) ud (sys_alloc e 0) b \<bind> (\<lambda>(op, b). case op of None \<Rightarrow> Some ((HS_ERR_LIMIT, None), b)
      | Some p \<Rightarrow> f cost p b))" for cost
    by (rule issued_bind [OF assms refl]) (auto simp: f intro: after_SomeI split: option.splits)
  moreover have "submit_locked q r hs tot cb ud e b = insts b q \<bind> (\<lambda>s. if s_closing s then Some ((HS_ERR_CLOSED, None), b)
      else if s_active s \<ge> s_capacity s then Some ((HS_ERR_LIMIT, None), b)
      else new_op 3 q (Some cb) ud (sys_alloc e 0) b \<bind> (\<lambda>(op, b). case op of None \<Rightarrow> Some ((HS_ERR_LIMIT, None), b)
        | Some p \<Rightarrow> f (tot + ucast (rq_header_count r) * (sizeof_header + 2) + 2) p b))"
    by (simp only: submit_locked_def f_def Let_def)
  ultimately show ?thesis by (cases "insts b q") (simp_all add: issued_kept)
qed

lemma submit_issued:
  assumes "alloc_ok e b"
  shows "issued cb ud b (hs_submit_async q r cb ud out e b)"
  using submit_locked_issued [OF assms]
  by (auto simp: hs_submit_async_def issued_kept Let_def split: option.splits bool.splits)

lemma create_rest_issued:
  assumes "alloc_ok e b"
  shows "issued (Some cb) ud b (create_rest kind json len cb ud e b)"
proof (cases "sys_alloc e 0")
  case None
  then show ?thesis by (simp add: create_rest_def issued_kept)
next
  case (Some sp)
  let ?b0 = "b\<lparr>insts := (insts b)(sp \<mapsto> new_instance (next_id b) (kind = 2)), next_id := next_id b + 1\<rparr>"
  define f where "f p b = (charge sp (of_nat (len + 1)) b \<bind> (\<lambda>(ok, b). if \<not> ok then create_undo e p sp b
      else upd_op p (\<lambda>x. x\<lparr>o_input_charge := of_nat (len + 1)\<rparr>) b \<bind> (\<lambda>b. if sys_alloc e 2 = None then create_undo e p sp b
        else upd_op p (\<lambda>x. x\<lparr>o_input := take len (case json of None \<Rightarrow> [] | Some j \<Rightarrow> j)\<rparr>) b \<bind>
          (\<lambda>b. enqueue e p (b\<lparr>live_instances := sp # live_instances b, instances := instances b + 1\<rparr>) \<bind>
          (\<lambda>b. Some ((HS_OK, Some p), b))))))" for p b
  have undo: "after (Some p) c (create_undo e p sp b)" if "tags_kept c b" for c p b
    unfolding create_undo_def
  proof (intro after_bind after_SomeI)
    fix b1 b2 assume s: "abandon p b = Some b1" "instance_drop sp b1 = Some b2"
    note o = instance_drop_same [OF s(2)]
    show "tags_kept c (wake_owner e b2)" using kept_same [OF o abandon_kept [OF s(1) that]] by simp
    show "tag (wake_owner e b2) p = None" using abandon_frees [OF s(1)] o by (simp add: tag_def)
  qed
  have f: "after (Some p) b (f p b)" for p b
    unfolding f_def
    by (auto intro!: after_bind after_SomeI undo elim!: upd_op_kept kept_same dest!: ops_same split: if_splits simp del: of_nat_add)
  have "issued (Some cb) ud b (new_op kind sp (Some cb) ud (sys_alloc e 1) ?b0 \<bind> (\<lambda>(op, b). case op of
      None \<Rightarrow> Some ((HS_ERR_LIMIT, None), wake_owner e (b\<lparr>insts := (insts b)(sp := None)\<rparr>)) | Some p \<Rightarrow> f p b))"
    by (rule issued_bind [OF assms]) (auto simp: f intro!: after_SomeI tags_same split: option.splits)
  moreover have "create_rest kind json len cb ud e b = (if next_id b \<ge> INT_MAX - 1 then Some ((HS_ERR_LIMIT, None), b)
      else new_op kind sp (Some cb) ud (sys_alloc e 1) ?b0 \<bind> (\<lambda>(op, b). case op of
        None \<Rightarrow> Some ((HS_ERR_LIMIT, None), wake_owner e (b\<lparr>insts := (insts b)(sp := None)\<rparr>)) | Some p \<Rightarrow> f p b))"
    by (simp only: create_rest_def f_def Some option.case)
  ultimately show ?thesis by (simp add: issued_kept)
qed

definition resumed :: "nat option \<Rightarrow> nat \<Rightarrow> bridge \<Rightarrow> ((int \<times> ptr option) \<times> bridge) option option \<Rightarrow> bool" where
  "resumed cb ud b r \<longleftrightarrow> (case r of None \<Rightarrow> True | Some None \<Rightarrow> True | Some (Some x) \<Rightarrow> issued cb ud b (Some x))"

lemma start_runtime_same: "start_runtime rl e b = Some (ok, b') \<Longrightarrow> ops b' = ops b \<and> insts b' = insts b \<and> resps b' = resps b \<and> chunks b' = chunks b"
  by (auto simp: start_runtime_def Let_def split: if_splits)

lemma create_resume_issued:
  assumes "alloc_ok e b"
  shows "resumed (Some cb) ud b (create_resume rl kind json len cb ud e b)"
proof (cases "start_runtime rl e b")
  case (Some r)
  obtain ok b1 where r: "r = (ok, b1)" by (cases r)
  have same: "ops b1 = ops b" "alloc_ok e b1" using start_runtime_same [of rl e b ok b1] Some r assms by (auto simp: alloc_ok_def)
  have t: "tag b1 = tag b" using same by (simp add: tag_def fun_eq_iff)
  show ?thesis
    using Some r create_rest_issued [OF same(2), of cb ud kind json len] same(1) t
    by (cases ok) (auto simp: create_resume_def resumed_def issued_def tags_new_def split: option.splits)
qed (simp add: create_resume_def resumed_def)

lemma create_async_issued:
  assumes "alloc_ok e b"
  shows "resumed cb ud b (create_async rl kind json len cb ud out e b)"
proof (cases cb)
  case None
  then show ?thesis by (simp add: create_async_def resumed_def issued_kept)
next
  case (Some f)
  have "resumed (Some f) ud b (Some (Some ((rc, None), b)))" for rc by (simp add: resumed_def issued_kept)
  then show ?thesis using create_resume_issued [OF assms, of f ud rl kind json len] Some by (simp add: create_async_def)
qed

subsection \<open>All calls\<close>

lemma release_notice_tags:
  assumes "alloc_ok e b0" "ops b = ops b0" "release_notice e q r b = Some b'"
  shows "tags_new None 0 b0 b'"
proof -
  obtain s where s: "insts b (r_instance r) = Some s" using assms(3) by (cases "insts b (r_instance r)") (simp_all add: release_notice_def)
  show ?thesis
  proof (cases "s_closing s")
    case True
    then show ?thesis using assms(2,3) s by (auto simp: release_notice_def intro: tags_new_kept tags_same)
  next
    case False
    then obtain p b1 where n: "new_op 7 (r_instance r) None 0 (sys_alloc e 0) b = Some (p, b1)"
      using assms(3) s by (cases "new_op 7 (r_instance r) None 0 (sys_alloc e 0) b") (auto simp: release_notice_def)
    have "tags_kept b1 b'" using assms(3) s False n
      by (auto simp: release_notice_def bind_eq_Some_conv split: option.splits elim!: upd_op_kept kept_same dest!: ops_same)
    then have "issued None 0 b0 (Some ((0, p), b'))" by (rule issued_new [OF n assms(1,2)]) simp_all
    then show ?thesis by (simp add: issued_def)
  qed
qed

lemma response_release_tags:
  assumes "alloc_ok e b" "hs_response_release e q b = Some b'"
  shows "tags_new None 0 b b'"
proof (cases q)
  case None
  then show ?thesis using assms by (simp add: hs_response_release_def tags_new_kept)
next
  case (Some p)
  then obtain r b1 where r: "(if r_released r then Some b else upd_resp p (\<lambda>r. r\<lparr>r_released := True\<rparr>) b \<bind> release_notice e p r) = Some b1"
      "response_drop (Some p) b1 = Some b'"
    using assms(2) by (auto simp: hs_response_release_def bind_eq_Some_conv)
  have b1: "tags_new None 0 b b1" "response_drop (Some p) b1 = Some b'"
    using r release_notice_tags [OF assms(1) upd_resp_same]
    by (auto simp: bind_eq_Some_conv tags_new_kept split: if_splits)
  show ?thesis by (rule tags_new_trans [OF b1(1) tags_same [OF response_drop_same [OF b1(2)]]])
qed

lemma complete_tags:
  assumes "hs_bridge_complete e p code kind b = Some b'" and "ops b p = Some x"
  shows "tag b' q = None \<or> tag b' q = tag b q \<or> q = p \<and> tag b' p = Some (o_callback x, o_user_data x, True)"
proof (cases "o_done x")
  case True
  then show ?thesis using assms by (simp add: hs_bridge_complete_def)
next
  case False
  let ?f = "\<lambda>x. x\<lparr>o_done := True, o_event := (o_event x)\<lparr>ev_code := code, ev_kind := (if kind \<ge> 0 then kind else ev_kind (o_event x))\<rparr>\<rparr>"
  obtain b1 b2 b3 b4 b5 i where s: "upd_op p ?f b = Some b1"
      "complete_event p (o_event x) code b1 = Some b2" "complete_lifecycle p (o_instance x) (o_kind x) code b2 = Some b3"
      "complete_reading x b3 = Some b4" "upd_inst i (\<lambda>s. s\<lparr>s_active := s_active s - 1\<rparr>) b4 = Some b5" "notice e p b5 = Some b'"
    using assms False by (simp add: hs_bridge_complete_def bind_eq_Some_conv) blast
  have "tags_kept b1 b2" using s(2) by (auto simp: complete_event_def bind_eq_Some_conv elim!: upd_op_kept kept_same dest!: ops_same split: if_splits)
  also have "tags_kept b2 b3" using s(3)
    by (auto simp: complete_lifecycle_def bind_eq_Some_conv elim!: upd_op_kept kept_same dest!: ops_same split: if_splits)
  also have "tags_kept b3 b'" using s(4-6) by (auto intro!: tags_same dest!: ops_same)
  finally have k: "tag b' q = None \<or> tag b' q = tag b1 q" by (simp add: tags_kept_def)
  have "tag b1 q = (if q = p then Some (o_callback x, o_user_data x, True) else tag b q)"
    using s(1) assms(2) by (auto simp: upd_op_def tag_def)
  then show ?thesis using k by (cases "q = p") auto
qed

primrec call_tag :: "call \<Rightarrow> nat option \<times> nat" where
  "call_tag (CreateEngine rl j n cb ud out e) = (cb, ud)"
| "call_tag (StartServer rl j n cb ud out e) = (cb, ud)"
| "call_tag (ResumeCreate rl k j n cb ud e) = (Some cb, ud)"
| "call_tag (CloseAsync q cb ud out e) = (cb, ud)"
| "call_tag (ReleaseInstance rl q) = (None, 0)"
| "call_tag (ReleaseOperation rl p) = (None, 0)"
| "call_tag (CancelOperation p e) = (None, 0)"
| "call_tag (Submit q r cb ud out e) = (cb, ud)"
| "call_tag (ReadAsync q n cb ud out e) = (cb, ud)"
| "call_tag (ReleaseResponse q e) = (None, 0)"
| "call_tag (ReleaseChunk q e) = (None, 0)"
| "call_tag ReapClaim = (None, 0)"
| "call_tag ReapFinish = (None, 0)"
| "call_tag (Attach fd e) = (None, 0)"
| "call_tag Ack = (None, 0)"
| "call_tag Pop = (None, 0)"
| "call_tag Idle = (None, 0)"
| "call_tag (Limits p c k g r) = (None, 0)"
| "call_tag (BuildResponse p i st n c e) = (None, 0)"
| "call_tag (SetHeader p i k v e) = (None, 0)"
| "call_tag (BuildChunk p d e) = (None, 0)"
| "call_tag (Complete p code kind e) = (None, 0)"
| "call_tag OwnerExit = (None, 0)"
| "call_tag OwnerDrain = (None, 0)"
| "call_tag OwnerFinish = (None, 0)"
| "call_tag NotifyTake = (None, 0)"
| "call_tag (NotifyRetire e) = (None, 0)"
| "call_tag NotifyExit = (None, 0)"

lemma kept_from: "tags_kept c b \<Longrightarrow> ops c = ops a \<Longrightarrow> tags_kept a b"
  by (simp add: tags_kept_def tag_def)

lemma granted_tags: "issued cb ud b r \<Longrightarrow> granted W r = Some (W', b') \<Longrightarrow> tags_new cb ud b b'"
  by (auto simp: granted_def issued_def)

lemma waited_tags:
  assumes "resumed cb ud b r" "waited (W, b) (\<lambda>((rc, p), b). (grant p W, b)) r = Some (W', b')"
  shows "tags_new cb ud b b'"
  using assms by (auto simp: waited_def resumed_def issued_def tags_new_kept split: option.splits)

lemma run_tags:
  assumes l: "legal_on c W b" and r: "run_on c W b = Some (W', b')" and c: "completes c = []"
  shows "tags_new (fst (call_tag c)) (snd (call_tag c)) b b'"
proof (cases c)
  case (CreateEngine rl j n cb ud out e)
  then show ?thesis using waited_tags [OF create_async_issued] l r by (simp add: hs_engine_create_async_def)
next
  case (StartServer rl j n cb ud out e)
  then show ?thesis using waited_tags [OF create_async_issued] l r by (simp add: hs_server_start_async_def)
next
  case (ResumeCreate rl k j n cb ud e)
  then show ?thesis using waited_tags [OF create_resume_issued] l r by auto
next
  case (CloseAsync q cb ud out e)
  then show ?thesis using granted_tags [OF close_async_issued] l r by auto
next
  case (Submit q rq cb ud out e)
  then show ?thesis using granted_tags [OF submit_issued] l r by auto
next
  case (ReadAsync q n cb ud out e)
  then show ?thesis using granted_tags [OF read_async_issued] l r by auto
next
  case (ReleaseResponse q e)
  then show ?thesis using response_release_tags l r by auto
next
  case (ReleaseInstance rl q)
  then have "ops b' = ops b" using r
    by (auto simp: waited_def hs_engine_release_def bind_eq_Some_conv dest!: ops_same split: option.splits if_splits)
  then show ?thesis by (intro tags_new_kept tags_same)
next
  case (ReleaseOperation rl q)
  then have "tags_kept b b'" using r
    by (auto simp: waited_def hs_operation_release_def bind_eq_Some_conv dest!: op_drop_tags split: option.splits if_splits)
  then show ?thesis by (rule tags_new_kept)
next
  case (CancelOperation q e)
  then have "tags_kept b b'" using r
    by (auto simp: hs_operation_cancel_def bind_eq_Some_conv elim!: upd_op_kept split: option.splits if_splits)
  then show ?thesis by (rule tags_new_kept)
next
  case (ReleaseChunk q e)
  then have "ops b' = ops b" using r
    by (auto simp: hs_chunk_release_def release_chunk_response_def bind_eq_Some_conv dest!: ops_same split: option.splits)
  then show ?thesis by (intro tags_new_kept tags_same)
next
  case (NotifyRetire e)
  then have "tags_kept b b'" using r
    by (auto simp: notify_retire_def bind_eq_Some_conv split: list.splits dest!: op_drop_tags upd_inst_same elim!: kept_from)
  then show ?thesis by (rule tags_new_kept)
next
  case (BuildResponse p i st n k e)
  then have "tags_kept b b'" using r
    by (auto simp: hs_bridge_response_def Let_def bind_eq_Some_conv split: option.splits if_splits dest!: ops_same elim!: upd_op_kept kept_same)
  then show ?thesis by (rule tags_new_kept)
next
  case (BuildChunk p d e)
  then have "tags_kept b b'" using r
    by (auto simp: hs_bridge_chunk_def Let_def bind_eq_Some_conv split: option.splits if_splits dest!: ops_same elim!: upd_op_kept kept_same)
  then show ?thesis by (rule tags_new_kept)
next
  case (SetHeader p i k v e)
  then have "ops b' = ops b" using r
    by (auto simp: hs_bridge_set_header_def Let_def bind_eq_Some_conv split: option.splits if_splits dest!: ops_same)
  then show ?thesis by (intro tags_new_kept tags_same)
next
  case (Complete p code kind e)
  then show ?thesis using c by (simp add: completes_def)
qed (use r in \<open>auto intro!: tags_new_kept tags_same simp: hs_bridge_pop_def owner_drain_def notify_take_def notify_exit_def reap_claim_def
  reap_finish_def hs_bridge_attach_def hs_bridge_ack_def hs_bridge_idle_def hs_bridge_limits_def owner_exit_def owner_finish_def Let_def
  bind_eq_Some_conv split: option.splits if_splits prod.splits dest!: ops_same\<close>)

end
