(* ===== verification/Bridge_Sync.thy ===== *)
theory Bridge_Sync
  imports Bridge_Tags
begin

text \<open>
  The synchronous server calls of \<^verbatim>\<open>bridge.c\<close>: \<open>hs_server_start\<close>, \<open>hs_server_stop\<close> and
  \<open>hs_server_destroy\<close>. A calling thread submits the asynchronous operation with \<open>sync_callback\<close> and the address of
  a local \<open>hs_sync\<close> as user data, waits until the notifier thread has set \<open>done\<close> in it, and returns. The model
  adds to the state machine of the runtime the stack frames that hold an \<open>hs_sync\<close> and, for each call in progress,
  the point it has reached. A step of a call is one critical section; a callback that writes to a frame that is gone is
  \<open>None\<close>. The recursive call in \<open>hs_server_stop\<close> is a jump back to its start.
\<close>

record hs_sync =
  sy_done :: bool
  sy_event :: hs_event_t

text \<open>The address of the static function.\<close>

definition SYNC_CALLBACK :: nat where "SYNC_CALLBACK = 0"

text \<open>
  \<open>Starting\<close> (whether the limit checks have been passed, the text, its length), \<open>Stopping\<close> at the first test of
  \<open>closing\<close>, \<open>Draining\<close> in the wait for \<open>closed\<close>, \<open>Asking\<close> before the asynchronous stop, \<open>Pending\<close>
  (operation, server being stopped) in the wait for \<open>done\<close> and the release that follows, \<open>Releasing\<close> at the end of
  a destroy.
\<close>

datatype sync_pc =
    Starting bool "bytes option" nat
  | Stopping ptr
  | Draining ptr
  | Asking ptr
  | Pending "ptr option" "ptr option"
  | Releasing ptr

text \<open>
  \<open>calls\<close> lists the calls in progress by frame address, with the point reached and whether it is a destroy.
  \<open>told\<close> are the operations whose callback has run, \<open>returned\<close> what the calls have returned.
\<close>

record sync_sys =
  sw :: world
  sb :: bridge
  frames :: "nat \<rightharpoonup> hs_sync"
  calls :: "(nat \<times> sync_pc \<times> bool) list"
  told :: "ptr set"
  returned :: "(nat \<times> int \<times> ptr option) list"

definition new_sync :: hs_sync where
  "new_sync = \<lparr>sy_done = False, sy_event = no_event\<rparr>"

definition sync_callback :: "nat \<Rightarrow> hs_event_t \<Rightarrow> (nat \<rightharpoonup> hs_sync) \<Rightarrow> (nat \<rightharpoonup> hs_sync) option" where
  "sync_callback f ev fr = (case fr f of None \<Rightarrow> None | Some s \<Rightarrow> Some (fr(f \<mapsto> \<lparr>sy_done = True, sy_event = ev\<rparr>)))"

definition hs_server_stop_async where
  "hs_server_stop_async sp cb ud out e b = close_async sp cb ud out e b"

definition hs_server_release where
  "hs_server_release rl sp b = hs_engine_release rl sp b"

subsection \<open>Steps\<close>

definition goto :: "nat \<Rightarrow> sync_pc \<Rightarrow> bool \<Rightarrow> sync_sys \<Rightarrow> sync_sys" where
  "goto f pc d S = S\<lparr>calls := (f, pc, d) # filter (\<lambda>c. fst c \<noteq> f) (calls S)\<rparr>"

definition leave :: "nat \<Rightarrow> int \<Rightarrow> ptr option \<Rightarrow> sync_sys \<Rightarrow> sync_sys" where
  "leave f rc srv S = S\<lparr>frames := (frames S)(f := None), calls := filter (\<lambda>c. fst c \<noteq> f) (calls S), returned := returned S @ [(f, rc, srv)]\<rparr>"

definition with_bridge :: "world \<Rightarrow> bridge \<Rightarrow> sync_sys \<Rightarrow> sync_sys" where
  "with_bridge W b S = S\<lparr>sw := W, sb := b, told := told S \<inter> {p. ops b p \<noteq> None}\<rparr>"

definition hs_server_start :: "role \<Rightarrow> bool \<Rightarrow> bytes option \<Rightarrow> nat \<Rightarrow> nat \<Rightarrow> sync_sys \<Rightarrow> sync_sys" where
  "hs_server_start rl out j n f S =
     (if \<not> out then S\<lparr>returned := returned S @ [(f, HS_ERR_INVALID_ARG, None)]\<rparr>
      else if rl \<noteq> Host then S\<lparr>returned := returned S @ [(f, HS_ERR_BUSY, None)]\<rparr>
      else goto f (Starting False j n) False (S\<lparr>frames := (frames S)(f \<mapsto> new_sync)\<rparr>))"

text \<open>\<open>hs_server_stop\<close>, and with \<open>d\<close> the call of it in \<open>hs_server_destroy\<close>.\<close>

definition hs_server_stop :: "role \<Rightarrow> ptr option \<Rightarrow> bool \<Rightarrow> nat \<Rightarrow> sync_sys \<Rightarrow> sync_sys" where
  "hs_server_stop rl server d f S = (case server of
     None \<Rightarrow> S\<lparr>returned := returned S @ [(f, HS_ERR_INVALID_ARG, None)]\<rparr>
   | Some q \<Rightarrow>
       if rl \<noteq> Host then S\<lparr>returned := returned S @ [(f, HS_ERR_BUSY, None)]\<rparr>
       else goto f (Stopping q) d S)"

text \<open>\<open>hs_server_destroy\<close> releases the handle after a stop that returned 0.\<close>

definition stopped :: "nat \<Rightarrow> ptr \<Rightarrow> bool \<Rightarrow> int \<Rightarrow> sync_sys \<Rightarrow> sync_sys" where
  "stopped f q d rc S = (if d \<and> rc = 0 then goto f (Releasing q) d S else leave f rc None S)"

text \<open>What follows the asynchronous call.\<close>

definition sync_accepted :: "nat \<Rightarrow> ptr option \<Rightarrow> bool \<Rightarrow> (int \<times> ptr option) \<times> bridge \<Rightarrow> sync_sys \<Rightarrow> sync_sys" where
  "sync_accepted f server d r S = (case r of ((rc, p), b) \<Rightarrow>
     let S = with_bridge (grant p (sw S)) b S
     in if rc = HS_ERR_CLOSED then (case server of Some q \<Rightarrow> goto f (Stopping q) d S | None \<Rightarrow> leave f rc None S)
        else if rc \<noteq> 0 then leave f rc None S
        else goto f (Pending p server) d S)"

definition sync_done :: "nat \<Rightarrow> ptr option \<Rightarrow> ptr option \<Rightarrow> bool \<Rightarrow> sync_sys \<Rightarrow> sync_sys option" where
  "sync_done f p server d S = do {
     s \<leftarrow> frames S f;
     if \<not> sy_done s then Some S
     else do {
       r \<leftarrow> hs_operation_release Host p (sb S);
       Some (case r of
         None \<Rightarrow> S
       | Some b \<Rightarrow>
           let S = with_bridge ((sw S)\<lparr>h_op := drop_handle (h_op (sw S)) p\<rparr>) b S
           in case server of
                None \<Rightarrow> leave f (ev_code (sy_event s)) (ev_server (sy_event s)) S
              | Some q \<Rightarrow> stopped f q d (ev_code (sy_event s)) S)
     }
   }"

definition sync_advance :: "nat \<Rightarrow> sync_pc \<Rightarrow> bool \<Rightarrow> sys \<Rightarrow> sync_sys \<Rightarrow> sync_sys option" where
  "sync_advance f pc d e S = (case pc of
     Starting False j n \<Rightarrow> do {
       r \<leftarrow> hs_server_start_async Host j n (Some SYNC_CALLBACK) f True e (sb S);
       Some (case r of None \<Rightarrow> goto f (Starting True j n) d S | Some x \<Rightarrow> sync_accepted f None d x S)
     }
   | Starting True j n \<Rightarrow> do {
       r \<leftarrow> create_resume Host 2 j n SYNC_CALLBACK f e (sb S);
       Some (case r of None \<Rightarrow> S | Some x \<Rightarrow> sync_accepted f None d x S)
     }
   | Stopping q \<Rightarrow> do {
       s \<leftarrow> insts (sb S) q;
       Some (if s_closing s then goto f (Draining q) d S
             else goto f (Asking q) d (S\<lparr>frames := (frames S)(f \<mapsto> new_sync)\<rparr>))
     }
   | Draining q \<Rightarrow> do {
       s \<leftarrow> insts (sb S) q;
       Some (if s_closed s then stopped f q d 0 S else S)
     }
   | Asking q \<Rightarrow> do {
       r \<leftarrow> hs_server_stop_async (Some q) (Some SYNC_CALLBACK) f True e (sb S);
       Some (sync_accepted f (Some q) d r S)
     }
   | Pending p server \<Rightarrow> sync_done f p server d S
   | Releasing q \<Rightarrow> do {
       r \<leftarrow> hs_server_release Host (Some q) (sb S);
       Some (case r of None \<Rightarrow> S
         | Some b \<Rightarrow> leave f 0 None (with_bridge ((sw S)\<lparr>h_inst := drop_handle (h_inst (sw S)) (Some q)\<rparr>) b S))
     })"

text \<open>The notifier runs the callback of the operation it has taken, with the mutex released.\<close>

definition run_callback :: "sync_sys \<Rightarrow> sync_sys option" where
  "run_callback S = (case calling (sw S) of
     [] \<Rightarrow> None
   | p # _ \<Rightarrow> do {
       x \<leftarrow> ops (sb S) p;
       fr \<leftarrow> (if o_callback x = Some SYNC_CALLBACK then sync_callback (o_user_data x) (o_event x) (frames S) else Some (frames S));
       Some (S\<lparr>frames := fr, told := insert p (told S)\<rparr>)
     })"

datatype (plugins only: code size) sync_call =
    Other call
  | Callback
  | EnterStart role bool "bytes option" nat nat
  | EnterStop role "ptr option" bool nat
  | Advance nat sys

definition sync_run :: "sync_call \<Rightarrow> sync_sys \<Rightarrow> sync_sys option" where
  "sync_run c S = (case c of
     Other c \<Rightarrow> map_option (\<lambda>(W, b). with_bridge W b S) (run c (sw S, sb S))
   | Callback \<Rightarrow> run_callback S
   | EnterStart rl out j n f \<Rightarrow> Some (hs_server_start rl out j n f S)
   | EnterStop rl q d f \<Rightarrow> Some (hs_server_stop rl q d f S)
   | Advance f e \<Rightarrow> (case map_of (calls S) f of None \<Rightarrow> None | Some (pc, d) \<Rightarrow> sync_advance f pc d e S))"

subsection \<open>What the callers owe\<close>

text \<open>
  The host uses a server handle it owns for a stop, releases it only when no synchronous call uses it, and uses it for
  a destroy exclusively. An operation handle of a synchronous call is a local variable, so no other thread releases it,
  and no other thread passes \<open>sync_callback\<close>, which is static. The notifier retires an operation after its callback.
\<close>

fun uses :: "ptr \<Rightarrow> sync_pc \<Rightarrow> bool" where
  "uses q (Stopping q') = (q = q')"
| "uses q (Draining q') = (q = q')"
| "uses q (Asking q') = (q = q')"
| "uses q (Pending p q') = (q' = Some q)"
| "uses q (Releasing q') = (q = q')"
| "uses q (Starting r j n) = False"

fun holds :: "ptr \<Rightarrow> sync_pc \<Rightarrow> bool" where
  "holds p (Pending p' q) = (p' = Some p)"
| "holds p _ = False"

definition fresh_frame :: "nat \<Rightarrow> sync_sys \<Rightarrow> bool" where
  "fresh_frame f S = (f \<notin> fst ` set (calls S) \<and> frames S f = None)"

definition other_ok :: "call \<Rightarrow> sync_sys \<Rightarrow> bool" where
  "other_ok c S = (fst (call_tag c) \<noteq> Some SYNC_CALLBACK \<and> (case c of
     ReleaseOperation rl (Some p) \<Rightarrow> list_all (\<lambda>(f, pc, d). \<not> holds p pc) (calls S)
   | ReleaseInstance rl (Some q) \<Rightarrow> list_all (\<lambda>(f, pc, d). \<not> uses q pc) (calls S)
   | NotifyRetire e \<Rightarrow> set (calling (sw S)) \<subseteq> told S
   | _ \<Rightarrow> True))"

definition sync_legal :: "sync_call \<Rightarrow> sync_sys \<Rightarrow> bool" where
  "sync_legal c S = (case c of
     Other c \<Rightarrow> legal c (sw S, sb S) \<and> other_ok c S
   | Callback \<Rightarrow> calling (sw S) \<noteq> [] \<and> set (calling (sw S)) \<inter> told S = {}
   | EnterStart rl out j n f \<Rightarrow> fresh_frame f S
   | EnterStop rl server d f \<Rightarrow> fresh_frame f S \<and> (case server of None \<Rightarrow> True | Some q \<Rightarrow>
       0 < h_inst (sw S) q \<and> list_all (\<lambda>(f', pc, d'). uses q pc \<longrightarrow> \<not> d \<and> \<not> d') (calls S))
   | Advance f e \<Rightarrow> f \<in> fst ` set (calls S) \<and> alloc_ok e (sb S))"

end
