(* ===== verification/Bridge_Waits.thy ===== *)
theory Bridge_Waits
  imports Bridge_Sync
begin

text \<open>
  The invariant of the synchronous calls: an operation with the static callback belongs to a call that waits for it, a call
  that waits has its operation and its frame, and the callbacks that have run are those of the completed operations the
  notifier is done with. The steps of the other threads and the callback itself keep it.
\<close>

subsection \<open>Invariant\<close>

abbreviation call_at :: "sync_sys \<Rightarrow> nat \<Rightarrow> (sync_pc \<times> bool) option" where
  "call_at S \<equiv> map_of (calls S)"

text \<open>An operation with the static callback that has not run belongs to a call that waits for it.\<close>

definition awaited_ok :: "sync_sys \<Rightarrow> bool" where
  "awaited_ok S \<longleftrightarrow> (\<forall>p f d. tag (sb S) p = Some (Some SYNC_CALLBACK, f, d) \<longrightarrow> p \<notin> told S \<longrightarrow>
     (\<exists>q d s. call_at S f = Some (Pending (Some p) q, d) \<and> frames S f = Some s \<and> \<not> sy_done s))"

fun pc_ok :: "sync_sys \<Rightarrow> nat \<Rightarrow> sync_pc \<Rightarrow> bool" where
  "pc_ok S f (Starting r j n) = (\<exists>s. frames S f = Some s \<and> \<not> sy_done s)"
| "pc_ok S f (Stopping q) = True"
| "pc_ok S f (Draining q) = True"
| "pc_ok S f (Asking q) = (\<exists>s. frames S f = Some s \<and> \<not> sy_done s)"
| "pc_ok S f (Pending op q) = (case op of None \<Rightarrow> False | Some p \<Rightarrow> 0 < h_op (sw S) p \<and> (case frames S f of None \<Rightarrow> False | Some s \<Rightarrow>
     if sy_done s then p \<in> told S else p \<notin> told S \<and> (\<exists>d. tag (sb S) p = Some (Some SYNC_CALLBACK, f, d))))"
| "pc_ok S f (Releasing q) = True"

definition calls_ok :: "sync_sys \<Rightarrow> bool" where
  "calls_ok S \<longleftrightarrow> distinct (map fst (calls S)) \<and>
     (\<forall>f pc d. call_at S f = Some (pc, d) \<longrightarrow> pc_ok S f pc \<and> (\<forall>q. uses q pc \<longrightarrow> 0 < h_inst (sw S) q)) \<and>
     (\<forall>f f' pc pc' d d' p. call_at S f = Some (pc, d) \<longrightarrow> call_at S f' = Some (pc', d') \<longrightarrow> holds p pc \<longrightarrow> holds p pc' \<longrightarrow> f = f') \<and>
     (\<forall>f f' pc pc' d d' q. call_at S f = Some (pc, d) \<longrightarrow> call_at S f' = Some (pc', d') \<longrightarrow> uses q pc \<longrightarrow> uses q pc' \<longrightarrow> d \<longrightarrow> f = f')"

text \<open>A callback has run exactly for the completed operations that are neither waiting for the notifier nor in its hands.\<close>

definition told_ok :: "sync_sys \<Rightarrow> bool" where
  "told_ok S \<longleftrightarrow> (\<forall>p\<in>told S. \<exists>cb ud. tag (sb S) p = Some (cb, ud, True)) \<and> told S \<inter> set (waiting (sw S)) = {} \<and>
     (\<forall>p cb ud. tag (sb S) p = Some (cb, ud, True) \<longrightarrow> p \<notin> told S \<longrightarrow> p \<in> set (waiting (sw S)) \<union> set (calling (sw S)))"

definition sync_inv :: "sync_sys \<Rightarrow> bool" where
  "sync_inv S \<longleftrightarrow> bridge_inv (sw S) (sb S) \<and> awaited_ok S \<and> calls_ok S \<and> told_ok S"

lemma calls_okD:
  assumes "calls_ok S" "call_at S f = Some (pc, d)"
  shows "pc_ok S f pc" "\<And>q. uses q pc \<Longrightarrow> 0 < h_inst (sw S) q"
    "\<And>f' pc' d' p. call_at S f' = Some (pc', d') \<Longrightarrow> holds p pc \<Longrightarrow> holds p pc' \<Longrightarrow> f = f'"
    "\<And>f' pc' d' q. call_at S f' = Some (pc', d') \<Longrightarrow> uses q pc \<Longrightarrow> uses q pc' \<Longrightarrow> d \<Longrightarrow> f = f'"
  using assms unfolding calls_ok_def by blast+

lemma calls_ok_upd:
  assumes k: "calls_ok S" and c: "calls S' = calls S" and h: "h_inst (sw S') = h_inst (sw S)"
    and ok: "\<And>f pc d. call_at S f = Some (pc, d) \<Longrightarrow> pc_ok S' f pc"
  shows "calls_ok S'"
proof -
  have "\<forall>f pc d. call_at S f = Some (pc, d) \<longrightarrow> pc_ok S' f pc \<and> (\<forall>q. uses q pc \<longrightarrow> 0 < h_inst (sw S) q)"
    using ok calls_okD(2) [OF k] by blast
  then show ?thesis using k unfolding calls_ok_def c h by (elim conjE) (intro conjI; assumption)
qed

lemma call_at_goto [simp]: "call_at (goto f pc d S) = (call_at S)(f \<mapsto> (pc, d))"
proof -
  have "map_of (filter (\<lambda>c. fst c \<noteq> f) l) = (map_of l)(f := None)" for l :: "(nat \<times> sync_pc \<times> bool) list"
    by (induction l) auto
  then show ?thesis by (simp add: goto_def)
qed

lemma call_at_leave [simp]: "call_at (leave f rc srv S) = (call_at S)(f := None)"
proof -
  have "map_of (filter (\<lambda>c. fst c \<noteq> f) l) = (map_of l)(f := None)" for l :: "(nat \<times> sync_pc \<times> bool) list"
    by (induction l) auto
  then show ?thesis by (simp add: leave_def)
qed

lemma sync_fields [simp]:
  "sw (goto f pc d S) = sw S" "sb (goto f pc d S) = sb S" "frames (goto f pc d S) = frames S" "told (goto f pc d S) = told S"
  "sw (leave f rc srv S) = sw S" "sb (leave f rc srv S) = sb S" "frames (leave f rc srv S) = (frames S)(f := None)"
  "told (leave f rc srv S) = told S" "sw (with_bridge W b S) = W" "sb (with_bridge W b S) = b" "frames (with_bridge W b S) = frames S"
  "calls (with_bridge W b S) = calls S" "told (with_bridge W b S) = told S \<inter> {p. ops b p \<noteq> None}"
  by (simp_all add: goto_def leave_def with_bridge_def)

lemma distinct_filter_fst: "distinct (map fst l) \<Longrightarrow> distinct (map fst (filter P l))"
  by (induction l) auto

lemma calls_distinct:
  "distinct (map fst (calls S)) \<Longrightarrow> distinct (map fst (calls (goto f pc d S)))"
  "distinct (map fst (calls S)) \<Longrightarrow> distinct (map fst (calls (leave f rc srv S)))"
  by (auto simp: goto_def leave_def distinct_filter_fst)

subsection \<open>Steps of the other threads\<close>

definition tag_step :: "(nat option \<Rightarrow> nat \<Rightarrow> bool) \<Rightarrow> bridge \<Rightarrow> bridge \<Rightarrow> bool" where
  "tag_step X b b' \<longleftrightarrow> (\<forall>p cb ud d'. tag b' p = Some (cb, ud, d') \<longrightarrow>
     (\<exists>d. tag b p = Some (cb, ud, d)) \<or> tag b p = None \<and> \<not> d' \<and> X cb ud)"

lemma tag_step_new: "tags_new cb ud b b' \<Longrightarrow> X cb ud \<Longrightarrow> tag_step X b b'"
  unfolding tag_step_def
proof (intro allI impI)
  fix p c u d' assume n: "tags_new cb ud b b'" "X cb ud" "tag b' p = Some (c, u, d')"
  consider "tag b' p = tag b p" | "tag b p = None" "tag b' p = Some (cb, ud, False)"
    using n(1,3) unfolding tags_new_def by (metis option.distinct(1))
  then show "(\<exists>d. tag b p = Some (c, u, d)) \<or> tag b p = None \<and> \<not> d' \<and> X c u" using n by cases auto
qed

lemma tag_alloc: "tag b p = None \<longleftrightarrow> ops b p = None"
  by (simp add: tag_def)

lemma bridge_held_op: "bridge_inv W b \<Longrightarrow> 0 < h_op W p \<Longrightarrow> tag b p \<noteq> None"
  by (auto simp: tag_alloc elim!: bridge_invE dest: host_op_alloc)

lemma tag_kept_held:
  assumes "tag_step X b b'" "bridge_inv W' b'" "0 < h_op W' p" "tag b p = Some (cb, ud, d)"
  shows "\<exists>d'. tag b' p = Some (cb, ud, d')"
proof -
  obtain cb' ud' d' where t: "tag b' p = Some (cb', ud', d')" using bridge_held_op [OF assms(2,3)] by (cases "tag b' p") auto
  then show ?thesis using assms(1,4) unfolding tag_step_def by (metis option.distinct(1) option.inject prod.inject)
qed

lemma pc_ok_bridge:
  assumes ok: "pc_ok S f pc" and T: "tag_step X (sb S) b'" and i: "bridge_inv W' b'"
    and h: "\<And>p. holds p pc \<Longrightarrow> h_op (sw S) p \<le> h_op W' p"
  shows "pc_ok (with_bridge W' b' S) f pc"
proof (cases pc)
  case (Pending op q)
  then obtain p s where p: "op = Some p" "0 < h_op (sw S) p" "frames S f = Some s"
      "if sy_done s then p \<in> told S else p \<notin> told S \<and> (\<exists>d. tag (sb S) p = Some (Some SYNC_CALLBACK, f, d))"
    using ok by (auto split: option.splits)
  have "0 < h_op W' p" using h [of p] p Pending by simp
  then have "ops b' p \<noteq> None" "\<exists>d'. tag b' p = Some (Some SYNC_CALLBACK, f, d')" if "\<not> sy_done s"
    using tag_kept_held [OF T i] p(4) that bridge_held_op [OF i, of p] by (auto simp: tag_alloc)
  moreover have "ops b' p \<noteq> None" using \<open>0 < h_op W' p\<close> bridge_held_op [OF i] by (simp add: tag_alloc)
  ultimately show ?thesis using p Pending \<open>0 < h_op W' p\<close> by auto
qed (use ok in auto)

lemma awaited_bridge:
  assumes "awaited_ok S" "tag_step (\<lambda>cb ud. cb \<noteq> Some SYNC_CALLBACK) (sb S) b'"
  shows "awaited_ok (with_bridge W' b' S)"
  unfolding awaited_ok_def
proof (intro allI impI)
  fix p f d assume t: "tag (sb (with_bridge W' b' S)) p = Some (Some SYNC_CALLBACK, f, d)" "p \<notin> told (with_bridge W' b' S)"
  have "p \<notin> told S" using t by (auto simp: tag_def)
  moreover obtain d0 where "tag (sb S) p = Some (Some SYNC_CALLBACK, f, d0)" using t(1) assms(2) unfolding tag_step_def sync_fields by blast
  ultimately show "\<exists>q d s. call_at (with_bridge W' b' S) f = Some (Pending (Some p) q, d) \<and> frames (with_bridge W' b' S) f = Some s \<and> \<not> sy_done s"
    using assms(1) unfolding awaited_ok_def sync_fields by blast
qed

lemma env_inv:
  assumes inv: "sync_inv S" and i: "bridge_inv W' b'" and T: "tag_step (\<lambda>cb ud. cb \<noteq> Some SYNC_CALLBACK) (sb S) b'"
    and hop: "\<And>f pc d p. call_at S f = Some (pc, d) \<Longrightarrow> holds p pc \<Longrightarrow> h_op (sw S) p \<le> h_op W' p"
    and hin: "\<And>f pc d q. call_at S f = Some (pc, d) \<Longrightarrow> uses q pc \<Longrightarrow> h_inst (sw S) q \<le> h_inst W' q"
    and tk: "told_ok (with_bridge W' b' S)"
  shows "sync_inv (with_bridge W' b' S)"
proof -
  have c: "calls_ok S" using inv by (simp add: sync_inv_def)
  have "pc_ok (with_bridge W' b' S) f pc \<and> (\<forall>q. uses q pc \<longrightarrow> 0 < h_inst W' q)" if a: "call_at S f = Some (pc, d)" for f pc d
  proof -
    have "pc_ok S f pc" "\<And>q. uses q pc \<Longrightarrow> 0 < h_inst (sw S) q" using c a unfolding calls_ok_def by blast+
    then show ?thesis using pc_ok_bridge [OF _ T i hop [OF a]] hin [OF a] by (meson order_less_le_trans)
  qed
  then have "calls_ok (with_bridge W' b' S)" using c unfolding calls_ok_def sync_fields by blast
  then show ?thesis using inv i tk awaited_bridge [OF _ T] by (simp add: sync_inv_def)
qed

lemma grant_fields [simp]:
  "calling (grant p W) = calling W" "h_inst (grant p W) = h_inst W" "h_op (grant p W) q = h_op W q + (if p = Some q then 1 else 0)"
  "calling (hold p W) = calling W" "h_inst (hold p W) = h_inst W" "h_op (hold p W) = h_op W"
  "h_inst (call_world p W) = h_inst W" "h_op (call_world p W) = h_op W"
  by (simp_all add: grant_def hold_def call_world_def split: option.splits)

lemma granted_world: "granted W r = Some (W', b') \<Longrightarrow> \<exists>p. W' = grant p W"
  by (auto simp: granted_def)

lemma run_calling:
  assumes "run_on c W b = Some (W', b')" "c \<noteq> NotifyTake" "\<And>e. c \<noteq> NotifyRetire e"
  shows "calling W' = calling W"
proof (cases c)
  case (SetHeader p i k v e)
  then show ?thesis using assms(1) by (simp split: option.splits)
next
  case (Complete p code kind e)
  then show ?thesis using assms(1) by (auto simp: done_world_def split: option.splits)
qed (use assms in \<open>auto dest!: waited_Some granted_world\<close>)

lemma run_handles:
  assumes "run_on c W b = Some (W', b')"
  shows "h_op W p \<le> h_op W' p \<or> (\<exists>rl. c = ReleaseOperation rl (Some p))"
    and "h_inst W p \<le> h_inst W' p \<or> (\<exists>rl. c = ReleaseInstance rl (Some p))"
proof -
  have "(h_op W p \<le> h_op W' p \<or> (\<exists>rl. c = ReleaseOperation rl (Some p))) \<and> (h_inst W p \<le> h_inst W' p \<or> (\<exists>rl. c = ReleaseInstance rl (Some p)))"
  proof (cases c)
    case (SetHeader p i k v e)
    then show ?thesis using assms(1) by (simp split: option.splits)
  next
    case (Complete p code kind e)
    then show ?thesis using assms(1) by (auto simp: done_world_def bump_def split: option.splits)
  next
    case (NotifyRetire e)
    then show ?thesis using assms(1) by (auto split: list.splits)
  qed (use assms in \<open>auto simp: drop_handle_def dest!: waited_Some granted_world\<close>)
  then show "h_op W p \<le> h_op W' p \<or> (\<exists>rl. c = ReleaseOperation rl (Some p))"
    "h_inst W p \<le> h_inst W' p \<or> (\<exists>rl. c = ReleaseInstance rl (Some p))" by simp_all
qed

lemma told_same:
  assumes "told_ok S" "tags_new cb ud (sb S) b'" "waiting W' = waiting (sw S)" "set (calling (sw S)) - told S \<subseteq> set (calling W')"
  shows "told_ok (with_bridge W' b' S)"
proof -
  have kept: "tag b' p = tag (sb S) p" if "tag b' p = Some (c, u, True) \<or> tag b' p \<noteq> None \<and> p \<in> told S" for p c u
    using that assms(1,2) unfolding tags_new_def told_ok_def by (metis option.distinct(1) option.inject prod.inject)
  have "\<exists>cb ud. tag b' p = Some (cb, ud, True)" if "p \<in> told S" "ops b' p \<noteq> None" for p
    using kept [of p] that assms(1) unfolding told_ok_def by (metis tag_alloc)
  moreover have "p \<in> set (waiting W') \<union> set (calling W')" if t: "tag b' p = Some (c, u, True)" "p \<notin> told S \<inter> {p. ops b' p \<noteq> None}" for p c u
  proof -
    have "p \<notin> told S" using t by (auto simp: tag_def)
    moreover have "tag (sb S) p = Some (c, u, True)" using kept [of p c u] t(1) by simp
    ultimately have "p \<in> set (waiting (sw S)) \<union> set (calling (sw S))" using assms(1) unfolding told_ok_def by blast
    then show ?thesis using assms(3,4) \<open>p \<notin> told S\<close> by auto
  qed
  moreover have "told S \<inter> set (waiting W') = {}" using assms(1,3) by (simp add: told_ok_def)
  ultimately show ?thesis unfolding told_ok_def sync_fields by (intro conjI) blast+
qed

lemma listed:
  assumes "map_of l f = Some (pc, d)" "list_all (\<lambda>(f, pc, d). P f pc d) l"
  shows "P f pc d"
  using bspec [OF assms(2) [unfolded list_all_iff] map_of_SomeD [OF assms(1)]] by simp

lemma other_handles:
  assumes ok: "other_ok c S" and r: "run_on c (sw S) (sb S) = Some (W', b')" and a: "call_at S f = Some (pc, d)"
  shows "holds p pc \<Longrightarrow> h_op (sw S) p \<le> h_op W' p" and "uses q pc \<Longrightarrow> h_inst (sw S) q \<le> h_inst W' q"
proof -
  show "h_op (sw S) p \<le> h_op W' p" if h: "holds p pc"
  proof (rule ccontr)
    assume n: "\<not> ?thesis"
    then obtain rl where "c = ReleaseOperation rl (Some p)" using run_handles(1) [OF r, of p] by blast
    then have "list_all (\<lambda>(f, pc, d). \<not> holds p pc) (calls S)" using ok by (simp add: other_ok_def)
    then show False using listed [OF a] h by fastforce
  qed
  show "h_inst (sw S) q \<le> h_inst W' q" if h: "uses q pc"
  proof (rule ccontr)
    assume n: "\<not> ?thesis"
    then obtain rl where "c = ReleaseInstance rl (Some q)" using run_handles(2) [OF r, of q] by blast
    then have "list_all (\<lambda>(f, pc, d). \<not> uses q pc) (calls S)" using ok by (simp add: other_ok_def)
    then show False using listed [OF a] h by fastforce
  qed
qed

lemma complete_told:
  assumes t: "told_ok S" and r: "hs_bridge_complete e p code kind (sb S) = Some b'" and x: "ops (sb S) p = Some x" "\<not> o_done x"
    and W: "waiting W' = waiting (sw S) @ [p]" "calling W' = calling (sw S)"
  shows "told_ok (with_bridge W' b' S)"
proof -
  note tags = complete_tags [OF r x(1)]
  have p: "p \<notin> told S" using t x by (auto simp: told_ok_def tag_def)
  have told: "\<exists>cb ud. tag b' q = Some (cb, ud, True)" if "q \<in> told S" "ops b' q \<noteq> None" for q
    using tags [of q] that p t unfolding told_ok_def by (metis tag_alloc)
  have rest: "q \<in> set (waiting W') \<union> set (calling W')" if q: "tag b' q = Some (c, u, True)" "q \<notin> told S \<inter> {p. ops b' p \<noteq> None}" for q c u
  proof (cases "q = p")
    case False
    then have "tag (sb S) q = Some (c, u, True)" using tags [of q] q by auto
    moreover have "q \<notin> told S" using q by (auto simp: tag_def)
    ultimately show ?thesis using t W unfolding told_ok_def by auto
  qed (simp add: W)
  have "told S \<inter> set (waiting W') = {}" using t W p by (auto simp: told_ok_def)
  then show ?thesis using told rest unfolding told_ok_def sync_fields by (intro conjI) blast+
qed

lemma complete_step: "hs_bridge_complete e p code kind b = Some b' \<Longrightarrow> ops b p = Some x \<Longrightarrow> tag_step X b b'"
  unfolding tag_step_def
proof (intro allI impI)
  fix q cb ud d' assume a: "hs_bridge_complete e p code kind b = Some b'" "ops b p = Some x" "tag b' q = Some (cb, ud, d')"
  have "tag b p = Some (o_callback x, o_user_data x, o_done x)" using a(2) by (simp add: tag_def)
  then show "(\<exists>d. tag b q = Some (cb, ud, d)) \<or> tag b q = None \<and> \<not> d' \<and> X cb ud"
    using complete_tags [OF a(1,2), of q] a(3) by (elim disjE conjE) simp_all
qed

lemma held_undone: "bridge_inv W b \<Longrightarrow> p \<in> set (held W) \<Longrightarrow> \<exists>x. ops b p = Some x \<and> \<not> o_done x"
proof (erule bridge_invE)
  fix cs ns assume i: "inv_with W cs ns b" and p: "p \<in> set (held W)"
  then obtain x where "ops b p = Some x" using inv_pipeline_alloc [OF i, of p] by (auto simp: pipeline_def)
  moreover have "op_ok W cs b p x" using inv_shape [OF i] calculation unfolding shape_def by blast
  ultimately show ?thesis using p by (auto simp: op_ok_def)
qed

lemma other_told:
  assumes inv: "sync_inv S" and l: "legal_on c (sw S) (sb S)" and ok: "other_ok c S" and r: "run_on c (sw S) (sb S) = Some (W', b')"
  shows "told_ok (with_bridge W' b' S) \<and> tag_step (\<lambda>cb ud. cb \<noteq> Some SYNC_CALLBACK) (sb S) b'"
proof -
  have b: "bridge_inv (sw S) (sb S)" and t: "told_ok S" using inv by (simp_all add: sync_inv_def)
  show ?thesis
  proof (cases "\<exists>p code kind e. c = Complete p code kind e")
    case True
    then obtain p code kind e where c: "c = Complete p code kind e" by blast
    then obtain x where x: "ops (sb S) p = Some x" "\<not> o_done x" using held_undone [OF b] l by auto
    then have "hs_bridge_complete e p code kind (sb S) = Some b'" "W' = done_world p x code (sw S)" using r c by auto
    then show ?thesis using complete_told [OF t _ x, of e code kind b' W'] complete_step x(1) by (simp add: done_world_def)
  next
    case False
    then have e: "completes c = []" by (cases c) (simp_all add: completes_def)
    note tn = run_tags [OF l r e]
    have "tag_step (\<lambda>cb ud. cb \<noteq> Some SYNC_CALLBACK) (sb S) b'" using tag_step_new [OF tn] ok by (simp add: other_ok_def)
    moreover have "told_ok (with_bridge W' b' S)"
    proof (cases "c = NotifyTake")
      case True
      then obtain p b1 where n: "notify_take (sb S) = Some (p, b1)"
          "case p of None \<Rightarrow> waiting (sw S) = [] | Some q \<Rightarrow> \<exists>rest. waiting (sw S) = q # rest"
        using notify_take_inv [OF b] l by auto
      have o: "ops b1 = ops (sb S)" using n(1) by (auto simp: notify_take_def split: option.splits if_splits)
      have W': "W' = call_world p (sw S)" "b' = b1" using r True n(1) by simp_all
      have tags: "tag b' = tag (sb S)" "told S \<inter> {p. ops b' p \<noteq> None} = told S"
        using o W'(2) t by (auto simp: tag_def fun_eq_iff told_ok_def)
      show ?thesis using t n(2) l True tags by (cases p) (auto simp: told_ok_def W'(1) call_world_def, blast)
    next
      case nt: False
      then have w: "waiting W' = waiting (sw S)" using run_waiting [of c "sw S" "sb S" W' b'] r e by simp
      have "set (calling (sw S)) - told S \<subseteq> set (calling W')"
      proof (cases "\<exists>e. c = NotifyRetire e")
        case True
        then show ?thesis using ok by (auto simp: other_ok_def)
      next
        case False
        then show ?thesis using run_calling [OF r nt] by auto
      qed
      then show ?thesis by (rule told_same [OF t tn w])
    qed
    ultimately show ?thesis by simp
  qed
qed

lemma other_inv:
  assumes inv: "sync_inv S" and l: "sync_legal (Other c) S"
  shows "\<exists>S'. sync_run (Other c) S = Some S' \<and> sync_inv S'"
proof -
  have l': "legal_on c (sw S) (sb S)" "other_ok c S" and b: "bridge_inv (sw S) (sb S)"
    using l inv by (simp_all add: sync_legal_def sync_inv_def)
  obtain W' b' where r: "run_on c (sw S) (sb S) = Some (W', b')" "bridge_inv W' b'"
    using call_safe [OF b, of c] l' by (auto simp: safe_def)
  have "sync_inv (with_bridge W' b' S)"
    by (rule env_inv [OF inv r(2)]) (use other_told [OF inv l' r(1)] other_handles [OF l'(2) r(1)] in blast)+
  then show ?thesis using r by (simp add: sync_run_def)
qed

subsection \<open>The callback\<close>

lemma awaitedD:
  assumes "awaited_ok S" "tag (sb S) p = Some (Some SYNC_CALLBACK, f, d)" "p \<notin> told S"
  shows "\<exists>q d s. call_at S f = Some (Pending (Some p) q, d) \<and> frames S f = Some s \<and> \<not> sy_done s"
  using assms unfolding awaited_ok_def by blast

lemma calling_done:
  assumes "bridge_inv W b" "p \<in> set (calling W)"
  shows "\<exists>x. ops b p = Some x \<and> o_done x \<and> p \<notin> set (waiting W)"
proof -
  obtain cs ns where m: "making W = []" "waiting W = ns" and i: "inv_with W cs ns b" using assms(1) by (rule bridge_invE)
  then obtain x where x: "ops b p = Some x" using inv_pipeline_alloc [OF i, of p] assms(2) by (auto simp: pipeline_def)
  have sh: "distinct (pipeline W cs ns)" "op_ok W cs b p x" using inv_shape [OF i] x unfolding shape_def by blast+
  then show ?thesis using x m assms(2) by (auto simp: pipeline_def op_ok_def)
qed

lemma callback_inv:
  assumes inv: "sync_inv S" and l: "sync_legal Callback S"
  shows "\<exists>S'. sync_run Callback S = Some S' \<and> sync_inv S'"
proof -
  have b: "bridge_inv (sw S) (sb S)" and aw: "awaited_ok S" and c: "calls_ok S" and t: "told_ok S"
    using inv by (simp_all add: sync_inv_def)
  obtain p rest where p: "calling (sw S) = p # rest" "p \<notin> told S" using l by (auto simp: sync_legal_def neq_Nil_conv)
  obtain x where x: "ops (sb S) p = Some x" "o_done x" "p \<notin> set (waiting (sw S))" using calling_done [OF b, of p] p by auto
  have tag: "tag (sb S) p = Some (o_callback x, o_user_data x, True)" using x by (simp add: tag_def)
  define f where "f = o_user_data x"
  define fr where "fr = (if o_callback x = Some SYNC_CALLBACK then (frames S)(f \<mapsto> \<lparr>sy_done = True, sy_event = o_event x\<rparr>) else frames S)"
  define S' where "S' = S\<lparr>frames := fr, told := insert p (told S)\<rparr>"
  have mine: "\<exists>q d s. call_at S f = Some (Pending (Some p) q, d) \<and> frames S f = Some s \<and> \<not> sy_done s" if "o_callback x = Some SYNC_CALLBACK"
    using awaitedD [OF aw, of p f True] tag p(2) that by (simp add: f_def)
  have run: "sync_run Callback S = Some S'"
    using p x mine by (auto simp: sync_run_def run_callback_def sync_callback_def S'_def fr_def f_def)
  have same: "sw S' = sw S" "sb S' = sb S" "calls S' = calls S" "told S' = insert p (told S)" "frames S' = fr" by (simp_all add: S'_def)
  have other: "g \<noteq> f" if "call_at S g = Some (Pending (Some p') q, d)" "p' \<noteq> p" "o_callback x = Some SYNC_CALLBACK" for g p' q d
    using mine that by auto
  have "awaited_ok S'"
    unfolding awaited_ok_def same
  proof (intro allI impI)
    fix p' g d assume a: "tag (sb S) p' = Some (Some SYNC_CALLBACK, g, d)" "p' \<notin> insert p (told S)"
    then obtain q d s where w: "call_at S g = Some (Pending (Some p') q, d)" "frames S g = Some s" "\<not> sy_done s"
      using aw unfolding awaited_ok_def by blast
    then show "\<exists>q d s. call_at S g = Some (Pending (Some p') q, d) \<and> fr g = Some s \<and> \<not> sy_done s"
      using other [OF w(1)] a(2) by (auto simp: fr_def)
  qed
  moreover have "pc_ok S' g pc" if a: "call_at S g = Some (pc, d)" for g pc d
  proof -
    have ok: "pc_ok S g pc" using c a unfolding calls_ok_def by blast
    show ?thesis
    proof (cases "o_callback x = Some SYNC_CALLBACK \<and> g = f")
      case True
      then obtain q d' where "call_at S g = Some (Pending (Some p) q, d')" using mine by blast
      then have "pc = Pending (Some p) q" using a by simp
      then show ?thesis using ok True by (auto simp: same fr_def)
    next
      case False
      then have "fr g = frames S g" by (simp add: fr_def)
      moreover have "tag (sb S) p \<noteq> Some (Some SYNC_CALLBACK, g, d)" for d using tag False by (auto simp: f_def)
      ultimately show ?thesis using ok by (cases pc) (auto simp: same split: option.splits)
    qed
  qed
  then have "calls_ok S'" by (intro calls_ok_upd [OF c same(3)]) (simp_all only: same)
  moreover have "told_ok S'" using t tag x(3) unfolding told_ok_def same by auto
  ultimately show ?thesis using run b by (simp add: sync_inv_def same)
qed

end
