(* ===== verification/Bridge_Sync_Props.thy ===== *)
theory Bridge_Sync_Props
  imports Bridge_Waits Bridge_Props
begin

text \<open>Every step of a synchronous call keeps the invariant, and what follows for executions.\<close>

subsection \<open>Steps of a synchronous call\<close>

text \<open>The call at \<open>f\<close> is not waiting for a callback.\<close>

definition not_waiting :: "nat \<Rightarrow> sync_sys \<Rightarrow> bool" where
  "not_waiting f S \<longleftrightarrow> (\<forall>p q d. call_at S f = Some (Pending (Some p) q, d) \<longrightarrow> (\<exists>s. frames S f = Some s \<and> sy_done s))"

text \<open>What the point \<open>pc\<close> needs of the other calls: no shared server when one of them is a destroy.\<close>

definition exclusive :: "nat \<Rightarrow> sync_pc \<Rightarrow> bool \<Rightarrow> sync_sys \<Rightarrow> bool" where
  "exclusive f pc d S \<longleftrightarrow> (\<forall>f' pc' d' q. f' \<noteq> f \<longrightarrow> call_at S f' = Some (pc', d') \<longrightarrow> uses q pc \<longrightarrow> uses q pc' \<longrightarrow> \<not> d \<and> \<not> d')"

lemma exclusive_same:
  assumes "calls_ok S" "call_at S f = Some (pc, d)" "\<And>q. uses q pc' \<Longrightarrow> uses q pc"
  shows "exclusive f pc' d S"
  unfolding exclusive_def
proof (intro allI impI)
  fix f' p d' q assume a: "f' \<noteq> f" "call_at S f' = Some (p, d')" "uses q pc'" "uses q p"
  then show "\<not> d \<and> \<not> d'" using calls_okD(4) [OF assms(1,2) a(2) assms(3) [OF a(3)] a(4)] calls_okD(4) [OF assms(1) a(2) assms(2) a(4) assms(3) [OF a(3)]] by blast
qed

lemma calls_put:
  assumes k: "calls_ok S" and c: "call_at S' = (call_at S)(f := v)" "distinct (map fst (calls S'))"
    and h: "\<And>q. 0 < h_inst (sw S) q \<Longrightarrow> 0 < h_inst (sw S') q"
    and others: "\<And>g pc d. call_at S g = Some (pc, d) \<Longrightarrow> g \<noteq> f \<Longrightarrow> pc_ok S' g pc"
    and v: "\<And>pc d. v = Some (pc, d) \<Longrightarrow> pc_ok S' f pc \<and> (\<forall>q. uses q pc \<longrightarrow> 0 < h_inst (sw S) q) \<and> exclusive f pc d S \<and>
      (\<forall>p g pc' d'. g \<noteq> f \<longrightarrow> call_at S g = Some (pc', d') \<longrightarrow> holds p pc \<longrightarrow> \<not> holds p pc')"
  shows "calls_ok S'"
proof -
  have at: "g \<noteq> f \<Longrightarrow> call_at S' g = call_at S g" "call_at S' f = v" for g using c(1) by simp_all
  have "pc_ok S' g pc \<and> (\<forall>q. uses q pc \<longrightarrow> 0 < h_inst (sw S') q)" if "call_at S' g = Some (pc, d)" for g pc d
  proof (cases "g = f")
    case True
    then show ?thesis using that v h at(2) by metis
  next
    case False
    then have "call_at S g = Some (pc, d)" using that at(1) by metis
    then show ?thesis using others [OF _ False] calls_okD(2) [OF k] h by blast
  qed
  moreover have "g = g'" if "call_at S' g = Some (pc, d)" "call_at S' g' = Some (pc', d')" "holds p pc" "holds p pc'" for g g' pc pc' d d' p
    using that v at calls_okD(3) [OF k] by metis
  moreover have "g = g'" if "call_at S' g = Some (pc, d)" "call_at S' g' = Some (pc', d')" "uses q pc" "uses q pc'" d for g g' pc pc' d d' q
    using that v [unfolded exclusive_def] at calls_okD(4) [OF k] by metis
  ultimately show ?thesis using c(2) unfolding calls_ok_def by blast
qed

lemma put_inv:
  assumes inv: "sync_inv S" and w: "not_waiting f S"
    and S': "sw S' = sw S" "sb S' = sb S" "told S' = told S" "\<And>g. g \<noteq> f \<Longrightarrow> frames S' g = frames S g"
    and c: "distinct (map fst (calls S'))" "call_at S' = (call_at S)(f := v)"
    and v: "\<And>pc d. v = Some (pc, d) \<Longrightarrow> pc_ok S' f pc \<and> (\<forall>q. uses q pc \<longrightarrow> 0 < h_inst (sw S) q) \<and> (\<forall>p. \<not> holds p pc) \<and> exclusive f pc d S"
  shows "sync_inv S'"
proof -
  have b: "bridge_inv (sw S) (sb S)" and aw: "awaited_ok S" and k: "calls_ok S" and t: "told_ok S"
    using inv by (simp_all add: sync_inv_def)
  have a': "awaited_ok S'"
    unfolding awaited_ok_def S'
  proof (intro allI impI)
    fix p g d assume a: "tag (sb S) p = Some (Some SYNC_CALLBACK, g, d)" "p \<notin> told S"
    obtain q d' s where g: "call_at S g = Some (Pending (Some p) q, d')" "frames S g = Some s" "\<not> sy_done s" using awaitedD [OF aw a] by blast
    then have "g \<noteq> f" using w by (auto simp: not_waiting_def)
    then show "\<exists>q d s. call_at S' g = Some (Pending (Some p) q, d) \<and> frames S' g = Some s \<and> \<not> sy_done s" using g S'(4) c(2) by auto
  qed
  have "pc_ok S' g pc" if "call_at S g = Some (pc, d)" "g \<noteq> f" for g pc d
  proof -
    have "pc_ok S g pc" using k that(1) unfolding calls_ok_def by blast
    then show ?thesis using S'(1-3) S'(4) [OF that(2)] by (cases pc) (auto split: option.splits)
  qed
  then have "calls_ok S'" by (intro calls_put [OF k c(2,1)]) (use v S'(1) in auto)
  then show ?thesis using b t a' by (simp add: sync_inv_def told_ok_def S')
qed

lemma h_op_nonneg: "bridge_inv W b \<Longrightarrow> 0 \<le> h_op W p"
proof (erule bridge_invE)
  fix cs ns assume "inv_with W cs ns b"
  then have "wf_ext (ext_of W cs ns b)" by (rule acct_wf_ext [OF inv_acct])
  then show ?thesis by (simp add: wf_ext_def ext_of_def)
qed

text \<open>The call at \<open>f\<close> is about to issue the operation of \<open>server\<close>.\<close>

fun issuing :: "ptr option \<Rightarrow> sync_pc \<Rightarrow> bool" where
  "issuing server (Starting r j n) = (server = None)"
| "issuing server (Asking q) = (server = Some q)"
| "issuing server pc = False"

lemma issuing_facts:
  assumes "issuing server pc" "pc_ok S f pc"
  shows "\<exists>s. frames S f = Some s \<and> \<not> sy_done s" "\<not> holds p pc" "uses q pc \<longleftrightarrow> server = Some q"
  using assms by (cases pc; auto)+

lemma granted_inv:
  assumes inv: "sync_inv S" and a: "call_at S f = Some (pc, d)" and g: "issuing server pc"
    and i: "issued (Some SYNC_CALLBACK) f (sb S) (Some ((rc, Some p), b'))" and b': "bridge_inv (grant (Some p) (sw S)) b'"
  shows "sync_inv (goto f (Pending (Some p) server) d (with_bridge (grant (Some p) (sw S)) b' S))" (is "sync_inv ?S")
proof -
  have b: "bridge_inv (sw S) (sb S)" and aw: "awaited_ok S" and k: "calls_ok S" and t: "told_ok S"
    using inv by (simp_all add: sync_inv_def)
  let ?X = "\<lambda>cb ud. cb = Some SYNC_CALLBACK \<and> ud = f"
  have tn: "tags_new (Some SYNC_CALLBACK) f (sb S) b'" and new: "tag (sb S) p = None" "\<And>q. tag (sb S) q = None \<Longrightarrow> tag b' q \<noteq> None \<Longrightarrow> q = p"
    using i by (auto simp: issued_def tag_alloc)
  have T: "tag_step ?X (sb S) b'" by (rule tag_step_new [OF tn]) simp
  note fr = issuing_facts [OF g calls_okD(1) [OF k a]]
  have at: "call_at ?S = (call_at S)(f \<mapsto> (Pending (Some p) server, d))" by simp
  have p: "tag b' p = Some (Some SYNC_CALLBACK, f, False)" "0 < h_op (grant (Some p) (sw S)) p" "p \<notin> told S"
  proof -
    show h: "0 < h_op (grant (Some p) (sw S)) p" using h_op_nonneg [OF b, of p] by simp
    show "tag b' p = Some (Some SYNC_CALLBACK, f, False)" using tn new(1) bridge_held_op [OF b' h] unfolding tags_new_def by metis
    show "p \<notin> told S" using t new(1) by (auto simp: told_ok_def)
  qed
  have "told_ok ?S"
    using told_same [OF t tn, of "grant (Some p) (sw S)"] by (simp add: told_ok_def)
  moreover have "awaited_ok ?S"
    unfolding awaited_ok_def
  proof (intro allI impI)
    fix p' g e assume w: "tag (sb ?S) p' = Some (Some SYNC_CALLBACK, g, e)" "p' \<notin> told ?S"
    have nt: "p' \<notin> told S" using w by (auto simp: tag_def)
    show "\<exists>q d s. call_at ?S g = Some (Pending (Some p') q, d) \<and> frames ?S g = Some s \<and> \<not> sy_done s"
    proof (cases "tag (sb S) p'")
      case None
      then have "p' = p" "g = f" using new(2) [of p'] w(1) p(1) by auto
      then show ?thesis using fr(1) by auto
    next
      case (Some y)
      then obtain e' where "tag (sb S) p' = Some (Some SYNC_CALLBACK, g, e')" using T w(1) unfolding tag_step_def sync_fields by (metis option.distinct(1))
      then obtain q d' s where w: "call_at S g = Some (Pending (Some p') q, d')" "frames S g = Some s" "\<not> sy_done s" using awaitedD [OF aw _ nt] by blast
      have "g \<noteq> f" using w(1) a fr(2) [of p'] by auto
      then show ?thesis using w by auto
    qed
  qed
  moreover have "calls_ok ?S"
  proof (rule calls_put [OF k at])
    show "distinct (map fst (calls ?S))" using k by (intro calls_distinct) (simp add: calls_ok_def)
    show "pc_ok ?S g pc'" if g: "call_at S g = Some (pc', d')" "g \<noteq> f" for g pc' d'
    proof -
      have "pc_ok (with_bridge (grant (Some p) (sw S)) b' S) g pc'" by (rule pc_ok_bridge [OF calls_okD(1) [OF k g(1)] T b']) simp
      then show ?thesis by (cases pc') (auto split: option.splits)
    qed
    have "\<not> holds p pc'" if "call_at S g = Some (pc', d')" for g pc' d'
      using calls_okD(1) [OF k that] bridge_held_op [OF b, of p] new(1) by (cases pc') (auto split: option.splits)
    moreover have "exclusive f (Pending (Some p) server) d S" by (rule exclusive_same [OF k a]) (use fr(3) in simp)
    ultimately show "pc_ok ?S f pc' \<and> (\<forall>q. uses q pc' \<longrightarrow> 0 < h_inst (sw S) q) \<and> exclusive f pc' e S \<and>
        (\<forall>p g pc'' d'. g \<noteq> f \<longrightarrow> call_at S g = Some (pc'', d') \<longrightarrow> holds p pc' \<longrightarrow> \<not> holds p pc'')"
      if "Some (Pending (Some p) server, d) = Some (pc', e)" for pc' e
      using that p fr calls_okD(2) [OF k a] by auto
  qed simp
  ultimately show ?thesis using b' by (simp add: sync_inv_def)
qed

lemma not_waitingI: "call_at S f = Some (pc, d) \<Longrightarrow> (\<And>p. \<not> holds p pc) \<Longrightarrow> not_waiting f S"
  unfolding not_waiting_def by (metis Pair_inject holds.simps(1) option.inject)

lemma goto_inv:
  assumes inv: "sync_inv S" and w: "not_waiting f S" and ok: "pc_ok S f pc" "\<And>q. uses q pc \<Longrightarrow> 0 < h_inst (sw S) q" "\<And>p. \<not> holds p pc"
    and x: "exclusive f pc d S"
  shows "sync_inv (goto f pc d S)"
proof (rule put_inv [OF inv w])
  show "distinct (map fst (calls (goto f pc d S)))" using inv by (intro calls_distinct) (simp add: sync_inv_def calls_ok_def)
  show "call_at (goto f pc d S) = (call_at S)(f := Some (pc, d))" by simp
  have "pc_ok (goto f pc d S) f pc" using ok(1) by (cases pc) (auto split: option.splits)
  then show "pc_ok (goto f pc d S) f pc' \<and> (\<forall>q. uses q pc' \<longrightarrow> 0 < h_inst (sw S) q) \<and> (\<forall>p. \<not> holds p pc') \<and> exclusive f pc' d' S"
    if "Some (pc, d) = Some (pc', d')" for pc' d' using that ok x by simp
qed simp_all

lemma leave_inv:
  assumes inv: "sync_inv S" and w: "not_waiting f S"
  shows "sync_inv (leave f rc srv S)"
proof (rule put_inv [OF inv w])
  show "distinct (map fst (calls (leave f rc srv S)))" using inv by (intro calls_distinct) (simp add: sync_inv_def calls_ok_def)
  show "call_at (leave f rc srv S) = (call_at S)(f := None)" by simp
qed simp_all

text \<open>A fresh frame for a call that waits for nothing.\<close>

lemma frame_inv:
  assumes inv: "sync_inv S" and w: "not_waiting f S"
    and c: "\<And>pc d. call_at S f = Some (pc, d) \<Longrightarrow> \<not> (\<exists>p q. pc = Pending p q)"
  shows "sync_inv (S\<lparr>frames := (frames S)(f \<mapsto> new_sync)\<rparr>)"
proof (rule put_inv [OF inv w])
  let ?S = "S\<lparr>frames := (frames S)(f \<mapsto> new_sync)\<rparr>"
  have k: "calls_ok S" using inv by (simp add: sync_inv_def)
  show "distinct (map fst (calls ?S))" using k by (simp add: calls_ok_def)
  show "call_at ?S = (call_at S)(f := call_at S f)" by simp
  show "pc_ok ?S f pc \<and> (\<forall>q. uses q pc \<longrightarrow> 0 < h_inst (sw S) q) \<and> (\<forall>p. \<not> holds p pc) \<and> exclusive f pc d S"
    if a: "call_at S f = Some (pc, d)" for pc d
    using calls_okD(1,2) [OF k a] c [OF a] exclusive_same [OF k a, of pc] by (cases pc) (auto simp: new_sync_def)
qed simp_all

lemma rejected_inv:
  assumes inv: "sync_inv S" and i: "issued (Some SYNC_CALLBACK) f (sb S) (Some ((rc, None), b'))" and b': "bridge_inv (sw S) b'"
  shows "sync_inv (with_bridge (sw S) b' S)"
proof -
  have tn: "tags_new (Some SYNC_CALLBACK) f (sb S) b'" and new: "\<And>q. tag (sb S) q = None \<Longrightarrow> tag b' q = None"
    using i [unfolded issued_def option.case prod.case] by (blast, metis option.distinct(1))
  have T: "tag_step (\<lambda>cb ud. cb \<noteq> Some SYNC_CALLBACK) (sb S) b'"
    using tag_step_new [OF tn, of "\<lambda>_ _. True"] new unfolding tag_step_def by (metis option.distinct(1))
  show ?thesis
    by (rule env_inv [OF inv b' T]) (use told_same [OF _ tn, of "sw S"] inv in \<open>simp_all add: sync_inv_def\<close>)
qed

lemma accepted_inv:
  assumes inv: "sync_inv S" and a: "call_at S f = Some (pc, d)" and g: "issuing server pc"
    and i: "issued (Some SYNC_CALLBACK) f (sb S) (Some ((rc, p), b'))" and b': "bridge_inv (grant p (sw S)) b'" and rc: "rc = 0 \<longleftrightarrow> p \<noteq> None"
  shows "sync_inv (sync_accepted f server d ((rc, p), b') S)"
proof (cases p)
  case (Some q)
  then show ?thesis using granted_inv [OF inv a g, of rc q b'] i b' rc by (simp add: sync_accepted_def hs_codes)
next
  case None
  have k: "calls_ok S" using inv by (simp add: sync_inv_def)
  let ?S = "with_bridge (sw S) b' S"
  have S1: "sync_inv ?S" by (rule rejected_inv [OF inv]) (use i b' None in simp_all)
  have at: "call_at ?S f = Some (pc, d)" using a by simp
  note fr = issuing_facts [OF g calls_okD(1) [OF k a]]
  have nw: "not_waiting f ?S" by (rule not_waitingI [OF at fr(2)])
  have "sync_inv (goto f (Stopping q) d ?S)" if "server = Some q" for q
  proof (rule goto_inv [OF S1 nw])
    have k': "calls_ok ?S" using S1 by (simp add: sync_inv_def)
    show "exclusive f (Stopping q) d ?S" by (rule exclusive_same [OF k' at]) (use that fr(3) in simp)
    show "0 < h_inst (sw ?S) q'" if "uses q' (Stopping q)" for q' using calls_okD(2) [OF k a] that \<open>server = Some q\<close> fr(3) by simp
  qed simp_all
  then show ?thesis using leave_inv [OF S1 nw] None rc by (auto simp: sync_accepted_def Let_def split: option.splits)
qed

lemma codes_close: "close_async sp (Some cb) ud True e b = Some ((rc, p), b') \<Longrightarrow> rc = 0 \<longleftrightarrow> p \<noteq> None"
  by (auto simp: close_async_def bind_eq_Some_conv hs_codes split: option.splits if_splits)

lemma codes_rest: "create_rest kind j n cb ud e b = Some ((rc, p), b') \<Longrightarrow> rc = 0 \<longleftrightarrow> p \<noteq> None"
  by (auto simp: create_rest_def create_undo_def bind_eq_Some_conv hs_codes split: option.splits if_splits)

lemma codes_resume: "create_resume rl kind j n cb ud e b = Some (Some ((rc, p), b')) \<Longrightarrow> rc = 0 \<longleftrightarrow> p \<noteq> None"
  by (auto simp: create_resume_def hs_codes dest: codes_rest split: option.splits prod.splits bool.splits)

lemma codes_create: "create_async rl kind j n cb ud out e b = Some (Some ((rc, p), b')) \<Longrightarrow> rc = 0 \<longleftrightarrow> p \<noteq> None"
  by (auto simp: create_async_def hs_codes dest: codes_resume split: option.splits if_splits)

lemma start_resume_inv:
  assumes inv: "sync_inv S" and a: "call_at S f = Some (pc, d)" and g: "issuing None pc"
    and i: "resumed (Some SYNC_CALLBACK) f (sb S) r" and c: "\<And>rc p b'. r = Some (Some ((rc, p), b')) \<Longrightarrow> rc = 0 \<longleftrightarrow> p \<noteq> None"
    and s: "r = Some None \<or> (\<exists>q. r = Some (Some q) \<and> call_ok (sw S) (Some q))" and x: "sync_inv (x S)"
  shows "\<exists>S'. r \<bind> (\<lambda>r. Some (case r of None \<Rightarrow> x S | Some y \<Rightarrow> sync_accepted f None d y S)) = Some S' \<and> sync_inv S'"
proof -
  consider "r = Some None" | rc p b' where "r = Some (Some ((rc, p), b'))" "bridge_inv (grant p (sw S)) b'"
    using s by (auto simp: call_ok_def)
  then show ?thesis
  proof cases
    case 2
    then have "issued (Some SYNC_CALLBACK) f (sb S) (Some ((rc, p), b'))" using i by (simp add: resumed_def)
    then have "sync_inv (sync_accepted f None d ((rc, p), b') S)" using accepted_inv [OF inv a g _ 2(2) c [OF 2(1)]] by blast
    then show ?thesis using 2 by simp
  qed (use x in simp)
qed

lemma stopped_inv:
  assumes inv: "sync_inv S" and a: "call_at S f = Some (pc, d)" and w: "not_waiting f S" and u: "uses q pc"
  shows "sync_inv (stopped f q d rc S)"
proof -
  have k: "calls_ok S" using inv by (simp add: sync_inv_def)
  have "exclusive f (Releasing q) d S" by (rule exclusive_same [OF k a]) (use u in simp)
  then have "sync_inv (goto f (Releasing q) d S)" by (intro goto_inv [OF inv w]) (use calls_okD(2) [OF k a u] in simp_all)
  then show ?thesis using leave_inv [OF inv w] by (metis (full_types) stopped_def)
qed

subsection \<open>Every step of a call\<close>

text \<open>Only a destroy releases.\<close>

definition releasing_ok :: "sync_sys \<Rightarrow> bool" where
  "releasing_ok S \<longleftrightarrow> (\<forall>f q d. call_at S f = Some (Releasing q, d) \<longrightarrow> d)"

lemma releasing_goto: "releasing_ok S \<Longrightarrow> (\<forall>q. pc \<noteq> Releasing q) \<or> d \<Longrightarrow> releasing_ok (goto f pc d S)"
  unfolding releasing_ok_def call_at_goto by (metis fun_upd_apply option.inject prod.inject)

lemma releasing_leave: "releasing_ok S \<Longrightarrow> releasing_ok (leave f rc srv S)"
  unfolding releasing_ok_def call_at_leave by (metis fun_upd_apply option.distinct(1))

lemma releasing_bridge: "releasing_ok (with_bridge W b S) = releasing_ok S" "releasing_ok (S\<lparr>frames := fr\<rparr>) = releasing_ok S"
  "releasing_ok (S\<lparr>told := t\<rparr>) = releasing_ok S" "releasing_ok (S\<lparr>frames := fr, told := t\<rparr>) = releasing_ok S" "releasing_ok (S\<lparr>returned := l\<rparr>) = releasing_ok S"
  by (simp_all add: releasing_ok_def)

lemmas releasing_rules = releasing_goto releasing_leave

lemma releasing_stopped: "releasing_ok S \<Longrightarrow> releasing_ok (stopped f q d rc S)"
  by (simp add: stopped_def releasing_rules)

lemma releasing_accepted: "releasing_ok S \<Longrightarrow> releasing_ok (sync_accepted f server d r S)"
  by (auto simp: sync_accepted_def Let_def releasing_bridge split: prod.split option.split intro!: releasing_rules)

lemma releasing_step:
  assumes r: "releasing_ok S" and "sync_run c S = Some S'"
  shows "releasing_ok S'"
proof (cases c)
  case (Advance f e)
  then obtain pc d where a: "sync_advance f pc d e S = Some S'" using assms(2) by (auto simp: sync_run_def split: option.splits)
  note rules = releasing_accepted releasing_stopped releasing_bridge releasing_rules
  show ?thesis
  proof (cases pc)
    case (Starting x j n)
    then show ?thesis using a r by (cases x) (auto simp: sync_advance_def bind_eq_Some_conv rules split: option.split_asm)
  next
    case (Pending p server)
    then show ?thesis using a r by (cases server) (auto simp: sync_advance_def sync_done_def Let_def bind_eq_Some_conv rules split: option.split_asm if_split_asm)
  qed (use a r in \<open>auto simp: sync_advance_def bind_eq_Some_conv rules split: option.split_asm if_split_asm\<close>)
qed (use assms in \<open>auto simp: sync_run_def run_callback_def hs_server_start_def hs_server_stop_def bind_eq_Some_conv releasing_bridge
    releasing_rules split: option.splits list.splits if_splits prod.splits\<close>)

lemma bridge_commutes:
  "leave f rc srv (with_bridge W b S) = with_bridge W b (leave f rc srv S)"
  "stopped f q d rc (with_bridge W b S) = with_bridge W b (stopped f q d rc S)"
  by (simp_all add: stopped_def leave_def goto_def with_bridge_def)

text \<open>A call that has let go of a handle drops it.\<close>

lemma dropped_inv:
  assumes inv: "sync_inv S" and i: "bridge_inv W' b'" and k: "tags_kept (sb S) b'"
    and W: "waiting W' = waiting (sw S)" "calling W' = calling (sw S)"
    and hop: "\<And>f pc d p. call_at S f = Some (pc, d) \<Longrightarrow> holds p pc \<Longrightarrow> h_op (sw S) p \<le> h_op W' p"
    and hin: "\<And>f pc d q. call_at S f = Some (pc, d) \<Longrightarrow> uses q pc \<Longrightarrow> h_inst (sw S) q \<le> h_inst W' q"
  shows "sync_inv (with_bridge W' b' S)"
proof (rule env_inv [OF inv i _ hop hin])
  note tn = tags_new_kept [OF k, of None 0]
  show "tag_step (\<lambda>cb ud. cb \<noteq> Some SYNC_CALLBACK) (sb S) b'" by (rule tag_step_new [OF tn]) simp
  show "told_ok (with_bridge W' b' S)" by (rule told_same [OF _ tn]) (use inv W in \<open>simp_all add: sync_inv_def\<close>)
qed

lemma drop_handle_Some: "drop_handle h (Some p) = bump p (- 1) h"
  by (simp add: drop_handle_def bumpo_def)

lemma stopped_fields [simp]: "sw (stopped f q d rc S) = sw S" "sb (stopped f q d rc S) = sb S"
  by (simp_all add: stopped_def)

lemma call_at_stopped: "call_at (stopped f q d rc S) g = Some (pc, d') \<Longrightarrow> holds p pc \<Longrightarrow> g \<noteq> f \<and> call_at S g = Some (pc, d')"
  unfolding stopped_def by (auto split: if_splits)

lemma call_at_stopped_uses:
  "call_at (stopped f q d rc S) g = Some (pc, d') \<Longrightarrow> uses r pc \<Longrightarrow> g = f \<and> r = q \<or> g \<noteq> f \<and> call_at S g = Some (pc, d')"
  unfolding stopped_def by (auto split: if_splits)

lemma operation_release_tags: "hs_operation_release rl (Some p) b = Some (Some b') \<Longrightarrow> tags_kept b b'"
  by (auto simp: hs_operation_release_def bind_eq_Some_conv dest!: op_drop_tags split: if_splits)

lemma instance_drop_tags: "hs_engine_release rl (Some q) b = Some (Some b') \<Longrightarrow> tags_kept b b'"
  by (auto simp: hs_engine_release_def bind_eq_Some_conv instance_drop_def intro!: tags_same split: if_splits dest!: ops_same)

lemma done_step:
  assumes inv: "sync_inv S" and a: "call_at S f = Some (Pending p server, d)"
  shows "\<exists>S'. sync_done f p server d S = Some S' \<and> sync_inv S'"
proof -
  have b: "bridge_inv (sw S) (sb S)" and k: "calls_ok S" using inv by (simp_all add: sync_inv_def)
  obtain p' s where p: "p = Some p'" "0 < h_op (sw S) p'" "frames S f = Some s" using calls_okD(1) [OF k a] by (auto split: option.splits)
  show ?thesis
  proof (cases "sy_done s")
    case True
    have nw: "not_waiting f S" using True p(3) by (simp add: not_waiting_def)
    consider "hs_operation_release Host p (sb S) = Some None" |
        b' where "hs_operation_release Host p (sb S) = Some (Some b')" "bridge_inv ((sw S)\<lparr>h_op := drop_handle (h_op (sw S)) p\<rparr>) b'"
      using operation_release_inv [OF b p(2), of Host] p(1) by (auto simp: drop_handle_Some)
    then show ?thesis
    proof cases
      case 1
      then show ?thesis using True p(3) inv by (simp add: sync_done_def)
    next
      case 2
      let ?W = "(sw S)\<lparr>h_op := drop_handle (h_op (sw S)) p\<rparr>" and ?rc = "ev_code (sy_event s)" and ?srv = "ev_server (sy_event s)"
      have t: "tags_kept (sb S) b'" using operation_release_tags 2(1) p(1) by blast
      have h: "h_op (sw S) x \<le> h_op ?W x" if "call_at S g = Some (pc, d')" "g \<noteq> f" "holds x pc" for g pc d' x
        using calls_okD(3) [OF k a that(1) _ that(3)] that(2) p(1) by (auto simp: drop_handle_Some bump_def)
      show ?thesis
      proof (cases server)
        case None
        have "sync_inv (with_bridge ?W b' (leave f ?rc ?srv S))"
          by (rule dropped_inv [OF leave_inv [OF inv nw] 2(2)]) (use t h in \<open>auto split: if_splits\<close>)
        then show ?thesis using None 2(1) True p(3) by (simp add: sync_done_def bridge_commutes)
      next
        case (Some q)
        have u: "uses q (Pending p server)" using Some by simp
        have "sync_inv (with_bridge ?W b' (stopped f q d ?rc S))"
          by (rule dropped_inv [OF stopped_inv [OF inv a nw u] 2(2)]) (use t h in \<open>auto dest: call_at_stopped\<close>)
        then show ?thesis using Some 2(1) True p(3) by (simp add: sync_done_def bridge_commutes)
      qed
    qed
  qed (use p(3) inv in \<open>simp add: sync_done_def\<close>)
qed

lemma release_step:
  assumes inv: "sync_inv S" and a: "call_at S f = Some (Releasing q, True)"
  shows "\<exists>S'. sync_advance f (Releasing q) True e S = Some S' \<and> sync_inv S'"
proof -
  have b: "bridge_inv (sw S) (sb S)" and k: "calls_ok S" using inv by (simp_all add: sync_inv_def)
  have q: "0 < h_inst (sw S) q" using calls_okD(2) [OF k a] by simp
  have nw: "not_waiting f S" by (rule not_waitingI [OF a]) simp
  consider "hs_engine_release Host (Some q) (sb S) = Some None" |
      b' where "hs_engine_release Host (Some q) (sb S) = Some (Some b')" "bridge_inv ((sw S)\<lparr>h_inst := drop_handle (h_inst (sw S)) (Some q)\<rparr>) b'"
    using engine_release_inv [OF b q, of Host] by (auto simp: drop_handle_Some)
  then show ?thesis
  proof cases
    case 2
    let ?W = "(sw S)\<lparr>h_inst := drop_handle (h_inst (sw S)) (Some q)\<rparr>"
    have h: "h_inst (sw S) r \<le> h_inst ?W r" if "call_at S g = Some (pc, d')" "g \<noteq> f" "uses r pc" for g pc d' r
      using calls_okD(4) [OF k a that(1) _ that(3)] that(2) by (auto simp: drop_handle_Some bump_def)
    have "sync_inv (with_bridge ?W b' (leave f 0 None S))"
      by (rule dropped_inv [OF leave_inv [OF inv nw] 2(2)]) (use instance_drop_tags [OF 2(1)] h in \<open>auto split: if_splits\<close>)
    then show ?thesis using 2(1) by (simp add: sync_advance_def hs_server_release_def bridge_commutes)
  qed (use inv in \<open>simp add: sync_advance_def hs_server_release_def\<close>)
qed

lemma start_step:
  assumes inv: "sync_inv S" and a: "call_at S f = Some (Starting x j n, d)" and al: "alloc_ok e (sb S)"
  shows "\<exists>S'. sync_advance f (Starting x j n) d e S = Some S' \<and> sync_inv S'"
proof -
  have b: "bridge_inv (sw S) (sb S)" and k: "calls_ok S" using inv by (simp_all add: sync_inv_def)
  have "sync_inv (goto f (Starting True j n) d S)"
  proof (rule goto_inv [OF inv])
    show "not_waiting f S" by (rule not_waitingI [OF a]) simp
    show "pc_ok S f (Starting True j n)" using calls_okD(1) [OF k a] by simp
    show "exclusive f (Starting True j n) d S" by (rule exclusive_same [OF k a]) simp
  qed simp_all
  then have "\<exists>S'. create_async Host 2 j n (Some SYNC_CALLBACK) f True e (sb S) \<bind>
      (\<lambda>r. Some (case r of None \<Rightarrow> goto f (Starting True j n) d S | Some y \<Rightarrow> sync_accepted f None d y S)) = Some S' \<and> sync_inv S'"
    by (intro start_resume_inv [OF inv a _ create_async_issued [OF al] codes_create create_async_inv [OF b _ al]]) simp_all
  moreover have "\<exists>S'. create_resume Host 2 j n SYNC_CALLBACK f e (sb S) \<bind>
      (\<lambda>r. Some (case r of None \<Rightarrow> S | Some y \<Rightarrow> sync_accepted f None d y S)) = Some S' \<and> sync_inv S'"
    by (intro start_resume_inv [OF inv a _ create_resume_issued [OF al] codes_resume create_resume_inv [OF b _ al]]) (simp_all add: inv)
  ultimately show ?thesis by (cases x) (simp_all add: sync_advance_def hs_server_start_async_def)
qed

lemma ask_step:
  assumes inv: "sync_inv S" and a: "call_at S f = Some (Asking q, d)" and al: "alloc_ok e (sb S)"
  shows "\<exists>S'. sync_advance f (Asking q) d e S = Some S' \<and> sync_inv S'"
proof -
  have b: "bridge_inv (sw S) (sb S)" and k: "calls_ok S" using inv by (simp_all add: sync_inv_def)
  have q: "0 < h_inst (sw S) q" using calls_okD(2) [OF k a] by simp
  obtain rc p b' where r: "close_async (Some q) (Some SYNC_CALLBACK) f True e (sb S) = Some ((rc, p), b')" "bridge_inv (grant p (sw S)) b'"
    using close_async_inv [OF b q al, of "Some SYNC_CALLBACK" f True] by (auto simp: call_ok_def)
  have "sync_inv (sync_accepted f (Some q) d ((rc, p), b') S)"
    by (rule accepted_inv [OF inv a _ _ r(2) codes_close [OF r(1)]])
      (use close_async_issued [OF al, of "Some SYNC_CALLBACK" f "Some q" True] r(1) in simp_all)
  then show ?thesis using r(1) by (simp add: sync_advance_def hs_server_stop_async_def)
qed

lemma stop_step:
  assumes inv: "sync_inv S" and a: "call_at S f = Some (pc, d)" and pc: "pc = Stopping q \<or> pc = Draining q"
  shows "\<exists>S'. sync_advance f pc d e S = Some S' \<and> sync_inv S'"
proof -
  have b: "bridge_inv (sw S) (sb S)" and k: "calls_ok S" using inv by (simp_all add: sync_inv_def)
  have u: "\<And>r. uses r pc \<longleftrightarrow> r = q" and q: "0 < h_inst (sw S) q" using calls_okD(2) [OF k a] pc by auto
  obtain s where s: "insts (sb S) q = Some s" using b q by (auto elim!: bridge_invE dest: host_inst_alloc)
  have nw: "not_waiting f S" by (rule not_waitingI [OF a]) (use pc in auto)
  have drain: "sync_inv (goto f (Draining q) d S)"
  proof (rule goto_inv [OF inv nw])
    show "exclusive f (Draining q) d S" by (rule exclusive_same [OF k a]) (use u in simp)
  qed (use q in simp_all)
  let ?S = "S\<lparr>frames := (frames S)(f \<mapsto> new_sync)\<rparr>"
  have ask: "sync_inv (goto f (Asking q) d ?S)"
  proof (rule goto_inv)
    show i: "sync_inv ?S" by (rule frame_inv [OF inv nw]) (use a pc in auto)
    have k': "calls_ok ?S" and a': "call_at ?S f = Some (pc, d)" using i a by (simp_all add: sync_inv_def)
    show "exclusive f (Asking q) d ?S" by (rule exclusive_same [OF k' a']) (use u in simp)
    show "not_waiting f ?S" by (rule not_waitingI [OF a']) (use pc in auto)
  qed (use q in \<open>simp_all add: new_sync_def\<close>)
  have "sync_inv (stopped f q d 0 S)" by (rule stopped_inv [OF inv a nw]) (simp add: u)
  then show ?thesis using pc s inv drain ask by (auto simp: sync_advance_def)
qed

lemma advance_inv:
  assumes inv: "sync_inv S" "releasing_ok S" and l: "sync_legal (Advance f e) S"
  shows "\<exists>S'. sync_run (Advance f e) S = Some S' \<and> sync_inv S'"
proof -
  obtain pc d where a: "call_at S f = Some (pc, d)"
    using l by (cases "call_at S f") (auto simp: sync_legal_def map_of_eq_None_iff)
  have al: "alloc_ok e (sb S)" using l by (simp add: sync_legal_def)
  have "\<exists>S'. sync_advance f pc d e S = Some S' \<and> sync_inv S'"
  proof (cases pc)
    case (Starting x j n)
    then show ?thesis using start_step [OF inv(1) _ al] a by blast
  next
    case (Asking q)
    then show ?thesis using ask_step [OF inv(1) _ al] a by blast
  next
    case (Pending p server)
    then show ?thesis using done_step [OF inv(1)] a by (simp add: sync_advance_def)
  next
    case (Releasing q)
    then have "d = True" using inv(2) a unfolding releasing_ok_def by blast
    then show ?thesis using release_step [OF inv(1)] a Releasing by simp
  qed (use stop_step [OF inv(1) a] in blast)+
  then show ?thesis using a by (simp add: sync_run_def)
qed

lemma refused_inv: "sync_inv (S\<lparr>returned := l\<rparr>) = sync_inv S"
proof -
  have "pc_ok (S\<lparr>returned := l\<rparr>) f pc = pc_ok S f pc" for f pc by (cases pc) (simp_all split: option.split)
  then show ?thesis by (simp add: sync_inv_def awaited_ok_def calls_ok_def told_ok_def)
qed

lemma enter_inv:
  assumes inv: "sync_inv S" and new: "fresh_frame f S"
  shows "sync_inv (hs_server_start rl out j n f S)"
    and "sync_legal (EnterStop rl server d f) S \<Longrightarrow> sync_inv (hs_server_stop rl server d f S)"
proof -
  have at: "call_at S f = None" using new by (simp add: fresh_frame_def map_of_eq_None_iff)
  have nw: "not_waiting f S" using at by (simp add: not_waiting_def)
  let ?S = "S\<lparr>frames := (frames S)(f \<mapsto> new_sync)\<rparr>"
  have "sync_inv (goto f (Starting False j n) False ?S)"
  proof (rule goto_inv)
    show "sync_inv ?S" by (rule frame_inv [OF inv nw]) (simp add: at)
    show "not_waiting f ?S" using at by (simp add: not_waiting_def)
    show "exclusive f (Starting False j n) False ?S" by (simp add: exclusive_def)
  qed (simp_all add: new_sync_def)
  then show "sync_inv (hs_server_start rl out j n f S)" using inv by (simp add: hs_server_start_def refused_inv)
  assume l: "sync_legal (EnterStop rl server d f) S"
  have "sync_inv (goto f (Stopping q) d S)" if q: "server = Some q" for q
  proof (rule goto_inv [OF inv nw])
    have x: "list_all (\<lambda>(f', pc, d'). uses q pc \<longrightarrow> \<not> d \<and> \<not> d') (calls S)" using l q by (simp add: sync_legal_def)
    show "exclusive f (Stopping q) d S" unfolding exclusive_def using listed [OF _ x] by auto
  qed (use l q in \<open>simp_all add: sync_legal_def\<close>)
  then show "sync_inv (hs_server_stop rl server d f S)" using inv by (auto simp: hs_server_stop_def refused_inv split: option.split)
qed

theorem sync_call_inv:
  assumes "sync_inv S" "releasing_ok S" "sync_legal c S"
  shows "\<exists>S'. sync_run c S = Some S' \<and> sync_inv S' \<and> releasing_ok S'"
proof -
  have "\<exists>S'. sync_run c S = Some S' \<and> sync_inv S'"
  proof (cases c)
    case (Other x)
    then show ?thesis using other_inv assms by blast
  next
    case Callback
    then show ?thesis using callback_inv assms by blast
  next
    case (Advance f e)
    then show ?thesis using advance_inv assms by blast
  qed (use assms enter_inv [OF assms(1)] in \<open>auto simp: sync_run_def sync_legal_def\<close>)
  then show ?thesis using releasing_step [OF assms(2)] by blast
qed

subsection \<open>Executions\<close>

abbreviation sync_exec :: "sync_call list \<Rightarrow> sync_sys \<Rightarrow> sync_sys option" where
  "sync_exec \<equiv> exec_calls sync_run"

abbreviation sync_lawful :: "sync_call list \<Rightarrow> sync_sys \<Rightarrow> bool" where
  "sync_lawful \<equiv> lawful_calls sync_run sync_legal"

interpretation sm: call_machine sync_run sync_legal "\<lambda>S. sync_inv S \<and> releasing_ok S"
  by unfold_locales (use sync_call_inv in blast)

definition sync_start :: sync_sys where
  "sync_start = \<lparr>sw = empty_world, sb = init_bridge, frames = Map.empty, calls = [], told = {}, returned = []\<rparr>"

lemma sync_start_inv: "sync_inv sync_start" "releasing_ok sync_start"
  using bridge_inv_init
  by (simp_all add: sync_inv_def awaited_ok_def calls_ok_def told_ok_def releasing_ok_def sync_start_def tag_def init_bridge_def)

lemma pending_facts:
  assumes inv: "sync_inv S" and a: "call_at S f = Some (Pending p server, d)"
  shows "\<exists>q x s. p = Some q \<and> ops (sb S) q = Some x \<and> frames S f = Some s \<and>
    (if sy_done s then o_done x
     else o_callback x = Some SYNC_CALLBACK \<and> o_user_data x = f \<and>
       (if o_done x then q \<in> set (waiting (sw S)) \<union> set (calling (sw S)) else True))"
proof -
  have b: "bridge_inv (sw S) (sb S)" and k: "calls_ok S" and t: "told_ok S" using inv by (simp_all add: sync_inv_def)
  obtain q s where q: "p = Some q" "0 < h_op (sw S) q" "frames S f = Some s"
      "if sy_done s then q \<in> told S else q \<notin> told S \<and> (\<exists>d. tag (sb S) q = Some (Some SYNC_CALLBACK, f, d))"
    using calls_okD(1) [OF k a] by (auto split: option.splits)
  obtain x where x: "ops (sb S) q = Some x" using bridge_held_op [OF b q(2)] by (auto simp: tag_alloc)
  then have tag: "tag (sb S) q = Some (o_callback x, o_user_data x, o_done x)" by (simp add: tag_def)
  have "o_done x" if "q \<in> told S" using t tag that unfolding told_ok_def by auto
  moreover have "q \<in> set (waiting (sw S)) \<union> set (calling (sw S))" if "q \<notin> told S" "o_done x"
    using t tag that unfolding told_ok_def by auto
  ultimately show ?thesis using q x tag by (auto split: if_splits)
qed


text \<open>A server is started synchronously: the caller's frame is 40, the operation 2, the server 1.\<close>

definition sync_demo :: "sync_call list" where
  "sync_demo = [EnterStart Host True (Some [123]) 1 40, Advance 40 demo_sys, Other (Attach 5 demo_sys), Other Pop,
     Other (Complete 2 0 (- 1) demo_sys), Other NotifyTake]"

definition sync_demo_end :: "sync_call list" where
  "sync_demo_end = [Callback, Other (NotifyRetire demo_sys), Advance 40 (demo_sys\<lparr>sys_alloc := (\<lambda>_. None)\<rparr>)]"

lemmas sync_demo_defs = sync_demo_def sync_demo_end_def sync_start_def sync_run_def sync_legal_def other_ok_def fresh_frame_def hs_server_start_def
  sync_advance_def sync_accepted_def sync_done_def goto_def leave_def with_bridge_def run_callback_def sync_callback_def new_sync_def
  hs_server_start_async_def SYNC_CALLBACK_def

lemma sync_demo_lawful: "sync_lawful sync_demo sync_start"
  by (simp add: sync_demo_defs demo_defs model_defs alloc_ok_def legal_def hs_codes)

lemma sync_demo_waits:
  "\<exists>S. sync_exec sync_demo sync_start = Some S \<and> map_of (calls S) 40 = Some (Pending (Some 2) None, False) \<and> calling (sw S) = [2]"
  by (simp add: sync_demo_defs demo_defs model_defs hs_codes)

lemma sync_demo_returns:
  "sync_lawful (sync_demo @ sync_demo_end) sync_start"
  "\<exists>S. sync_exec (sync_demo @ sync_demo_end) sync_start = Some S \<and> returned S = [(40, 0, Some 1)] \<and> calls S = []"
  by (simp_all add: sync_demo_defs demo_defs model_defs alloc_ok_def legal_def hs_codes hs_operation_release_def release_barrier_def)


end
