(* ===== verification/Tls_Ring.thy ===== *)
theory Tls_Ring
  imports HS_Prelude "HOL-Library.Monad_Syntax"
begin

text \<open>
  The bounded byte buffers of \<^verbatim>\<open>tls/tls_bridge.c\<close>: a \<open>malloc\<close>ed array of \<open>HS_TLS_BUF_CAP\<close> bytes and the
  number of valid bytes at its front. Appending is a \<open>memcpy\<close> behind them, taking is a \<open>memcpy\<close> of a
  prefix and a \<open>memmove\<close> of the rest. A copy that leaves its array is \<open>None\<close>. Lengths are natural
  numbers: the code's \<open>size_t\<close> sums are of a buffer length and the length of another object in
  memory, so they do not wrap.

  The locale \<open>byte_stream\<close> is what both directions of a connection promise: bytes come out in the order in
  which they were accepted, none lost and none invented.
\<close>

definition HS_TLS_BUF_CAP :: nat where "HS_TLS_BUF_CAP = 16384 + 512"

subsection \<open>Copies\<close>

definition memcpy_at :: "bytes \<Rightarrow> nat \<Rightarrow> bytes \<Rightarrow> bytes option" where
  "memcpy_at dst off src =
     (if off + length src \<le> length dst then Some (take off dst @ src @ drop (off + length src) dst) else None)"

text \<open>\<^verbatim>\<open>memmove(buf, buf + n, k)\<close>\<close>

definition memmove_front :: "bytes \<Rightarrow> nat \<Rightarrow> nat \<Rightarrow> bytes option" where
  "memmove_front buf n k = (if n + k \<le> length buf then Some (take k (drop n buf) @ drop k buf) else None)"

lemma memcpy_at_length: "memcpy_at dst off src = Some d \<Longrightarrow> length d = length dst"
  by (auto simp: memcpy_at_def split: if_splits)

lemma memcpy_at_take:
  "memcpy_at dst off src = Some d \<Longrightarrow> take (off + length src) d = take off dst @ src"
  by (auto simp: memcpy_at_def split: if_splits)

lemma memmove_front_take:
  "memmove_front buf n k = Some d \<Longrightarrow> take k d = take k (drop n buf) \<and> length d = length buf"
  by (auto simp: memmove_front_def min_def split: if_splits)

subsection \<open>A ring\<close>

record ring =
  rg_buf :: bytes
  rg_len :: nat

definition ring_ok :: "ring \<Rightarrow> bool" where
  "ring_ok r \<longleftrightarrow> length (rg_buf r) = HS_TLS_BUF_CAP \<and> rg_len r \<le> HS_TLS_BUF_CAP"

definition content :: "ring \<Rightarrow> bytes" where
  "content r = take (rg_len r) (rg_buf r)"

lemma content_length: "ring_ok r \<Longrightarrow> length (content r) = rg_len r"
  by (simp add: ring_ok_def content_def)

definition ring_append :: "bytes \<Rightarrow> ring \<Rightarrow> ring option" where
  "ring_append xs r = do {
     d \<leftarrow> memcpy_at (rg_buf r) (rg_len r) xs;
     Some \<lparr>rg_buf = d, rg_len = rg_len r + length xs\<rparr>
   }"

text \<open>Copy \<open>n\<close> bytes out, then move the rest to the front.\<close>

definition ring_take :: "nat \<Rightarrow> ring \<Rightarrow> (bytes \<times> ring) option" where
  "ring_take n r = do {
     d \<leftarrow> memmove_front (rg_buf r) n (rg_len r - n);
     Some (take n (rg_buf r), \<lparr>rg_buf = d, rg_len = rg_len r - n\<rparr>)
   }"

lemma ring_append_ok:
  assumes "ring_ok r" "rg_len r + length xs \<le> HS_TLS_BUF_CAP"
  shows "\<exists>r'. ring_append xs r = Some r' \<and> ring_ok r' \<and> content r' = content r @ xs"
proof -
  obtain d where d: "memcpy_at (rg_buf r) (rg_len r) xs = Some d"
    using assms by (simp add: memcpy_at_def ring_ok_def)
  from memcpy_at_length [OF d] memcpy_at_take [OF d] assms show ?thesis
    by (simp add: ring_append_def d ring_ok_def content_def)
qed

lemma ring_take_ok:
  assumes "ring_ok r" "n \<le> rg_len r"
  shows "\<exists>r'. ring_take n r = Some (take n (content r), r') \<and> ring_ok r' \<and> content r' = drop n (content r)"
proof -
  obtain d where d: "memmove_front (rg_buf r) n (rg_len r - n) = Some d"
    using assms by (simp add: memmove_front_def ring_ok_def)
  have "rg_len r - n \<le> HS_TLS_BUF_CAP" using assms by (auto simp: ring_ok_def intro: le_trans [OF diff_le_self])
  with memmove_front_take [OF d] assms show ?thesis
    by (simp add: ring_take_def d ring_ok_def content_def drop_take min_def)
qed

subsection \<open>The stream interface\<close>

text \<open>
  The two operations of one direction of a connection. \<open>account r a d r'\<close> says that a run that accepted
  the bytes \<open>a\<close> and delivered the bytes \<open>d\<close> went from \<open>r\<close> to \<open>r'\<close> without losing, inventing or
  reordering any.
\<close>

locale byte_stream =
  fixes ok :: "'r \<Rightarrow> bool"
    and bytes_of :: "'r \<Rightarrow> bytes"
    and put :: "bytes \<Rightarrow> 'r \<Rightarrow> (nat \<times> 'r) option"
    and get :: "nat \<Rightarrow> 'r \<Rightarrow> (bytes \<times> 'r) option"
    and cap :: nat
  assumes put_law: "ok r \<Longrightarrow> \<exists>n r'. put xs r = Some (n, r') \<and> ok r' \<and> n \<le> length xs \<and> bytes_of r' = bytes_of r @ take n xs"
    and get_law: "ok r \<Longrightarrow> \<exists>ys r'. get k r = Some (ys, r') \<and> ok r' \<and> length ys \<le> k \<and> bytes_of r = ys @ bytes_of r'"
    and cap_law: "ok r \<Longrightarrow> length (bytes_of r) \<le> cap"
begin

definition account :: "'r \<Rightarrow> bytes \<Rightarrow> bytes \<Rightarrow> 'r \<Rightarrow> bool" where
  "account r a d r' \<longleftrightarrow> ok r' \<and> bytes_of r @ a = d @ bytes_of r'"

lemma account_refl: "ok r \<Longrightarrow> account r [] [] r"
  by (simp add: account_def)

lemma account_put:
  assumes "account r a d r'"
  shows "\<exists>n r''. put xs r' = Some (n, r'') \<and> n \<le> length xs \<and> account r (a @ take n xs) d r''"
  using put_law [of r' xs] assms by (auto simp: account_def append_assoc [symmetric] simp del: append_assoc)

lemma account_get:
  assumes "account r a d r'"
  shows "\<exists>ys r''. get k r' = Some (ys, r'') \<and> length ys \<le> k \<and> account r a (d @ ys) r''"
  using get_law [of r' k] assms by (fastforce simp: account_def)

text \<open>What is delivered is a prefix of what was held and accepted; what is not yet delivered fits in the ring.\<close>

lemma account_prefix:
  assumes "account r a d r'"
  shows "d = take (length d) (bytes_of r @ a)" "length (bytes_of r @ a) - length d \<le> cap"
  using assms cap_law [of r'] by (simp_all add: account_def)

end

end
