(* ===== verification/Tls_Bridge.thy ===== *)
theory Tls_Bridge
  imports Tls_Ring
begin

text \<open>
  The MbedTLS bridge, \<^verbatim>\<open>tls/tls_bridge.c\<close>: acceptors and connections behind integer handles, the two
  ciphertext rings of a connection, the I/O calls, and the encoding of error codes.

  The TLS engine is the vendored MbedTLS. What one call of it does is a parameter, a program
  \<open>ssl_prog\<close> that sends and receives through the callbacks \<open>hs_tls_bio_send\<close> and \<open>hs_tls_bio_recv\<close> and then
  returns a code, the bytes it wrote to the caller's buffer, and its new state: every engine,
  conforming or not, is covered unless a theorem says what it relies on.

  A handle is the address of an object, as in the code. Reading the magic number of an address that
  holds no object is \<open>None\<close>. A connection keeps a pointer into its acceptor (\<open>mbedtls_ssl_setup\<close> stores
  \<open>&acc->conf\<close>, here the field \<open>t_acc\<close>): running the engine after the acceptor is freed is \<open>None\<close> too.
\<close>

subsection \<open>Error codes\<close>

definition HS_TLS_ERR_OFFSET :: int where "HS_TLS_ERR_OFFSET = 1000000"
definition HS_TLS_ERR :: "int \<Rightarrow> int" where "HS_TLS_ERR code = - (HS_TLS_ERR_OFFSET - code)"
definition HS_TLS_ERR_NOMEM :: int where "HS_TLS_ERR_NOMEM = HS_TLS_ERR (- 0x7F00)"
definition HS_TLS_ERR_BAD_HANDLE :: int where "HS_TLS_ERR_BAD_HANDLE = HS_TLS_ERR (- 0x7F02)"
definition HS_TLS_ERR_OVERFLOW :: int where "HS_TLS_ERR_OVERFLOW = HS_TLS_ERR (- 0x7F03)"
definition HS_TLS_PSA_OFFSET :: int where "HS_TLS_PSA_OFFSET = 100000"
definition HS_TLS_CONN_MAGIC :: u64 where "HS_TLS_CONN_MAGIC = 0x4853544C434E4E31"
definition HS_TLS_ACC_MAGIC :: u64 where "HS_TLS_ACC_MAGIC = 0x4853544C41434331"

lemmas tls_codes = HS_TLS_ERR_OFFSET_def HS_TLS_ERR_def HS_TLS_ERR_NOMEM_def HS_TLS_ERR_BAD_HANDLE_def
  HS_TLS_ERR_OVERFLOW_def HS_TLS_PSA_OFFSET_def

text \<open>Codes of \<^verbatim>\<open>mbedtls/ssl.h\<close> and \<^verbatim>\<open>mbedtls/x509.h\<close> the bridge names.\<close>

definition MBEDTLS_ERR_SSL_WANT_READ :: int where "MBEDTLS_ERR_SSL_WANT_READ = - 0x6900"
definition MBEDTLS_ERR_SSL_WANT_WRITE :: int where "MBEDTLS_ERR_SSL_WANT_WRITE = - 0x6880"
definition MBEDTLS_ERR_SSL_PEER_CLOSE_NOTIFY :: int where "MBEDTLS_ERR_SSL_PEER_CLOSE_NOTIFY = - 0x7880"
definition MBEDTLS_ERR_X509_FILE_IO_ERROR :: int where "MBEDTLS_ERR_X509_FILE_IO_ERROR = - 0x2900"

lemmas ssl_codes = MBEDTLS_ERR_SSL_WANT_READ_def MBEDTLS_ERR_SSL_WANT_WRITE_def
  MBEDTLS_ERR_SSL_PEER_CLOSE_NOTIFY_def MBEDTLS_ERR_X509_FILE_IO_ERROR_def

text \<open>\<^verbatim>\<open>printf("%d")\<close>\<close>

fun dec_nat :: "nat \<Rightarrow> string" where
  "dec_nat n = (if n < 10 then [char_of (48 + n)] else dec_nat (n div 10) @ [char_of (48 + n mod 10)])"

declare dec_nat.simps [simp del]

definition dec_int :: "int \<Rightarrow> string" where
  "dec_int i = (if i < 0 then CHR ''-'' # dec_nat (nat (- i)) else dec_nat (nat i))"

text \<open>\<open>strerr\<close> is \<^verbatim>\<open>mbedtls_strerror\<close>; both texts are cut to the 511 characters that fit in \<open>target\<close>.\<close>

definition http_server_tls_strerror :: "(int \<Rightarrow> string) \<Rightarrow> int \<Rightarrow> string" where
  "http_server_tls_strerror strerr code = take 511
     (if code \<le> - HS_TLS_PSA_OFFSET then ''PSA error '' @ dec_int (- (code + HS_TLS_PSA_OFFSET))
      else if code \<le> - HS_TLS_ERR_OFFSET then strerr (code + HS_TLS_ERR_OFFSET)
      else strerr code)"

subsection \<open>Objects\<close>

datatype authmode = AuthUnset | AuthNone | AuthRequired

record hs_tls_acceptor_t =
  a_magic :: u64
  a_max_tls13 :: bool
  a_authmode :: authmode
  a_ca_chain :: bool
  a_has_own_cert :: bool
  a_is_client :: bool

record 's hs_tls_conn_t =
  t_magic :: u64
  t_ssl :: 's
  t_acc :: int
  t_in :: ring
  t_out :: ring

record 's tls =
  accs :: "int \<rightharpoonup> hs_tls_acceptor_t"
  conns :: "int \<rightharpoonup> 's hs_tls_conn_t"
  slots :: "ptr \<rightharpoonup> int"
  acc_slots :: "ptr \<rightharpoonup> int"
  hs_tls_conn_count :: int
  hs_tls_acceptor_count :: int
  inited :: bool

definition init_tls :: "'s tls" where
  "init_tls = \<lparr>accs = Map.empty, conns = Map.empty, slots = Map.empty, acc_slots = Map.empty,
     hs_tls_conn_count = 0, hs_tls_acceptor_count = 0, inited = False\<rparr>"

definition http_server_tls_conn_count :: "'s tls \<Rightarrow> int" where
  "http_server_tls_conn_count t = hs_tls_conn_count t"

definition http_server_tls_acceptor_count :: "'s tls \<Rightarrow> int" where
  "http_server_tls_acceptor_count t = hs_tls_acceptor_count t"

definition http_server_tls_global_init :: "int \<Rightarrow> 's tls \<Rightarrow> int \<times> 's tls" where
  "http_server_tls_global_init psa_status t =
     (if inited t then (0, t)
      else if psa_status \<noteq> 0 then (- (HS_TLS_PSA_OFFSET + psa_status), t)
      else (0, t\<lparr>inited := True\<rparr>))"

subsection \<open>Acceptors\<close>

definition hs_tls_acceptor_destroy :: "int \<Rightarrow> 's tls \<Rightarrow> 's tls option" where
  "hs_tls_acceptor_destroy h t =
     (if h = 0 then Some t
      else do {
        a \<leftarrow> accs t h;
        if a_magic a \<noteq> HS_TLS_ACC_MAGIC then Some t
        else Some (t\<lparr>accs := (accs t)(h := None), hs_tls_acceptor_count := hs_tls_acceptor_count t - 1\<rparr>)
      })"

definition new_acceptor :: "bool \<Rightarrow> hs_tls_acceptor_t" where
  "new_acceptor client = \<lparr>a_magic = HS_TLS_ACC_MAGIC, a_max_tls13 = False, a_authmode = AuthUnset,
     a_ca_chain = False, a_has_own_cert = False, a_is_client = client\<rparr>"

text \<open>\<open>defaults\<close> is the result of \<^verbatim>\<open>mbedtls_ssl_config_defaults\<close>.\<close>

definition hs_tls_acceptor_setup_common :: "int \<Rightarrow> hs_tls_acceptor_t \<Rightarrow> int \<times> hs_tls_acceptor_t" where
  "hs_tls_acceptor_setup_common defaults a =
     (if defaults \<noteq> 0 then (defaults, a) else (0, a\<lparr>a_max_tls13 := True\<rparr>))"

text \<open>\<open>goto fail\<close>\<close>

definition acceptor_fail :: "int \<Rightarrow> int \<Rightarrow> 's tls \<Rightarrow> (int \<times> 's tls) option" where
  "acceptor_fail h ret t = do { t \<leftarrow> hs_tls_acceptor_destroy h t; Some (HS_TLS_ERR ret, t) }"

text \<open>
  The results of \<open>config_defaults\<close>, \<open>x509_crt_parse\<close>, \<open>pk_parse_key\<close> and \<open>conf_own_cert\<close> are parameters;
  \<open>mem\<close> is the result of \<open>calloc\<close>.
\<close>

definition http_server_tls_acceptor_new_server :: "int option \<Rightarrow> int \<Rightarrow> int \<Rightarrow> int \<Rightarrow> int \<Rightarrow> 's tls \<Rightarrow> (int \<times> 's tls) option" where
  "http_server_tls_acceptor_new_server mem defaults crt pk own t =
     (case mem of
        None \<Rightarrow> Some (HS_TLS_ERR_NOMEM, t)
      | Some h \<Rightarrow>
          let (ret, a) = hs_tls_acceptor_setup_common defaults (new_acceptor False);
              t = t\<lparr>accs := (accs t)(h \<mapsto> a), hs_tls_acceptor_count := hs_tls_acceptor_count t + 1\<rparr>
          in if ret \<noteq> 0 then acceptor_fail h ret t
             else if crt \<noteq> 0 then acceptor_fail h crt t
             else if pk \<noteq> 0 then acceptor_fail h pk t
             else if own \<noteq> 0 then acceptor_fail h own t
             else Some (h, t\<lparr>accs := (accs t)(h \<mapsto> a\<lparr>a_has_own_cert := True\<rparr>)\<rparr>))"

definition http_server_tls_acceptor_new_client :: "int option \<Rightarrow> int \<Rightarrow> int \<Rightarrow> int \<Rightarrow> bool \<Rightarrow> 's tls \<Rightarrow> (int \<times> 's tls) option" where
  "http_server_tls_acceptor_new_client mem defaults crt ca_len insecure t =
     (case mem of
        None \<Rightarrow> Some (HS_TLS_ERR_NOMEM, t)
      | Some h \<Rightarrow>
          let (ret, a) = hs_tls_acceptor_setup_common defaults (new_acceptor True);
              t = t\<lparr>accs := (accs t)(h \<mapsto> a), hs_tls_acceptor_count := hs_tls_acceptor_count t + 1\<rparr>
          in if ret \<noteq> 0 then acceptor_fail h ret t
             else if insecure then Some (h, t\<lparr>accs := (accs t)(h \<mapsto> a\<lparr>a_authmode := AuthNone\<rparr>)\<rparr>)
             else if ca_len \<le> 0 then acceptor_fail h MBEDTLS_ERR_X509_FILE_IO_ERROR t
             else if crt \<noteq> 0 then acceptor_fail h crt t
             else Some (h, t\<lparr>accs := (accs t)(h \<mapsto> a\<lparr>a_ca_chain := True, a_authmode := AuthRequired\<rparr>)\<rparr>))"

definition http_server_tls_acceptor_close :: "int \<Rightarrow> 's tls \<Rightarrow> 's tls option" where
  "http_server_tls_acceptor_close h t = hs_tls_acceptor_destroy h t"

text \<open>Inner \<open>None\<close>: the null pointer.\<close>

definition hs_tls_acceptor_get :: "int \<Rightarrow> 's tls \<Rightarrow> hs_tls_acceptor_t option option" where
  "hs_tls_acceptor_get h t =
     (if h = 0 then Some None
      else do { a \<leftarrow> accs t h; if a_magic a \<noteq> HS_TLS_ACC_MAGIC then Some None else Some (Some a) })"

subsection \<open>The engine's callbacks\<close>

definition hs_tls_bio_send :: "'s hs_tls_conn_t \<Rightarrow> bytes \<Rightarrow> (int \<times> 's hs_tls_conn_t) option" where
  "hs_tls_bio_send c buf =
     (if rg_len (t_out c) + length buf > HS_TLS_BUF_CAP then
        let n = HS_TLS_BUF_CAP - rg_len (t_out c)
        in if n = 0 then Some (MBEDTLS_ERR_SSL_WANT_WRITE, c)
           else do {
             r \<leftarrow> ring_append (take n buf) (t_out c);
             Some (int n, c\<lparr>t_out := r\<rparr>)
           }
      else do {
        r \<leftarrow> ring_append buf (t_out c);
        Some (int (length buf), c\<lparr>t_out := r\<rparr>)
      })"

definition hs_tls_bio_recv :: "'s hs_tls_conn_t \<Rightarrow> nat \<Rightarrow> (int \<times> bytes \<times> 's hs_tls_conn_t) option" where
  "hs_tls_bio_recv c len =
     (if rg_len (t_in c) = 0 then Some (MBEDTLS_ERR_SSL_WANT_READ, [], c)
      else let n = (if len < rg_len (t_in c) then len else rg_len (t_in c))
           in do {
             (out, r) \<leftarrow> ring_take n (t_in c);
             Some (int n, out, c\<lparr>t_in := r\<rparr>)
           })"

datatype 's ssl_prog =
    SslRet int bytes 's
  | SslSend bytes "int \<Rightarrow> 's ssl_prog"
  | SslRecv nat "int \<Rightarrow> bytes \<Rightarrow> 's ssl_prog"

text \<open>One call of the engine: its return code, what it wrote to the caller, and the connection after it.\<close>

primrec run_ssl :: "'s ssl_prog \<Rightarrow> 's hs_tls_conn_t \<Rightarrow> (int \<times> bytes \<times> 's hs_tls_conn_t) option" where
  "run_ssl (SslRet ret dat s) c = Some (ret, dat, c\<lparr>t_ssl := s\<rparr>)"
| "run_ssl (SslSend buf k) c = (case hs_tls_bio_send c buf of None \<Rightarrow> None | Some (n, c') \<Rightarrow> run_ssl (k n) c')"
| "run_ssl (SslRecv len k) c = (case hs_tls_bio_recv c len of None \<Rightarrow> None | Some (n, d, c') \<Rightarrow> run_ssl (k n d) c')"

subsection \<open>Connections\<close>

definition hs_tls_conn_destroy :: "int \<Rightarrow> 's tls \<Rightarrow> 's tls option" where
  "hs_tls_conn_destroy h t =
     (if h = 0 then Some t
      else do {
        c \<leftarrow> conns t h;
        if t_magic c \<noteq> HS_TLS_CONN_MAGIC then Some t
        else Some (t\<lparr>conns := (conns t)(h := None), hs_tls_conn_count := hs_tls_conn_count t - 1\<rparr>)
      })"

definition hs_tls_conn_get :: "int \<Rightarrow> 's tls \<Rightarrow> 's hs_tls_conn_t option option" where
  "hs_tls_conn_get h t =
     (if h = 0 then Some None
      else do { c \<leftarrow> conns t h; if t_magic c \<noteq> HS_TLS_CONN_MAGIC then Some None else Some (Some c) })"

text \<open>
  \<open>mem\<close>, \<open>mem_in\<close>, \<open>mem_out\<close> are the results of the allocations (the two arrays with whatever bytes they hold),
  \<open>setup\<close> and \<open>host\<close> the results of \<open>mbedtls_ssl_setup\<close> and \<open>mbedtls_ssl_set_hostname\<close>, \<open>s\<close> the engine's state.
\<close>

definition http_server_tls_conn_new :: "int \<Rightarrow> int option \<Rightarrow> bytes option \<Rightarrow> bytes option \<Rightarrow> int \<Rightarrow> int \<Rightarrow> int \<Rightarrow> 's \<Rightarrow> 's tls \<Rightarrow>
    (int \<times> 's tls) option" where
  "http_server_tls_conn_new acceptor mem mem_in mem_out setup hostname_len host s t = do {
     a \<leftarrow> hs_tls_acceptor_get acceptor t;
     case a of
       None \<Rightarrow> Some (HS_TLS_ERR_BAD_HANDLE, t)
     | Some _ \<Rightarrow> (case mem of
         None \<Rightarrow> Some (HS_TLS_ERR_NOMEM, t)
       | Some h \<Rightarrow>
           let c = \<lparr>t_magic = HS_TLS_CONN_MAGIC, t_ssl = s, t_acc = acceptor,
                    t_in = \<lparr>rg_buf = (case mem_in of None \<Rightarrow> [] | Some d \<Rightarrow> d), rg_len = 0\<rparr>,
                    t_out = \<lparr>rg_buf = (case mem_out of None \<Rightarrow> [] | Some d \<Rightarrow> d), rg_len = 0\<rparr>\<rparr>;
               t = t\<lparr>conns := (conns t)(h \<mapsto> c), hs_tls_conn_count := hs_tls_conn_count t + 1\<rparr>
           in if mem_in = None \<or> mem_out = None then do {
                t \<leftarrow> hs_tls_conn_destroy h t; Some (HS_TLS_ERR_NOMEM, t)
              }
              else if setup \<noteq> 0 then do { t \<leftarrow> hs_tls_conn_destroy h t; Some (HS_TLS_ERR setup, t) }
              else if hostname_len > 0 \<and> host \<noteq> 0 then do {
                t \<leftarrow> hs_tls_conn_destroy h t; Some (HS_TLS_ERR host, t)
              }
              else Some (h, t))
   }"

subsection \<open>External objects\<close>

text \<open>\<open>slot\<close> is the address of the object \<open>moonbit_make_external_object\<close> returned.\<close>

definition http_server_tls_conn_wrap :: "int \<Rightarrow> ptr \<Rightarrow> 's tls \<Rightarrow> (ptr option \<times> 's tls) option" where
  "http_server_tls_conn_wrap h slot t = do {
     c \<leftarrow> hs_tls_conn_get h t;
     case c of None \<Rightarrow> Some (None, t) | Some _ \<Rightarrow> Some (Some slot, t\<lparr>slots := (slots t)(slot \<mapsto> h)\<rparr>)
   }"

definition http_server_tls_acceptor_wrap :: "int \<Rightarrow> ptr \<Rightarrow> 's tls \<Rightarrow> (ptr option \<times> 's tls) option" where
  "http_server_tls_acceptor_wrap h slot t = do {
     a \<leftarrow> hs_tls_acceptor_get h t;
     case a of None \<Rightarrow> Some (None, t) | Some _ \<Rightarrow> Some (Some slot, t\<lparr>acc_slots := (acc_slots t)(slot \<mapsto> h)\<rparr>)
   }"

definition http_server_tls_conn_close_obj :: "ptr \<Rightarrow> 's tls \<Rightarrow> 's tls option" where
  "http_server_tls_conn_close_obj slot t = do {
     h \<leftarrow> slots t slot;
     if h = 0 then Some t
     else hs_tls_conn_destroy h (t\<lparr>slots := (slots t)(slot \<mapsto> 0)\<rparr>)
   }"

definition http_server_tls_acceptor_close_obj :: "ptr \<Rightarrow> 's tls \<Rightarrow> 's tls option" where
  "http_server_tls_acceptor_close_obj slot t = do {
     h \<leftarrow> acc_slots t slot;
     if h = 0 then Some t
     else hs_tls_acceptor_destroy h (t\<lparr>acc_slots := (acc_slots t)(slot \<mapsto> 0)\<rparr>)
   }"

text \<open>The finalizers run once, when the collector frees the container.\<close>

definition hs_tls_conn_finalize :: "ptr \<Rightarrow> 's tls \<Rightarrow> 's tls option" where
  "hs_tls_conn_finalize slot t =
     map_option (\<lambda>t. t\<lparr>slots := (slots t)(slot := None)\<rparr>) (http_server_tls_conn_close_obj slot t)"

definition hs_tls_acceptor_finalize :: "ptr \<Rightarrow> 's tls \<Rightarrow> 's tls option" where
  "hs_tls_acceptor_finalize slot t =
     map_option (\<lambda>t. t\<lparr>acc_slots := (acc_slots t)(slot := None)\<rparr>) (http_server_tls_acceptor_close_obj slot t)"

subsection \<open>Input and output\<close>

definition with_conn :: "int \<Rightarrow> 's tls \<Rightarrow> ('s hs_tls_conn_t \<Rightarrow> (int \<times> 'a \<times> 's hs_tls_conn_t) option) \<Rightarrow> 'a \<Rightarrow> (int \<times> 'a \<times> 's tls) option" where
  "with_conn h t f z = do {
     c \<leftarrow> hs_tls_conn_get h t;
     case c of
       None \<Rightarrow> Some (HS_TLS_ERR_BAD_HANDLE, z, t)
     | Some c \<Rightarrow> do { (ret, x, c') \<leftarrow> f c; Some (ret, x, t\<lparr>conns := (conns t)(h \<mapsto> c')\<rparr>) }
   }"

text \<open>A call that enters the engine: the configuration the connection points to must still be there.\<close>

definition with_engine :: "int \<Rightarrow> 's tls \<Rightarrow> ('s hs_tls_conn_t \<Rightarrow> (int \<times> 'a \<times> 's hs_tls_conn_t) option) \<Rightarrow> 'a \<Rightarrow> (int \<times> 'a \<times> 's tls) option" where
  "with_engine h t f z = with_conn h t (\<lambda>c. if accs t (t_acc c) = None then None else f c) z"

text \<open>\<open>buf\<close> is the caller's array, \<open>len\<close> the number of its bytes to feed; reading past its end is \<open>None\<close>.\<close>

definition feed :: "bytes \<Rightarrow> int \<Rightarrow> 's hs_tls_conn_t \<Rightarrow> (int \<times> unit \<times> 's hs_tls_conn_t) option" where
  "feed buf len c =
     (if len \<le> 0 then Some (0, (), c)
      else if rg_len (t_in c) + nat len > HS_TLS_BUF_CAP then Some (HS_TLS_ERR_OVERFLOW, (), c)
      else if nat len > length buf then None
      else do { r \<leftarrow> ring_append (take (nat len) buf) (t_in c); Some (len, (), c\<lparr>t_in := r\<rparr>) })"

definition http_server_tls_feed :: "int \<Rightarrow> bytes \<Rightarrow> int \<Rightarrow> 's tls \<Rightarrow> (int \<times> unit \<times> 's tls) option" where
  "http_server_tls_feed h buf len t = with_conn h t (feed buf len) ()"

definition http_server_tls_in_space :: "int \<Rightarrow> 's tls \<Rightarrow> (int \<times> unit \<times> 's tls) option" where
  "http_server_tls_in_space h t = with_conn h t (\<lambda>c. Some (int HS_TLS_BUF_CAP - int (rg_len (t_in c)), (), c)) ()"

definition take_output :: "bytes \<Rightarrow> int \<Rightarrow> 's hs_tls_conn_t \<Rightarrow> (int \<times> bytes \<times> 's hs_tls_conn_t) option" where
  "take_output buf cap c =
     (if cap \<le> 0 \<or> rg_len (t_out c) = 0 then Some (0, buf, c)
      else let n = (if nat cap < rg_len (t_out c) then nat cap else rg_len (t_out c))
           in do {
             (out, r) \<leftarrow> ring_take n (t_out c);
             buf \<leftarrow> memcpy_at buf 0 out;
             Some (int n, buf, c\<lparr>t_out := r\<rparr>)
           })"

definition http_server_tls_take_output :: "int \<Rightarrow> bytes \<Rightarrow> int \<Rightarrow> 's tls \<Rightarrow> (int \<times> bytes \<times> 's tls) option" where
  "http_server_tls_take_output h buf cap t = with_conn h t (take_output buf cap) buf"

definition http_server_tls_output_pending :: "int \<Rightarrow> 's tls \<Rightarrow> (int \<times> unit \<times> 's tls) option" where
  "http_server_tls_output_pending h t = with_conn h t (\<lambda>c. Some (int (rg_len (t_out c)), (), c)) ()"

definition want_code :: "int \<Rightarrow> int" where
  "want_code ret =
     (if ret = MBEDTLS_ERR_SSL_WANT_READ then - 1
      else if ret = MBEDTLS_ERR_SSL_WANT_WRITE then - 2
      else HS_TLS_ERR ret)"

definition finish_call :: "('s \<Rightarrow> 's ssl_prog) \<Rightarrow> 's hs_tls_conn_t \<Rightarrow> (int \<times> unit \<times> 's hs_tls_conn_t) option" where
  "finish_call prog c = do {
     (ret, _, c) \<leftarrow> run_ssl (prog (t_ssl c)) c;
     Some (if ret = 0 then 0 else want_code ret, (), c)
   }"

definition http_server_tls_handshake :: "('s \<Rightarrow> 's ssl_prog) \<Rightarrow> int \<Rightarrow> 's tls \<Rightarrow> (int \<times> unit \<times> 's tls) option" where
  "http_server_tls_handshake prog h t = with_engine h t (finish_call prog) ()"

definition http_server_tls_shutdown :: "('s \<Rightarrow> 's ssl_prog) \<Rightarrow> int \<Rightarrow> 's tls \<Rightarrow> (int \<times> unit \<times> 's tls) option" where
  "http_server_tls_shutdown prog h t = with_engine h t (finish_call prog) ()"

text \<open>\<open>buf\<close> is the caller's array; the engine's bytes land at \<open>offset\<close>.\<close>

definition read_call :: "('s \<Rightarrow> nat \<Rightarrow> 's ssl_prog) \<Rightarrow> bytes \<Rightarrow> nat \<Rightarrow> int \<Rightarrow> 's hs_tls_conn_t \<Rightarrow> (int \<times> bytes \<times> 's hs_tls_conn_t) option" where
  "read_call prog buf offset cap c =
     (if cap \<le> 0 then Some (0, buf, c)
      else do {
        (ret, dat, c) \<leftarrow> run_ssl (prog (t_ssl c) (nat cap)) c;
        buf \<leftarrow> memcpy_at buf offset dat;
        Some (if ret > 0 then ret else if ret = 0 then 0
              else if ret = MBEDTLS_ERR_SSL_PEER_CLOSE_NOTIFY then 0 else want_code ret, buf, c)
      })"

definition http_server_tls_read :: "('s \<Rightarrow> nat \<Rightarrow> 's ssl_prog) \<Rightarrow> int \<Rightarrow> bytes \<Rightarrow> nat \<Rightarrow> int \<Rightarrow> 's tls \<Rightarrow> (int \<times> bytes \<times> 's tls) option" where
  "http_server_tls_read prog h buf offset cap t = with_engine h t (read_call prog buf offset cap) buf"

definition write_call :: "('s \<Rightarrow> bytes \<Rightarrow> 's ssl_prog) \<Rightarrow> bytes \<Rightarrow> nat \<Rightarrow> int \<Rightarrow> 's hs_tls_conn_t \<Rightarrow> (int \<times> unit \<times> 's hs_tls_conn_t) option" where
  "write_call prog buf offset len c =
     (if len \<le> 0 then Some (0, (), c)
      else if offset + nat len > length buf then None
      else do {
        (ret, _, c) \<leftarrow> run_ssl (prog (t_ssl c) (take (nat len) (drop offset buf))) c;
        Some (if ret > 0 then ret else want_code ret, (), c)
      })"

definition http_server_tls_write :: "('s \<Rightarrow> bytes \<Rightarrow> 's ssl_prog) \<Rightarrow> int \<Rightarrow> bytes \<Rightarrow> nat \<Rightarrow> int \<Rightarrow> 's tls \<Rightarrow> (int \<times> unit \<times> 's tls) option" where
  "http_server_tls_write prog h buf offset len t = with_engine h t (write_call prog buf offset len) ()"

definition http_server_tls_handshake_over :: "('s \<Rightarrow> bool) \<Rightarrow> int \<Rightarrow> 's tls \<Rightarrow> (int \<times> unit \<times> 's tls) option" where
  "http_server_tls_handshake_over over h t = with_conn h t (\<lambda>c. Some (if over (t_ssl c) then 1 else 0, (), c)) ()"

end
