(* ===== verification/Tls_Stream.thy ===== *)
theory Tls_Stream
  imports Tls_Bridge
begin

text \<open>
  The two directions of a TLS connection as byte streams. The output ring is filled by the engine through
  \<open>hs_tls_bio_send\<close> and emptied by \<open>take_output\<close>; the input ring is filled by \<open>feed\<close> and emptied by the engine through
  \<open>hs_tls_bio_recv\<close>. Both are interpretations of \<open>byte_stream\<close>; a run of any sequence of calls, with any
  engine, is shown to keep both streams.
\<close>

definition conn_ok :: "'s hs_tls_conn_t \<Rightarrow> bool" where
  "conn_ok c \<longleftrightarrow> t_magic c = HS_TLS_CONN_MAGIC \<and> ring_ok (t_in c) \<and> ring_ok (t_out c)"

subsection \<open>The operations on one connection\<close>

lemma bio_send_ok:
  assumes "conn_ok c"
  shows "\<exists>n c'. hs_tls_bio_send c buf = Some (n, c') \<and> conn_ok c' \<and> nat n \<le> length buf \<and> t_in c' = t_in c \<and>
    t_acc c' = t_acc c \<and> content (t_out c') = content (t_out c) @ take (nat n) buf"
proof -
  have r: "ring_ok (t_out c)" and fit: "rg_len (t_out c) \<le> HS_TLS_BUF_CAP"
    using assms by (auto simp: conn_ok_def ring_ok_def)
  let ?n = "HS_TLS_BUF_CAP - rg_len (t_out c)"
  consider (all) "rg_len (t_out c) + length buf \<le> HS_TLS_BUF_CAP"
    | (full) "rg_len (t_out c) + length buf > HS_TLS_BUF_CAP" "?n = 0"
    | (part) "rg_len (t_out c) + length buf > HS_TLS_BUF_CAP" "?n > 0"
    by linarith
  then show ?thesis
  proof cases
    case all
    from ring_append_ok [OF r all] all assms show ?thesis
      by (auto simp: hs_tls_bio_send_def conn_ok_def)
  next
    case full
    with assms show ?thesis
      by (auto simp: hs_tls_bio_send_def Let_def ssl_codes)
  next
    case part
    define n where "n = HS_TLS_BUF_CAP - rg_len (t_out c)"
    have n: "n \<noteq> 0" "n \<le> length buf" "rg_len (t_out c) + length (take n buf) \<le> HS_TLS_BUF_CAP"
      using part fit by (auto simp: n_def)
    from ring_append_ok [OF r n(3)] n(1,2) part assms show ?thesis
      by (auto simp: hs_tls_bio_send_def Let_def conn_ok_def n_def [symmetric])
  qed
qed

lemma bio_recv_ok:
  assumes "conn_ok c"
  shows "\<exists>n d c'. hs_tls_bio_recv c len = Some (n, d, c') \<and> conn_ok c' \<and> length d \<le> len \<and> t_out c' = t_out c \<and>
    t_acc c' = t_acc c \<and> content (t_in c) = d @ content (t_in c')"
proof (cases "rg_len (t_in c) = 0")
  case True
  with assms show ?thesis by (simp add: hs_tls_bio_recv_def)
next
  case False
  have r: "ring_ok (t_in c)" using assms by (simp add: conn_ok_def)
  define n where "n = (if len < rg_len (t_in c) then len else rg_len (t_in c))"
  have n: "n \<le> rg_len (t_in c)" "n \<le> len" by (auto simp: n_def)
  obtain r' where r': "ring_take n (t_in c) = Some (take n (content (t_in c)), r')" "ring_ok r'"
    "content r' = drop n (content (t_in c))"
    using ring_take_ok [OF r n(1)] by blast
  have "hs_tls_bio_recv c len = Some (int n, take n (content (t_in c)), c\<lparr>t_in := r'\<rparr>)"
    using False r'(1) by (simp add: hs_tls_bio_recv_def Let_def n_def [symmetric])
  then show ?thesis
    using assms r'(2) n(2) by (simp add: conn_ok_def r'(3))
qed

lemma feed_ok:
  assumes "conn_ok c" "nat len \<le> length buf"
  shows "\<exists>n c'. feed buf len c = Some (n, (), c') \<and> conn_ok c' \<and> nat n \<le> nat len \<and> t_out c' = t_out c \<and>
    t_acc c' = t_acc c \<and> content (t_in c') = content (t_in c) @ take (nat n) buf"
proof -
  have r: "ring_ok (t_in c)" using assms by (simp add: conn_ok_def)
  consider (none) "len \<le> 0" | (over) "0 < len" "rg_len (t_in c) + nat len > HS_TLS_BUF_CAP"
    | (all) "0 < len" "rg_len (t_in c) + nat len \<le> HS_TLS_BUF_CAP" by linarith
  then show ?thesis
  proof cases
    case none
    with assms show ?thesis by (simp add: feed_def)
  next
    case over
    with assms show ?thesis by (simp add: feed_def tls_codes)
  next
    case all
    then have "rg_len (t_in c) + length (take (nat len) buf) \<le> HS_TLS_BUF_CAP" by simp
    from ring_append_ok [OF r this] all assms show ?thesis
      by (auto simp: feed_def conn_ok_def)
  qed
qed

lemma take_output_ok:
  assumes "conn_ok c" "nat cap \<le> length buf"
  shows "\<exists>n buf' c'. take_output buf cap c = Some (n, buf', c') \<and> conn_ok c' \<and> nat n \<le> nat cap \<and> t_in c' = t_in c \<and>
    t_acc c' = t_acc c \<and> length buf' = length buf \<and> content (t_out c) = take (nat n) buf' @ content (t_out c')"
proof (cases "cap \<le> 0 \<or> rg_len (t_out c) = 0")
  case True
  with assms show ?thesis by (auto simp: take_output_def)
next
  case False
  have r: "ring_ok (t_out c)" using assms by (simp add: conn_ok_def)
  define n where "n = (if nat cap < rg_len (t_out c) then nat cap else rg_len (t_out c))"
  have n: "n \<le> rg_len (t_out c)" "n \<le> nat cap" by (auto simp: n_def)
  obtain r' where r': "ring_take n (t_out c) = Some (take n (content (t_out c)), r')" "ring_ok r'"
    "content r' = drop n (content (t_out c))"
    using ring_take_ok [OF r n(1)] by blast
  have l: "length (take n (content (t_out c))) = n"
    using content_length [OF r] n(1) by simp
  then obtain d where d: "memcpy_at buf 0 (take n (content (t_out c))) = Some d"
    using assms(2) n(2) by (simp add: memcpy_at_def)
  have "take n d = take n (content (t_out c))" "length d = length buf"
    using memcpy_at_take [OF d] memcpy_at_length [OF d] l by simp_all
  moreover have "take_output buf cap c = Some (int n, d, c\<lparr>t_out := r'\<rparr>)"
    using False r'(1) d by (simp add: take_output_def Let_def n_def [symmetric])
  ultimately show ?thesis
    using assms(1) r'(2) n(2) by (simp add: conn_ok_def r'(3))
qed

subsection \<open>Both rings are byte streams\<close>

definition out_put :: "bytes \<Rightarrow> 's hs_tls_conn_t \<Rightarrow> (nat \<times> 's hs_tls_conn_t) option" where
  "out_put xs c = map_option (\<lambda>(n, c'). (nat n, c')) (hs_tls_bio_send c xs)"

definition out_get :: "nat \<Rightarrow> 's hs_tls_conn_t \<Rightarrow> (bytes \<times> 's hs_tls_conn_t) option" where
  "out_get k c = map_option (\<lambda>(n, buf, c'). (take (nat n) buf, c')) (take_output (replicate k 0) (int k) c)"

definition in_put :: "bytes \<Rightarrow> 's hs_tls_conn_t \<Rightarrow> (nat \<times> 's hs_tls_conn_t) option" where
  "in_put xs c = map_option (\<lambda>(n, u, c'). (nat n, c')) (feed xs (int (length xs)) c)"

definition in_get :: "nat \<Rightarrow> 's hs_tls_conn_t \<Rightarrow> (bytes \<times> 's hs_tls_conn_t) option" where
  "in_get k c = map_option (\<lambda>(n, d, c'). (d, c')) (hs_tls_bio_recv c k)"

lemma ring_cap: "ring_ok r \<Longrightarrow> length (content r) \<le> HS_TLS_BUF_CAP"
  using content_length [of r] by (simp add: ring_ok_def)

interpretation outs: byte_stream conn_ok "\<lambda>c. content (t_out c)" out_put out_get HS_TLS_BUF_CAP
proof unfold_locales
  fix c :: "'a hs_tls_conn_t" and xs k assume ok: "conn_ok c"
  show "\<exists>n r'. out_put xs c = Some (n, r') \<and> conn_ok r' \<and> n \<le> length xs \<and>
      content (t_out r') = content (t_out c) @ take n xs"
    using bio_send_ok [OF ok, of xs] by (auto simp: out_put_def)
  obtain n buf' c' where t: "take_output (replicate k 0) (int k) c = Some (n, buf', c')" "conn_ok c'" "nat n \<le> k"
    "content (t_out c) = take (nat n) buf' @ content (t_out c')"
    using take_output_ok [OF ok, of "int k" "replicate k 0"] by auto
  then show "\<exists>ys r'. out_get k c = Some (ys, r') \<and> conn_ok r' \<and> length ys \<le> k \<and>
      content (t_out c) = ys @ content (t_out r')"
    by (simp add: out_get_def)
  show "length (content (t_out c)) \<le> HS_TLS_BUF_CAP"
    using ok by (simp add: conn_ok_def ring_cap)
qed

interpretation ins: byte_stream conn_ok "\<lambda>c. content (t_in c)" in_put in_get HS_TLS_BUF_CAP
proof unfold_locales
  fix c :: "'a hs_tls_conn_t" and xs k assume ok: "conn_ok c"
  show "\<exists>n r'. in_put xs c = Some (n, r') \<and> conn_ok r' \<and> n \<le> length xs \<and>
      content (t_in r') = content (t_in c) @ take n xs"
    using feed_ok [OF ok, of "int (length xs)" xs] by (auto simp: in_put_def)
  show "\<exists>ys r'. in_get k c = Some (ys, r') \<and> conn_ok r' \<and> length ys \<le> k \<and>
      content (t_in c) = ys @ content (t_in r')"
    using bio_recv_ok [OF ok, of k] by (auto simp: in_get_def)
  show "length (content (t_in c)) \<le> HS_TLS_BUF_CAP"
    using ok by (simp add: conn_ok_def ring_cap)
qed

end
