(* ===== verification/Tls_Life.thy ===== *)
theory Tls_Life
  imports Tls_Stream Call_Machine
begin

text \<open>
  The life cycle of TLS objects. A \<open>tls_call\<close> is one exported call with its arguments and the results of
  the allocations and library calls inside it; \<open>tls_run\<close> runs it. \<open>tls_legal\<close> says what the caller owes: handles
  are null or live, a handle is wrapped once, an external object is used until its finalizer has
  run, the caller's arrays are as long as it says, and a connection enters the engine only while its
  acceptor is there. Addresses returned by the allocator are fresh and positive.
\<close>

datatype (plugins only: code size) 's tls_call =
    NewServer "int option" int int int int
  | NewClient "int option" int int int bool
  | NewConn int "int option" "bytes option" "bytes option" int int int 's
  | WrapConn int ptr
  | WrapAcceptor int ptr
  | CloseConn ptr
  | CloseAcceptor ptr
  | FinalizeConn ptr
  | FinalizeAcceptor ptr
  | FeedCall int bytes int
  | TakeOutput int bytes int
  | Handshake int "'s \<Rightarrow> 's ssl_prog"
  | ReadCall int "'s \<Rightarrow> nat \<Rightarrow> 's ssl_prog" bytes nat int
  | WriteCall int "'s \<Rightarrow> bytes \<Rightarrow> 's ssl_prog" bytes nat int
  | Shutdown int "'s \<Rightarrow> 's ssl_prog"

primrec tls_run :: "'s tls_call \<Rightarrow> 's tls \<Rightarrow> 's tls option" where
  "tls_run (NewServer mem d c p own) t = map_option snd (http_server_tls_acceptor_new_server mem d c p own t)"
| "tls_run (NewClient mem d c l ins) t = map_option snd (http_server_tls_acceptor_new_client mem d c l ins t)"
| "tls_run (NewConn a mem mi mo s l h e) t = map_option snd (http_server_tls_conn_new a mem mi mo s l h e t)"
| "tls_run (WrapConn h p) t = map_option snd (http_server_tls_conn_wrap h p t)"
| "tls_run (WrapAcceptor h p) t = map_option snd (http_server_tls_acceptor_wrap h p t)"
| "tls_run (CloseConn p) t = http_server_tls_conn_close_obj p t"
| "tls_run (CloseAcceptor p) t = http_server_tls_acceptor_close_obj p t"
| "tls_run (FinalizeConn p) t = hs_tls_conn_finalize p t"
| "tls_run (FinalizeAcceptor p) t = hs_tls_acceptor_finalize p t"
| "tls_run (FeedCall h b n) t = map_option (snd \<circ> snd) (http_server_tls_feed h b n t)"
| "tls_run (TakeOutput h b n) t = map_option (snd \<circ> snd) (http_server_tls_take_output h b n t)"
| "tls_run (Handshake h p) t = map_option (snd \<circ> snd) (http_server_tls_handshake p h t)"
| "tls_run (ReadCall h p b i n) t = map_option (snd \<circ> snd) (http_server_tls_read p h b i n t)"
| "tls_run (WriteCall h p b i n) t = map_option (snd \<circ> snd) (http_server_tls_write p h b i n t)"
| "tls_run (Shutdown h p) t = map_option (snd \<circ> snd) (http_server_tls_shutdown p h t)"

definition conn_handle :: "'s tls \<Rightarrow> int \<Rightarrow> bool" where
  "conn_handle t h \<longleftrightarrow> h = 0 \<or> conns t h \<noteq> None"

definition acc_handle :: "'s tls \<Rightarrow> int \<Rightarrow> bool" where
  "acc_handle t h \<longleftrightarrow> h = 0 \<or> accs t h \<noteq> None"

definition engine_handle :: "'s tls \<Rightarrow> int \<Rightarrow> bool" where
  "engine_handle t h \<longleftrightarrow> h = 0 \<or> (case conns t h of None \<Rightarrow> False | Some c \<Rightarrow> accs t (t_acc c) \<noteq> None)"

definition fresh_mem :: "('a \<rightharpoonup> 'b) \<Rightarrow> 'a :: {zero, linorder} option \<Rightarrow> bool" where
  "fresh_mem m mem = (case mem of None \<Rightarrow> True | Some h \<Rightarrow> 0 < h \<and> m h = None)"

definition full_array :: "bytes option \<Rightarrow> bool" where
  "full_array d = (case d of None \<Rightarrow> True | Some d \<Rightarrow> length d = HS_TLS_BUF_CAP)"

definition engine_fits :: "'s ssl_prog \<Rightarrow> 's hs_tls_conn_t \<Rightarrow> nat \<Rightarrow> bool" where
  "engine_fits p c n = (case run_ssl p c of None \<Rightarrow> True | Some (_, dat, _) \<Rightarrow> length dat \<le> n)"

primrec tls_legal :: "'s tls_call \<Rightarrow> 's tls \<Rightarrow> bool" where
  "tls_legal (NewServer mem d c p own) t = fresh_mem (accs t) mem"
| "tls_legal (NewClient mem d c l ins) t = fresh_mem (accs t) mem"
| "tls_legal (NewConn a mem mi mo s l h e) t = (acc_handle t a \<and> fresh_mem (conns t) mem \<and> full_array mi \<and> full_array mo)"
| "tls_legal (WrapConn h p) t = (conn_handle t h \<and> (h = 0 \<or> h \<notin> ran (slots t)) \<and> slots t p = None)"
| "tls_legal (WrapAcceptor h p) t = (acc_handle t h \<and> (h = 0 \<or> h \<notin> ran (acc_slots t)) \<and> acc_slots t p = None)"
| "tls_legal (CloseConn p) t = (slots t p \<noteq> None)"
| "tls_legal (CloseAcceptor p) t = (acc_slots t p \<noteq> None)"
| "tls_legal (FinalizeConn p) t = (slots t p \<noteq> None)"
| "tls_legal (FinalizeAcceptor p) t = (acc_slots t p \<noteq> None)"
| "tls_legal (FeedCall h b n) t = (conn_handle t h \<and> nat n \<le> length b)"
| "tls_legal (TakeOutput h b n) t = (conn_handle t h \<and> nat n \<le> length b)"
| "tls_legal (Handshake h p) t = engine_handle t h"
| "tls_legal (ReadCall h p b i n) t = (engine_handle t h \<and> i + nat n \<le> length b \<and>
     (case conns t h of None \<Rightarrow> True | Some c \<Rightarrow> engine_fits (p (t_ssl c) (nat n)) c (nat n)))"
| "tls_legal (WriteCall h p b i n) t = (engine_handle t h \<and> i + nat n \<le> length b)"
| "tls_legal (Shutdown h p) t = engine_handle t h"

abbreviation tls_exec :: "'s tls_call list \<Rightarrow> 's tls \<Rightarrow> 's tls option" where
  "tls_exec \<equiv> exec_calls tls_run"

abbreviation tls_lawful :: "'s tls_call list \<Rightarrow> 's tls \<Rightarrow> bool" where
  "tls_lawful \<equiv> lawful_calls tls_run tls_legal"

subsection \<open>The slot table as an owner of objects\<close>

text \<open>Both kinds of object have the same discipline: a heap, a slot table and a counter.\<close>

definition owned :: "(int \<rightharpoonup> 'o) \<Rightarrow> (ptr \<rightharpoonup> int) \<Rightarrow> int \<Rightarrow> bool" where
  "owned heap sl n \<longleftrightarrow> finite (dom heap) \<and> heap 0 = None \<and> n = int (card (dom heap)) \<and>
     (\<forall>p h. sl p = Some h \<longrightarrow> h = 0 \<or> heap h \<noteq> None) \<and>
     (\<forall>p q h. sl p = Some h \<longrightarrow> sl q = Some h \<longrightarrow> h = 0 \<or> p = q)"

lemma owned_alloc: "owned heap sl n \<Longrightarrow> heap h = None \<Longrightarrow> h \<noteq> 0 \<Longrightarrow> owned (heap(h \<mapsto> x)) sl (n + 1)"
  by (auto simp: owned_def card_insert_if)

lemma owned_update: "owned heap sl n \<Longrightarrow> heap h = Some y \<Longrightarrow> owned (heap(h \<mapsto> x)) sl n"
  by (auto simp: owned_def insert_absorb domI)

lemma owned_free:
  assumes "owned heap sl n" "heap h = Some x" "h \<notin> ran sl"
  shows "owned (heap(h := None)) sl (n - 1)"
proof -
  have "dom heap \<noteq> {}" and fin: "finite (dom heap)" using assms by (auto simp: owned_def)
  then have "card (dom heap) > 0" by (simp add: card_gt_0_iff)
  then have "int (card (dom heap - {h})) = int (card (dom heap)) - 1"
    using assms(2) fin by (simp add: card_Diff_singleton domI of_nat_diff)
  then show ?thesis using assms by (auto simp: owned_def ranI)
qed

lemma owned_wrap:
  "owned heap sl n \<Longrightarrow> heap h \<noteq> None \<Longrightarrow> h \<notin> ran sl \<Longrightarrow> owned heap (sl(p \<mapsto> h)) n"
  by (auto simp: owned_def ranI)

lemma owned_clear: "owned heap sl n \<Longrightarrow> owned heap (sl(p \<mapsto> 0)) n"
  by (auto simp: owned_def)

lemma owned_drop: "owned heap sl n \<Longrightarrow> owned heap (sl(p := None)) n"
  by (auto simp: owned_def)

lemma owned_cleared_out:
  assumes "owned heap sl n" "sl p = Some h" "h \<noteq> 0"
  shows "h \<notin> ran (sl(p \<mapsto> 0))" "heap h \<noteq> None"
  using assms by (auto simp: owned_def ran_def) metis

text \<open>Closing a slot: zero it, then free what it held.\<close>

lemma owned_close:
  assumes "owned heap sl n" "sl p = Some h" "h \<noteq> 0"
  shows "owned (heap(h := None)) (sl(p \<mapsto> 0)) (n - 1)"
proof -
  obtain x where "heap h = Some x" using owned_cleared_out(2) [OF assms] by blast
  then show ?thesis by (rule owned_free [OF owned_clear [OF assms(1)] _ owned_cleared_out(1) [OF assms]])
qed

subsection \<open>The invariant\<close>

definition tls_inv :: "'s tls \<Rightarrow> bool" where
  "tls_inv t \<longleftrightarrow> owned (conns t) (slots t) (hs_tls_conn_count t) \<and> owned (accs t) (acc_slots t) (hs_tls_acceptor_count t) \<and>
     (\<forall>h c. conns t h = Some c \<longrightarrow> conn_ok c) \<and> (\<forall>h a. accs t h = Some a \<longrightarrow> a_magic a = HS_TLS_ACC_MAGIC)"

lemma tls_init: "tls_inv init_tls"
  by (simp add: tls_inv_def init_tls_def owned_def)

lemma inv_conn_get:
  assumes "tls_inv t" "conn_handle t h"
  shows "hs_tls_conn_get h t = Some (if h = 0 then None else conns t h)"
  using assms by (auto simp: tls_inv_def conn_handle_def hs_tls_conn_get_def conn_ok_def)

lemma inv_acc_get:
  assumes "tls_inv t" "acc_handle t h"
  shows "hs_tls_acceptor_get h t = Some (if h = 0 then None else accs t h)"
  using assms by (auto simp: tls_inv_def acc_handle_def hs_tls_acceptor_get_def)

lemma inv_set_conn:
  assumes "tls_inv t" "conns t h = Some c" "conn_ok c'"
  shows "tls_inv (t\<lparr>conns := (conns t)(h \<mapsto> c')\<rparr>)"
  using assms owned_update [of "conns t" _ _ h c c'] by (auto simp: tls_inv_def)

text \<open>Every call on a connection keeps the invariant, if what it does to the connection does.\<close>

lemma with_conn_inv:
  assumes "tls_inv t" "conn_handle t h"
    and f: "\<And>c. conns t h = Some c \<Longrightarrow> conn_ok c \<Longrightarrow> \<exists>r x c'. f c = Some (r, x, c') \<and> conn_ok c'"
  shows "\<exists>r x t'. with_conn h t f z = Some (r, x, t') \<and> tls_inv t'"
proof (cases "h = 0")
  case True
  then show ?thesis using assms(1) inv_conn_get [OF assms(1,2)] by (simp add: with_conn_def)
next
  case False
  then obtain c where c: "conns t h = Some c" using assms(2) by (auto simp: conn_handle_def)
  have "conn_ok c" using assms(1) c by (auto simp: tls_inv_def)
  then obtain r x c' where "f c = Some (r, x, c')" "conn_ok c'" using f [OF c] by blast
  then show ?thesis
    using False c inv_conn_get [OF assms(1,2)] inv_set_conn [OF assms(1) c] by (simp add: with_conn_def)
qed

lemma run_ssl_ok:
  assumes "conn_ok c"
  shows "\<exists>r x c'. run_ssl p c = Some (r, x, c') \<and> conn_ok c'"
  using assms
proof (induction p arbitrary: c)
  case (SslRet ret dat s)
  then show ?case by (simp add: conn_ok_def)
next
  case (SslSend buf k)
  with bio_send_ok [OF SslSend.prems, of buf] show ?case by fastforce
next
  case (SslRecv len k)
  with bio_recv_ok [OF SslRecv.prems, of len] show ?case by fastforce
qed

lemma with_engine_inv:
  assumes "tls_inv t" "engine_handle t h"
    and "\<And>c. conns t h = Some c \<Longrightarrow> conn_ok c \<Longrightarrow> \<exists>r x c'. f c = Some (r, x, c') \<and> conn_ok c'"
  shows "\<exists>r x t'. with_engine h t f z = Some (r, x, t') \<and> tls_inv t'"
  unfolding with_engine_def
proof (rule with_conn_inv)
  show "conn_handle t h" using assms(2) by (auto simp: engine_handle_def conn_handle_def split: option.splits)
  fix c assume c: "conns t h = Some c" "conn_ok c"
  then have "h \<noteq> 0" using assms(1) by (auto simp: tls_inv_def owned_def)
  with c assms(2,3) show "\<exists>r x c'. (if accs t (t_acc c) = None then None else f c) = Some (r, x, c') \<and> conn_ok c'"
    by (auto simp: engine_handle_def)
qed (fact assms(1))

lemma finish_call_ok: "conn_ok c \<Longrightarrow> \<exists>r x c'. finish_call p c = Some (r, x, c') \<and> conn_ok c'"
  using run_ssl_ok [of c "p (t_ssl c)"] by (auto simp: finish_call_def)

lemma read_call_ok:
  assumes "conn_ok c" "i + nat n \<le> length b" "engine_fits (p (t_ssl c) (nat n)) c (nat n)"
  shows "\<exists>r x c'. read_call p b i n c = Some (r, x, c') \<and> conn_ok c'"
  using run_ssl_ok [OF assms(1), of "p (t_ssl c) (nat n)"] assms
  by (auto simp: read_call_def memcpy_at_def engine_fits_def)

lemma write_call_ok:
  assumes "conn_ok c" "i + nat n \<le> length b"
  shows "\<exists>r x c'. write_call p b i n c = Some (r, x, c') \<and> conn_ok c'"
  using run_ssl_ok [OF assms(1), of "p (t_ssl c) (take (nat n) (drop i b))"] assms
  by (auto simp: write_call_def)

subsection \<open>Every legal call keeps the invariant\<close>

lemma new_acceptor_inv:
  assumes "tls_inv t" "0 < h" "accs t h = None" "a_magic a = HS_TLS_ACC_MAGIC"
  shows "tls_inv (t\<lparr>accs := (accs t)(h \<mapsto> a), hs_tls_acceptor_count := hs_tls_acceptor_count t + 1\<rparr>)"
    and "tls_inv (t\<lparr>hs_tls_acceptor_count := hs_tls_acceptor_count t + 1, accs := (accs t)(h \<mapsto> a)\<rparr>)"
  using assms owned_alloc [of "accs t" _ _ h a] by (auto simp: tls_inv_def)

lemma acceptor_fail_inv:
  assumes "tls_inv t" "0 < h" "accs t h = None" "a_magic a = HS_TLS_ACC_MAGIC"
  shows "acceptor_fail h ret (t\<lparr>accs := (accs t)(h \<mapsto> a), hs_tls_acceptor_count := hs_tls_acceptor_count t + 1\<rparr>) =
    Some (HS_TLS_ERR ret, t)"
proof -
  have "(accs t)(h := None) = accs t" using assms(3) by auto
  then show ?thesis using assms by (simp add: acceptor_fail_def hs_tls_acceptor_destroy_def)
qed

lemmas acceptor_new_simps = hs_tls_acceptor_setup_common_def new_acceptor_def fresh_mem_def

lemma new_server_inv:
  assumes "tls_inv t" "fresh_mem (accs t) mem"
  shows "\<exists>r t'. http_server_tls_acceptor_new_server mem d c p own t = Some (r, t') \<and> tls_inv t'"
proof (cases mem)
  case None
  with assms show ?thesis by (simp add: http_server_tls_acceptor_new_server_def)
next
  case (Some h)
  then have h: "0 < h" "accs t h = None" using assms(2) by (simp_all add: fresh_mem_def)
  show ?thesis
    using Some assms(1) h acceptor_fail_inv [OF assms(1) h] new_acceptor_inv [OF assms(1) h]
    by (simp add: http_server_tls_acceptor_new_server_def acceptor_new_simps Let_def)
qed

lemma new_client_inv:
  assumes "tls_inv t" "fresh_mem (accs t) mem"
  shows "\<exists>r t'. http_server_tls_acceptor_new_client mem d c l i t = Some (r, t') \<and> tls_inv t'"
proof (cases mem)
  case None
  with assms show ?thesis by (simp add: http_server_tls_acceptor_new_client_def)
next
  case (Some h)
  then have h: "0 < h" "accs t h = None" using assms(2) by (simp_all add: fresh_mem_def)
  show ?thesis
    using Some assms(1) h acceptor_fail_inv [OF assms(1) h] new_acceptor_inv [OF assms(1) h]
    by (simp add: http_server_tls_acceptor_new_client_def acceptor_new_simps Let_def)
qed

lemma conn_undo:
  assumes "tls_inv t" "0 < h" "conns t h = None" "t_magic c = HS_TLS_CONN_MAGIC"
  shows "hs_tls_conn_destroy h (t\<lparr>conns := (conns t)(h \<mapsto> c), hs_tls_conn_count := hs_tls_conn_count t + 1\<rparr>) = Some t"
proof -
  have "(conns t)(h := None) = conns t" using assms(3) by auto
  then show ?thesis using assms by (simp add: hs_tls_conn_destroy_def)
qed

lemma new_conn_inv:
  assumes "tls_inv t" "acc_handle t a" "fresh_mem (conns t) mem" "full_array mi" "full_array mo"
  shows "\<exists>r t'. http_server_tls_conn_new a mem mi mo s l hn e t = Some (r, t') \<and> tls_inv t'"
proof (cases "a = 0 \<or> mem = None")
  case True
  with assms inv_acc_get [OF assms(1,2)] show ?thesis
    by (auto simp: http_server_tls_conn_new_def acc_handle_def)
next
  case False
  then obtain h where h: "mem = Some h" "0 < h" "conns t h = None" using assms(3) by (auto simp: fresh_mem_def)
  from False assms(2) obtain x where a: "hs_tls_acceptor_get a t = Some (Some x)"
    using inv_acc_get [OF assms(1,2)] by (auto simp: acc_handle_def)
  have good: "tls_inv (t\<lparr>conns := (conns t)(h \<mapsto> c), hs_tls_conn_count := hs_tls_conn_count t + 1\<rparr>)" if "conn_ok c" for c
    using that h assms(1) owned_alloc [of "conns t" _ _ h c] by (auto simp: tls_inv_def)
  show ?thesis
  proof (cases "mi = None \<or> mo = None")
    case True
    with h a assms(1) conn_undo [OF assms(1) h(2,3)] show ?thesis
      by (simp add: http_server_tls_conn_new_def Let_def)
  next
    case False
    then obtain di do' where d: "mi = Some di" "mo = Some do'" "length di = HS_TLS_BUF_CAP" "length do' = HS_TLS_BUF_CAP"
      using assms(4,5) by (auto simp: full_array_def)
    with h a assms(1) conn_undo [OF assms(1) h(2,3)] good show ?thesis
      by (simp add: http_server_tls_conn_new_def Let_def conn_ok_def ring_ok_def)
  qed
qed

lemma close_conn_inv:
  assumes "tls_inv t" "slots t p \<noteq> None"
  shows "\<exists>t'. http_server_tls_conn_close_obj p t = Some t' \<and> tls_inv t' \<and> slots t' p = Some 0"
proof -
  obtain h where h: "slots t p = Some h" using assms(2) by blast
  show ?thesis
  proof (cases "h = 0")
    case True
    with h assms(1) show ?thesis by (simp add: http_server_tls_conn_close_obj_def)
  next
    case False
    have o: "owned (conns t) (slots t) (hs_tls_conn_count t)" using assms(1) by (simp add: tls_inv_def)
    obtain c where c: "conns t h = Some c" using owned_cleared_out(2) [OF o h False] by blast
    with assms(1) have "t_magic c = HS_TLS_CONN_MAGIC" by (auto simp: tls_inv_def conn_ok_def)
    with False h c owned_close [OF o h False] assms(1) show ?thesis
      by (simp add: http_server_tls_conn_close_obj_def hs_tls_conn_destroy_def tls_inv_def)
  qed
qed

lemma close_acceptor_inv:
  assumes "tls_inv t" "acc_slots t p \<noteq> None"
  shows "\<exists>t'. http_server_tls_acceptor_close_obj p t = Some t' \<and> tls_inv t' \<and> acc_slots t' p = Some 0"
proof -
  obtain h where h: "acc_slots t p = Some h" using assms(2) by blast
  show ?thesis
  proof (cases "h = 0")
    case True
    with h assms(1) show ?thesis by (simp add: http_server_tls_acceptor_close_obj_def)
  next
    case False
    have o: "owned (accs t) (acc_slots t) (hs_tls_acceptor_count t)" using assms(1) by (simp add: tls_inv_def)
    obtain a where a: "accs t h = Some a" using owned_cleared_out(2) [OF o h False] by blast
    with assms(1) have "a_magic a = HS_TLS_ACC_MAGIC" by (auto simp: tls_inv_def)
    with False h a owned_close [OF o h False] assms(1) show ?thesis
      by (simp add: http_server_tls_acceptor_close_obj_def hs_tls_acceptor_destroy_def tls_inv_def)
  qed
qed

lemma drop_slot_inv:
  "tls_inv t \<Longrightarrow> tls_inv (t\<lparr>slots := (slots t)(p := None)\<rparr>)"
  "tls_inv t \<Longrightarrow> tls_inv (t\<lparr>acc_slots := (acc_slots t)(p := None)\<rparr>)"
  by (simp_all add: tls_inv_def owned_drop)

lemma tls_call_inv:
  assumes "tls_inv t" "tls_legal k t"
  shows "\<exists>t'. tls_run k t = Some t' \<and> tls_inv t'"
proof (cases k)
  case (NewServer mem d c p own)
  with new_server_inv [OF assms(1), of mem d c p own] assms(2) show ?thesis by auto
next
  case (NewClient mem d c l i)
  with new_client_inv [OF assms(1), of mem d c l i] assms(2) show ?thesis by auto
next
  case (NewConn a mem mi mo s l h e)
  with new_conn_inv [OF assms(1), of a mem mi mo s l h e] assms(2) show ?thesis by auto
next
  case (WrapConn h p)
  with assms inv_conn_get [OF assms(1), of h] owned_wrap [of "conns t" "slots t" _ h p] show ?thesis
    by (auto simp: http_server_tls_conn_wrap_def tls_inv_def conn_handle_def split: if_splits)
next
  case (WrapAcceptor h p)
  with assms inv_acc_get [OF assms(1), of h] owned_wrap [of "accs t" "acc_slots t" _ h p] show ?thesis
    by (auto simp: http_server_tls_acceptor_wrap_def tls_inv_def acc_handle_def split: if_splits)
next
  case (CloseConn p)
  with close_conn_inv [OF assms(1), of p] assms(2) show ?thesis by auto
next
  case (CloseAcceptor p)
  with close_acceptor_inv [OF assms(1), of p] assms(2) show ?thesis by auto
next
  case (FinalizeConn p)
  with close_conn_inv [OF assms(1), of p] assms(2) drop_slot_inv(1) show ?thesis by (auto simp: hs_tls_conn_finalize_def)
next
  case (FinalizeAcceptor p)
  with close_acceptor_inv [OF assms(1), of p] assms(2) drop_slot_inv(2) show ?thesis by (auto simp: hs_tls_acceptor_finalize_def)
next
  case (FeedCall h b n)
  with assms with_conn_inv [OF assms(1), of h "feed b n" "()"] feed_ok [of _ n b] show ?thesis
    by (fastforce simp: http_server_tls_feed_def)
next
  case (TakeOutput h b n)
  with assms with_conn_inv [OF assms(1), of h "take_output b n" b] take_output_ok [of _ n b] show ?thesis
    by (fastforce simp: http_server_tls_take_output_def)
next
  case (Handshake h p)
  with assms with_engine_inv [OF assms(1), of h "finish_call p" "()"] finish_call_ok [of _ p] show ?thesis
    by (fastforce simp: http_server_tls_handshake_def)
next
  case (ReadCall h p b i n)
  with assms with_engine_inv [OF assms(1), of h "read_call p b i n" b] read_call_ok [of _ i n b p] show ?thesis
    by (fastforce simp: http_server_tls_read_def)
next
  case (WriteCall h p b i n)
  with assms with_engine_inv [OF assms(1), of h "write_call p b i n" "()"] write_call_ok [of _ i n b p] show ?thesis
    by (fastforce simp: http_server_tls_write_def)
next
  case (Shutdown h p)
  with assms with_engine_inv [OF assms(1), of h "finish_call p" "()"] finish_call_ok [of _ p] show ?thesis
    by (fastforce simp: http_server_tls_shutdown_def)
qed

interpretation tm: call_machine tls_run tls_legal tls_inv
  by unfold_locales (use tls_call_inv in fastforce)

lemmas tls_exec_inv = tm.exec_safe

end
