(* ===== verification/Tls_Props.thy ===== *)
theory Tls_Props
  imports Tls_Life
begin

text \<open>
  Properties of one TLS connection: any engine is memory safe on the rings, both byte streams are kept by
  every sequence of calls, the flow-control contract of \<open>feed\<close>, and the encoding of results; and of the
  objects: no legal sequence of calls touches a freed object, the counters are exact, and closing an
  external object releases its connection exactly once.
\<close>

subsection \<open>Runs of a connection\<close>

text \<open>
  What the engine saw during one call: the bytes it received and the bytes its sends were told were
  accepted.
\<close>

primrec engine_io :: "'s ssl_prog \<Rightarrow> 's hs_tls_conn_t \<Rightarrow> bytes \<times> bytes" where
  "engine_io (SslRet ret dat s) c = ([], [])"
| "engine_io (SslSend buf k) c = (case hs_tls_bio_send c buf of None \<Rightarrow> ([], [])
     | Some (n, c') \<Rightarrow> let (rcv, acc) = engine_io (k n) c' in (rcv, take (nat n) buf @ acc))"
| "engine_io (SslRecv len k) c = (case hs_tls_bio_recv c len of None \<Rightarrow> ([], [])
     | Some (n, d, c') \<Rightarrow> let (rcv, acc) = engine_io (k n d) c' in (d @ rcv, acc))"

datatype 's wire = Feed bytes | Drain nat | Engine "'s ssl_prog"

text \<open>A run: bytes fed, received by the engine, accepted from the engine, drained, and the connection after it.\<close>

fun conn_run :: "'s wire list \<Rightarrow> 's hs_tls_conn_t \<Rightarrow> (bytes \<times> bytes \<times> bytes \<times> bytes \<times> 's hs_tls_conn_t) option" where
  "conn_run [] c = Some ([], [], [], [], c)"
| "conn_run (Feed buf # ws) c = (case feed buf (int (length buf)) c of None \<Rightarrow> None
     | Some (n, _, c') \<Rightarrow> map_option (\<lambda>(fed, rcv, acc, drn, c''). (take (nat n) buf @ fed, rcv, acc, drn, c'')) (conn_run ws c'))"
| "conn_run (Drain k # ws) c = (case take_output (replicate k 0) (int k) c of None \<Rightarrow> None
     | Some (n, buf, c') \<Rightarrow> map_option (\<lambda>(fed, rcv, acc, drn, c''). (fed, rcv, acc, take (nat n) buf @ drn, c'')) (conn_run ws c'))"
| "conn_run (Engine p # ws) c = (case run_ssl p c of None \<Rightarrow> None
     | Some (_, _, c') \<Rightarrow> (case engine_io p c of (r, a) \<Rightarrow>
         map_option (\<lambda>(fed, rcv, acc, drn, c''). (fed, r @ rcv, a @ acc, drn, c'')) (conn_run ws c')))"

subsection \<open>Both streams are accounted for\<close>

definition both :: "'s hs_tls_conn_t \<Rightarrow> bytes \<times> bytes \<times> bytes \<times> bytes \<Rightarrow> 's hs_tls_conn_t \<Rightarrow> bool" where
  "both c0 io c = (case io of (fed, rcv, acc, drn) \<Rightarrow> ins.account c0 fed rcv c \<and> outs.account c0 acc drn c)"

lemma both_conn_ok: "both c0 io c \<Longrightarrow> conn_ok c"
  by (auto simp: both_def ins.account_def)

lemma both_send:
  assumes "both c0 (fed, rcv, acc, drn) c"
  shows "\<exists>n c'. hs_tls_bio_send c buf = Some (n, c') \<and> both c0 (fed, rcv, acc @ take (nat n) buf, drn) c'"
proof -
  obtain n c' where s: "hs_tls_bio_send c buf = Some (n, c')" "conn_ok c'" "t_in c' = t_in c"
    using bio_send_ok [OF both_conn_ok [OF assms], of buf] by blast
  moreover have "out_put buf c = Some (nat n, c')" using s(1) by (simp add: out_put_def)
  ultimately show ?thesis
    using outs.account_put [of c0 acc drn c buf] assms by (auto simp: both_def ins.account_def)
qed

lemma both_recv:
  assumes "both c0 (fed, rcv, acc, drn) c"
  shows "\<exists>n d c'. hs_tls_bio_recv c len = Some (n, d, c') \<and> both c0 (fed, rcv @ d, acc, drn) c'"
proof -
  obtain n d c' where s: "hs_tls_bio_recv c len = Some (n, d, c')" "conn_ok c'" "t_out c' = t_out c"
    using bio_recv_ok [OF both_conn_ok [OF assms], of len] by blast
  moreover have "in_get len c = Some (d, c')" using s(1) by (simp add: in_get_def)
  ultimately show ?thesis
    using ins.account_get [of c0 fed rcv c len] assms by (auto simp: both_def outs.account_def)
qed

lemma both_feed:
  assumes "both c0 (fed, rcv, acc, drn) c"
  shows "\<exists>n c'. feed buf (int (length buf)) c = Some (n, (), c') \<and> both c0 (fed @ take (nat n) buf, rcv, acc, drn) c'"
proof -
  obtain n c' where s: "feed buf (int (length buf)) c = Some (n, (), c')" "conn_ok c'" "t_out c' = t_out c"
    using feed_ok [OF both_conn_ok [OF assms], of "int (length buf)" buf] by auto
  moreover have "in_put buf c = Some (nat n, c')" using s(1) by (simp add: in_put_def)
  ultimately show ?thesis
    using ins.account_put [of c0 fed rcv c buf] assms by (auto simp: both_def outs.account_def)
qed

lemma both_drain:
  assumes "both c0 (fed, rcv, acc, drn) c"
  shows "\<exists>n buf c'. take_output (replicate k 0) (int k) c = Some (n, buf, c') \<and>
    both c0 (fed, rcv, acc, drn @ take (nat n) buf) c'"
proof -
  obtain n buf c' where s: "take_output (replicate k 0) (int k) c = Some (n, buf, c')" "conn_ok c'" "t_in c' = t_in c"
    using take_output_ok [OF both_conn_ok [OF assms], of "int k" "replicate k 0"] by auto
  moreover have "out_get k c = Some (take (nat n) buf, c')" using s(1) by (simp add: out_get_def)
  ultimately show ?thesis
    using outs.account_get [of c0 acc drn c k] assms by (auto simp: both_def ins.account_def)
qed

lemma both_engine:
  assumes "both c0 (fed, rcv, acc, drn) c"
  shows "\<exists>ret dat c' r a. run_ssl p c = Some (ret, dat, c') \<and> engine_io p c = (r, a) \<and> both c0 (fed, rcv @ r, acc @ a, drn) c'"
  using assms
proof (induction p arbitrary: c rcv acc)
  case (SslRet ret dat s)
  then show ?case by (simp add: both_def ins.account_def outs.account_def conn_ok_def)
next
  case (SslSend buf k)
  obtain n c1 where s: "hs_tls_bio_send c buf = Some (n, c1)" "both c0 (fed, rcv, acc @ take (nat n) buf, drn) c1"
    using both_send [OF SslSend.prems] by blast
  from SslSend.IH [OF _ s(2), of "k n"] show ?case by (auto simp: s(1))
next
  case (SslRecv len k)
  obtain n d c1 where s: "hs_tls_bio_recv c len = Some (n, d, c1)" "both c0 (fed, rcv @ d, acc, drn) c1"
    using both_recv [OF SslRecv.prems] by blast
  from SslRecv.IH [OF _ _ s(2), of "k n" "k n d"] show ?case by (auto simp: s(1))
qed

lemma both_run:
  assumes "both c0 (fed, rcv, acc, drn) c"
  shows "\<exists>fed' rcv' acc' drn' c'. conn_run ws c = Some (fed', rcv', acc', drn', c') \<and>
    both c0 (fed @ fed', rcv @ rcv', acc @ acc', drn @ drn') c'"
  using assms
proof (induction ws arbitrary: fed rcv acc drn c)
  case Nil
  then show ?case by simp
next
  case (Cons w ws)
  show ?case
  proof (cases w)
    case (Feed buf)
    from both_feed [OF Cons.prems, of buf] Cons.IH Feed show ?thesis by fastforce
  next
    case (Drain k)
    from both_drain [OF Cons.prems, of k] Cons.IH Drain show ?thesis by fastforce
  next
    case (Engine p)
    from both_engine [OF Cons.prems, of p] Cons.IH Engine show ?thesis by fastforce
  qed
qed

text \<open>C12: whatever the TLS engine does in its calls, and however calls of the engine, feeds of ciphertext from the
  socket and drains to the socket are interleaved, no copy leaves its buffer (the run is defined), the
  rings stay within \<open>HS_TLS_BUF_CAP\<close>, the bytes the engine received are the bytes fed, in order, with
  exactly the content of the input ring still to come, and the bytes drained are the bytes accepted from
  the engine, in order, with exactly the content of the output ring still to come.\<close>
theorem tls_streams_kept:
  assumes "conn_ok c"
  shows "\<exists>fed rcv acc drn c'. conn_run ws c = Some (fed, rcv, acc, drn, c') \<and> conn_ok c' \<and>
    content (t_in c) @ fed = rcv @ content (t_in c') \<and> length (content (t_in c')) \<le> HS_TLS_BUF_CAP \<and>
    content (t_out c) @ acc = drn @ content (t_out c') \<and> length (content (t_out c')) \<le> HS_TLS_BUF_CAP"
proof -
  have "both c ([], [], [], []) c"
    by (simp add: both_def ins.account_refl outs.account_refl assms)
  from both_run [OF this, of ws] obtain fed rcv acc drn c' where
    r: "conn_run ws c = Some (fed, rcv, acc, drn, c')" "both c (fed, rcv, acc, drn) c'" by auto
  then show ?thesis
    using both_conn_ok [OF r(2)] ins.cap_law outs.cap_law by (auto simp: both_def ins.account_def outs.account_def)
qed

definition demo_ring :: ring where
  "demo_ring = \<lparr>rg_buf = replicate HS_TLS_BUF_CAP 0, rg_len = 0\<rparr>"

definition demo_conn :: "nat hs_tls_conn_t" where
  "demo_conn = \<lparr>t_magic = HS_TLS_CONN_MAGIC, t_ssl = 0, t_acc = 8, t_in = demo_ring, t_out = demo_ring\<rparr>"

lemma demo_conn_ok: "conn_ok demo_conn"
  by (simp add: conn_ok_def demo_conn_def demo_ring_def ring_ok_def)

text \<open>An engine that answers every byte it receives with two.\<close>

definition demo_engine :: "nat ssl_prog" where
  "demo_engine = SslRecv 5 (\<lambda>n d. SslSend (concat (map (\<lambda>b. [b, b + 1]) d)) (\<lambda>m. SslRet m [] (nat n)))"

theorem tls_streams_kept_witness:
  "conn_ok demo_conn \<and>
   (\<exists>fed rcv acc drn c'. conn_run [Feed [7, 9], Engine demo_engine, Drain 3] demo_conn = Some (fed, rcv, acc, drn, c') \<and>
      conn_ok c' \<and> content (t_in demo_conn) @ fed = rcv @ content (t_in c') \<and> length (content (t_in c')) \<le> HS_TLS_BUF_CAP \<and>
      content (t_out demo_conn) @ acc = drn @ content (t_out c') \<and> length (content (t_out c')) \<le> HS_TLS_BUF_CAP)"
  using demo_conn_ok tls_streams_kept [OF demo_conn_ok] by blast

subsection \<open>Flow control\<close>

definition live_conn :: "'s tls \<Rightarrow> int \<Rightarrow> 's hs_tls_conn_t \<Rightarrow> bool" where
  "live_conn t h c \<longleftrightarrow> h \<noteq> 0 \<and> conns t h = Some c \<and> conn_ok c"

lemma conn_get_live: "live_conn t h c \<Longrightarrow> hs_tls_conn_get h t = Some (Some c)"
  by (simp add: live_conn_def hs_tls_conn_get_def conn_ok_def)

text \<open>The flow-control contract between \<open>http_server_tls_in_space\<close> and \<open>http_server_tls_feed\<close>. A feed of a
  positive number of bytes that the caller's array holds succeeds exactly when that number is at
  most the reported space: it then reports all of them, appends exactly them to the input ring and
  lowers the space by them. Otherwise it reports \<open>HS_TLS_ERR_OVERFLOW\<close> and changes nothing.\<close>
theorem tls_feed_flow_control:
  assumes "live_conn t h c" "0 < len" "nat len \<le> length buf"
  shows "\<exists>space. http_server_tls_in_space h t = Some (space, (), t) \<and> 0 \<le> space \<and>
    (len \<le> space \<longrightarrow> (\<exists>t' c'. http_server_tls_feed h buf len t = Some (len, (), t') \<and> live_conn t' h c' \<and>
        content (t_in c') = content (t_in c) @ take (nat len) buf \<and> t_out c' = t_out c \<and>
        http_server_tls_in_space h t' = Some (space - len, (), t'))) \<and>
    (\<not> len \<le> space \<longrightarrow> http_server_tls_feed h buf len t = Some (HS_TLS_ERR_OVERFLOW, (), t))"
proof -
  let ?space = "int HS_TLS_BUF_CAP - int (rg_len (t_in c))"
  have ok: "conn_ok c" and g: "hs_tls_conn_get h t = Some (Some c)" and same: "(conns t)(h \<mapsto> c) = conns t"
    using assms(1) conn_get_live by (auto simp: live_conn_def)
  have r: "ring_ok (t_in c)" using ok by (simp add: conn_ok_def)
  have sp: "http_server_tls_in_space h t = Some (?space, (), t)" "0 \<le> ?space"
    using r by (simp_all add: http_server_tls_in_space_def with_conn_def g same ring_ok_def)
  have over: "http_server_tls_feed h buf len t = Some (HS_TLS_ERR_OVERFLOW, (), t)" if "\<not> len \<le> ?space"
    using that assms(2) by (auto simp: http_server_tls_feed_def with_conn_def g feed_def same)
  have fits: "\<exists>t' c'. http_server_tls_feed h buf len t = Some (len, (), t') \<and> live_conn t' h c' \<and>
        content (t_in c') = content (t_in c) @ take (nat len) buf \<and> t_out c' = t_out c \<and>
        http_server_tls_in_space h t' = Some (?space - len, (), t')" if "len \<le> ?space"
  proof -
    have le: "rg_len (t_in c) + length (take (nat len) buf) \<le> HS_TLS_BUF_CAP"
      using that assms(2,3) by simp
    then obtain r' where r': "ring_append (take (nat len) buf) (t_in c) = Some r'" "ring_ok r'"
      "content r' = content (t_in c) @ take (nat len) buf"
      using ring_append_ok [OF r] by blast
    have len: "rg_len r' = rg_len (t_in c) + nat len"
      using r' assms(3) content_length [OF r] content_length [OF r'(2)] by simp
    let ?c' = "c\<lparr>t_in := r'\<rparr>" and ?t' = "t\<lparr>conns := (conns t)(h \<mapsto> c\<lparr>t_in := r'\<rparr>)\<rparr>"
    have "http_server_tls_feed h buf len t = Some (len, (), ?t')"
      using le assms(2,3) r'(1) by (simp add: http_server_tls_feed_def with_conn_def g feed_def)
    moreover have live: "live_conn ?t' h ?c'"
      using assms(1) r'(2) by (simp add: live_conn_def conn_ok_def)
    moreover have "http_server_tls_in_space h ?t' = Some (?space - len, (), ?t')"
      using assms(2) len conn_get_live [OF live] by (simp add: http_server_tls_in_space_def with_conn_def)
    ultimately show ?thesis using r'(3) by fastforce
  qed
  from sp over fits show ?thesis by blast
qed

definition demo_tls :: "nat tls" where
  "demo_tls = init_tls\<lparr>conns := [16 \<mapsto> demo_conn], hs_tls_conn_count := 1\<rparr>"

lemma demo_live: "live_conn demo_tls 16 demo_conn"
  by (simp add: live_conn_def demo_tls_def demo_conn_ok)

theorem tls_feed_flow_control_witness:
  "live_conn demo_tls 16 demo_conn \<and>
   (\<exists>space. http_server_tls_in_space 16 demo_tls = Some (space, (), demo_tls) \<and> 0 \<le> space \<and>
    (2 \<le> space \<longrightarrow> (\<exists>t' c'. http_server_tls_feed 16 [1, 2, 3] 2 demo_tls = Some (2, (), t') \<and> live_conn t' 16 c' \<and>
        content (t_in c') = content (t_in demo_conn) @ [1, 2] \<and> t_out c' = t_out demo_conn \<and>
        http_server_tls_in_space 16 t' = Some (space - 2, (), t'))) \<and>
    (\<not> 2 \<le> space \<longrightarrow> http_server_tls_feed 16 [1, 2, 3] 2 demo_tls = Some (HS_TLS_ERR_OVERFLOW, (), demo_tls)))"
  using demo_live tls_feed_flow_control [OF demo_live, of 2 "[1, 2, 3]"] by simp

subsection \<open>Life cycle\<close>

text \<open>C13: every legal sequence of calls from the initial state, with every outcome of the allocations and of the
  library, runs without touching a freed acceptor or connection or leaving a buffer. After it the
  object counters equal the numbers of live objects, every live connection has its magic number and
  rings within bounds, and an external object names a live connection, or none, and no other object
  names the same one.\<close>
theorem tls_lifecycle_safe:
  assumes "tls_lawful ks init_tls"
  shows "\<exists>t. tls_exec ks init_tls = Some t \<and>
    http_server_tls_conn_count t = int (card (dom (conns t))) \<and>
    http_server_tls_acceptor_count t = int (card (dom (accs t))) \<and>
    (\<forall>h c. conns t h = Some c \<longrightarrow> conn_ok c) \<and>
    (\<forall>p h. slots t p = Some h \<longrightarrow> h \<noteq> 0 \<longrightarrow> conns t h \<noteq> None \<and> (\<forall>q. slots t q = Some h \<longrightarrow> q = p)) \<and>
    (\<forall>p h. acc_slots t p = Some h \<longrightarrow> h \<noteq> 0 \<longrightarrow> accs t h \<noteq> None \<and> (\<forall>q. acc_slots t q = Some h \<longrightarrow> q = p))"
proof -
  obtain t where t: "tls_exec ks init_tls = Some t" "tls_inv t"
    using tls_exec_inv [OF tls_init assms] by blast
  then show ?thesis
    unfolding tls_inv_def owned_def http_server_tls_conn_count_def http_server_tls_acceptor_count_def by metis
qed

text \<open>A server with one connection: created, wrapped, handshaken, closed twice and finalized.\<close>

definition demo_calls :: "nat tls_call list" where
  "demo_calls =
     [NewServer (Some 8) 0 0 0 0, WrapAcceptor 8 1,
      NewConn 8 (Some 16) (Some (replicate HS_TLS_BUF_CAP 0)) (Some (replicate HS_TLS_BUF_CAP 0)) 0 0 0 0, WrapConn 16 2,
      Handshake 16 (\<lambda>s. SslRet 0 [] (Suc s)), CloseConn 2, CloseConn 2, FinalizeConn 2, CloseAcceptor 1]"

lemmas tls_defs = http_server_tls_acceptor_new_server_def hs_tls_acceptor_setup_common_def new_acceptor_def
  http_server_tls_acceptor_wrap_def hs_tls_acceptor_get_def http_server_tls_conn_new_def http_server_tls_conn_wrap_def
  hs_tls_conn_get_def http_server_tls_handshake_def with_engine_def with_conn_def finish_call_def
  http_server_tls_conn_close_obj_def hs_tls_conn_destroy_def hs_tls_conn_finalize_def
  http_server_tls_acceptor_close_obj_def hs_tls_acceptor_destroy_def

lemmas tls_legal_defs = conn_handle_def acc_handle_def engine_handle_def fresh_mem_def full_array_def

lemma tls_demo_lawful: "tls_lawful demo_calls init_tls"
  by (simp add: demo_calls_def init_tls_def tls_defs tls_legal_defs Let_def)

theorem tls_lifecycle_safe_witness:
  "\<exists>t. tls_exec demo_calls init_tls = Some t \<and>
    http_server_tls_conn_count t = int (card (dom (conns t))) \<and>
    http_server_tls_acceptor_count t = int (card (dom (accs t)))"
  using tls_lifecycle_safe [OF tls_demo_lawful] by blast



lemma with_conn_slots: "with_conn h t f z = Some (r, x, t') \<Longrightarrow> slots t' = slots t"
  by (auto simp: with_conn_def Option.bind_eq_Some_conv split: option.splits)

lemma destroy_slots:
  "hs_tls_conn_destroy h t = Some t' \<Longrightarrow> slots t' = slots t"
  "hs_tls_acceptor_destroy h t = Some t' \<Longrightarrow> slots t' = slots t"
  by (auto simp: hs_tls_conn_destroy_def hs_tls_acceptor_destroy_def Option.bind_eq_Some_conv split: if_splits)

lemma new_acceptor_slots:
  "http_server_tls_acceptor_new_server mem d c p own t = Some (r, t') \<Longrightarrow> slots t' = slots t"
  "http_server_tls_acceptor_new_client mem d c l i t = Some (r, t') \<Longrightarrow> slots t' = slots t"
  by (auto simp: http_server_tls_acceptor_new_server_def http_server_tls_acceptor_new_client_def acceptor_fail_def Let_def
      Option.bind_eq_Some_conv dest!: destroy_slots split: option.splits if_splits prod.splits)

lemma new_conn_slots:
  "http_server_tls_conn_new a mem mi mo s l h e t = Some (r, t') \<Longrightarrow> slots t' = slots t"
  by (auto simp: http_server_tls_conn_new_def Let_def Option.bind_eq_Some_conv dest!: destroy_slots
      split: option.splits if_splits)

lemma close_obj_slots:
  "http_server_tls_conn_close_obj q t = Some t' \<Longrightarrow> slots t' p = (if p = q then Some 0 else slots t p)"
  "http_server_tls_acceptor_close_obj q t = Some t' \<Longrightarrow> slots t' = slots t"
  by (auto simp: http_server_tls_conn_close_obj_def http_server_tls_acceptor_close_obj_def Option.bind_eq_Some_conv
      split: if_splits) (drule destroy_slots, simp)+

lemma wrap_slots:
  "http_server_tls_conn_wrap h q t = Some (r, t') \<Longrightarrow> slots t q = None \<Longrightarrow> slots t p = Some x \<Longrightarrow> slots t' p = Some x"
  "http_server_tls_acceptor_wrap h q t = Some (r, t') \<Longrightarrow> slots t' = slots t"
  by (auto simp: http_server_tls_conn_wrap_def http_server_tls_acceptor_wrap_def Option.bind_eq_Some_conv split: option.splits)

lemma closed_slot_stays:
  assumes "slots t p = Some 0" "tls_legal k t" "k \<noteq> FinalizeConn p" "tls_run k t = Some t'"
  shows "slots t' p = Some 0"
proof (cases k)
  case (WrapConn h q)
  with assms show ?thesis by (auto dest: wrap_slots(1))
next
  case (WrapAcceptor h q)
  with assms show ?thesis by (auto dest: wrap_slots(2))
next
  case (CloseConn q)
  with assms show ?thesis by (simp add: close_obj_slots(1))
next
  case (CloseAcceptor q)
  with assms show ?thesis by (simp add: close_obj_slots(2))
next
  case (FinalizeConn q)
  with assms show ?thesis by (auto simp: hs_tls_conn_finalize_def close_obj_slots(1))
next
  case (FinalizeAcceptor q)
  with assms show ?thesis by (auto simp: hs_tls_acceptor_finalize_def close_obj_slots(2))
next
  case (NewServer mem d c q own)
  with assms show ?thesis by (auto dest: new_acceptor_slots(1))
next
  case (NewClient mem d c l i)
  with assms show ?thesis by (auto dest: new_acceptor_slots(2))
next
  case (NewConn a mem mi mo s l h e)
  with assms show ?thesis by (auto dest: new_conn_slots)
qed (use assms in \<open>auto simp: http_server_tls_feed_def http_server_tls_take_output_def http_server_tls_handshake_def
       http_server_tls_read_def http_server_tls_write_def http_server_tls_shutdown_def with_engine_def
       dest: with_conn_slots\<close>)

lemma closed_slot_run:
  assumes "slots t p = Some 0" "tls_lawful ks t" "FinalizeConn p \<notin> set ks" "tls_exec ks t = Some t'"
  shows "slots t' p = Some 0"
  using tm.exec_stable [of ks "\<lambda>t. slots t p = Some 0", OF _ assms(2,4,1)] closed_slot_stays assms(3) by metis

text \<open>C14: an external object releases its connection exactly once. Closing it frees the connection it names, if
  any, and no other, and lowers the counter by one. However many calls run in between, also when a new connection is
  allocated at the same address, a second close of the object does nothing.\<close>
theorem tls_close_once:
  assumes "tls_inv t" "slots t p = Some h" "h \<noteq> 0"
  shows "\<exists>t1. http_server_tls_conn_close_obj p t = Some t1 \<and> conns t1 = (conns t)(h := None) \<and>
    http_server_tls_conn_count t1 = http_server_tls_conn_count t - 1 \<and> accs t1 = accs t \<and>
    (\<forall>ks t2. tls_lawful ks t1 \<longrightarrow> FinalizeConn p \<notin> set ks \<longrightarrow> tls_exec ks t1 = Some t2 \<longrightarrow>
       http_server_tls_conn_close_obj p t2 = Some t2)"
proof -
  have o: "owned (conns t) (slots t) (hs_tls_conn_count t)" using assms(1) by (simp add: tls_inv_def)
  obtain c where c: "conns t h = Some c" using owned_cleared_out(2) [OF o assms(2,3)] by blast
  with assms(1) have "t_magic c = HS_TLS_CONN_MAGIC" by (auto simp: tls_inv_def conn_ok_def)
  then obtain t1 where t1: "http_server_tls_conn_close_obj p t = Some t1" "conns t1 = (conns t)(h := None)"
    "hs_tls_conn_count t1 = hs_tls_conn_count t - 1" "accs t1 = accs t" "slots t1 p = Some 0"
    using assms(2,3) c by (simp add: http_server_tls_conn_close_obj_def hs_tls_conn_destroy_def)
  moreover have "http_server_tls_conn_close_obj p t2 = Some t2"
    if "tls_lawful ks t1" "FinalizeConn p \<notin> set ks" "tls_exec ks t1 = Some t2" for ks t2
    using closed_slot_run [OF t1(5) that] by (simp add: http_server_tls_conn_close_obj_def)
  ultimately show ?thesis by (auto simp: http_server_tls_conn_count_def)
qed

definition demo_live_tls :: "nat tls" where
  "demo_live_tls = init_tls\<lparr>conns := [16 \<mapsto> demo_conn], slots := [2 \<mapsto> 16], hs_tls_conn_count := 1\<rparr>"

lemma demo_live_inv: "tls_inv demo_live_tls" "slots demo_live_tls 2 = Some 16"
  by (auto simp: tls_inv_def demo_live_tls_def init_tls_def owned_def demo_conn_ok split: if_splits)

theorem tls_close_once_witness:
  "tls_inv demo_live_tls \<and> (\<exists>t1. http_server_tls_conn_close_obj 2 demo_live_tls = Some t1 \<and>
     conns t1 = (conns demo_live_tls)(16 := None) \<and>
     http_server_tls_conn_count t1 = http_server_tls_conn_count demo_live_tls - 1)"
  using tls_close_once [OF demo_live_inv] demo_live_inv(1) by auto

subsection \<open>Result codes\<close>

text \<open>\<open>TlsError::from_bridge\<close> of \<^verbatim>\<open>errors.mbt\<close>: the code the caller decodes from a result.\<close>

definition from_bridge :: "int \<Rightarrow> int" where
  "from_bridge ret = (if ret \<le> - 1000000 then ret + 1000000 else if ret \<le> - 100000 then - (ret + 100000) else ret)"

text \<open>C16: the results of \<open>read\<close> tell the outcomes of the engine apart. On a live connection whose acceptor is
  live, for a positive capacity, the result is positive exactly when the engine decrypted bytes and is then
  their number, 0 exactly at the end of the stream (0 bytes or a close notification), -1 and -2 exactly for
  the two wants; any other (negative) engine code gives a result below -1000000 from which
  \<open>from_bridge\<close> recovers it.\<close>
theorem tls_read_codes:
  assumes "live_conn t h c" "accs t (t_acc c) \<noteq> None" "0 < cap" "offset + nat cap \<le> length buf"
    and "run_ssl (prog (t_ssl c) (nat cap)) c = Some (ret, dat, c')" "length dat \<le> nat cap"
  shows "\<exists>r buf' t'. http_server_tls_read prog h buf offset cap t = Some (r, buf', t') \<and>
    take (length dat) (drop offset buf') = dat \<and> length buf' = length buf \<and>
    (r > 0 \<longleftrightarrow> ret > 0) \<and> (ret > 0 \<longrightarrow> r = ret) \<and>
    (r = 0 \<longleftrightarrow> ret = 0 \<or> ret = MBEDTLS_ERR_SSL_PEER_CLOSE_NOTIFY) \<and>
    (r = - 1 \<longleftrightarrow> ret = MBEDTLS_ERR_SSL_WANT_READ) \<and> (r = - 2 \<longleftrightarrow> ret = MBEDTLS_ERR_SSL_WANT_WRITE) \<and>
    (r < - 2 \<longrightarrow> r < - 1000000 \<and> from_bridge r = ret)"
proof -
  obtain d where d: "memcpy_at buf offset dat = Some d" using assms(4,6) by (simp add: memcpy_at_def)
  have "take (length dat) (drop offset d) = dat"
    using memcpy_at_take [OF d] assms(4,6) by (simp add: take_drop add.commute memcpy_at_def split: if_splits)
  with memcpy_at_length [OF d] assms(1,2,3,5) conn_get_live [OF assms(1)] d show ?thesis
    by (auto simp: http_server_tls_read_def with_engine_def with_conn_def read_call_def want_code_def tls_codes ssl_codes
        from_bridge_def)
qed

definition demo_pair :: "nat tls" where
  "demo_pair = demo_tls\<lparr>accs := [8 \<mapsto> new_acceptor False]\<rparr>"

lemma demo_pair_live: "live_conn demo_pair 16 demo_conn" "accs demo_pair (t_acc demo_conn) \<noteq> None"
  by (simp_all add: live_conn_def demo_pair_def demo_tls_def demo_conn_ok) (simp add: demo_conn_def)

theorem tls_read_codes_witness:
  "\<exists>r buf' t'. http_server_tls_read (\<lambda>s n. SslRet 2 [5, 6] s) 16 [0, 0, 0, 0] 1 3 demo_pair = Some (r, buf', t') \<and>
     take (length [5, 6 :: 8 word]) (drop 1 buf') = [5, 6] \<and> r = 2"
  using tls_read_codes [OF demo_pair_live, of 3 1 "[0, 0, 0, 0]" "\<lambda>s n. SslRet 2 [5, 6] s" 2 "[5, 6]" "demo_conn\<lparr>t_ssl := t_ssl demo_conn\<rparr>"]
  by auto

text \<open>C17: a failed initialisation of the crypto library is not decodable. PSA status codes are negative and small; the result
  is then above -100000, the range in which the bridge and its callers look for PSA codes, so \<open>from_bridge\<close>
  returns the encoded number and not the status. And \<open>http_server_tls_strerror\<close> answers a result in the encoded
  range (at most -1000000) with the text of a PSA error, whatever the error table says.\<close>
theorem tls_error_text_unreachable:
  assumes "\<not> inited t" "- 1000 < st" "st < 0" "code \<le> - HS_TLS_ERR_OFFSET"
  shows "fst (http_server_tls_global_init st t) > - HS_TLS_PSA_OFFSET \<and>
    from_bridge (fst (http_server_tls_global_init st t)) \<noteq> st \<and>
    http_server_tls_strerror strerr code = take 511 (''PSA error '' @ dec_int (- (code + HS_TLS_PSA_OFFSET)))"
  using assms by (auto simp: http_server_tls_global_init_def from_bridge_def http_server_tls_strerror_def tls_codes)

theorem tls_error_text_unreachable_witness:
  "fst (http_server_tls_global_init (- 133) (init_tls :: nat tls)) > - HS_TLS_PSA_OFFSET \<and>
   from_bridge (fst (http_server_tls_global_init (- 133) (init_tls :: nat tls))) \<noteq> - 133 \<and>
   http_server_tls_strerror (\<lambda>_. ''SSL - close notify'') (- 1030848) = take 511 (''PSA error '' @ dec_int 930848)"
  using tls_error_text_unreachable [of "init_tls :: nat tls" "- 133" "- 1030848" "\<lambda>_. ''SSL - close notify''"]
  by (simp add: init_tls_def tls_codes)

end
