(* ===== verification/Native_Model.thy ===== *)
theory Native_Model
  imports Linked_Queue "HOL-Library.Monad_Syntax"
begin

text \<open>
  The executor of \<^verbatim>\<open>internal/native/native.c\<close>: pools, the budget of an owner thread, the job queue
  and the worker threads. One owner thread is modelled; its budget is the thread-local
  \<open>hs_owner_budget\<close>. Each object kind has a heap of its own; \<open>free\<close> removes a cell and an access to a
  freed cell is \<open>None\<close>. A body between \<open>LOCK\<close> and \<open>UNLOCK\<close> is one step; what a worker does outside the
  locks is the file operations of the other native theories, whose outcome is an argument of
  \<open>worker_publish\<close>. The C library's answers (addresses, started threads) are arguments.

  \<open>pools\<close>, a list linked through \<open>budget_next\<close>, is a list of addresses; the job queue is linked through
  \<open>next\<close> as in the code. Credits (\<open>int64_t\<close>) are integers; that they stay in range is a theorem.
\<close>

subsection \<open>Objects\<close>

record hs_file =
  f_fd :: nat
  f_kind :: int
  f_size :: int
  f_seconds :: int
  f_nanos :: int
  f_generation :: u64

record hs_pool =
  p_stopping :: bool
  p_count :: int
  p_capacity :: int
  p_worker_limit :: int
  p_active :: int
  p_notified :: bool
  p_connection_limit :: int
  p_body_limit :: int
  p_directory_limit :: int
  p_body_owned :: int
  p_directory_owned :: int
  p_backend :: int

record hs_budget =
  b_refs :: int
  b_stopping :: bool
  b_queued :: int
  b_active :: int
  b_thread_count :: nat
  b_connections :: int
  b_body :: int
  b_directory :: int
  b_next_id :: u64
  b_pools :: "ptr list"
  b_ends :: ends

record hs_job =
  j_pool :: ptr
  j_file :: "ptr option"
  j_result :: "ptr option"
  j_path :: string
  j_data :: "bytes option"
  j_names :: "string list"
  j_operation :: int
  j_done :: bool
  j_cancelled :: bool
  j_code :: int
  j_length :: int
  j_offset :: int
  j_value :: int
  j_socket :: nat
  j_directory_charge :: int
  j_id :: u64
  j_generation :: u64

text \<open>
  Where a worker is: running a job, past the publication of a job of a pool, or past the notification.
  A worker that is not in \<open>busy\<close> is at the top of its loop.
\<close>

datatype phase = Running ptr ptr | Published ptr | Told ptr

record io =
  budget :: "hs_budget option"
  pools :: "ptr \<rightharpoonup> hs_pool"
  jobs :: "ptr \<rightharpoonup> hs_job"
  files :: "ptr \<rightharpoonup> hs_file"
  job_next :: link
  busy :: "nat \<rightharpoonup> phase"

definition init_io :: io where
  "init_io = \<lparr>budget = None, pools = Map.empty, jobs = Map.empty, files = Map.empty, job_next = (\<lambda>_. None), busy = Map.empty\<rparr>"

abbreviation set_budget :: "hs_budget \<Rightarrow> io \<Rightarrow> io" where
  "set_budget b s \<equiv> s\<lparr>budget := Some b\<rparr>"

abbreviation set_pool :: "ptr \<Rightarrow> hs_pool \<Rightarrow> io \<Rightarrow> io" where
  "set_pool p x s \<equiv> s\<lparr>pools := (pools s)(p \<mapsto> x)\<rparr>"

abbreviation set_job :: "ptr \<Rightarrow> hs_job \<Rightarrow> io \<Rightarrow> io" where
  "set_job j x s \<equiv> s\<lparr>jobs := (jobs s)(j \<mapsto> x)\<rparr>"

text \<open>The loops over \<open>b->pools\<close> that compute the smallest limit.\<close>

fun min_limit :: "(hs_pool \<Rightarrow> int) \<Rightarrow> io \<Rightarrow> ptr list \<Rightarrow> int \<Rightarrow> int option" where
  "min_limit f s [] limit = Some limit"
| "min_limit f s (q # qs) limit = (case pools s q of None \<Rightarrow> None
     | Some x \<Rightarrow> min_limit f s qs (if f x < limit then f x else limit))"

definition hs_worker_limit :: "io \<Rightarrow> hs_budget \<Rightarrow> int option" where
  "hs_worker_limit s b = min_limit p_worker_limit s (b_pools b) 64"

subsection \<open>Pools\<close>

definition new_pool :: "int \<Rightarrow> int \<Rightarrow> int \<Rightarrow> int \<Rightarrow> int \<Rightarrow> hs_pool" where
  "new_pool count capacity body directory backend =
     \<lparr>p_stopping = False, p_count = 0, p_capacity = capacity, p_worker_limit = count, p_active = 0, p_notified = False,
      p_connection_limit = 1024, p_body_limit = body, p_directory_limit = directory, p_body_owned = 0,
      p_directory_owned = 0, p_backend = backend\<rparr>"

definition new_budget :: hs_budget where
  "new_budget = \<lparr>b_refs = 0, b_stopping = False, b_queued = 0, b_active = 0, b_thread_count = 0, b_connections = 0,
     b_body = 0, b_directory = 0, b_next_id = 0, b_pools = [], b_ends = (None, None)\<rparr>"

text \<open>\<open>hs_io_pool_free\<close> up to the wait, and from the end of the wait on; the latter joins the workers and
  frees the budget with the last pool.\<close>

definition pool_free_begin :: "ptr \<Rightarrow> io \<Rightarrow> io option" where
  "pool_free_begin p s = do {
     x \<leftarrow> pools s p;
     b \<leftarrow> budget s;
     Some (set_pool p (x\<lparr>p_stopping := True\<rparr>) s)
   }"

definition pool_quiet :: "ptr \<Rightarrow> io \<Rightarrow> bool" where
  "pool_quiet p s = (case pools s p of None \<Rightarrow> True | Some x \<Rightarrow> p_count x = 0 \<and> p_active x = 0)"

definition pool_free_end :: "ptr \<Rightarrow> io \<Rightarrow> io option" where
  "pool_free_end p s = do {
     x \<leftarrow> pools s p;
     b \<leftarrow> budget s;
     let b = b\<lparr>b_body := b_body b - p_body_owned x, b_directory := b_directory b - p_directory_owned x,
               b_pools := remove1 p (b_pools b), b_refs := b_refs b - 1\<rparr>;
         s = s\<lparr>pools := (pools s)(p := None)\<rparr>
     in Some (if b_refs b = 0 then s\<lparr>budget := None\<rparr> else set_budget b s)
   }"

text \<open>
  \<open>mem\<close> and \<open>mem_budget\<close> are the results of the two \<open>calloc\<close>s, \<open>threads\<close> the number of \<open>pthread_create\<close> calls that
  succeed. \<open>supported\<close> is \<open>hs_io_backend_supported\<close>.
\<close>

definition hs_io_pool_new :: "bool \<Rightarrow> int \<Rightarrow> int \<Rightarrow> int \<Rightarrow> int \<Rightarrow> int \<Rightarrow> ptr option \<Rightarrow> bool \<Rightarrow> nat \<Rightarrow> io \<Rightarrow> (ptr option \<times> io) option" where
  "hs_io_pool_new supported count capacity body directory backend mem mem_budget threads s =
     (if count < 1 \<or> count > 64 \<or> capacity < 1 then Some (None, s)
      else if \<not> supported then Some (None, s)
      else case mem of
        None \<Rightarrow> Some (None, s)
      | Some p \<Rightarrow>
          (case (case budget s of Some b \<Rightarrow> Some b | None \<Rightarrow> if mem_budget then Some new_budget else None) of
             None \<Rightarrow> Some (None, s)
           | Some b \<Rightarrow>
               let started = min threads (nat count - b_thread_count b);
                   b = b\<lparr>b_pools := p # b_pools b, b_refs := b_refs b + 1, b_thread_count := b_thread_count b + started\<rparr>;
                   s = set_budget b (set_pool p (new_pool count capacity body directory backend) s)
               in if b_thread_count b \<ge> nat count then Some (Some p, s)
                  else do { s \<leftarrow> pool_free_begin p s; s \<leftarrow> pool_free_end p s; Some (None, s) }))"

subsection \<open>Credits\<close>

definition hs_io_reserve :: "ptr \<Rightarrow> bool \<Rightarrow> int \<Rightarrow> io \<Rightarrow> (bool \<times> io) option" where
  "hs_io_reserve p directory n s = do {
     x \<leftarrow> pools s p;
     b \<leftarrow> budget s;
     limit \<leftarrow> min_limit (if directory then p_directory_limit else p_body_limit) s (b_pools b) INT64_MAX;
     let used = (if directory then b_directory b else b_body b)
     in if n < 0 \<or> used > limit - n then Some (False, s)
        else if directory then
          Some (True, set_budget (b\<lparr>b_directory := used + n\<rparr>) (set_pool p (x\<lparr>p_directory_owned := p_directory_owned x + n\<rparr>) s))
        else Some (True, set_budget (b\<lparr>b_body := used + n\<rparr>) (set_pool p (x\<lparr>p_body_owned := p_body_owned x + n\<rparr>) s))
   }"

definition hs_io_release :: "ptr \<Rightarrow> bool \<Rightarrow> int \<Rightarrow> io \<Rightarrow> io option" where
  "hs_io_release p directory n s = do {
     x \<leftarrow> pools s p;
     b \<leftarrow> budget s;
     let owned = (if directory then p_directory_owned x else p_body_owned x)
     in if n \<ge> 0 \<and> owned \<ge> n then
          (if directory then
             Some (set_budget (b\<lparr>b_directory := b_directory b - n\<rparr>) (set_pool p (x\<lparr>p_directory_owned := owned - n\<rparr>) s))
           else Some (set_budget (b\<lparr>b_body := b_body b - n\<rparr>) (set_pool p (x\<lparr>p_body_owned := owned - n\<rparr>) s)))
        else Some s
   }"

definition hs_io_connection_limit :: "ptr \<Rightarrow> int \<Rightarrow> io \<Rightarrow> io option" where
  "hs_io_connection_limit p limit s = do {
     x \<leftarrow> pools s p;
     Some (set_pool p (x\<lparr>p_connection_limit := limit\<rparr>) s)
   }"

definition hs_io_connection_acquire :: "io \<Rightarrow> (bool \<times> io) option" where
  "hs_io_connection_acquire s = (case budget s of
     None \<Rightarrow> Some (False, s)
   | Some b \<Rightarrow> do {
       limit \<leftarrow> min_limit p_connection_limit s (b_pools b) INT_MAX;
       if b_connections b < limit then Some (True, set_budget (b\<lparr>b_connections := b_connections b + 1\<rparr>) s)
       else Some (False, s)
     })"

definition hs_io_connection_release :: "io \<Rightarrow> io" where
  "hs_io_connection_release s = (case budget s of
     None \<Rightarrow> s
   | Some b \<Rightarrow> if b_connections b > 0 then set_budget (b\<lparr>b_connections := b_connections b - 1\<rparr>) s else s)"

definition hs_io_body_acquire :: "int \<Rightarrow> io \<Rightarrow> (bool \<times> io) option" where
  "hs_io_body_acquire n s = (case budget s of
     None \<Rightarrow> Some (False, s)
   | Some b \<Rightarrow>
       if n < 0 then Some (False, s)
       else do {
         limit \<leftarrow> min_limit p_body_limit s (b_pools b) INT64_MAX;
         if b_body b \<le> limit - n then Some (True, set_budget (b\<lparr>b_body := b_body b + n\<rparr>) s)
         else Some (False, s)
       })"

definition hs_io_body_release :: "int \<Rightarrow> io \<Rightarrow> io" where
  "hs_io_body_release n s = (case budget s of
     None \<Rightarrow> s
   | Some b \<Rightarrow> if n \<ge> 0 \<and> b_body b \<ge> n then set_budget (b\<lparr>b_body := b_body b - n\<rparr>) s else s)"

subsection \<open>Jobs\<close>

text \<open>\<open>mem\<close> and \<open>mem_path\<close> are the results of the two allocations.\<close>

definition new_job :: "ptr \<Rightarrow> int \<Rightarrow> ptr option \<Rightarrow> string \<Rightarrow> int \<Rightarrow> int \<Rightarrow> nat \<Rightarrow> u64 \<Rightarrow> u64 \<Rightarrow> hs_job" where
  "new_job p operation file path offset len sock jid generation =
     \<lparr>j_pool = p, j_file = file, j_result = None, j_path = path, j_data = None, j_names = [], j_operation = operation,
      j_done = False, j_cancelled = False, j_code = 0, j_length = len, j_offset = offset, j_value = 0, j_socket = sock,
      j_directory_charge = 0, j_id = jid, j_generation = generation\<rparr>"

definition file_generation :: "io \<Rightarrow> ptr option \<Rightarrow> u64 option" where
  "file_generation s file = (case file of None \<Rightarrow> Some 0 | Some f \<Rightarrow> map_option f_generation (files s f))"

definition hs_io_submit :: "ptr option \<Rightarrow> bool \<Rightarrow> ptr \<Rightarrow> int \<Rightarrow> ptr option \<Rightarrow> string \<Rightarrow> int \<Rightarrow> int \<Rightarrow> nat \<Rightarrow> io \<Rightarrow> (ptr option \<times> io) option" where
  "hs_io_submit mem mem_path p operation file path offset len sock s =
     (case mem of
        None \<Rightarrow> Some (None, s)
      | Some j \<Rightarrow>
          if \<not> mem_path then Some (None, s)
          else do {
            x \<leftarrow> pools s p;
            b \<leftarrow> budget s;
            limit \<leftarrow> min_limit p_capacity s (b_pools b) INT_MAX;
            if p_stopping x \<or> b_queued b \<ge> limit then Some (None, s)
            else do {
              generation \<leftarrow> file_generation s file;
              let jid = b_next_id b + 1;
                  (nxt, q) = link_append j (job_next s, b_ends b)
              in Some (Some j,
                   set_budget (b\<lparr>b_next_id := jid, b_ends := q, b_queued := b_queued b + 1\<rparr>)
                     (set_pool p (x\<lparr>p_count := p_count x + 1\<rparr>)
                       (set_job j (new_job p operation file path offset len sock jid generation) (s\<lparr>job_next := nxt\<rparr>))))
            }
          })"

subsection \<open>Workers\<close>

text \<open>The condition under which worker \<open>w\<close> leaves the wait with a job.\<close>

definition worker_ready :: "io \<Rightarrow> bool" where
  "worker_ready s = (case budget s of
     None \<Rightarrow> False
   | Some b \<Rightarrow> fst (b_ends b) \<noteq> None \<and> (b_stopping b \<or> (case hs_worker_limit s b of None \<Rightarrow> False | Some n \<Rightarrow> b_active b < n)))"

definition worker_take :: "nat \<Rightarrow> io \<Rightarrow> io option" where
  "worker_take w s = do {
     b \<leftarrow> budget s;
     (j, (nxt, q)) \<leftarrow> link_pop (job_next s, b_ends b);
     y \<leftarrow> jobs s j;
     x \<leftarrow> pools s (j_pool y);
     Some (set_budget (b\<lparr>b_ends := q, b_queued := b_queued b - 1, b_active := b_active b + 1\<rparr>)
            (set_pool (j_pool y) (x\<lparr>p_count := p_count x - 1, p_active := p_active x + 1\<rparr>)
              (s\<lparr>job_next := nxt, busy := (busy s)(w \<mapsto> Running j (j_pool y))\<rparr>)))
   }"

text \<open>\<open>hs_add_name\<close> and \<open>hs_list\<close> reserve directory credits while they run.\<close>

definition worker_charge :: "nat \<Rightarrow> int \<Rightarrow> io \<Rightarrow> io option" where
  "worker_charge w n s = (case busy s w of
     Some (Running j p) \<Rightarrow> do {
       y \<leftarrow> jobs s j;
       if n > INT_MAX - j_directory_charge y then Some s
       else do {
         (ok, s) \<leftarrow> hs_io_reserve (j_pool y) True n s;
         Some (if ok then set_job j (y\<lparr>j_directory_charge := j_directory_charge y + n\<rparr>) s else s)
       }
     }
   | _ \<Rightarrow> Some s)"

text \<open>What a file operation leaves in its job: code, value, bytes, names, and an opened file.\<close>

record outcome =
  oc_code :: int
  oc_value :: int
  oc_data :: "bytes option"
  oc_names :: "string list"
  oc_file :: "(ptr \<times> hs_file) option"

definition with_outcome :: "outcome \<Rightarrow> hs_job \<Rightarrow> hs_job" where
  "with_outcome r y = y\<lparr>j_value := oc_value r, j_data := oc_data r, j_names := oc_names r, j_result := map_option fst (oc_file r)\<rparr>"

text \<open>
  The end of a job: the file it opened gets the job's number as generation, and the code is
  \<open>-9\<close> when the job was cancelled meanwhile.
\<close>

definition worker_publish :: "nat \<Rightarrow> outcome \<Rightarrow> io \<Rightarrow> io option" where
  "worker_publish w r s = (case busy s w of
     Some (Running j p) \<Rightarrow> do {
       y \<leftarrow> jobs s j;
       x \<leftarrow> pools s p;
       let y' = (with_outcome r y)\<lparr>j_code := (if j_cancelled y then - 9 else oc_code r), j_done := True\<rparr>;
           fs = (case oc_file r of None \<Rightarrow> files s | Some (f, v) \<Rightarrow> (files s)(f \<mapsto> v\<lparr>f_generation := j_id y\<rparr>))
       in Some ((set_job j y' s)\<lparr>files := fs, busy := (busy s)(w \<mapsto> Published p)\<rparr>)
     }
   | _ \<Rightarrow> Some s)"

definition hs_notify :: "ptr \<Rightarrow> io \<Rightarrow> io option" where
  "hs_notify p s = do { x \<leftarrow> pools s p; Some (set_pool p (x\<lparr>p_notified := True\<rparr>) s) }"

definition worker_notify :: "nat \<Rightarrow> io \<Rightarrow> io option" where
  "worker_notify w s = (case busy s w of
     Some (Published p) \<Rightarrow> do { s \<leftarrow> hs_notify p s; Some (s\<lparr>busy := (busy s)(w \<mapsto> Told p)\<rparr>) }
   | _ \<Rightarrow> Some s)"

definition worker_retire :: "nat \<Rightarrow> io \<Rightarrow> io option" where
  "worker_retire w s = (case busy s w of
     Some (Told p) \<Rightarrow> do {
       x \<leftarrow> pools s p;
       b \<leftarrow> budget s;
       Some (set_budget (b\<lparr>b_active := b_active b - 1\<rparr>)
              (set_pool p (x\<lparr>p_active := p_active x - 1\<rparr>) (s\<lparr>busy := (busy s)(w := None)\<rparr>)))
     }
   | _ \<Rightarrow> Some s)"

subsection \<open>What the owner sees of a job\<close>

definition hs_io_ack :: "ptr \<Rightarrow> io \<Rightarrow> io option" where
  "hs_io_ack p s = do { x \<leftarrow> pools s p; Some (set_pool p (x\<lparr>p_notified := False\<rparr>) s) }"

definition hs_io_done :: "ptr \<Rightarrow> io \<Rightarrow> bool option" where
  "hs_io_done j s = do { y \<leftarrow> jobs s j; _ \<leftarrow> pools s (j_pool y); Some (j_done y) }"

definition hs_io_cancel :: "ptr \<Rightarrow> io \<Rightarrow> io option" where
  "hs_io_cancel j s = do { y \<leftarrow> jobs s j; _ \<leftarrow> pools s (j_pool y); Some (set_job j (y\<lparr>j_cancelled := True\<rparr>) s) }"

definition hs_io_code :: "ptr \<Rightarrow> io \<Rightarrow> int option" where
  "hs_io_code j s = map_option j_code (jobs s j)"

definition hs_io_value :: "ptr \<Rightarrow> io \<Rightarrow> int option" where
  "hs_io_value j s = map_option j_value (jobs s j)"

definition hs_io_take_file :: "ptr \<Rightarrow> io \<Rightarrow> (ptr option \<times> io) option" where
  "hs_io_take_file j s = do { y \<leftarrow> jobs s j; Some (j_result y, set_job j (y\<lparr>j_result := None\<rparr>) s) }"

text \<open>\<open>memcpy(b, j->data, n)\<close>: reading past the job's bytes is \<open>None\<close>.\<close>

definition hs_io_bytes :: "ptr \<Rightarrow> io \<Rightarrow> bytes option" where
  "hs_io_bytes j s = do {
     y \<leftarrow> jobs s j;
     let n = nat (j_value y)
     in if n = 0 then Some []
        else case j_data y of None \<Rightarrow> None | Some d \<Rightarrow> if n \<le> length d then Some (take n d) else None
   }"

definition hs_io_names_count :: "ptr \<Rightarrow> io \<Rightarrow> int option" where
  "hs_io_names_count j s = map_option (\<lambda>y. int (length (j_names y))) (jobs s j)"

definition hs_io_name :: "ptr \<Rightarrow> int \<Rightarrow> io \<Rightarrow> string option" where
  "hs_io_name j i s = do {
     y \<leftarrow> jobs s j;
     if 0 \<le> i \<and> nat i < length (j_names y) then Some (j_names y ! nat i) else None
   }"

definition hs_io_take_directory_charge :: "ptr \<Rightarrow> io \<Rightarrow> (int \<times> io) option" where
  "hs_io_take_directory_charge j s = do {
     y \<leftarrow> jobs s j;
     Some (j_directory_charge y, set_job j (y\<lparr>j_directory_charge := 0\<rparr>) s)
   }"

definition hs_io_file_free :: "ptr option \<Rightarrow> io \<Rightarrow> io option" where
  "hs_io_file_free file s = (case file of
     None \<Rightarrow> Some s
   | Some f \<Rightarrow> do { _ \<leftarrow> files s f; Some (s\<lparr>files := (files s)(f := None)\<rparr>) })"

definition hs_io_job_free :: "ptr option \<Rightarrow> io \<Rightarrow> io option" where
  "hs_io_job_free job s = (case job of
     None \<Rightarrow> Some s
   | Some j \<Rightarrow> do {
       y \<leftarrow> jobs s j;
       s \<leftarrow> hs_io_release (j_pool y) True (j_directory_charge y) s;
       s \<leftarrow> hs_io_file_free (j_result y) s;
       Some (s\<lparr>jobs := (jobs s)(j := None)\<rparr>)
     })"

definition hs_io_file_kind :: "ptr \<Rightarrow> io \<Rightarrow> int option" where
  "hs_io_file_kind f s = map_option f_kind (files s f)"

definition hs_io_file_size :: "ptr \<Rightarrow> io \<Rightarrow> int option" where
  "hs_io_file_size f s = map_option f_size (files s f)"

definition hs_io_file_time :: "ptr \<Rightarrow> io \<Rightarrow> int option" where
  "hs_io_file_time f s = map_option f_seconds (files s f)"

definition hs_io_null :: "ptr option \<Rightarrow> bool" where
  "hs_io_null p \<longleftrightarrow> p = None"

end
