(* ===== verification/Native_Inv.thy ===== *)
theory Native_Inv
  imports Native_Model
begin

text \<open>
  The invariant of the executor. The record \<open>held\<close> says what the owner holds beyond the C state: directory
  credits taken from finished jobs or reserved directly, body credits acquired without a pool, the
  files it was given, and the pool it is blocked on in \<open>hs_io_pool_free\<close>; and, for the order of
  execution, the jobs accepted and started so far.
\<close>

record iow =
  own_dir :: "ptr \<Rightarrow> int"
  loose :: int
  own_files :: "ptr set"
  freeing :: "ptr option"
  accepted :: "ptr list"
  started :: "ptr list"

definition init_iow :: iow where
  "init_iow = \<lparr>own_dir = (\<lambda>_. 0), loose = 0, own_files = {}, freeing = None, accepted = [], started = []\<rparr>"

fun phase_pool :: "phase \<Rightarrow> ptr" where
  "phase_pool (Running j p) = p"
| "phase_pool (Published p) = p"
| "phase_pool (Told p) = p"

definition job_pool :: "io \<Rightarrow> ptr \<Rightarrow> ptr option" where
  "job_pool s j = map_option j_pool (jobs s j)"

subsection \<open>The parts of the invariant\<close>

definition inv_queue :: "ptr list \<Rightarrow> hs_budget \<Rightarrow> io \<Rightarrow> bool" where
  "inv_queue js b s \<longleftrightarrow> queue_rep (job_next s, b_ends b) js \<and> b_queued b = int (length js) \<and>
     (\<forall>j\<in>set js. \<exists>y. jobs s j = Some y \<and> \<not> j_done y)"

definition inv_jobs :: "ptr list \<Rightarrow> io \<Rightarrow> bool" where
  "inv_jobs js s \<longleftrightarrow> finite (dom (jobs s)) \<and> (\<forall>j y. jobs s j = Some y \<longrightarrow> pools s (j_pool y) \<noteq> None \<and>
     0 \<le> j_directory_charge y \<and> j_directory_charge y \<le> INT_MAX \<and>
     (\<not> j_done y \<longrightarrow> j \<in> set js \<or> (\<exists>w. busy s w = Some (Running j (j_pool y)))))"

definition inv_busy :: "ptr list \<Rightarrow> hs_budget \<Rightarrow> io \<Rightarrow> bool" where
  "inv_busy js b s \<longleftrightarrow> finite (dom (busy s)) \<and> b_thread_count b \<le> 64 \<and>
     (\<forall>w ph. busy s w = Some ph \<longrightarrow> w < b_thread_count b \<and> pools s (phase_pool ph) \<noteq> None) \<and>
     (\<forall>w j p. busy s w = Some (Running j p) \<longrightarrow> j \<notin> set js \<and> (\<exists>y. jobs s j = Some y \<and> \<not> j_done y \<and> j_pool y = p)) \<and>
     (\<forall>w w' j p p'. busy s w = Some (Running j p) \<longrightarrow> busy s w' = Some (Running j p') \<longrightarrow> w = w')"

definition active_in :: "ptr \<Rightarrow> io \<Rightarrow> int" where
  "active_in p s = heap_sum (\<lambda>_ ph. of_bool (phase_pool ph = p)) (busy s)"

definition queued_in :: "ptr \<Rightarrow> ptr list \<Rightarrow> io \<Rightarrow> int" where
  "queued_in p js s = int (length (filter (\<lambda>j. job_pool s j = Some p) js))"

definition inv_counts :: "ptr list \<Rightarrow> hs_budget \<Rightarrow> io \<Rightarrow> bool" where
  "inv_counts js b s \<longleftrightarrow> b_active b = heap_sum (\<lambda>_ _. 1) (busy s) \<and>
     (\<forall>p x. pools s p = Some x \<longrightarrow> p_count x = queued_in p js s \<and> p_active x = active_in p s)"

definition charged_in :: "ptr \<Rightarrow> io \<Rightarrow> int" where
  "charged_in p s = heap_sum (\<lambda>_ y. if j_pool y = p then j_directory_charge y else 0) (jobs s)"

definition inv_credit :: "iow \<Rightarrow> hs_budget \<Rightarrow> io \<Rightarrow> bool" where
  "inv_credit W b s \<longleftrightarrow>
     b_body b = heap_sum (\<lambda>_. p_body_owned) (pools s) + loose W \<and> 0 \<le> loose W \<and>
     b_directory b = heap_sum (\<lambda>_. p_directory_owned) (pools s) \<and>
     b_body b \<le> INT_MAX \<and> b_directory b \<le> INT_MAX \<and> 0 \<le> b_connections b \<and>
     (\<forall>p. 0 \<le> own_dir W p \<and> (pools s p = None \<longrightarrow> own_dir W p = 0)) \<and>
     (\<forall>p x. pools s p = Some x \<longrightarrow> 0 \<le> p_body_owned x \<and> p_directory_owned x = charged_in p s + own_dir W p)"

definition inv_pools :: "hs_budget \<Rightarrow> io \<Rightarrow> bool" where
  "inv_pools b s \<longleftrightarrow> set (b_pools b) = dom (pools s) \<and> distinct (b_pools b) \<and> b_refs b = int (length (b_pools b)) \<and>
     b_pools b \<noteq> [] \<and> \<not> b_stopping b \<and>
     (\<forall>p x. pools s p = Some x \<longrightarrow> 1 \<le> p_worker_limit x \<and> p_worker_limit x \<le> int (b_thread_count b) \<and>
        p_body_limit x \<le> INT_MAX \<and> p_directory_limit x \<le> INT_MAX)"

definition job_files :: "io \<Rightarrow> ptr set" where
  "job_files s = {f. \<exists>j y. jobs s j = Some y \<and> j_result y = Some f}"

definition inv_files :: "iow \<Rightarrow> io \<Rightarrow> bool" where
  "inv_files W s \<longleftrightarrow>
     dom (files s) = own_files W \<union> job_files s \<and>
     (\<forall>j y f. jobs s j = Some y \<longrightarrow> j_result y = Some f \<longrightarrow> f \<notin> own_files W) \<and>
     (\<forall>j j' y y' f. jobs s j = Some y \<longrightarrow> jobs s j' = Some y' \<longrightarrow> j_result y = Some f \<longrightarrow> j_result y' = Some f \<longrightarrow> j = j') \<and>
     (\<forall>j y f. jobs s j = Some y \<longrightarrow> \<not> j_done y \<longrightarrow> j_result y = None \<and> (j_file y = Some f \<longrightarrow> f \<in> own_files W))"

definition inv_freeing :: "iow \<Rightarrow> io \<Rightarrow> bool" where
  "inv_freeing W s \<longleftrightarrow> (case freeing W of None \<Rightarrow> True | Some p \<Rightarrow> pools s p \<noteq> None \<and> (\<forall>j y. jobs s j = Some y \<longrightarrow> j_pool y \<noteq> p))"

definition io_inv :: "iow \<Rightarrow> io \<Rightarrow> bool" where
  "io_inv W s \<longleftrightarrow> inv_files W s \<and> inv_freeing W s \<and>
     (case budget s of
        None \<Rightarrow> pools s = Map.empty \<and> jobs s = Map.empty \<and> busy s = Map.empty \<and> loose W = 0 \<and> own_dir W = (\<lambda>_. 0) \<and>
          accepted W = started W
      | Some b \<Rightarrow> (\<exists>js. inv_queue js b s \<and> inv_jobs js s \<and> inv_busy js b s \<and> inv_counts js b s \<and> inv_credit W b s \<and>
          inv_pools b s \<and> accepted W = started W @ js))"

lemma io_inv_init: "io_inv init_iow init_io"
  by (simp add: io_inv_def init_iow_def init_io_def inv_files_def inv_freeing_def job_files_def)

lemmas inv_parts = inv_queue_def inv_jobs_def inv_busy_def inv_counts_def inv_credit_def inv_pools_def

lemma io_invE:
  assumes "io_inv W s" "budget s = Some b"
  obtains js where "inv_queue js b s" "inv_jobs js s" "inv_busy js b s" "inv_counts js b s" "inv_credit W b s"
    "inv_pools b s" "inv_files W s" "inv_freeing W s" "accepted W = started W @ js"
  using assms by (auto simp: io_inv_def)

lemma io_invI:
  assumes "inv_queue js b s" "inv_jobs js s" "inv_busy js b s" "inv_counts js b s" "inv_credit W b s"
    "inv_pools b s" "inv_files W s" "inv_freeing W s" "accepted W = started W @ js" "budget s = Some b"
  shows "io_inv W s"
  using assms by (auto simp: io_inv_def)

lemma pool_budget:
  assumes "io_inv W s" "pools s p = Some x"
  obtains b where "budget s = Some b"
  using assms by (auto simp: io_inv_def split: option.splits)

subsection \<open>Limits\<close>

lemma min_limit_Some:
  assumes "\<forall>q\<in>set qs. pools s q \<noteq> None"
  shows "\<exists>n. min_limit f s qs l = Some n \<and> n \<le> l \<and> (\<forall>q\<in>set qs. \<forall>x. pools s q = Some x \<longrightarrow> n \<le> f x) \<and>
    (n = l \<or> (\<exists>q\<in>set qs. \<exists>x. pools s q = Some x \<and> n = f x))"
  using assms
proof (induction qs arbitrary: l)
  case Nil
  then show ?case by simp
next
  case (Cons q qs)
  then obtain x where x: "pools s q = Some x" by auto
  let ?l = "if f x < l then f x else l"
  obtain n where n: "min_limit f s qs ?l = Some n" "n \<le> ?l" "\<forall>q\<in>set qs. \<forall>x. pools s q = Some x \<longrightarrow> n \<le> f x"
    "n = ?l \<or> (\<exists>q\<in>set qs. \<exists>x. pools s q = Some x \<and> n = f x)"
    using Cons.IH [of ?l] Cons.prems by auto
  from n(2) have le: "n \<le> f x" "n \<le> l" by (auto split: if_splits)
  have "n = l \<or> (\<exists>q\<in>set (q # qs). \<exists>x. pools s q = Some x \<and> n = f x)"
    using n(4) x by (cases "f x < l") auto
  with n(1,3) le x show ?case by simp
qed

lemma inv_min_limit:
  assumes "inv_pools b s"
  shows "\<exists>n. min_limit f s (b_pools b) l = Some n \<and> n \<le> l \<and> (\<forall>p x. pools s p = Some x \<longrightarrow> n \<le> f x)"
proof -
  have "set (b_pools b) = dom (pools s)" using assms by (simp add: inv_pools_def)
  with min_limit_Some [of "b_pools b" s f l] show ?thesis by (auto simp: domD)
qed

subsection \<open>Frames\<close>

lemma queued_in_cong:
  "(\<And>j. j \<in> set js \<Longrightarrow> job_pool s' j = job_pool s j) \<Longrightarrow> queued_in p js s' = queued_in p js s"
  by (simp add: queued_in_def cong: filter_cong)

lemma active_in_frame [simp]:
  "active_in p (s\<lparr>budget := b\<rparr>) = active_in p s" "active_in p (s\<lparr>pools := x\<rparr>) = active_in p s"
  "active_in p (s\<lparr>jobs := y\<rparr>) = active_in p s" "active_in p (s\<lparr>files := f\<rparr>) = active_in p s"
  "active_in p (s\<lparr>job_next := n\<rparr>) = active_in p s"
  by (simp_all add: active_in_def)

lemma charged_in_frame [simp]:
  "charged_in p (s\<lparr>budget := b\<rparr>) = charged_in p s" "charged_in p (s\<lparr>pools := x\<rparr>) = charged_in p s"
  "charged_in p (s\<lparr>busy := y\<rparr>) = charged_in p s" "charged_in p (s\<lparr>files := f\<rparr>) = charged_in p s"
  "charged_in p (s\<lparr>job_next := n\<rparr>) = charged_in p s"
  by (simp_all add: charged_in_def)

lemma queued_in_frame [simp]:
  "queued_in p js (s\<lparr>budget := b\<rparr>) = queued_in p js s" "queued_in p js (s\<lparr>pools := x\<rparr>) = queued_in p js s"
  "queued_in p js (s\<lparr>busy := y\<rparr>) = queued_in p js s" "queued_in p js (s\<lparr>files := f\<rparr>) = queued_in p js s"
  "queued_in p js (s\<lparr>job_next := n\<rparr>) = queued_in p js s"
  by (simp_all add: queued_in_def job_pool_def)

lemma job_files_frame [simp]:
  "job_files (s\<lparr>budget := b\<rparr>) = job_files s" "job_files (s\<lparr>pools := x\<rparr>) = job_files s"
  "job_files (s\<lparr>busy := y\<rparr>) = job_files s" "job_files (s\<lparr>files := f\<rparr>) = job_files s"
  "job_files (s\<lparr>job_next := n\<rparr>) = job_files s"
  by (simp_all add: job_files_def)

lemma job_filesI: "jobs s j = Some y \<Longrightarrow> j_result y = Some f \<Longrightarrow> f \<in> job_files s"
  unfolding job_files_def by blast

lemma job_filesE:
  assumes "f \<in> job_files s"
  obtains j y where "jobs s j = Some y" "j_result y = Some f"
  using assms unfolding job_files_def by blast

lemma job_files_set_le:
  assumes "jobs s j = Some y" "set_option (j_result y') \<subseteq> set_option (j_result y)"
  shows "job_files (set_job j y' s) \<subseteq> job_files s"
proof
  fix f assume "f \<in> job_files (set_job j y' s)"
  then obtain k z where "jobs (set_job j y' s) k = Some z" "j_result z = Some f" by (rule job_filesE)
  with assms show "f \<in> job_files s" by (cases "k = j") (auto intro: job_filesI)
qed

lemma job_files_set_ge:
  assumes "jobs s j = Some y"
  shows "job_files s \<subseteq> set_option (j_result y) \<union> job_files (set_job j y' s)"
proof
  fix f assume "f \<in> job_files s"
  then obtain k z where k: "jobs s k = Some z" "j_result z = Some f" by (rule job_filesE)
  show "f \<in> set_option (j_result y) \<union> job_files (set_job j y' s)"
  proof (cases "k = j")
    case False
    then have "jobs (set_job j y' s) k = Some z" using k(1) by simp
    from job_filesI [OF this k(2)] show ?thesis by simp
  qed (use assms k in auto)
qed

lemma job_files_set:
  assumes "jobs s j = Some y" "j_result y' = j_result y"
  shows "job_files (set_job j y' s) = job_files s"
proof -
  have "set_option (j_result y) \<subseteq> job_files (set_job j y' s)"
    using assms job_filesI [of "set_job j y' s" j y'] by auto
  with job_files_set_le [OF assms(1), of y'] job_files_set_ge [OF assms(1), of y'] assms(2) show ?thesis by auto
qed

lemma job_files_take:
  assumes "jobs s j = Some y" "j_result y' = None"
  shows "job_files s = set_option (j_result y) \<union> job_files (set_job j y' s)"
  using job_files_set_le [OF assms(1), of y'] job_files_set_ge [OF assms(1), of y'] assms
    job_filesI [OF assms(1)] by auto

lemma pool_sum:
  assumes "inv_pools b s" "pools s p = Some x"
  shows "heap_sum (\<lambda>_. f) ((pools s)(p \<mapsto> x')) = heap_sum (\<lambda>_. f) (pools s) - f x + f x'"
proof -
  have "finite (dom (pools s))" using assms(1) by (metis inv_pools_def List.finite_set)
  then show ?thesis using assms(2) by (simp add: heap_sum_upd)
qed

lemma charged_nonneg: "inv_jobs js s \<Longrightarrow> 0 \<le> charged_in p s"
  unfolding charged_in_def by (rule heap_sum_nonneg) (auto simp: inv_jobs_def)

lemma charged_ge:
  assumes "inv_jobs js s" "jobs s j = Some y"
  shows "j_directory_charge y \<le> charged_in (j_pool y) s"
proof -
  let ?f = "\<lambda>_ z. if j_pool z = j_pool y then j_directory_charge z else 0"
  have "finite (dom (jobs s))" "\<And>p x. jobs s p = Some x \<Longrightarrow> 0 \<le> ?f p x"
    using assms(1) by (auto simp: inv_jobs_def)
  from heap_sum_ge_cell [of "jobs s" ?f j y, OF this assms(2)] show ?thesis by (simp add: charged_in_def)
qed

end
