(* ===== verification/Native_Steps.thy ===== *)
theory Native_Steps
  imports Native_Inv
begin

text \<open>Every step of the owner and of the workers keeps the invariant of the executor.\<close>

subsection \<open>Reading the invariant\<close>

lemma pool_facts:
  assumes "inv_pools b s" "pools s p = Some x"
  shows "1 \<le> p_worker_limit x" "p_worker_limit x \<le> int (b_thread_count b)" "p_body_limit x \<le> INT_MAX"
    "p_directory_limit x \<le> INT_MAX" "p \<in> set (b_pools b)"
  using assms unfolding inv_pools_def by (blast, blast, blast, blast, blast)

lemma pool_exists:
  assumes "inv_pools b s"
  obtains p x where "pools s p = Some x"
proof -
  have "b_pools b \<noteq> []" "set (b_pools b) = dom (pools s)" using assms unfolding inv_pools_def by (blast, blast)
  then have "hd (b_pools b) \<in> dom (pools s)" using hd_in_set by metis
  then show thesis using that by blast
qed

lemma credit_facts:
  assumes "inv_credit W b s"
  shows "0 \<le> loose W" "b_body b \<le> INT_MAX" "b_directory b \<le> INT_MAX" "0 \<le> b_connections b" "0 \<le> own_dir W p"
    "pools s p = None \<Longrightarrow> own_dir W p = 0"
  using assms by (simp_all add: inv_credit_def)

lemma credit_pool:
  assumes "inv_credit W b s" "pools s p = Some x"
  shows "0 \<le> p_body_owned x" "p_directory_owned x = charged_in p s + own_dir W p"
  using assms by (simp_all add: inv_credit_def)

lemma credit_write:
  assumes "inv_credit W b s" "inv_pools b s" "pools s p = Some x"
    and "b_body b' - loose W' - p_body_owned x' = b_body b - loose W - p_body_owned x"
    and "b_directory b' - p_directory_owned x' = b_directory b - p_directory_owned x"
    and "b_body b' \<le> INT_MAX" "b_directory b' \<le> INT_MAX" "0 \<le> b_connections b'" "0 \<le> loose W'" "0 \<le> p_body_owned x'"
    and "p_directory_owned x' - own_dir W' p = p_directory_owned x - own_dir W p" "0 \<le> own_dir W' p"
    and own: "\<And>q. q \<noteq> p \<Longrightarrow> own_dir W' q = own_dir W q"
  shows "inv_credit W' b' (set_budget b' (set_pool p x' s))"
proof -
  have "b_body b' = heap_sum (\<lambda>_. p_body_owned) ((pools s)(p \<mapsto> x')) + loose W'"
    using assms(1,4) pool_sum [OF assms(2,3), of p_body_owned x'] by (simp add: inv_credit_def)
  moreover have "b_directory b' = heap_sum (\<lambda>_. p_directory_owned) ((pools s)(p \<mapsto> x'))"
    using assms(1,5) pool_sum [OF assms(2,3), of p_directory_owned x'] by (simp add: inv_credit_def)
  moreover have "0 \<le> own_dir W' q \<and> (((pools s)(p \<mapsto> x')) q = None \<longrightarrow> own_dir W' q = 0)" for q
    using assms(12) own [of q] credit_facts(5,6) [OF assms(1), of q] by (cases "q = p") simp_all
  moreover have "0 \<le> p_body_owned y \<and> p_directory_owned y = charged_in q s + own_dir W' q"
    if "((pools s)(p \<mapsto> x')) q = Some y" for q y
  proof (cases "q = p")
    case True
    then show ?thesis using that assms(10,11) credit_pool(2) [OF assms(1,3)] by simp
  next
    case False
    then show ?thesis using that own [of q] credit_pool [OF assms(1), of q y] by simp
  qed
  ultimately show ?thesis using assms(6-9) by (simp add: inv_credit_def)
qed

subsection \<open>Writes that only move credits and flags\<close>

definition same_shape :: "hs_budget \<Rightarrow> hs_budget \<Rightarrow> bool" where
  "same_shape b b' \<longleftrightarrow> b_ends b' = b_ends b \<and> b_queued b' = b_queued b \<and> b_active b' = b_active b \<and>
     b_thread_count b' = b_thread_count b \<and> b_pools b' = b_pools b \<and> b_refs b' = b_refs b \<and> b_stopping b' = b_stopping b"

definition same_pool :: "hs_pool \<Rightarrow> hs_pool \<Rightarrow> bool" where
  "same_pool x x' \<longleftrightarrow> p_count x' = p_count x \<and> p_active x' = p_active x \<and> p_worker_limit x' = p_worker_limit x \<and>
     p_body_limit x' = p_body_limit x \<and> p_directory_limit x' = p_directory_limit x"

lemma frame_write:
  assumes "io_inv W s" "budget s = Some b" "pools s p = Some x" "same_shape b b'" "same_pool x x'"
    and W: "own_files W' = own_files W" "freeing W' = freeing W" "accepted W' = accepted W" "started W' = started W"
    and credit: "inv_credit W' b' (set_budget b' (set_pool p x' s))"
  shows "io_inv W' (set_budget b' (set_pool p x' s))"
proof -
  let ?s = "set_budget b' (set_pool p x' s)"
  obtain js where i: "inv_queue js b s" "inv_jobs js s" "inv_busy js b s" "inv_counts js b s" "inv_credit W b s"
    "inv_pools b s" "inv_files W s" "inv_freeing W s" "accepted W = started W @ js"
    using io_invE [OF assms(1,2)] .
  have pool: "pools ?s q = Some y \<Longrightarrow> \<exists>y'. pools s q = Some y' \<and> same_pool y' y" for q y
    using assms(3,5) by (cases "q = p") (auto simp: same_pool_def)
  have dom: "(pools ?s q = None) = (pools s q = None)" for q using assms(3) by simp
  show ?thesis
  proof (rule io_invI [OF _ _ _ _ credit])
    show "inv_queue js b' ?s" using i(1) assms(4) by (simp add: inv_queue_def same_shape_def)
    show "inv_jobs js ?s" using i(2) unfolding inv_jobs_def dom by simp
    show "inv_busy js b' ?s" using i(3) assms(4) unfolding inv_busy_def dom same_shape_def by simp
    have "p_count y = queued_in q js s \<and> p_active y = active_in q s" if "pools ?s q = Some y" for q y
      using pool [OF that] i(4) by (auto simp: inv_counts_def same_pool_def)
    then show "inv_counts js b' ?s" using i(4) assms(4) by (simp add: inv_counts_def same_shape_def)
    have "1 \<le> p_worker_limit y \<and> p_worker_limit y \<le> int (b_thread_count b) \<and> p_body_limit y \<le> INT_MAX \<and> p_directory_limit y \<le> INT_MAX"
      if "pools ?s q = Some y" for q y
      using pool [OF that] pool_facts [OF i(6)] by (auto simp: same_pool_def)
    moreover have "dom (pools ?s) = dom (pools s)" using assms(3) by auto
    ultimately show "inv_pools b' ?s" using i(6) assms(4) unfolding inv_pools_def same_shape_def by metis
    show "inv_files W' ?s" using i(7) W by (simp add: inv_files_def)
    show "inv_freeing W' ?s" using i(8) W dom by (auto simp: inv_freeing_def split: option.splits)
    show "accepted W' = started W' @ js" using i(9) W by simp
  qed simp
qed

lemma frame_budget:
  assumes "io_inv W s" "budget s = Some b" "same_shape b b'"
    and W: "own_files W' = own_files W" "freeing W' = freeing W" "accepted W' = accepted W" "started W' = started W"
    and credit: "inv_credit W' b' (set_budget b' s)"
  shows "io_inv W' (set_budget b' s)"
proof -
  obtain js where "inv_pools b s" using io_invE [OF assms(1,2)] .
  then obtain p x where x: "pools s p = Some x" using pool_exists by blast
  then have "set_pool p x s = s" by (simp add: fun_upd_idem)
  then show ?thesis
    using frame_write [OF assms(1,2) x assms(3) _ W, of x] credit by (simp add: same_pool_def)
qed

lemma flag_write:
  assumes "io_inv W s" "pools s p = Some x" "same_pool x x'"
    and "p_body_owned x' = p_body_owned x" "p_directory_owned x' = p_directory_owned x"
  shows "io_inv W (set_pool p x' s)"
proof -
  obtain b where b: "budget s = Some b" using pool_budget [OF assms(1,2)] .
  obtain js where i: "inv_credit W b s" "inv_pools b s" using io_invE [OF assms(1) b] .
  have "set_budget b (set_pool p x' s) = set_pool p x' s" using b by (cases s) simp
  moreover have "inv_credit W b (set_budget b (set_pool p x' s))"
    using credit_write [OF i assms(2), of b W x'] assms(4,5) credit_facts [OF i(1)] credit_pool [OF i(1) assms(2)] by simp
  ultimately show ?thesis
    using frame_write [OF assms(1) b assms(2) _ assms(3), of b W] by (simp add: same_shape_def)
qed

subsection \<open>Credits\<close>

lemma reserve_ok:
  assumes "io_inv W s" "pools s p = Some x"
  shows "\<exists>ok s'. hs_io_reserve p directory n s = Some (ok, s') \<and> jobs s' = jobs s \<and> busy s' = busy s \<and> job_next s' = job_next s \<and>
    (\<not> ok \<longrightarrow> s' = s) \<and>
    (ok \<longrightarrow> 0 \<le> n \<and> io_inv (if directory then W\<lparr>own_dir := (own_dir W)(p := own_dir W p + n)\<rparr> else W) s')"
proof -
  obtain b where b: "budget s = Some b" using pool_budget [OF assms] .
  obtain js where i: "inv_credit W b s" "inv_pools b s" using io_invE [OF assms(1) b] .
  let ?f = "if directory then p_directory_limit else p_body_limit"
  obtain l where l: "min_limit ?f s (b_pools b) INT64_MAX = Some l" "l \<le> ?f x"
    using inv_min_limit [OF i(2), of ?f INT64_MAX] assms(2) by blast
  have lim: "l \<le> INT_MAX" using l(2) pool_facts(3,4) [OF i(2) assms(2)] by (simp split: if_splits)
  note facts = credit_facts [OF i(1)] credit_pool [OF i(1) assms(2)]
  show ?thesis
  proof (cases "n < 0 \<or> (if directory then b_directory b else b_body b) > l - n")
    case True
    then show ?thesis using assms(2) b l(1) by (auto simp: hs_io_reserve_def)
  next
    case False
    show ?thesis
    proof (cases directory)
      case True
      let ?b = "b\<lparr>b_directory := b_directory b + n\<rparr>" and ?x = "x\<lparr>p_directory_owned := p_directory_owned x + n\<rparr>"
      have "inv_credit (W\<lparr>own_dir := (own_dir W)(p := own_dir W p + n)\<rparr>) ?b (set_budget ?b (set_pool p ?x s))"
        by (rule credit_write [OF i assms(2)]) (use facts False True lim in simp_all)
      then show ?thesis
        using frame_write [OF assms(1) b assms(2), of ?b ?x] False True assms(2) b l(1)
        by (auto simp: hs_io_reserve_def same_shape_def same_pool_def)
    next
      case False' : False
      let ?b = "b\<lparr>b_body := b_body b + n\<rparr>" and ?x = "x\<lparr>p_body_owned := p_body_owned x + n\<rparr>"
      have "inv_credit W ?b (set_budget ?b (set_pool p ?x s))"
        by (rule credit_write [OF i assms(2)]) (use facts False False' lim in simp_all)
      then show ?thesis
        using frame_write [OF assms(1) b assms(2), of ?b ?x W] False False' assms(2) b l(1)
        by (auto simp: hs_io_reserve_def same_shape_def same_pool_def)
    qed
  qed
qed

lemma release_ok:
  assumes "io_inv W s" "pools s p = Some x" "directory \<longrightarrow> 0 \<le> n \<and> n \<le> own_dir W p"
  shows "\<exists>s'. hs_io_release p directory n s = Some s' \<and> jobs s' = jobs s \<and> busy s' = busy s \<and> files s' = files s \<and>
    io_inv (if directory then W\<lparr>own_dir := (own_dir W)(p := own_dir W p - n)\<rparr> else W) s'"
proof -
  obtain b where b: "budget s = Some b" using pool_budget [OF assms(1,2)] .
  obtain js where i: "inv_credit W b s" "inv_pools b s" "inv_jobs js s" using io_invE [OF assms(1) b] .
  note facts = credit_facts [OF i(1)] credit_pool [OF i(1) assms(2)]
  show ?thesis
  proof (cases directory)
    case True
    let ?b = "b\<lparr>b_directory := b_directory b - n\<rparr>" and ?x = "x\<lparr>p_directory_owned := p_directory_owned x - n\<rparr>"
    have n: "0 \<le> n" "n \<le> p_directory_owned x"
      using True assms(3) facts charged_nonneg [OF i(3), of p] by simp_all
    have "inv_credit (W\<lparr>own_dir := (own_dir W)(p := own_dir W p - n)\<rparr>) ?b (set_budget ?b (set_pool p ?x s))"
      by (rule credit_write [OF i(1,2) assms(2)]) (use facts assms(3) True n in simp_all)
    then show ?thesis
      using frame_write [OF assms(1) b assms(2), of ?b ?x] True n assms(2) b
      by (simp add: hs_io_release_def same_shape_def same_pool_def)
  next
    case False
    let ?b = "b\<lparr>b_body := b_body b - n\<rparr>" and ?x = "x\<lparr>p_body_owned := p_body_owned x - n\<rparr>"
    show ?thesis
    proof (cases "0 \<le> n \<and> n \<le> p_body_owned x")
      case True
      then have "inv_credit W ?b (set_budget ?b (set_pool p ?x s))"
        by (intro credit_write [OF i(1,2) assms(2)]) (use facts in simp_all)
      then show ?thesis
        using frame_write [OF assms(1) b assms(2), of ?b ?x W] True False assms(2) b
        by (simp add: hs_io_release_def same_shape_def same_pool_def)
    next
      case no: False
      then show ?thesis using assms(1,2) b False by (auto simp: hs_io_release_def)
    qed
  qed
qed

lemma connection_acquire_ok:
  assumes "io_inv W s"
  shows "\<exists>ok s'. hs_io_connection_acquire s = Some (ok, s') \<and> io_inv W s'"
proof (cases "budget s")
  case None
  with assms show ?thesis by (auto simp: hs_io_connection_acquire_def)
next
  case (Some b)
  obtain js where i: "inv_credit W b s" "inv_pools b s" using io_invE [OF assms Some] .
  obtain l where l: "min_limit p_connection_limit s (b_pools b) INT_MAX = Some l"
    using inv_min_limit [OF i(2)] by blast
  have "inv_credit W (b\<lparr>b_connections := b_connections b + 1\<rparr>) (set_budget (b\<lparr>b_connections := b_connections b + 1\<rparr>) s)"
    using i(1) by (simp add: inv_credit_def)
  with frame_budget [OF assms Some, of "b\<lparr>b_connections := b_connections b + 1\<rparr>" W] assms Some l show ?thesis
    by (auto simp: hs_io_connection_acquire_def same_shape_def)
qed

lemma connection_release_ok:
  assumes "io_inv W s"
  shows "io_inv W (hs_io_connection_release s)"
proof (cases "budget s")
  case None
  with assms show ?thesis by (simp add: hs_io_connection_release_def)
next
  case (Some b)
  obtain js where i: "inv_credit W b s" using io_invE [OF assms Some] .
  have "inv_credit W (b\<lparr>b_connections := b_connections b - 1\<rparr>) (set_budget (b\<lparr>b_connections := b_connections b - 1\<rparr>) s)"
    if "b_connections b > 0"
    using i that by (simp add: inv_credit_def)
  with frame_budget [OF assms Some, of "b\<lparr>b_connections := b_connections b - 1\<rparr>" W] assms Some show ?thesis
    by (simp add: hs_io_connection_release_def same_shape_def)
qed

lemma body_acquire_ok:
  assumes "io_inv W s"
  shows "\<exists>ok s'. hs_io_body_acquire n s = Some (ok, s') \<and> (\<not> ok \<longrightarrow> s' = s) \<and>
    (ok \<longrightarrow> 0 \<le> n \<and> io_inv (W\<lparr>loose := loose W + n\<rparr>) s')"
proof (cases "budget s = None \<or> n < 0")
  case True
  then show ?thesis by (auto simp: hs_io_body_acquire_def split: option.splits)
next
  case False
  then obtain b where b: "budget s = Some b" by auto
  obtain js where i: "inv_credit W b s" "inv_pools b s" using io_invE [OF assms b] .
  obtain l where l: "min_limit p_body_limit s (b_pools b) INT64_MAX = Some l" "\<forall>p x. pools s p = Some x \<longrightarrow> l \<le> p_body_limit x"
    using inv_min_limit [OF i(2)] by blast
  obtain p x where "pools s p = Some x" using pool_exists [OF i(2)] .
  with l(2) pool_facts(3) [OF i(2)] have lim: "l \<le> INT_MAX" by fastforce
  let ?b = "b\<lparr>b_body := b_body b + n\<rparr>"
  have "inv_credit (W\<lparr>loose := loose W + n\<rparr>) ?b (set_budget ?b s)" if "b_body b \<le> l - n"
    using i(1) that False lim by (simp add: inv_credit_def)
  with frame_budget [OF assms b, of ?b "W\<lparr>loose := loose W + n\<rparr>"] b False l(1) show ?thesis
    by (auto simp: hs_io_body_acquire_def same_shape_def)
qed

lemma body_release_ok:
  assumes "io_inv W s" "0 \<le> n" "n \<le> loose W"
  shows "io_inv (W\<lparr>loose := loose W - n\<rparr>) (hs_io_body_release n s)"
proof (cases "budget s")
  case None
  with assms show ?thesis by (auto simp: hs_io_body_release_def io_inv_def inv_files_def inv_freeing_def)
next
  case (Some b)
  obtain js where i: "inv_credit W b s" using io_invE [OF assms(1) Some] .
  let ?b = "b\<lparr>b_body := b_body b - n\<rparr>"
  have "0 \<le> heap_sum (\<lambda>_. p_body_owned) (pools s)"
    by (rule heap_sum_nonneg) (use credit_pool(1) [OF i] in blast)
  then have "n \<le> b_body b" "inv_credit (W\<lparr>loose := loose W - n\<rparr>) ?b (set_budget ?b s)"
    using i assms(2,3) by (simp_all add: inv_credit_def)
  with frame_budget [OF assms(1) Some, of ?b "W\<lparr>loose := loose W - n\<rparr>"] Some assms(2) show ?thesis
    by (simp add: hs_io_body_release_def same_shape_def)
qed

end
