(* ===== verification/Native_Jobs.thy ===== *)
theory Native_Jobs
  imports Native_Steps
begin

text \<open>The steps that create, run, publish and free jobs keep the invariant of the executor.\<close>

subsection \<open>Facts about jobs and workers\<close>

lemma job_facts:
  assumes "inv_jobs js s" "jobs s j = Some y"
  shows "pools s (j_pool y) \<noteq> None" "0 \<le> j_directory_charge y" "j_directory_charge y \<le> INT_MAX"
  using assms by (auto simp: inv_jobs_def)

lemma undone_located:
  assumes "inv_jobs js s" "jobs s j = Some y" "\<not> j_done y"
  shows "j \<in> set js \<or> (\<exists>w. busy s w = Some (Running j (j_pool y)))"
  using assms by (auto simp: inv_jobs_def)

lemma queue_alloc:
  assumes "inv_queue js b s" "j \<in> set js"
  obtains y where "jobs s j = Some y" "\<not> j_done y"
  using assms unfolding inv_queue_def by blast

lemma busy_facts:
  assumes "inv_busy js b s" "busy s w = Some ph"
  shows "w < b_thread_count b" "pools s (phase_pool ph) \<noteq> None"
  using assms unfolding inv_busy_def by (blast, blast)

lemma running_facts:
  assumes "inv_busy js b s" "busy s w = Some (Running j p)"
  obtains y where "jobs s j = Some y" "\<not> j_done y" "j_pool y = p" "j \<notin> set js"
  using assms unfolding inv_busy_def by blast

lemma running_unique:
  assumes "inv_busy js b s" "busy s w = Some (Running j p)" "busy s w' = Some (Running j p')"
  shows "w = w'"
  using assms unfolding inv_busy_def by blast

lemma inv_busyI:
  assumes "finite (dom (busy s))" "b_thread_count b \<le> 64"
    and "\<And>w ph. busy s w = Some ph \<Longrightarrow> w < b_thread_count b \<and> pools s (phase_pool ph) \<noteq> None"
    and "\<And>w j p. busy s w = Some (Running j p) \<Longrightarrow> j \<notin> set js \<and> (\<exists>y. jobs s j = Some y \<and> \<not> j_done y \<and> j_pool y = p)"
    and "\<And>w w' j p p'. busy s w = Some (Running j p) \<Longrightarrow> busy s w' = Some (Running j p') \<Longrightarrow> w = w'"
  shows "inv_busy js b s"
  using assms unfolding inv_busy_def by blast

lemma file_facts:
  assumes "inv_files W s" "jobs s j = Some y"
  shows "j_result y = Some f \<Longrightarrow> f \<notin> own_files W" "\<not> j_done y \<Longrightarrow> j_result y = None"
    "\<not> j_done y \<Longrightarrow> j_file y = Some f \<Longrightarrow> f \<in> own_files W"
    "jobs s j' = Some y' \<Longrightarrow> j_result y = Some f \<Longrightarrow> j_result y' = Some f \<Longrightarrow> j = j'"
  using assms unfolding inv_files_def by (blast, blast, blast, blast)

lemma inv_filesI:
  assumes "dom (files s) = own_files W \<union> job_files s"
    and "\<And>j y f. jobs s j = Some y \<Longrightarrow> j_result y = Some f \<Longrightarrow> f \<notin> own_files W"
    and "\<And>j j' y y' f. jobs s j = Some y \<Longrightarrow> jobs s j' = Some y' \<Longrightarrow> j_result y = Some f \<Longrightarrow> j_result y' = Some f \<Longrightarrow> j = j'"
    and "\<And>j y f. jobs s j = Some y \<Longrightarrow> \<not> j_done y \<Longrightarrow> j_result y = None \<and> (j_file y = Some f \<longrightarrow> f \<in> own_files W)"
  shows "inv_files W s"
  using assms unfolding inv_files_def by blast

text \<open>A write that keeps what a job holds of files.\<close>

lemma files_write:
  assumes "inv_files W s" "jobs s j = Some y" "j_result y' = j_result y" "j_file y' = j_file y" "j_done y' = j_done y"
    "own_files W' = own_files W"
  shows "inv_files W' (set_job j y' s)"
proof -
  have old: "\<exists>z'. jobs s k = Some z' \<and> j_result z' = j_result z \<and> j_file z' = j_file z \<and> j_done z' = j_done z"
    if "jobs (set_job j y' s) k = Some z" for k z
    using that assms(2-5) by (cases "k = j") auto
  show ?thesis
  proof (rule inv_filesI)
    show "dom (files (set_job j y' s)) = own_files W' \<union> job_files (set_job j y' s)"
      using assms(1,6) job_files_set [of s j y y'] assms(2,3) by (simp add: inv_files_def)
    show "f \<notin> own_files W'" if "jobs (set_job j y' s) k = Some z" "j_result z = Some f" for k z f
      using old [OF that(1)] that(2) file_facts(1) [OF assms(1)] assms(6) by metis
    show "k = k'" if "jobs (set_job j y' s) k = Some z" "jobs (set_job j y' s) k' = Some z'" "j_result z = Some f"
      "j_result z' = Some f" for k k' z z' f
      using old [OF that(1)] old [OF that(2)] that(3,4) file_facts(4) [OF assms(1)] by metis
    show "j_result z = None \<and> (j_file z = Some f \<longrightarrow> f \<in> own_files W')" if "jobs (set_job j y' s) k = Some z" "\<not> j_done z" for k z f
      using old [OF that(1)] that(2) file_facts(2,3) [OF assms(1)] assms(6) by metis
  qed
qed

lemma counts_pool:
  assumes "inv_counts js b s" "pools s p = Some x"
  shows "p_count x = queued_in p js s" "p_active x = active_in p s"
  using assms by (auto simp: inv_counts_def)

subsection \<open>Writing a job\<close>

text \<open>A write that leaves a job where it is.\<close>

definition same_job :: "hs_job \<Rightarrow> hs_job \<Rightarrow> bool" where
  "same_job y y' \<longleftrightarrow> j_pool y' = j_pool y \<and> j_done y' = j_done y"

lemma charged_set_job:
  assumes "inv_jobs js s" "jobs s j = Some y" "j_pool y' = j_pool y"
  shows "charged_in p (set_job j y' s) =
    charged_in p s + (if p = j_pool y then j_directory_charge y' - j_directory_charge y else 0)"
proof -
  have "finite (dom (jobs s))" using assms(1) by (simp add: inv_jobs_def)
  then show ?thesis using assms(2,3) by (auto simp: charged_in_def heap_sum_upd)
qed

lemma job_write:
  assumes "io_inv W s" "jobs s j = Some y" "same_job y y'"
    and W: "freeing W' = freeing W" "accepted W' = accepted W" "started W' = started W" "loose W' = loose W"
    and charge: "0 \<le> j_directory_charge y'" "j_directory_charge y' \<le> INT_MAX"
      "\<And>p. own_dir W' p = own_dir W p - (if p = j_pool y then j_directory_charge y' - j_directory_charge y else 0)"
      "0 \<le> own_dir W' (j_pool y)"
    and files: "inv_files W' (set_job j y' s)"
  shows "io_inv W' (set_job j y' s)"
proof -
  let ?s = "set_job j y' s"
  obtain b where b: "budget s = Some b" using assms(1,2) by (auto simp: io_inv_def split: option.splits)
  obtain js where i: "inv_queue js b s" "inv_jobs js s" "inv_busy js b s" "inv_counts js b s" "inv_credit W b s"
    "inv_pools b s" "inv_files W s" "inv_freeing W s" "accepted W = started W @ js"
    using io_invE [OF assms(1) b] .
  have pool: "j_pool y' = j_pool y" and dn: "j_done y' = j_done y" using assms(3) by (simp_all add: same_job_def)
  have charged: "charged_in p ?s + own_dir W' p = charged_in p s + own_dir W p" for p
    using charged_set_job [OF i(2) assms(2) pool, of p] charge(3) [of p] by simp
  have qi: "queued_in p js ?s = queued_in p js s" for p
    by (rule queued_in_cong) (use assms(2) pool in \<open>auto simp: job_pool_def\<close>)
  have own: "0 \<le> own_dir W' p \<and> (pools s p = None \<longrightarrow> own_dir W' p = 0)" for p
    using charge(3) [of p] charge(4) credit_facts(5,6) [OF i(5), of p] job_facts(1) [OF i(2) assms(2)]
    by (cases "p = j_pool y") auto
  show ?thesis
  proof (rule io_invI [OF _ _ _ _ _ _ files])
    show "inv_queue js b ?s" using i(1) assms(2) dn by (auto simp: inv_queue_def)
    show "inv_jobs js ?s"
      using i(2) assms(2) pool dn charge(1,2) unfolding inv_jobs_def by (auto split: if_splits)
    show "inv_busy js b ?s"
    proof (rule inv_busyI)
      show "k \<notin> set js \<and> (\<exists>z. jobs ?s k = Some z \<and> \<not> j_done z \<and> j_pool z = p)" if "busy ?s w = Some (Running k p)" for w k p
      proof -
        have "busy s w = Some (Running k p)" using that by simp
        then obtain z where "jobs s k = Some z" "\<not> j_done z" "j_pool z = p" "k \<notin> set js" by (rule running_facts [OF i(3)])
        then show ?thesis using assms(2) pool dn by (cases "k = j") auto
      qed
    qed (use i(3) busy_facts [OF i(3)] running_unique [OF i(3)] in \<open>auto simp: inv_busy_def\<close>)
    show "inv_counts js b ?s" using i(4) qi by (simp add: inv_counts_def)
    show "inv_credit W' b ?s" using i(5) W own charged by (simp add: inv_credit_def)
    show "inv_pools b ?s" using i(6) by (simp add: inv_pools_def)
    show "inv_freeing W' ?s" using i(8) W assms(2) pool by (auto simp: inv_freeing_def split: option.splits)
  qed (use b W i(9) in simp_all)
qed

lemma cancel_ok:
  assumes "io_inv W s" "jobs s j = Some y"
  shows "\<exists>s'. hs_io_cancel j s = Some s' \<and> io_inv W s'"
proof -
  obtain b where b: "budget s = Some b" using assms by (auto simp: io_inv_def split: option.splits)
  obtain js where i: "inv_jobs js s" "inv_credit W b s" "inv_files W s" using io_invE [OF assms(1) b] .
  let ?y = "y\<lparr>j_cancelled := True\<rparr>"
  have "inv_files W (set_job j ?y s)" by (rule files_write [OF i(3) assms(2)]) simp_all
  then have "io_inv W (set_job j ?y s)"
    using job_write [OF assms, of ?y W] job_facts [OF i(1) assms(2)] credit_facts(5) [OF i(2)]
    by (simp add: same_job_def)
  then show ?thesis using assms(2) job_facts(1) [OF i(1) assms(2)] by (auto simp: hs_io_cancel_def)
qed

text \<open>Credits move between a job and the owner.\<close>

lemma move_charge:
  assumes "io_inv W s" "jobs s j = Some y" "0 \<le> j_directory_charge y + d" "j_directory_charge y + d \<le> INT_MAX"
    "d \<le> own_dir W (j_pool y)"
  shows "io_inv (W\<lparr>own_dir := (own_dir W)(j_pool y := own_dir W (j_pool y) - d)\<rparr>)
    (set_job j (y\<lparr>j_directory_charge := j_directory_charge y + d\<rparr>) s)"
proof -
  have "inv_files W s" using assms(1) by (simp add: io_inv_def)
  then have "inv_files (W\<lparr>own_dir := (own_dir W)(j_pool y := own_dir W (j_pool y) - d)\<rparr>)
      (set_job j (y\<lparr>j_directory_charge := j_directory_charge y + d\<rparr>) s)"
    by (rule files_write [OF _ assms(2)]) simp_all
  then show ?thesis
    using job_write [OF assms(1,2), of "y\<lparr>j_directory_charge := j_directory_charge y + d\<rparr>"
        "W\<lparr>own_dir := (own_dir W)(j_pool y := own_dir W (j_pool y) - d)\<rparr>"] assms(3-5)
    by (simp add: same_job_def)
qed

lemma take_charge_ok:
  assumes "io_inv W s" "jobs s j = Some y"
  shows "hs_io_take_directory_charge j s = Some (j_directory_charge y, set_job j (y\<lparr>j_directory_charge := 0\<rparr>) s)"
    and "io_inv (W\<lparr>own_dir := (own_dir W)(j_pool y := own_dir W (j_pool y) + j_directory_charge y)\<rparr>)
           (set_job j (y\<lparr>j_directory_charge := 0\<rparr>) s)"
proof -
  obtain b where b: "budget s = Some b" using assms by (auto simp: io_inv_def split: option.splits)
  obtain js where i: "inv_jobs js s" "inv_credit W b s" using io_invE [OF assms(1) b] .
  show "hs_io_take_directory_charge j s = Some (j_directory_charge y, set_job j (y\<lparr>j_directory_charge := 0\<rparr>) s)"
    using assms(2) by (simp add: hs_io_take_directory_charge_def)
  show "io_inv (W\<lparr>own_dir := (own_dir W)(j_pool y := own_dir W (j_pool y) + j_directory_charge y)\<rparr>)
      (set_job j (y\<lparr>j_directory_charge := 0\<rparr>) s)"
    using move_charge [OF assms, of "- j_directory_charge y"] job_facts(2) [OF i(1) assms(2)] credit_facts(5) [OF i(2), of "j_pool y"]
    by simp
qed

lemma worker_charge_ok:
  assumes "io_inv W s"
  shows "\<exists>s'. worker_charge w n s = Some s' \<and> io_inv W s'"
proof (cases "\<exists>j p. busy s w = Some (Running j p)")
  case False
  with assms show ?thesis by (auto simp: worker_charge_def split: option.splits phase.splits)
next
  case True
  then obtain j p where w: "busy s w = Some (Running j p)" by blast
  then obtain b where b: "budget s = Some b" using assms by (auto simp: io_inv_def split: option.splits)
  obtain js where i: "inv_jobs js s" "inv_credit W b s" "inv_busy js b s" using io_invE [OF assms(1) b] .
  obtain y where y: "jobs s j = Some y" using running_facts [OF i(3) w] .
  obtain x where x: "pools s (j_pool y) = Some x" using job_facts(1) [OF i(1) y] by blast
  show ?thesis
  proof (cases "n > INT_MAX - j_directory_charge y")
    case True
    then show ?thesis using w y assms by (simp add: worker_charge_def)
  next
    case False
    let ?W = "W\<lparr>own_dir := (own_dir W)(j_pool y := own_dir W (j_pool y) + n)\<rparr>"
    obtain ok s' where r: "hs_io_reserve (j_pool y) True n s = Some (ok, s')" "jobs s' = jobs s" "\<not> ok \<longrightarrow> s' = s"
      "ok \<longrightarrow> 0 \<le> n \<and> io_inv ?W s'"
      using reserve_ok [OF assms x, of True n] by auto
    show ?thesis
    proof (cases ok)
      case False
      then show ?thesis using w y assms r(1,3) \<open>\<not> n > _\<close> by (simp add: worker_charge_def)
    next
      case True
      then have r': "0 \<le> n" "io_inv ?W s'" "jobs s' j = Some y" using r y by simp_all
      have "io_inv W (set_job j (y\<lparr>j_directory_charge := j_directory_charge y + n\<rparr>) s')"
        using move_charge [OF r'(2,3), of n] r'(1) \<open>\<not> n > _\<close> job_facts(2) [OF i(1) y] credit_facts(5) [OF i(2), of "j_pool y"]
        by simp
      then show ?thesis using w y r(1) True \<open>\<not> n > _\<close> by (simp add: worker_charge_def)
    qed
  qed
qed

lemma take_file_ok:
  assumes "io_inv W s" "jobs s j = Some y"
  shows "hs_io_take_file j s = Some (j_result y, set_job j (y\<lparr>j_result := None\<rparr>) s)"
    and "io_inv (W\<lparr>own_files := own_files W \<union> set_option (j_result y)\<rparr>) (set_job j (y\<lparr>j_result := None\<rparr>) s)"
proof -
  let ?W = "W\<lparr>own_files := own_files W \<union> set_option (j_result y)\<rparr>" and ?s = "set_job j (y\<lparr>j_result := None\<rparr>) s"
  obtain b where b: "budget s = Some b" using assms by (auto simp: io_inv_def split: option.splits)
  obtain js where i: "inv_jobs js s" "inv_credit W b s" "inv_files W s" using io_invE [OF assms(1) b] .
  show "hs_io_take_file j s = Some (j_result y, ?s)" using assms(2) by (simp add: hs_io_take_file_def)
  have "inv_files ?W ?s"
  proof (rule inv_filesI)
    show "dom (files ?s) = own_files ?W \<union> job_files ?s"
      using i(3) job_files_take [OF assms(2), of "y\<lparr>j_result := None\<rparr>"] by (auto simp: inv_files_def)
    show "f \<notin> own_files ?W" if "jobs ?s k = Some z" "j_result z = Some f" for k z f
      using that file_facts(1,4) [OF i(3)] assms(2) by (auto split: if_splits)
    show "k = k'" if "jobs ?s k = Some z" "jobs ?s k' = Some z'" "j_result z = Some f" "j_result z' = Some f" for k k' z z' f
      using that file_facts(4) [OF i(3)] by (auto split: if_splits)
    show "j_result z = None \<and> (j_file z = Some f \<longrightarrow> f \<in> own_files ?W)" if "jobs ?s k = Some z" "\<not> j_done z" for k z f
      using that file_facts(2,3) [OF i(3)] assms(2) by (auto split: if_splits)
  qed
  then show "io_inv ?W ?s"
    using job_write [OF assms, of "y\<lparr>j_result := None\<rparr>" ?W] job_facts [OF i(1) assms(2)] credit_facts(5) [OF i(2)]
    by (simp add: same_job_def)
qed

end
