(* ===== verification/Native_Run.thy ===== *)
theory Native_Run
  imports Native_Jobs
begin

text \<open>Submission, the steps of a worker, and the release of jobs and files keep the invariant of the executor.\<close>

subsection \<open>Submission\<close>

lemma job_files_new:
  assumes "jobs s j = None" "j_result y = None"
  shows "job_files (set_job j y s) = job_files s"
proof (intro equalityI subsetI)
  fix f assume "f \<in> job_files (set_job j y s)"
  then obtain k z where "jobs (set_job j y s) k = Some z" "j_result z = Some f" by (rule job_filesE)
  with assms(2) have "jobs s k = Some z" by (cases "k = j") auto
  then show "f \<in> job_files s" using \<open>j_result z = Some f\<close> by (rule job_filesI)
next
  fix f assume "f \<in> job_files s"
  then obtain k z where "jobs s k = Some z" "j_result z = Some f" by (rule job_filesE)
  moreover from this have "jobs (set_job j y s) k = Some z" using assms(1) by auto
  ultimately show "f \<in> job_files (set_job j y s)" by (blast intro: job_filesI)
qed

lemma submit_ok:
  assumes "io_inv W s" "pools s p = Some x" "freeing W = None" "case mem of None \<Rightarrow> True | Some j \<Rightarrow> jobs s j = None"
    and fl: "case file of None \<Rightarrow> True | Some f \<Rightarrow> f \<in> own_files W"
  shows "\<exists>r s'. hs_io_submit mem mem_path p operation file path offset len sock s = Some (r, s') \<and>
    (r = None \<longrightarrow> s' = s) \<and> (\<forall>j. r = Some j \<longrightarrow> mem = Some j \<and> io_inv (W\<lparr>accepted := accepted W @ [j]\<rparr>) s')"
proof (cases "mem = None \<or> \<not> mem_path")
  case True
  then have "hs_io_submit mem mem_path p operation file path offset len sock s = Some (None, s)"
    by (auto simp: hs_io_submit_def split: option.splits)
  then show ?thesis by simp
next
  case False
  then obtain j where mem: "mem = Some j" and fresh: "jobs s j = None" using assms(4) by auto
  obtain b where b: "budget s = Some b" using pool_budget [OF assms(1,2)] .
  obtain js where i: "inv_queue js b s" "inv_jobs js s" "inv_busy js b s" "inv_counts js b s" "inv_credit W b s"
    "inv_pools b s" "inv_files W s" "inv_freeing W s" "accepted W = started W @ js"
    using io_invE [OF assms(1) b] .
  obtain l where l: "min_limit p_capacity s (b_pools b) INT_MAX = Some l" using inv_min_limit [OF i(6)] by blast
  show ?thesis
  proof (cases "p_stopping x \<or> b_queued b \<ge> l")
    case True
    then show ?thesis using False mem assms(2) b l by (auto simp: hs_io_submit_def)
  next
    case go: False
    obtain g where g: "file_generation s file = Some g"
    proof -
      have "files s f \<noteq> None" if "file = Some f" for f using fl i(7) that by (auto simp: inv_files_def)
      then have "file_generation s file \<noteq> None" by (auto simp: file_generation_def split: option.splits)
      then show thesis using that by blast
    qed
    let ?y = "new_job p operation file path offset len sock (b_next_id b + 1) g"
    obtain nxt q where a: "link_append j (job_next s, b_ends b) = (nxt, q)" by (metis prod.exhaust)
    let ?b = "b\<lparr>b_next_id := b_next_id b + 1, b_ends := q, b_queued := b_queued b + 1\<rparr>"
    let ?x = "x\<lparr>p_count := p_count x + 1\<rparr>"
    let ?s = "set_budget ?b (set_pool p ?x (set_job j ?y (s\<lparr>job_next := nxt\<rparr>)))"
    let ?W = "W\<lparr>accepted := accepted W @ [j]\<rparr>"
    have jn: "j \<notin> set js" using i(1) fresh by (auto simp: inv_queue_def)
    have "io_inv ?W ?s"
    proof (rule io_invI)
      have "queue_rep (nxt, q) (js @ [j])" using link_append_rep [of "job_next s" "b_ends b" js j] i(1) jn a by (simp add: inv_queue_def)
      then show "inv_queue (js @ [j]) ?b ?s" using i(1) jn by (auto simp: inv_queue_def new_job_def)
      show "inv_jobs (js @ [j]) ?s" using i(2) assms(2) unfolding inv_jobs_def by (auto simp: new_job_def)
      show "inv_busy (js @ [j]) ?b ?s"
      proof (rule inv_busyI)
        show "k \<notin> set (js @ [j]) \<and> (\<exists>z. jobs ?s k = Some z \<and> \<not> j_done z \<and> j_pool z = r)" if "busy ?s w = Some (Running k r)" for w k r
        proof -
          have "busy s w = Some (Running k r)" using that by simp
          then obtain z where "jobs s k = Some z" "\<not> j_done z" "j_pool z = r" "k \<notin> set js" by (rule running_facts [OF i(3)])
          then show ?thesis using fresh by auto
        qed
      qed (use i(3) busy_facts [OF i(3)] running_unique [OF i(3)] in \<open>auto simp: inv_busy_def\<close>)
      have qi: "queued_in r (js @ [j]) ?s = queued_in r js s + of_bool (r = p)" for r
      proof -
        have "queued_in r js ?s = queued_in r js s"
          by (rule queued_in_cong) (use jn in \<open>auto simp: job_pool_def\<close>)
        moreover have "queued_in r (js @ [j]) ?s = queued_in r js ?s + of_bool (r = p)"
          by (simp add: queued_in_def job_pool_def new_job_def)
        ultimately show ?thesis by simp
      qed
      show "inv_counts (js @ [j]) ?b ?s"
        using i(4) counts_pool [OF i(4)] assms(2) qi unfolding inv_counts_def by simp
      have "finite (dom (jobs s))" using i(2) by (simp add: inv_jobs_def)
      then have ch: "charged_in r ?s = charged_in r s" for r
        using fresh by (simp add: charged_in_def heap_sum_upd new_job_def)
      show "inv_credit ?W ?b ?s"
      proof -
        have "inv_credit W b (set_budget b (set_pool p ?x s))"
          by (rule credit_write [OF i(5,6) assms(2)]) (use credit_facts [OF i(5)] credit_pool [OF i(5) assms(2)] in simp_all)
        then show ?thesis using ch by (simp add: inv_credit_def)
      qed
      show "inv_pools ?b ?s" using i(6) assms(2) pool_facts [OF i(6) assms(2)] unfolding inv_pools_def by auto
      show "inv_files ?W ?s"
      proof (rule inv_filesI)
        have "job_files ?s = job_files s"
          using job_files_new [of "s\<lparr>job_next := nxt\<rparr>" j ?y] fresh by (simp add: new_job_def)
        then show "dom (files ?s) = own_files ?W \<union> job_files ?s" using i(7) by (simp add: inv_files_def)
      qed (use file_facts [OF i(7)] fl in \<open>auto simp: new_job_def split: if_splits\<close>)
      show "inv_freeing ?W ?s" using assms(3) by (simp add: inv_freeing_def)
    qed (use i(9) in simp_all)
    then show ?thesis using mem False go assms(2) b l g a by (simp add: hs_io_submit_def Let_def)
  qed
qed

subsection \<open>Workers\<close>

lemma worker_take_ok:
  assumes "io_inv W s" "worker_ready s" "busy s w = None" "budget s = Some b" "w < b_thread_count b"
  shows "\<exists>j s'. fst (b_ends b) = Some j \<and> worker_take w s = Some s' \<and> io_inv (W\<lparr>started := started W @ [j]\<rparr>) s'"
proof -
  obtain js where i: "inv_queue js b s" "inv_jobs js s" "inv_busy js b s" "inv_counts js b s" "inv_credit W b s"
    "inv_pools b s" "inv_files W s" "inv_freeing W s" "accepted W = started W @ js"
    using io_invE [OF assms(1,4)] .
  have rep: "queue_rep (job_next s, b_ends b) js" using i(1) by (simp add: inv_queue_def)
  have "js \<noteq> []" using assms(2,4) rep by (cases "b_ends b") (auto simp: worker_ready_def queue_rep_def)
  then obtain j js' where js: "js = j # js'" by (cases js) auto
  obtain q where pop: "link_pop (job_next s, b_ends b) = Some (j, (job_next s, q))" "queue_rep (job_next s, q) js'"
    using link_pop_Cons [of "(job_next s, b_ends b)" j js'] rep js by (metis fst_conv prod.collapse)
  obtain y where y: "jobs s j = Some y" "\<not> j_done y" using queue_alloc [OF i(1)] js by auto
  let ?p = "j_pool y"
  obtain x where x: "pools s ?p = Some x" using job_facts(1) [OF i(2) y(1)] by blast
  have jn: "j \<notin> set js'" using queue_rep_distinct [OF rep] js by simp
  let ?b = "b\<lparr>b_ends := q, b_queued := b_queued b - 1, b_active := b_active b + 1\<rparr>"
  let ?x = "x\<lparr>p_count := p_count x - 1, p_active := p_active x + 1\<rparr>"
  let ?s = "set_budget ?b (set_pool ?p ?x (s\<lparr>job_next := job_next s, busy := (busy s)(w \<mapsto> Running j ?p)\<rparr>))"
  let ?W = "W\<lparr>started := started W @ [j]\<rparr>"
  have fin: "finite (dom (busy s))" using i(3) by (simp add: inv_busy_def)
  have "io_inv ?W ?s"
  proof (rule io_invI)
    show "inv_queue js' ?b ?s" using i(1) pop(2) js by (auto simp: inv_queue_def)
    have loc: "k \<in> set js' \<or> (\<exists>u. busy ?s u = Some (Running k (j_pool z)))" if k: "jobs s k = Some z" "\<not> j_done z" for k z
    proof -
      consider "k = j" | "k \<in> set js'" | u where "busy s u = Some (Running k (j_pool z))"
        using undone_located [OF i(2) k] js by auto
      then show ?thesis
      proof cases
        case 1
        then have "busy ?s w = Some (Running k (j_pool z))" using y(1) k(1) by simp
        then show ?thesis by blast
      next
        case 3
        then have "busy ?s u = Some (Running k (j_pool z))" using assms(3) by auto
        then show ?thesis by blast
      qed simp
    qed
    have "pools ?s (j_pool z) \<noteq> None" if "jobs s k = Some z" for k z using job_facts(1) [OF i(2) that] by simp
    with loc show "inv_jobs js' ?s" using i(2) job_facts(2,3) [OF i(2)] unfolding inv_jobs_def by simp
    show "inv_busy js' ?b ?s"
    proof (rule inv_busyI)
      fix v k r assume "busy ?s v = Some (Running k r)"
      then consider "k = j" "r = ?p" | "busy s v = Some (Running k r)" by (cases "v = w") auto
      then show "k \<notin> set js' \<and> (\<exists>z. jobs ?s k = Some z \<and> \<not> j_done z \<and> j_pool z = r)"
      proof cases
        case 1
        with y jn show ?thesis by simp
      next
        case 2
        then obtain z where "jobs s k = Some z" "\<not> j_done z" "j_pool z = r" "k \<notin> set js" by (rule running_facts [OF i(3)])
        then show ?thesis using js by auto
      qed
    next
      fix v v' k r r' assume v: "busy ?s v = Some (Running k r)" "busy ?s v' = Some (Running k r')"
      have nj: "busy s u \<noteq> Some (Running j r)" for u r
        using running_facts [OF i(3)] js by (metis list.set_intros(1))
      show "v = v'" using v nj running_unique [OF i(3)] by (cases "v = w"; cases "v' = w") auto
    qed (use i(3) fin busy_facts [OF i(3)] x assms(5) in \<open>auto simp: inv_busy_def split: if_splits\<close>)
    have act: "active_in r ?s = active_in r s + of_bool (r = ?p)" for r
      using fin assms(3) by (simp add: active_in_def heap_sum_upd)
    have qi: "queued_in r js' s = queued_in r js s - of_bool (r = ?p)" for r
      using js y(1) by (simp add: queued_in_def job_pool_def)
    have "b_active ?b = heap_sum (\<lambda>_ _. 1) (busy ?s)"
      using i(4) fin assms(3) by (simp add: inv_counts_def heap_sum_upd)
    moreover have "p_count z = queued_in r js' ?s \<and> p_active z = active_in r ?s" if "pools ?s r = Some z" for r z
      using that x counts_pool [OF i(4)] act [of r] qi [of r] by (cases "r = ?p") auto
    ultimately show "inv_counts js' ?b ?s" unfolding inv_counts_def by blast
    have "inv_credit W b (set_budget b (set_pool ?p ?x s))"
      by (rule credit_write [OF i(5,6) x]) (use credit_facts [OF i(5)] credit_pool [OF i(5) x] in simp_all)
    then show "inv_credit ?W ?b ?s" by (simp add: inv_credit_def)
    show "inv_pools ?b ?s" using i(6) x pool_facts [OF i(6) x] unfolding inv_pools_def by auto
    show "inv_files ?W ?s" using i(7) by (simp add: inv_files_def)
    show "inv_freeing ?W ?s" using i(8) x by (auto simp: inv_freeing_def split: option.splits)
  qed (use i(9) js in simp_all)
  moreover have "worker_take w s = Some ?s"
    using assms(4) pop(1) y(1) x by (simp add: worker_take_def)
  moreover have "fst (b_ends b) = Some j" using rep js by (cases "b_ends b") (simp add: queue_rep_def)
  ultimately show ?thesis by blast
qed

lemma worker_publish_ok:
  assumes "io_inv W s" "case oc_file r of None \<Rightarrow> True | Some (f, v) \<Rightarrow> files s f = None"
  shows "\<exists>s'. worker_publish w r s = Some s' \<and> io_inv W s'"
proof (cases "\<exists>j p. busy s w = Some (Running j p)")
  case False
  with assms show ?thesis by (auto simp: worker_publish_def split: option.splits phase.splits)
next
  case True
  then obtain j p where w: "busy s w = Some (Running j p)" by blast
  then obtain b where b: "budget s = Some b" using assms by (auto simp: io_inv_def split: option.splits)
  obtain js where i: "inv_queue js b s" "inv_jobs js s" "inv_busy js b s" "inv_counts js b s" "inv_credit W b s"
    "inv_pools b s" "inv_files W s" "inv_freeing W s" "accepted W = started W @ js"
    using io_invE [OF assms(1) b] .
  obtain y where y: "jobs s j = Some y" "\<not> j_done y" "j_pool y = p" "j \<notin> set js" using running_facts [OF i(3) w] .
  obtain x where x: "pools s p = Some x" using busy_facts(2) [OF i(3) w] by auto
  define y' where "y' = (with_outcome r y)\<lparr>j_code := (if j_cancelled y then - 9 else oc_code r), j_done := True\<rparr>"
  define fs where "fs = (case oc_file r of None \<Rightarrow> files s | Some (f, v) \<Rightarrow> (files s)(f \<mapsto> v\<lparr>f_generation := j_id y\<rparr>))"
  let ?s = "(set_job j y' s)\<lparr>files := fs, busy := (busy s)(w \<mapsto> Published p)\<rparr>"
  have y'_simps: "j_pool y' = p" "j_done y'" "j_directory_charge y' = j_directory_charge y" "j_result y' = map_option fst (oc_file r)"
    using y by (simp_all add: y'_def with_outcome_def)
  have noresult: "j_result y = None" using file_facts(2) [OF i(7) y(1,2)] .
  have dom_fs: "dom fs = dom (files s) \<union> set_option (j_result y')"
    using y'_simps(4) by (auto simp: fs_def split: option.splits prod.splits)
  have newf: "f \<notin> dom (files s)" if "j_result y' = Some f" for f
    using that assms(2) y'_simps(4) by (auto split: option.splits)
  have fin: "finite (dom (busy s))" using i(3) by (simp add: inv_busy_def)
  have "io_inv W ?s"
  proof (rule io_invI)
    show "inv_queue js b ?s" using i(1) y(4) by (auto simp: inv_queue_def)
    show "inv_jobs js ?s"
    proof -
      have "k \<in> set js \<or> (\<exists>u. busy ?s u = Some (Running k (j_pool z)))" if k: "jobs ?s k = Some z" "\<not> j_done z" for k z
      proof -
        have kj: "k \<noteq> j" using k y'_simps(2) by auto
        then have "jobs s k = Some z" using k(1) by simp
        then consider "k \<in> set js" | u where "busy s u = Some (Running k (j_pool z))"
          using undone_located [OF i(2) _ k(2)] by blast
        then show ?thesis
        proof cases
          case 2
          then have "u \<noteq> w" using kj w by auto
          with 2 have "busy ?s u = Some (Running k (j_pool z))" by simp
          then show ?thesis by blast
        qed simp
      qed
      moreover have "pools ?s (j_pool z) \<noteq> None \<and> 0 \<le> j_directory_charge z \<and> j_directory_charge z \<le> INT_MAX" if "jobs ?s k = Some z" for k z
        using that job_facts [OF i(2) y(1)] job_facts [OF i(2), of k z] y'_simps x by (cases "k = j") auto
      ultimately show ?thesis using i(2) unfolding inv_jobs_def by simp
    qed
    show "inv_busy js b ?s"
    proof (rule inv_busyI)
      fix v k q assume v: "busy ?s v = Some (Running k q)"
      then have vs: "busy s v = Some (Running k q)" "v \<noteq> w" by (auto split: if_splits)
      then have "k \<noteq> j" using running_unique [OF i(3) _ w] by blast
      moreover obtain z where "jobs s k = Some z" "\<not> j_done z" "j_pool z = q" "k \<notin> set js" by (rule running_facts [OF i(3) vs(1)])
      ultimately show "k \<notin> set js \<and> (\<exists>z. jobs ?s k = Some z \<and> \<not> j_done z \<and> j_pool z = q)" by simp
    next
      fix v v' k q q' assume "busy ?s v = Some (Running k q)" "busy ?s v' = Some (Running k q')"
      then show "v = v'" using running_unique [OF i(3)] by (auto split: if_splits)
    qed (use i(3) fin busy_facts [OF i(3)] x w in \<open>auto simp: inv_busy_def split: if_splits\<close>)
    have "active_in q ?s = active_in q s" for q
      using fin w by (simp add: active_in_def heap_sum_upd)
    moreover have "queued_in q js ?s = queued_in q js s" for q
      by (rule queued_in_cong) (use y y'_simps in \<open>auto simp: job_pool_def\<close>)
    moreover have "heap_sum (\<lambda>_ _. 1) (busy ?s) = heap_sum (\<lambda>_ _. 1 :: int) (busy s)" using fin w by (simp add: heap_sum_upd)
    ultimately show "inv_counts js b ?s" using i(4) unfolding inv_counts_def by simp
    have "charged_in q ?s = charged_in q s" for q
      using charged_set_job [OF i(2) y(1), of y' q] y'_simps y(3) by simp
    then show "inv_credit W b ?s" using i(5) by (simp add: inv_credit_def)
    show "inv_pools b ?s" using i(6) by (simp add: inv_pools_def)
    show "inv_files W ?s"
    proof (rule inv_filesI)
      have "job_files (set_job j y' s) = job_files s \<union> set_option (j_result y')"
      proof -
        have "set_job j y (set_job j y' s) = s" using y(1) by (simp add: fun_upd_idem)
        then have "job_files (set_job j y' s) \<subseteq> set_option (j_result y') \<union> job_files s"
          using job_files_set_ge [of "set_job j y' s" j y' y] by simp
        then show ?thesis
          using noresult job_files_set_ge [OF y(1), of y'] job_filesI [of "set_job j y' s" j y'] by auto
      qed
      then show "dom (files ?s) = own_files W \<union> job_files ?s" using i(7) dom_fs by (auto simp: inv_files_def)
      show "f \<notin> own_files W" if "jobs ?s k = Some z" "j_result z = Some f" for k z f
        using that newf file_facts(1) [OF i(7), of k z f] i(7) by (cases "k = j") (auto simp: inv_files_def)
      have old: "f \<in> dom (files s)" if "jobs s k = Some z" "j_result z = Some f" for k z f
        using i(7) job_filesI [OF that] by (auto simp: inv_files_def)
      show "k = k'" if "jobs ?s k = Some z" "jobs ?s k' = Some z'" "j_result z = Some f" "j_result z' = Some f" for k k' z z' f
        using that newf [of f] old [of k z f] old [of k' z' f] file_facts(4) [OF i(7), of k z k' z' f]
        by (cases "k = j"; cases "k' = j") auto
      show "j_result z = None \<and> (j_file z = Some f \<longrightarrow> f \<in> own_files W)" if "jobs ?s k = Some z" "\<not> j_done z" for k z f
        using that y'_simps(2) file_facts(2,3) [OF i(7), of k z] by (cases "k = j") auto
    qed
    show "inv_freeing W ?s" using i(8) y y'_simps(1) by (auto simp: inv_freeing_def split: option.splits)
  qed (use b i(9) in simp_all)
  moreover have "worker_publish w r s = Some ?s"
    using w y(1) x by (simp add: worker_publish_def y'_def fs_def Let_def)
  ultimately show ?thesis by blast
qed

text \<open>A worker moves on without leaving its pool.\<close>

lemma phase_step:
  assumes "io_inv W s" "busy s w = Some ph" "\<forall>j p. ph \<noteq> Running j p" "\<forall>j p. ph' \<noteq> Running j p" "phase_pool ph' = phase_pool ph"
  shows "io_inv W (s\<lparr>busy := (busy s)(w \<mapsto> ph')\<rparr>)"
proof -
  let ?s = "s\<lparr>busy := (busy s)(w \<mapsto> ph')\<rparr>"
  obtain b where b: "budget s = Some b" using assms(1,2) by (auto simp: io_inv_def split: option.splits)
  obtain js where i: "inv_queue js b s" "inv_jobs js s" "inv_busy js b s" "inv_counts js b s" "inv_credit W b s"
    "inv_pools b s" "inv_files W s" "inv_freeing W s" "accepted W = started W @ js"
    using io_invE [OF assms(1) b] .
  have fin: "finite (dom (busy s))" using i(3) by (simp add: inv_busy_def)
  have run: "(busy ?s v = Some (Running k q)) = (busy s v = Some (Running k q))" for v k q
    using assms(2-4) by auto
  show ?thesis
  proof (rule io_invI [where js = js])
    show "inv_jobs js ?s" using i(2) run unfolding inv_jobs_def by simp
    show "inv_busy js b ?s"
    proof (rule inv_busyI)
      fix v k q assume "busy ?s v = Some (Running k q)"
      then have v: "busy s v = Some (Running k q)" by (simp only: run)
      obtain z where "jobs s k = Some z" "\<not> j_done z" "j_pool z = q" "k \<notin> set js" by (rule running_facts [OF i(3) v])
      then show "k \<notin> set js \<and> (\<exists>z. jobs ?s k = Some z \<and> \<not> j_done z \<and> j_pool z = q)" by simp
    next
      fix v v' k q q' assume "busy ?s v = Some (Running k q)" "busy ?s v' = Some (Running k q')"
      then show "v = v'" unfolding run by (rule running_unique [OF i(3)])
    qed (use i(3) fin busy_facts [OF i(3)] assms(2,5) in \<open>auto simp: inv_busy_def split: if_splits\<close>)
    have "active_in q ?s = active_in q s" for q using fin assms(2,5) by (simp add: active_in_def heap_sum_upd)
    moreover have "heap_sum (\<lambda>_ _. 1) (busy ?s) = heap_sum (\<lambda>_ _. 1 :: int) (busy s)" using fin assms(2) by (simp add: heap_sum_upd)
    ultimately show "inv_counts js b ?s" using i(4) unfolding inv_counts_def by simp
    show "inv_freeing W ?s" using i(8) by (simp add: inv_freeing_def split: option.splits)
  qed (use i b in \<open>simp_all add: inv_queue_def inv_credit_def inv_pools_def inv_files_def\<close>)
qed

lemma worker_notify_ok:
  assumes "io_inv W s"
  shows "\<exists>s'. worker_notify w s = Some s' \<and> io_inv W s'"
proof (cases "\<exists>p. busy s w = Some (Published p)")
  case False
  with assms show ?thesis by (auto simp: worker_notify_def split: option.splits phase.splits)
next
  case True
  then obtain p where w: "busy s w = Some (Published p)" by blast
  then obtain b where b: "budget s = Some b" using assms by (auto simp: io_inv_def split: option.splits)
  obtain js where i: "inv_busy js b s" using io_invE [OF assms b] .
  obtain x where x: "pools s p = Some x" using busy_facts(2) [OF i w] by auto
  let ?s = "set_pool p (x\<lparr>p_notified := True\<rparr>) s"
  have "io_inv W ?s" using flag_write [OF assms x, of "x\<lparr>p_notified := True\<rparr>"] by (simp add: same_pool_def)
  from phase_step [OF this, of w "Published p" "Told p"] w x show ?thesis
    by (simp add: worker_notify_def hs_notify_def)
qed

lemma worker_retire_ok:
  assumes "io_inv W s"
  shows "\<exists>s'. worker_retire w s = Some s' \<and> io_inv W s'"
proof (cases "\<exists>p. busy s w = Some (Told p)")
  case False
  with assms show ?thesis by (auto simp: worker_retire_def split: option.splits phase.splits)
next
  case True
  then obtain p where w: "busy s w = Some (Told p)" by blast
  then obtain b where b: "budget s = Some b" using assms by (auto simp: io_inv_def split: option.splits)
  obtain js where i: "inv_queue js b s" "inv_jobs js s" "inv_busy js b s" "inv_counts js b s" "inv_credit W b s"
    "inv_pools b s" "inv_files W s" "inv_freeing W s" "accepted W = started W @ js"
    using io_invE [OF assms(1) b] .
  obtain x where x: "pools s p = Some x" using busy_facts(2) [OF i(3) w] by auto
  have fin: "finite (dom (busy s))" using i(3) by (simp add: inv_busy_def)
  let ?b = "b\<lparr>b_active := b_active b - 1\<rparr>" and ?x = "x\<lparr>p_active := p_active x - 1\<rparr>"
  let ?s = "set_budget ?b (set_pool p ?x (s\<lparr>busy := (busy s)(w := None)\<rparr>))"
  have run: "(busy ?s v = Some (Running k q)) = (busy s v = Some (Running k q))" for v k q
    using w by auto
  have dom: "(pools ?s q = None) = (pools s q = None)" for q using x by simp
  have "io_inv W ?s"
  proof (rule io_invI [where js = js])
    show "inv_jobs js ?s" using i(2) run dom unfolding inv_jobs_def by simp
    show "inv_busy js ?b ?s"
    proof (rule inv_busyI)
      fix v k q assume "busy ?s v = Some (Running k q)"
      then have v: "busy s v = Some (Running k q)" by (simp only: run)
      obtain z where "jobs s k = Some z" "\<not> j_done z" "j_pool z = q" "k \<notin> set js" by (rule running_facts [OF i(3) v])
      then show "k \<notin> set js \<and> (\<exists>z. jobs ?s k = Some z \<and> \<not> j_done z \<and> j_pool z = q)" by simp
    next
      fix v v' k q q' assume "busy ?s v = Some (Running k q)" "busy ?s v' = Some (Running k q')"
      then show "v = v'" unfolding run by (rule running_unique [OF i(3)])
    qed (use i(3) fin busy_facts [OF i(3)] in \<open>auto simp: inv_busy_def split: if_splits\<close>)
    have act: "active_in q ?s = active_in q s - of_bool (q = p)" for q using fin w by (simp add: active_in_def heap_sum_free)
    have "b_active ?b = heap_sum (\<lambda>_ _. 1) (busy ?s)" using i(4) fin w by (simp add: inv_counts_def heap_sum_free)
    moreover have "p_count z = queued_in r js ?s \<and> p_active z = active_in r ?s" if "pools ?s r = Some z" for r z
      using that x counts_pool [OF i(4)] act [of r] by (cases "r = p") auto
    ultimately show "inv_counts js ?b ?s" unfolding inv_counts_def by blast
    have "inv_credit W b (set_budget b (set_pool p ?x s))"
      by (rule credit_write [OF i(5,6) x]) (use credit_facts [OF i(5)] credit_pool [OF i(5) x] in simp_all)
    then show "inv_credit W ?b ?s" by (simp add: inv_credit_def)
    show "inv_pools ?b ?s" using i(6) x pool_facts [OF i(6) x] unfolding inv_pools_def by auto
    show "inv_freeing W ?s" using i(8) x by (auto simp: inv_freeing_def split: option.splits)
  qed (use i in \<open>simp_all add: inv_queue_def inv_files_def\<close>)
  moreover have "worker_retire w s = Some ?s" using w x b by (simp add: worker_retire_def)
  ultimately show ?thesis by blast
qed

subsection \<open>Releasing files and jobs\<close>

lemma file_free_ok:
  assumes "io_inv W s" "case fo of None \<Rightarrow> True | Some f \<Rightarrow> f \<in> own_files W \<and> (\<forall>j y. jobs s j = Some y \<longrightarrow> \<not> j_done y \<longrightarrow> j_file y \<noteq> Some f)"
  shows "\<exists>s'. hs_io_file_free fo s = Some s' \<and> jobs s' = jobs s \<and> io_inv (W\<lparr>own_files := own_files W - set_option fo\<rparr>) s'"
proof (cases fo)
  case None
  with assms show ?thesis by (simp add: hs_io_file_free_def)
next
  case (Some f)
  let ?W = "W\<lparr>own_files := own_files W - set_option fo\<rparr>" and ?s = "s\<lparr>files := (files s)(f := None)\<rparr>"
  have fl: "inv_files W s" using assms(1) by (simp add: io_inv_def)
  have own: "f \<in> own_files W" and free: "\<And>j y. jobs s j = Some y \<Longrightarrow> \<not> j_done y \<Longrightarrow> j_file y \<noteq> Some f"
    using assms(2) Some by auto
  then have "files s f \<noteq> None" using fl by (auto simp: inv_files_def)
  moreover have "inv_files ?W ?s"
  proof (rule inv_filesI)
    have "f \<notin> job_files s" using file_facts(1) [OF fl] own by (auto elim: job_filesE)
    then show "dom (files ?s) = own_files ?W \<union> job_files ?s" using fl Some by (auto simp: inv_files_def)
  qed (use Some free file_facts [OF fl] in auto)
  then have "io_inv ?W ?s"
    using assms(1) unfolding io_inv_def
    by (auto simp: inv_freeing_def inv_queue_def inv_jobs_def inv_busy_def inv_counts_def inv_credit_def inv_pools_def split: option.splits)
  ultimately show ?thesis using Some by (auto simp: hs_io_file_free_def)
qed

lemma drop_job:
  assumes "io_inv W s" "jobs s j = Some y" "j_done y" "j_directory_charge y = 0" "j_result y = None"
  shows "io_inv W (s\<lparr>jobs := (jobs s)(j := None)\<rparr>)"
proof -
  let ?s = "s\<lparr>jobs := (jobs s)(j := None)\<rparr>"
  obtain b where b: "budget s = Some b" using assms(1,2) by (auto simp: io_inv_def split: option.splits)
  obtain js where i: "inv_queue js b s" "inv_jobs js s" "inv_busy js b s" "inv_counts js b s" "inv_credit W b s"
    "inv_pools b s" "inv_files W s" "inv_freeing W s" "accepted W = started W @ js"
    using io_invE [OF assms(1) b] .
  have jn: "j \<notin> set js" using queue_alloc [OF i(1)] assms(2,3) by (metis option.inject)
  have fin: "finite (dom (jobs s))" using i(2) by (simp add: inv_jobs_def)
  show ?thesis
  proof (rule io_invI [where js = js])
    show "inv_queue js b ?s" using i(1) jn by (auto simp: inv_queue_def)
    show "inv_jobs js ?s" using i(2) unfolding inv_jobs_def by simp
    show "inv_busy js b ?s"
    proof (rule inv_busyI)
      fix v k q assume "busy ?s v = Some (Running k q)"
      then have v: "busy s v = Some (Running k q)" by simp
      obtain z where "jobs s k = Some z" "\<not> j_done z" "j_pool z = q" "k \<notin> set js" by (rule running_facts [OF i(3) v])
      then show "k \<notin> set js \<and> (\<exists>z. jobs ?s k = Some z \<and> \<not> j_done z \<and> j_pool z = q)" using assms(2,3) by auto
    qed (use i(3) busy_facts [OF i(3)] running_unique [OF i(3)] in \<open>auto simp: inv_busy_def\<close>)
    have "queued_in q js ?s = queued_in q js s" for q
      by (rule queued_in_cong) (use jn in \<open>auto simp: job_pool_def\<close>)
    then show "inv_counts js b ?s" using i(4) unfolding inv_counts_def by simp
    have "charged_in q ?s = charged_in q s" for q using fin assms(2,4) by (simp add: charged_in_def heap_sum_free)
    then show "inv_credit W b ?s" using i(5) by (simp add: inv_credit_def)
    show "inv_files W ?s"
    proof (rule inv_filesI)
      have "job_files ?s = job_files s" unfolding job_files_def using assms(2,5) by (auto split: if_splits) (metis option.distinct(1) option.inject)
      then show "dom (files ?s) = own_files W \<union> job_files ?s" using i(7) by (simp add: inv_files_def)
    qed (use file_facts [OF i(7)] in \<open>auto split: if_splits\<close>)
    show "inv_freeing W ?s" using i(8) by (auto simp: inv_freeing_def split: option.splits)
  qed (use i b in \<open>simp_all add: inv_pools_def\<close>)
qed

end
