(* ===== verification/Native_Pool.thy ===== *)
theory Native_Pool
  imports Native_Run
begin

text \<open>Freeing a job, and the creation and release of pools, keep the invariant of the executor.\<close>

subsection \<open>Freeing a job\<close>

lemma release_jobs:
  "hs_io_release p d n (s\<lparr>jobs := J\<rparr>) = map_option (\<lambda>s. s\<lparr>jobs := J\<rparr>) (hs_io_release p d n s)"
  by (cases s) (simp add: hs_io_release_def Let_def split: bind_splits)

lemma file_free_jobs:
  "hs_io_file_free f (s\<lparr>jobs := J\<rparr>) = map_option (\<lambda>s. s\<lparr>jobs := J\<rparr>) (hs_io_file_free f s)"
  by (cases s) (simp add: hs_io_file_free_def split: option.splits bind_splits)

text \<open>
  Freeing a job is: take its directory credits and release them, take its file and free it, and
  drop what is left.
\<close>

lemma job_free_ok:
  assumes "io_inv W s" "case job of None \<Rightarrow> True | Some j \<Rightarrow> (\<exists>y. jobs s j = Some y \<and> j_done y)"
  shows "\<exists>s'. hs_io_job_free job s = Some s' \<and> io_inv W s'"
proof (cases job)
  case None
  with assms show ?thesis by (simp add: hs_io_job_free_def)
next
  case (Some j)
  then obtain y where y: "jobs s j = Some y" "j_done y" using assms(2) by auto
  obtain b where b: "budget s = Some b" using assms(1) y by (auto simp: io_inv_def split: option.splits)
  obtain js where i: "inv_jobs js s" "inv_credit W b s" "inv_files W s" using io_invE [OF assms(1) b] .
  let ?p = "j_pool y" and ?n = "j_directory_charge y"
  let ?y1 = "y\<lparr>j_directory_charge := 0\<rparr>" and ?y2 = "y\<lparr>j_directory_charge := 0, j_result := None\<rparr>"
  obtain x where x: "pools s ?p = Some x" using job_facts(1) [OF i(1) y(1)] by blast
  let ?W1 = "W\<lparr>own_dir := (own_dir W)(?p := own_dir W ?p + ?n)\<rparr>"
  have "io_inv ?W1 (set_job j ?y1 s)" by (rule take_charge_ok(2) [OF assms(1) y(1)])
  from release_ok [OF this, of ?p x True ?n] x job_facts(2) [OF i(1) y(1)] credit_facts(5) [OF i(2), of ?p]
  obtain s1 where s1: "hs_io_release ?p True ?n (set_job j ?y1 s) = Some s1" "jobs s1 = (jobs s)(j \<mapsto> ?y1)" "files s1 = files s" "io_inv W s1"
    by auto
  let ?W2 = "W\<lparr>own_files := own_files W \<union> set_option (j_result y)\<rparr>"
  have s2: "io_inv ?W2 (set_job j ?y2 s1)"
    using take_file_ok(2) [OF s1(4), of j ?y1] s1(2) by simp
  have own: "f \<notin> own_files W" if "j_result y = Some f" for f using file_facts(1) [OF i(3) y(1)] that .
  have unused: "j_file z \<noteq> Some f" if "j_result y = Some f" "jobs (set_job j ?y2 s1) k = Some z" "\<not> j_done z" for f k z
  proof -
    have "k \<noteq> j" using that(2,3) y(2) by auto
    then have "jobs s k = Some z" using that(2) s1(2) by simp
    with file_facts(3) [OF i(3) _ that(3)] own [OF that(1)] show ?thesis by blast
  qed
  obtain s3 where s3: "hs_io_file_free (j_result y) (set_job j ?y2 s1) = Some s3" "jobs s3 = (jobs s1)(j \<mapsto> ?y2)"
    "io_inv (?W2\<lparr>own_files := own_files ?W2 - set_option (j_result y)\<rparr>) s3"
  proof -
    have "case j_result y of None \<Rightarrow> True | Some f \<Rightarrow> f \<in> own_files ?W2 \<and>
        (\<forall>k z. jobs (set_job j ?y2 s1) k = Some z \<longrightarrow> \<not> j_done z \<longrightarrow> j_file z \<noteq> Some f)"
      using unused by (cases "j_result y") auto
    from file_free_ok [OF s2 this] show thesis using that by auto
  qed
  moreover have "own_files W \<union> set_option (j_result y) - set_option (j_result y) = own_files W" using own by auto
  ultimately have s3': "io_inv W s3" by simp
  have "io_inv W (s3\<lparr>jobs := (jobs s3)(j := None)\<rparr>)"
    by (rule drop_job [OF s3', of j ?y2]) (use s3(2) y(2) in simp_all)
  moreover have "hs_io_job_free job s = Some (s3\<lparr>jobs := (jobs s3)(j := None)\<rparr>)"
  proof -
    obtain s1' where r: "hs_io_release ?p True ?n s = Some s1'" "s1 = s1'\<lparr>jobs := (jobs s)(j \<mapsto> ?y1)\<rparr>"
      using s1(1) by (auto simp: release_jobs)
    have j1: "jobs s1' = jobs s" using r(1) by (auto simp: hs_io_release_def Let_def Option.bind_eq_Some_conv split: if_splits)
    obtain s3' where f: "hs_io_file_free (j_result y) s1' = Some s3'" "s3 = s3'\<lparr>jobs := (jobs s)(j \<mapsto> ?y2)\<rparr>"
      using s3(1) r(2) by (auto simp: file_free_jobs)
    have j3: "jobs s3' = jobs s" using f(1) j1 by (auto simp: hs_io_file_free_def Option.bind_eq_Some_conv split: option.splits)
    show ?thesis using Some y(1) r(1) f j3 by (simp add: hs_io_job_free_def)
  qed
  ultimately show ?thesis by blast
qed

subsection \<open>Freeing a pool\<close>

lemma pool_free_begin_ok:
  assumes "io_inv W s" "pools s p = Some x" "\<forall>j y. jobs s j = Some y \<longrightarrow> j_pool y \<noteq> p"
  shows "pool_free_begin p s = Some (set_pool p (x\<lparr>p_stopping := True\<rparr>) s)"
    and "io_inv (W\<lparr>freeing := Some p\<rparr>) (set_pool p (x\<lparr>p_stopping := True\<rparr>) s)"
proof -
  let ?s = "set_pool p (x\<lparr>p_stopping := True\<rparr>) s"
  obtain b where b: "budget s = Some b" using pool_budget [OF assms(1,2)] .
  then show "pool_free_begin p s = Some ?s" using assms(2) by (simp add: pool_free_begin_def)
  have "io_inv W ?s" using flag_write [OF assms(1,2), of "x\<lparr>p_stopping := True\<rparr>"] by (simp add: same_pool_def)
  moreover have "inv_freeing (W\<lparr>freeing := Some p\<rparr>) ?s" using assms(3) by (simp add: inv_freeing_def)
  moreover have "inv_files (W\<lparr>freeing := Some p\<rparr>) ?s = inv_files W ?s" "inv_credit (W\<lparr>freeing := Some p\<rparr>) b ?s = inv_credit W b ?s"
    by (simp_all add: inv_files_def inv_credit_def)
  ultimately show "io_inv (W\<lparr>freeing := Some p\<rparr>) ?s"
    unfolding io_inv_def using b by simp
qed

text \<open>When no worker is in the pool and no job is of it, nothing but the budget's list points to it.\<close>

lemma quiet_pool:
  assumes "inv_busy js b s" "inv_counts js b s" "pools s p = Some x" "p_active x = 0" "busy s w = Some ph"
  shows "phase_pool ph \<noteq> p"
proof
  assume "phase_pool ph = p"
  have fin: "finite (dom (busy s))" using assms(1) by (simp add: inv_busy_def)
  have "of_bool (phase_pool ph = p) \<le> active_in p s"
    unfolding active_in_def by (rule heap_sum_ge_cell [of "busy s" "\<lambda>_ ph. of_bool (phase_pool ph = p)", OF fin _ assms(5)]) simp
  then show False using counts_pool(2) [OF assms(2,3)] assms(4) \<open>phase_pool ph = p\<close> by simp
qed

definition forget :: "ptr \<Rightarrow> bool \<Rightarrow> iow \<Rightarrow> iow" where
  "forget p ended W = W\<lparr>freeing := None, own_dir := (own_dir W)(p := 0), loose := (if ended then 0 else loose W)\<rparr>"

lemma no_charge:
  assumes "\<forall>j y. jobs s j = Some y \<longrightarrow> j_pool y \<noteq> p"
  shows "charged_in p s = 0"
  unfolding charged_in_def by (rule heap_sum_zero) (use assms in auto)

lemma pool_free_end_ok:
  assumes "io_inv W s" "freeing W = Some p" "pool_quiet p s"
  shows "\<exists>s' ended. pool_free_end p s = Some s' \<and> io_inv (forget p ended W) s' \<and> pools s' = (pools s)(p := None) \<and>
    (ended \<longrightarrow> budget s' = None \<and> (\<forall>b. budget s = Some b \<longrightarrow> b_refs b = 1))"
proof -
  have "inv_freeing W s" using assms(1) by (simp add: io_inv_def)
  then obtain x where x: "pools s p = Some x" and nojob: "\<forall>j y. jobs s j = Some y \<longrightarrow> j_pool y \<noteq> p"
    using assms(2) by (auto simp: inv_freeing_def)
  obtain b where b: "budget s = Some b" using pool_budget [OF assms(1) x] .
  obtain js where i: "inv_queue js b s" "inv_jobs js s" "inv_busy js b s" "inv_counts js b s" "inv_credit W b s"
    "inv_pools b s" "inv_files W s" "inv_freeing W s" "accepted W = started W @ js"
    using io_invE [OF assms(1) b] .
  have quiet: "p_active x = 0" using assms(3) x by (simp add: pool_quiet_def)
  have away: "busy s w = Some ph \<Longrightarrow> phase_pool ph \<noteq> p" for w ph by (rule quiet_pool [OF i(3,4) x quiet])
  have fin: "finite (dom (pools s))" using i(6) unfolding inv_pools_def by (metis List.finite_set)
  have set: "set (b_pools b) = dom (pools s)" "distinct (b_pools b)" "b_refs b = int (length (b_pools b))" "p \<in> set (b_pools b)"
    using i(6) x unfolding inv_pools_def by (simp_all add: domI)
  let ?b = "b\<lparr>b_body := b_body b - p_body_owned x, b_directory := b_directory b - p_directory_owned x,
               b_pools := remove1 p (b_pools b), b_refs := b_refs b - 1\<rparr>"
  let ?s = "s\<lparr>pools := (pools s)(p := None)\<rparr>"
  show ?thesis
  proof (cases "b_refs b - 1 = 0")
    case True
    then have "length (b_pools b) = 1" using set(3) by simp
    then have only: "b_pools b = [p]" using set(4) by (auto simp: length_Suc_conv)
    then have domp: "dom (pools s) = {p}" using set(1) by simp
    have none: "pools s q = None" if "q \<noteq> p" for q using domp that by auto
    have pe: "(pools s)(p := None) = Map.empty" using none by (auto simp: fun_eq_iff)
    have je: "jobs s = Map.empty"
    proof (rule ext, rule ccontr)
      fix j assume "jobs s j \<noteq> None"
      then obtain y where "jobs s j = Some y" by blast
      then show False using job_facts(1) [OF i(2)] nojob none by blast
    qed
    have be: "busy s = Map.empty"
    proof (rule ext, rule ccontr)
      fix w assume "busy s w \<noteq> None"
      then obtain ph where "busy s w = Some ph" by blast
      then show False using busy_facts(2) [OF i(3)] away none by blast
    qed
    have "js = []" using i(1) je by (cases js) (auto simp: inv_queue_def)
    moreover have "(own_dir W)(p := 0) = (\<lambda>_. 0)"
      using credit_facts(6) [OF i(5)] none by (auto simp: fun_eq_iff)
    moreover have "inv_files (forget p True W) (?s\<lparr>budget := None\<rparr>)" using i(7) by (simp add: inv_files_def forget_def)
    ultimately have "io_inv (forget p True W) (?s\<lparr>budget := None\<rparr>)"
      using i(9) pe je be by (simp add: io_inv_def forget_def inv_freeing_def)
    moreover have "pool_free_end p s = Some (?s\<lparr>budget := None\<rparr>)" using x b True by (simp add: pool_free_end_def Let_def)
    ultimately show ?thesis using b True by auto
  next
    case False
    have live: "pools ?s (j_pool y) \<noteq> None" if "jobs s j = Some y" for j y
      using that job_facts(1) [OF i(2)] nojob by fastforce
    have "io_inv (forget p False W) (set_budget ?b ?s)"
    proof (rule io_invI [where js = js and b = ?b])
      show "inv_jobs js (set_budget ?b ?s)" using i(2) live unfolding inv_jobs_def by simp
      show "inv_busy js ?b (set_budget ?b ?s)"
        using i(3) away unfolding inv_busy_def by auto
      show "inv_counts js ?b (set_budget ?b ?s)" using i(4) unfolding inv_counts_def by auto
      have own: "p_directory_owned x = own_dir W p" using credit_pool(2) [OF i(5) x] no_charge [OF nojob] by simp
      have "heap_sum (\<lambda>_. p_body_owned) (pools s) + loose W - p_body_owned x \<le> INT_MAX"
        "heap_sum (\<lambda>_. p_directory_owned) (pools s) - own_dir W p \<le> INT_MAX"
        using i(5) credit_pool(1) [OF i(5) x] credit_facts(5) [OF i(5), of p] unfolding inv_credit_def by linarith+
      then show "inv_credit (forget p False W) ?b (set_budget ?b ?s)"
        using i(5) fin x credit_facts [OF i(5)] credit_pool [OF i(5) x] no_charge [OF nojob]
        by (auto simp: inv_credit_def forget_def heap_sum_free)
      have "length (b_pools b) \<noteq> 0" "length (b_pools b) \<noteq> 1" using set(3,4) False by auto
      moreover have "length (remove1 p (b_pools b)) = length (b_pools b) - 1" using set(4) by (simp add: length_remove1)
      ultimately have "length (remove1 p (b_pools b)) = length (b_pools b) - 1" "length (remove1 p (b_pools b)) \<noteq> 0" "b_pools b \<noteq> []"
        by (simp, linarith, auto)
      then show "inv_pools ?b (set_budget ?b ?s)"
        using i(6) set False unfolding inv_pools_def by (auto simp: of_nat_diff Suc_le_eq split: if_splits)
    qed (use i in \<open>auto simp: inv_queue_def inv_files_def inv_freeing_def forget_def\<close>)
    moreover have "pool_free_end p s = Some (set_budget ?b ?s)" using x b False by (simp add: pool_free_end_def Let_def)
    ultimately show ?thesis by auto
  qed
qed

subsection \<open>Creating a pool\<close>

lemma add_pool_ok:
  assumes "io_inv W s" "pools s p = None" "1 \<le> count" "body \<le> INT_MAX" "directory \<le> INT_MAX" "count \<le> int n" "n \<le> 64"
    and b: "budget s = Some b \<or> budget s = None \<and> b = new_budget" and n: "b_thread_count b \<le> n"
  shows "io_inv W (set_budget (b\<lparr>b_pools := p # b_pools b, b_refs := b_refs b + 1, b_thread_count := n\<rparr>)
    (set_pool p (new_pool count capacity body directory backend) s))"
proof -
  let ?b = "b\<lparr>b_pools := p # b_pools b, b_refs := b_refs b + 1, b_thread_count := n\<rparr>"
  let ?x = "new_pool count capacity body directory backend"
  let ?s = "set_budget ?b (set_pool p ?x s)"
  have files: "inv_files W s" "inv_freeing W s" using assms(1) by (simp_all add: io_inv_def)
  then have files': "inv_files W ?s" "inv_freeing W ?s" by (auto simp: inv_files_def inv_freeing_def split: option.splits)
  from b show ?thesis
  proof
    assume b: "budget s = Some b"
    obtain js where i: "inv_queue js b s" "inv_jobs js s" "inv_busy js b s" "inv_counts js b s" "inv_credit W b s"
      "inv_pools b s" "inv_files W s" "inv_freeing W s" "accepted W = started W @ js"
      using io_invE [OF assms(1) b] .
    have fin: "finite (dom (pools s))" using i(6) unfolding inv_pools_def by (metis List.finite_set)
    have away: "busy s w = Some ph \<Longrightarrow> phase_pool ph \<noteq> p" for w ph using busy_facts(2) [OF i(3)] assms(2) by blast
    have nojob: "\<forall>j y. jobs s j = Some y \<longrightarrow> j_pool y \<noteq> p" using job_facts(1) [OF i(2)] assms(2) by blast
    have "active_in p s = 0" unfolding active_in_def by (rule heap_sum_zero) (use away in auto)
    moreover have "queued_in p js s = 0"
      using nojob by (auto simp: queued_in_def job_pool_def filter_empty_conv)
    ultimately have counts: "inv_counts js ?b ?s" using i(4) unfolding inv_counts_def by (auto simp: new_pool_def)
    have "p_directory_owned ?x = charged_in p s + own_dir W p"
      using no_charge [OF nojob] credit_facts(6) [OF i(5) assms(2)] by (simp add: new_pool_def)
    then have credit: "inv_credit W ?b ?s"
      using i(5) fin assms(2) by (auto simp: inv_credit_def heap_sum_upd new_pool_def)
    have "p \<notin> set (b_pools b)" using i(6) assms(2) by (auto simp: inv_pools_def)
    then have pools: "inv_pools ?b ?s"
      using i(6) assms(3-6) n unfolding inv_pools_def by (auto simp: new_pool_def) (meson le_trans of_nat_le_iff order_trans)
    have "w < n" if "busy s w = Some ph" for w ph using busy_facts(1) [OF i(3) that] n by simp
    then have busy: "inv_busy js ?b ?s" using i(3) assms(7) unfolding inv_busy_def by auto
    show ?thesis
      by (rule io_invI [OF _ _ busy counts credit pools files'])
        (use i in \<open>auto simp: inv_queue_def inv_jobs_def\<close>)
  next
    assume none: "budget s = None \<and> b = new_budget"
    then have e: "pools s = Map.empty" "jobs s = Map.empty" "busy s = Map.empty" "loose W = 0" "own_dir W = (\<lambda>_. 0)" "accepted W = started W"
      using assms(1) by (simp_all add: io_inv_def)
    show ?thesis
      by (rule io_invI [OF _ _ _ _ _ _ files', of "[]"])
        (use none e assms(3-7) in \<open>auto simp: inv_queue_def inv_jobs_def inv_busy_def inv_counts_def inv_credit_def inv_pools_def
           new_budget_def new_pool_def queued_in_def active_in_def charged_in_def heap_sum_def\<close>)
  qed
qed

lemma threads_grow:
  assumes "io_inv W s" "budget s = Some b" "b_thread_count b \<le> n" "n \<le> 64"
  shows "io_inv W (set_budget (b\<lparr>b_thread_count := n\<rparr>) s)"
proof -
  let ?b = "b\<lparr>b_thread_count := n\<rparr>"
  obtain js where i: "inv_queue js b s" "inv_jobs js s" "inv_busy js b s" "inv_counts js b s" "inv_credit W b s"
    "inv_pools b s" "inv_files W s" "inv_freeing W s" "accepted W = started W @ js"
    using io_invE [OF assms(1,2)] .
  show ?thesis
  proof (rule io_invI [where js = js and b = ?b])
    have "w < n" if "busy s w = Some ph" for w ph using busy_facts(1) [OF i(3) that] assms(3) by simp
    then show "inv_busy js ?b (set_budget ?b s)" using i(3) assms(4) unfolding inv_busy_def by auto
    have "p_worker_limit x \<le> int n" if "pools s p = Some x" for p x using pool_facts(2) [OF i(6) that] assms(3) by simp
    then show "inv_pools ?b (set_budget ?b s)" using i(6) unfolding inv_pools_def by auto
    show "inv_freeing W (set_budget ?b s)" using i(8) by (simp add: inv_freeing_def split: option.splits)
  qed (use i in \<open>simp_all add: inv_queue_def inv_jobs_def inv_counts_def inv_credit_def inv_files_def\<close>)
qed

lemma pool_new_ok:
  assumes "io_inv W s" "freeing W = None" "body \<le> INT_MAX" "directory \<le> INT_MAX" "case mem of None \<Rightarrow> True | Some p \<Rightarrow> pools s p = None"
  shows "\<exists>r s'. hs_io_pool_new supported count capacity body directory backend mem mem_budget threads s = Some (r, s') \<and> io_inv W s'"
proof -
  let ?new = "hs_io_pool_new supported count capacity body directory backend mem mem_budget threads s"
  define bo where "bo = (case budget s of Some b \<Rightarrow> Some b | None \<Rightarrow> if mem_budget then Some new_budget else None)"
  show ?thesis
  proof (cases "count < 1 \<or> count > 64 \<or> capacity < 1 \<or> \<not> supported \<or> mem = None \<or> bo = None")
    case True
    then have "?new = Some (None, s)"
      unfolding hs_io_pool_new_def bo_def [symmetric] by (cases mem; cases bo) auto
    with assms(1) show ?thesis by simp
  next
    case False
    then obtain p b where p: "mem = Some p" and b: "bo = Some b" by auto
    have pn: "pools s p = None" using assms(5) p by simp
    have bs: "budget s = Some b \<or> budget s = None \<and> b = new_budget" using b by (auto simp: bo_def split: option.splits if_splits)
    have tc: "b_thread_count b \<le> 64"
      using bs assms(1) by (auto simp: io_inv_def inv_busy_def new_budget_def)
    define n where "n = b_thread_count b + min threads (nat count - b_thread_count b)"
    have n: "b_thread_count b \<le> n" "n \<le> 64" using tc False by (auto simp: n_def)
    let ?b = "b\<lparr>b_pools := p # b_pools b, b_refs := b_refs b + 1, b_thread_count := n\<rparr>"
    let ?x = "new_pool count capacity body directory backend"
    let ?s = "set_budget ?b (set_pool p ?x s)"
    show ?thesis
    proof (cases "nat count \<le> n")
      case True
      then have "io_inv W ?s" using add_pool_ok [OF assms(1) pn _ assms(3,4) _ n(2) bs n(1), of count] False by simp
      moreover have "?new = Some (Some p, ?s)"
        using False p b True unfolding hs_io_pool_new_def bo_def [symmetric] by (simp add: n_def [symmetric] Let_def)
      ultimately show ?thesis by simp
    next
      case few: False
      have restore: "(pools s)(p := None) = pools s" using pn by auto
      let ?c = "b\<lparr>b_thread_count := n\<rparr>"
      have "pool_free_begin p ?s = Some (set_pool p (?x\<lparr>p_stopping := True\<rparr>) ?s)" by (simp add: pool_free_begin_def)
      moreover have "pool_free_end p (set_pool p (?x\<lparr>p_stopping := True\<rparr>) ?s) =
          Some (if b_refs b = 0 then s\<lparr>budget := None\<rparr> else set_budget ?c s)"
        using restore by (simp add: pool_free_end_def Let_def new_pool_def)
      ultimately have new: "?new = Some (None, if b_refs b = 0 then s\<lparr>budget := None\<rparr> else set_budget ?c s)"
        using False p b few unfolding hs_io_pool_new_def bo_def [symmetric] by (simp add: n_def [symmetric] Let_def)
      from bs show ?thesis
      proof
        assume bu: "budget s = Some b"
        obtain js where i: "inv_queue js b s" "inv_jobs js s" "inv_busy js b s" "inv_counts js b s" "inv_credit W b s"
          "inv_pools b s" "inv_files W s" "inv_freeing W s" "accepted W = started W @ js"
          using io_invE [OF assms(1) bu] .
        have "b_refs b \<noteq> 0" using i(6) by (simp add: inv_pools_def)
        moreover have "io_inv W (set_budget ?c s)" by (rule threads_grow [OF assms(1) bu n])
        ultimately show ?thesis using new by simp
      next
        assume "budget s = None \<and> b = new_budget"
        then have "b_refs b = 0" "s\<lparr>budget := None\<rparr> = s" by (simp_all add: new_budget_def)
        then show ?thesis using new assms(1) by simp
      qed
    qed
  qed
qed

end
