(* ===== verification/Native_System.thy ===== *)
theory Native_System
  imports Native_Pool Call_Machine
begin

text \<open>
  The executor as a system: every call of the owner and every step of a worker, in any interleaving.
  \<open>io_legal\<close> is what the owner owes (objects are live, a file is not freed under a job, credits are
  given back once, a pool is freed after its jobs, no call while it waits in \<open>hs_io_pool_free\<close>)
  and when a worker step is enabled.
\<close>

datatype (plugins only: code size) io_call =
    PoolNew bool int int int int int "ptr option" bool nat
  | FreeBegin ptr
  | FreeEnd ptr
  | Reserve ptr bool int
  | Release ptr bool int
  | ConnLimit ptr int
  | ConnAcquire
  | ConnRelease
  | BodyAcquire int
  | BodyRelease int
  | Submit "ptr option" bool ptr int "ptr option" string int int nat
  | Take nat
  | Charge nat int
  | Publish nat outcome
  | Notify nat
  | Retire nat
  | Ack ptr
  | Cancel ptr
  | TakeFile ptr
  | TakeCharge ptr
  | JobFree "ptr option"
  | FileFree "ptr option"

definition head_job :: "io \<Rightarrow> ptr list" where
  "head_job s = (case budget s of None \<Rightarrow> [] | Some b \<Rightarrow> (case fst (b_ends b) of None \<Rightarrow> [] | Some j \<Rightarrow> [j]))"

definition last_pool :: "io \<Rightarrow> bool" where
  "last_pool s = (case budget s of None \<Rightarrow> False | Some b \<Rightarrow> b_refs b = 1)"

definition worker_idle :: "nat \<Rightarrow> io \<Rightarrow> bool" where
  "worker_idle w s = (busy s w = None \<and> (case budget s of None \<Rightarrow> False | Some b \<Rightarrow> w < b_thread_count b))"

fun io_run :: "io_call \<Rightarrow> iow \<times> io \<Rightarrow> (iow \<times> io) option" where
  "io_run (PoolNew sp c cap bl dl be mem mb th) (W, s) = map_option (\<lambda>(r, s'). (W, s')) (hs_io_pool_new sp c cap bl dl be mem mb th s)"
| "io_run (FreeBegin p) (W, s) = map_option (\<lambda>s'. (W\<lparr>freeing := Some p\<rparr>, s')) (pool_free_begin p s)"
| "io_run (FreeEnd p) (W, s) = map_option (\<lambda>s'. (forget p (last_pool s) W, s')) (pool_free_end p s)"
| "io_run (Reserve p d n) (W, s) = map_option (\<lambda>(ok, s'). (if ok \<and> d then W\<lparr>own_dir := (own_dir W)(p := own_dir W p + n)\<rparr> else W, s')) (hs_io_reserve p d n s)"
| "io_run (Release p d n) (W, s) = map_option (\<lambda>s'. (if d then W\<lparr>own_dir := (own_dir W)(p := own_dir W p - n)\<rparr> else W, s')) (hs_io_release p d n s)"
| "io_run (ConnLimit p n) (W, s) = map_option (\<lambda>s'. (W, s')) (hs_io_connection_limit p n s)"
| "io_run ConnAcquire (W, s) = map_option (\<lambda>(ok, s'). (W, s')) (hs_io_connection_acquire s)"
| "io_run ConnRelease (W, s) = Some (W, hs_io_connection_release s)"
| "io_run (BodyAcquire n) (W, s) = map_option (\<lambda>(ok, s'). (if ok then W\<lparr>loose := loose W + n\<rparr> else W, s')) (hs_io_body_acquire n s)"
| "io_run (BodyRelease n) (W, s) = Some (W\<lparr>loose := loose W - n\<rparr>, hs_io_body_release n s)"
| "io_run (Submit mem mp p op f path off len sock) (W, s) =
     map_option (\<lambda>(r, s'). (W\<lparr>accepted := accepted W @ (case r of None \<Rightarrow> [] | Some j \<Rightarrow> [j])\<rparr>, s')) (hs_io_submit mem mp p op f path off len sock s)"
| "io_run (Take w) (W, s) = map_option (\<lambda>s'. (W\<lparr>started := started W @ head_job s\<rparr>, s')) (worker_take w s)"
| "io_run (Charge w n) (W, s) = map_option (\<lambda>s'. (W, s')) (worker_charge w n s)"
| "io_run (Publish w r) (W, s) = map_option (\<lambda>s'. (W, s')) (worker_publish w r s)"
| "io_run (Notify w) (W, s) = map_option (\<lambda>s'. (W, s')) (worker_notify w s)"
| "io_run (Retire w) (W, s) = map_option (\<lambda>s'. (W, s')) (worker_retire w s)"
| "io_run (Ack p) (W, s) = map_option (\<lambda>s'. (W, s')) (hs_io_ack p s)"
| "io_run (Cancel j) (W, s) = map_option (\<lambda>s'. (W, s')) (hs_io_cancel j s)"
| "io_run (TakeFile j) (W, s) = map_option (\<lambda>(r, s'). (W\<lparr>own_files := own_files W \<union> set_option r\<rparr>, s')) (hs_io_take_file j s)"
| "io_run (TakeCharge j) (W, s) = map_option (\<lambda>(n, s').
     (case jobs s j of None \<Rightarrow> W | Some y \<Rightarrow> W\<lparr>own_dir := (own_dir W)(j_pool y := own_dir W (j_pool y) + n)\<rparr>, s')) (hs_io_take_directory_charge j s)"
| "io_run (JobFree j) (W, s) = map_option (\<lambda>s'. (W, s')) (hs_io_job_free j s)"
| "io_run (FileFree f) (W, s) = map_option (\<lambda>s'. (W\<lparr>own_files := own_files W - set_option f\<rparr>, s')) (hs_io_file_free f s)"

text \<open>Steps of workers; all others are calls of the owner.\<close>

fun by_worker :: "io_call \<Rightarrow> bool" where
  "by_worker (Take w) = True" | "by_worker (Charge w n) = True" | "by_worker (Publish w r) = True"
| "by_worker (Notify w) = True" | "by_worker (Retire w) = True" | "by_worker _ = False"

fun io_allowed :: "io_call \<Rightarrow> iow \<times> io \<Rightarrow> bool" where
  "io_allowed (PoolNew sp c cap bl dl be mem mb th) (W, s) =
     (bl \<le> INT_MAX \<and> dl \<le> INT_MAX \<and> (case mem of None \<Rightarrow> True | Some p \<Rightarrow> pools s p = None))"
| "io_allowed (FreeBegin p) (W, s) = (pools s p \<noteq> None \<and> (\<forall>j\<in>dom (jobs s). job_pool s j \<noteq> Some p))"
| "io_allowed (FreeEnd p) (W, s) = (freeing W = Some p \<and> pool_quiet p s)"
| "io_allowed (Reserve p d n) (W, s) = (pools s p \<noteq> None)"
| "io_allowed (Release p d n) (W, s) = (pools s p \<noteq> None \<and> (d \<longrightarrow> 0 \<le> n \<and> n \<le> own_dir W p))"
| "io_allowed (ConnLimit p n) (W, s) = (pools s p \<noteq> None)"
| "io_allowed (BodyRelease n) (W, s) = (0 \<le> n \<and> n \<le> loose W)"
| "io_allowed (Submit mem mp p op f path off len sock) (W, s) =
     (pools s p \<noteq> None \<and> (case mem of None \<Rightarrow> True | Some j \<Rightarrow> jobs s j = None) \<and> (case f of None \<Rightarrow> True | Some g \<Rightarrow> g \<in> own_files W))"
| "io_allowed (Take w) (W, s) = (worker_ready s \<and> worker_idle w s)"
| "io_allowed (Publish w r) (W, s) = (case oc_file r of None \<Rightarrow> True | Some (f, v) \<Rightarrow> files s f = None)"
| "io_allowed (Ack p) (W, s) = (pools s p \<noteq> None)"
| "io_allowed (Cancel j) (W, s) = (jobs s j \<noteq> None)"
| "io_allowed (TakeFile j) (W, s) = (jobs s j \<noteq> None)"
| "io_allowed (TakeCharge j) (W, s) = (jobs s j \<noteq> None)"
| "io_allowed (JobFree jo) (W, s) = (case jo of None \<Rightarrow> True | Some j \<Rightarrow> (case jobs s j of None \<Rightarrow> False | Some y \<Rightarrow> j_done y))"
| "io_allowed (FileFree fo) (W, s) = (case fo of None \<Rightarrow> True | Some f \<Rightarrow> f \<in> own_files W \<and>
     (\<forall>j\<in>dom (jobs s). case jobs s j of None \<Rightarrow> True | Some y \<Rightarrow> j_done y \<or> j_file y \<noteq> Some f))"
| "io_allowed _ (W, s) = True"

fun ends_wait :: "io_call \<Rightarrow> bool" where
  "ends_wait (FreeEnd p) = True" | "ends_wait _ = False"

definition io_legal :: "io_call \<Rightarrow> iow \<times> io \<Rightarrow> bool" where
  "io_legal k ws \<longleftrightarrow> io_allowed k ws \<and> (by_worker k \<or> ends_wait k \<or> freeing (fst ws) = None)"

abbreviation io_exec :: "io_call list \<Rightarrow> iow \<times> io \<Rightarrow> (iow \<times> io) option" where
  "io_exec \<equiv> exec_calls io_run"

abbreviation io_lawful :: "io_call list \<Rightarrow> iow \<times> io \<Rightarrow> bool" where
  "io_lawful \<equiv> lawful_calls io_run io_legal"

lemma free_end_last:
  assumes "pool_free_end p s = Some s'" "io_inv (forget p ended W) s'" "ended \<longrightarrow> budget s' = None \<and> (\<forall>b. budget s = Some b \<longrightarrow> b_refs b = 1)"
  shows "io_inv (forget p (last_pool s) W) s'"
proof (cases "ended = last_pool s")
  case True
  with assms(2) show ?thesis by simp
next
  case False
  have "\<not> ended" "budget s' = None"
    using False assms(1,3) by (auto simp: last_pool_def pool_free_end_def Let_def Option.bind_eq_Some_conv split: option.splits)
  with assms(2) have "loose (forget p ended W) = 0" by (simp add: io_inv_def)
  with \<open>\<not> ended\<close> have "forget p (last_pool s) W = forget p ended W" by (simp add: forget_def)
  with assms(2) show ?thesis by simp
qed

lemma io_call_ok:
  assumes "io_inv W s" "io_legal k (W, s)"
  shows "\<exists>W' s'. io_run k (W, s) = Some (W', s') \<and> io_inv W' s'"
proof (cases k)
  case (PoolNew sp c cap bl dl be mem mb th)
  with pool_new_ok [OF assms(1), of bl dl mem sp c cap be mb th] assms(2) show ?thesis by (auto simp: io_legal_def)
next
  case (FreeBegin p)
  then obtain x where x: "pools s p = Some x" using assms(2) by (auto simp: io_legal_def)
  have "\<forall>j y. jobs s j = Some y \<longrightarrow> j_pool y \<noteq> p" using FreeBegin assms(2) by (auto simp: io_legal_def job_pool_def)
  from pool_free_begin_ok [OF assms(1) x this] FreeBegin show ?thesis by simp
next
  case (FreeEnd p)
  then have "freeing W = Some p" "pool_quiet p s" using assms(2) by (auto simp: io_legal_def)
  from pool_free_end_ok [OF assms(1) this] obtain s' ended where e: "pool_free_end p s = Some s'" "io_inv (forget p ended W) s'"
    "ended \<longrightarrow> budget s' = None \<and> (\<forall>b. budget s = Some b \<longrightarrow> b_refs b = 1)" by auto
  from free_end_last [OF e] e(1) FreeEnd show ?thesis by simp
next
  case (Reserve p d n)
  then obtain x where x: "pools s p = Some x" using assms(2) by (auto simp: io_legal_def)
  obtain ok s' where r: "hs_io_reserve p d n s = Some (ok, s')" "\<not> ok \<longrightarrow> s' = s"
    "ok \<longrightarrow> io_inv (if d then W\<lparr>own_dir := (own_dir W)(p := own_dir W p + n)\<rparr> else W) s'"
    using reserve_ok [OF assms(1) x, of d n] by blast
  with assms(1) Reserve show ?thesis by (cases ok; cases d) simp_all
next
  case (Release p d n)
  then obtain x where x: "pools s p = Some x" using assms(2) by (auto simp: io_legal_def)
  from release_ok [OF assms(1) x, of d n] assms(2) Release show ?thesis by (auto simp: io_legal_def)
next
  case (ConnLimit p n)
  then obtain x where x: "pools s p = Some x" using assms(2) by (auto simp: io_legal_def)
  from flag_write [OF assms(1) x, of "x\<lparr>p_connection_limit := n\<rparr>"] x ConnLimit show ?thesis
    by (simp add: hs_io_connection_limit_def same_pool_def)
next
  case ConnAcquire
  with connection_acquire_ok [OF assms(1)] show ?thesis by auto
next
  case ConnRelease
  with connection_release_ok [OF assms(1)] show ?thesis by simp
next
  case (BodyAcquire n)
  obtain ok s' where r: "hs_io_body_acquire n s = Some (ok, s')" "\<not> ok \<longrightarrow> s' = s" "ok \<longrightarrow> io_inv (W\<lparr>loose := loose W + n\<rparr>) s'"
    using body_acquire_ok [OF assms(1), of n] by blast
  with assms(1) BodyAcquire show ?thesis by (cases ok) simp_all
next
  case (BodyRelease n)
  with body_release_ok [OF assms(1), of n] assms(2) show ?thesis by (simp add: io_legal_def)
next
  case (Submit mem mp p op f path off len sock)
  then obtain x where x: "pools s p = Some x" using assms(2) by (auto simp: io_legal_def)
  from submit_ok [OF assms(1) x, of mem f mp op path off len sock] assms(2) Submit obtain r s' where
    "hs_io_submit mem mp p op f path off len sock s = Some (r, s')" "r = None \<longrightarrow> s' = s"
    "\<forall>j. r = Some j \<longrightarrow> io_inv (W\<lparr>accepted := accepted W @ [j]\<rparr>) s'" by (auto simp: io_legal_def)
  with assms(1) Submit show ?thesis by (cases r) auto
next
  case (Take w)
  then obtain b where b: "worker_ready s" "busy s w = None" "budget s = Some b" "w < b_thread_count b"
    using assms(2) by (auto simp: io_legal_def worker_idle_def split: option.splits)
  from worker_take_ok [OF assms(1) b] Take b(3) show ?thesis by (auto simp: head_job_def)
next
  case (Charge w n)
  with worker_charge_ok [OF assms(1), of w n] show ?thesis by auto
next
  case (Publish w r)
  with worker_publish_ok [OF assms(1), of r w] assms(2) show ?thesis by (auto simp: io_legal_def)
next
  case (Notify w)
  with worker_notify_ok [OF assms(1), of w] show ?thesis by auto
next
  case (Retire w)
  with worker_retire_ok [OF assms(1), of w] show ?thesis by auto
next
  case (Ack p)
  then obtain x where x: "pools s p = Some x" using assms(2) by (auto simp: io_legal_def)
  from flag_write [OF assms(1) x, of "x\<lparr>p_notified := False\<rparr>"] x Ack show ?thesis
    by (simp add: hs_io_ack_def same_pool_def)
next
  case (Cancel j)
  with cancel_ok [OF assms(1), of j] assms(2) show ?thesis by (auto simp: io_legal_def)
next
  case (TakeFile j)
  then obtain y where y: "jobs s j = Some y" using assms(2) by (auto simp: io_legal_def)
  from take_file_ok [OF assms(1) y] TakeFile show ?thesis by simp
next
  case (TakeCharge j)
  then obtain y where y: "jobs s j = Some y" using assms(2) by (auto simp: io_legal_def)
  from take_charge_ok [OF assms(1) y] TakeCharge y show ?thesis by simp
next
  case (JobFree jo)
  with job_free_ok [OF assms(1), of jo] assms(2) show ?thesis by (auto simp: io_legal_def split: option.splits)
next
  case (FileFree fo)
  have "case fo of None \<Rightarrow> True | Some f \<Rightarrow> f \<in> own_files W \<and> (\<forall>j y. jobs s j = Some y \<longrightarrow> \<not> j_done y \<longrightarrow> j_file y \<noteq> Some f)"
    using assms(2) FileFree by (fastforce simp: io_legal_def domI split: option.splits)
  from file_free_ok [OF assms(1) this] FileFree show ?thesis by auto
qed

interpretation im: call_machine io_run io_legal "\<lambda>(W, s). io_inv W s"
  by unfold_locales (use io_call_ok in fastforce)

lemma io_exec_ok:
  "io_inv W s \<Longrightarrow> io_lawful ks (W, s) \<Longrightarrow> \<exists>W' s'. io_exec ks (W, s) = Some (W', s') \<and> io_inv W' s'"
  using im.exec_safe [of "(W, s)" ks] by auto

end
