(* ===== verification/Native_Props.thy ===== *)
theory Native_Props
  imports Native_System
begin

text \<open>
  What the invariant of the executor says of every execution: memory safety, exact counters, order of
  execution, credits within limits, the meaning of cancellation, and that a pool can always be freed.
\<close>

subsection \<open>An execution\<close>

definition demo_outcome :: outcome where
  "demo_outcome = \<lparr>oc_code = 0, oc_value = 0, oc_data = None, oc_names = [],
     oc_file = Some (3, \<lparr>f_fd = 5, f_kind = 2, f_size = 0, f_seconds = 0, f_nanos = 0, f_generation = 0\<rparr>)\<rparr>"

text \<open>A pool with one worker opens its root and lists it, charging credits; the second job is cancelled while it runs.\<close>

definition demo_io_start :: "io_call list" where
  "demo_io_start = [PoolNew True 1 8 4096 100000 0 (Some 1) True 1, Submit (Some 10) True 1 0 None ''/srv'' 0 0 0, Take 0,
     Publish 0 demo_outcome, Notify 0, TakeFile 10, JobFree (Some 10), Retire 0,
     Submit (Some 11) True 1 3 (Some 3) '''' 1000 0 0, Take 0, Charge 0 65536, Cancel 11]"

definition demo_io_end :: "io_call list" where
  "demo_io_end = [Publish 0 (demo_outcome\<lparr>oc_file := None, oc_names := [''a'']\<rparr>), TakeCharge 11, Ack 1, Release 1 True 65536,
     JobFree (Some 11), FileFree (Some 3), FreeBegin 1]"

lemmas io_defs = hs_io_pool_new_def new_budget_def new_pool_def hs_io_submit_def file_generation_def new_job_def link_append_def
  worker_take_def link_pop_def worker_publish_def with_outcome_def demo_outcome_def worker_notify_def hs_notify_def
  hs_io_take_file_def hs_io_job_free_def hs_io_release_def hs_io_file_free_def worker_retire_def worker_charge_def
  hs_io_reserve_def hs_io_cancel_def hs_io_take_directory_charge_def hs_io_ack_def pool_free_begin_def pool_free_end_def
  init_io_def init_iow_def head_job_def worker_ready_def worker_idle_def hs_worker_limit_def pool_quiet_def io_legal_def
  job_pool_def

lemma demo_io_lawful: "io_lawful (demo_io_start @ demo_io_end) (init_iow, init_io)"
  by (simp add: demo_io_start_def demo_io_end_def io_defs Let_def)

lemma demo_io_prefix: "io_lawful demo_io_start (init_iow, init_io)"
  by (simp add: demo_io_start_def io_defs Let_def)

lemma exec_inv:
  "io_lawful ks (init_iow, init_io) \<Longrightarrow> io_exec ks (init_iow, init_io) = Some (W, s) \<Longrightarrow> io_inv W s"
  using io_exec_ok [OF io_inv_init, of ks] by auto

lemma exec_returns:
  assumes "io_lawful ks (init_iow, init_io)"
  obtains W s where "io_exec ks (init_iow, init_io) = Some (W, s)" "io_inv W s"
  using io_exec_ok [OF io_inv_init assms] by blast

subsection \<open>Safety\<close>

text \<open>C20: in every interleaving of legal owner calls with the steps of the workers, with every outcome of allocations, thread
  starts and file operations, no step touches a freed pool, job, file or budget. Every worker that runs a
  job runs one that is allocated and not finished, no two workers run the same job, the pool of every
  busy worker and of every job is alive, and so is the file an unfinished job reads.\<close>
theorem io_executor_safe:
  assumes "io_lawful ks (init_iow, init_io)"
  shows "\<exists>W s. io_exec ks (init_iow, init_io) = Some (W, s) \<and>
    (\<forall>w j p. busy s w = Some (Running j p) \<longrightarrow> (\<exists>y. jobs s j = Some y \<and> \<not> j_done y \<and> j_pool y = p) \<and>
       (\<forall>v q. busy s v = Some (Running j q) \<longrightarrow> v = w)) \<and>
    (\<forall>w ph. busy s w = Some ph \<longrightarrow> pools s (phase_pool ph) \<noteq> None) \<and>
    (\<forall>j y. jobs s j = Some y \<longrightarrow> pools s (j_pool y) \<noteq> None \<and>
       (\<not> j_done y \<longrightarrow> (\<forall>f. j_file y = Some f \<longrightarrow> files s f \<noteq> None)))"
proof -
  obtain W s where e: "io_exec ks (init_iow, init_io) = Some (W, s)" "io_inv W s" using exec_returns [OF assms] .
  have files: "inv_files W s" using e(2) by (simp add: io_inv_def)
  then have own: "f \<in> own_files W \<Longrightarrow> files s f \<noteq> None" for f by (auto simp: inv_files_def)
  show ?thesis
  proof (cases "budget s")
    case None
    with e show ?thesis by (simp add: io_inv_def)
  next
    case (Some b)
    obtain js where i: "inv_jobs js s" "inv_busy js b s" using io_invE [OF e(2) Some] .
    have "\<exists>y. jobs s j = Some y \<and> \<not> j_done y \<and> j_pool y = p" if "busy s w = Some (Running j p)" for w j p
      using running_facts [OF i(2) that] by blast
    with e(1) running_unique [OF i(2)] busy_facts(2) [OF i(2)] job_facts(1) [OF i(1)] file_facts(3) [OF files] own
    show ?thesis by blast
  qed
qed

theorem io_executor_safe_witness:
  "\<exists>W s. io_exec (demo_io_start @ demo_io_end) (init_iow, init_io) = Some (W, s) \<and>
     (\<forall>j y. jobs s j = Some y \<longrightarrow> pools s (j_pool y) \<noteq> None)"
  using io_executor_safe [OF demo_io_lawful] by blast

text \<open>C21: the counters of the executor are exact in every reachable state with a budget: \<open>queued\<close> is the length of the job
  queue, \<open>active\<close> the number of busy workers, at most the number of threads, which is at most 64, a
  pool's \<open>count\<close> and \<open>active\<close> are its jobs in the queue and its busy workers, and \<open>refs\<close> the number of pools.
  Every unfinished job is in the queue or run by a worker.\<close>
theorem io_counters:
  assumes "io_lawful ks (init_iow, init_io)" "io_exec ks (init_iow, init_io) = Some (W, s)" "budget s = Some b"
  shows "\<exists>js. queue_rep (job_next s, b_ends b) js \<and> b_queued b = int (length js) \<and>
    b_active b = int (card (dom (busy s))) \<and> card (dom (busy s)) \<le> b_thread_count b \<and> b_thread_count b \<le> 64 \<and>
    b_refs b = int (card (dom (pools s))) \<and>
    (\<forall>p x. pools s p = Some x \<longrightarrow> p_count x = int (length (filter (\<lambda>j. job_pool s j = Some p) js)) \<and>
       p_active x = int (card {w. \<exists>ph. busy s w = Some ph \<and> phase_pool ph = p})) \<and>
    (\<forall>j y. jobs s j = Some y \<longrightarrow> \<not> j_done y \<longrightarrow> j \<in> set js \<or> (\<exists>w. busy s w = Some (Running j (j_pool y))))"
proof -
  obtain js where i: "inv_queue js b s" "inv_jobs js s" "inv_busy js b s" "inv_counts js b s" "inv_pools b s"
    using io_invE [OF exec_inv [OF assms(1,2)] assms(3)] .
  have fin: "finite (dom (busy s))" using i(3) by (simp add: inv_busy_def)
  have "dom (busy s) \<subseteq> {..<b_thread_count b}" using busy_facts(1) [OF i(3)] by auto
  then have "card (dom (busy s)) \<le> b_thread_count b" using card_mono [of "{..<b_thread_count b}"] by simp
  moreover have "b_active b = int (card (dom (busy s)))" using i(4) by (simp add: inv_counts_def heap_sum_def)
  moreover have "active_in p s = int (card {w. \<exists>ph. busy s w = Some ph \<and> phase_pool ph = p})" for p
  proof -
    have "{w. \<exists>ph. busy s w = Some ph \<and> phase_pool ph = p} = {w \<in> dom (busy s). phase_pool (the (busy s w)) = p}" by auto
    then show ?thesis using fin by (simp add: active_in_def heap_sum_def Int_def)
  qed
  moreover have "b_refs b = int (card (dom (pools s)))"
    using i(5) unfolding inv_pools_def by (metis distinct_card)
  moreover have "queue_rep (job_next s, b_ends b) js" "b_queued b = int (length js)" "b_thread_count b \<le> 64"
    using i(1,3) by (simp_all add: inv_queue_def inv_busy_def)
  moreover have "p_count x = int (length (filter (\<lambda>j. job_pool s j = Some p) js))" "p_active x = active_in p s" if "pools s p = Some x" for p x
    using counts_pool [OF i(4) that] by (simp_all add: queued_in_def)
  ultimately show ?thesis using undone_located [OF i(2)] by (intro exI [of _ js]) simp
qed

lemma demo_io_state: "\<exists>W s b. io_exec demo_io_start (init_iow, init_io) = Some (W, s) \<and> budget s = Some b \<and> b_active b = 1"
  by (simp add: demo_io_start_def io_defs Let_def)

theorem io_counters_witness:
  "\<exists>W s b. io_exec demo_io_start (init_iow, init_io) = Some (W, s) \<and> budget s = Some b \<and>
     (1 :: int) = int (card (dom (busy s))) \<and> b_refs b = int (card (dom (pools s)))"
proof -
  obtain W s b where d: "io_exec demo_io_start (init_iow, init_io) = Some (W, s)" "budget s = Some b" "b_active b = 1"
    using demo_io_state by blast
  from io_counters [OF demo_io_prefix d(1,2)] d show ?thesis by auto
qed

text \<open>C22: jobs start in the order in which they were accepted: the jobs accepted so far are the jobs started so far,
  in the same order, followed by the queue.\<close>
theorem io_fifo:
  assumes "io_lawful ks (init_iow, init_io)" "io_exec ks (init_iow, init_io) = Some (W, s)" "budget s = Some b"
  shows "\<exists>js. queue_rep (job_next s, b_ends b) js \<and> accepted W = started W @ js"
proof -
  obtain js where "inv_queue js b s" "accepted W = started W @ js"
    using io_invE [OF exec_inv [OF assms(1,2)] assms(3)] .
  then show ?thesis by (auto simp: inv_queue_def)
qed

theorem io_fifo_witness:
  "\<exists>W s b js. io_exec demo_io_start (init_iow, init_io) = Some (W, s) \<and> budget s = Some b \<and>
     queue_rep (job_next s, b_ends b) js \<and> accepted W = started W @ js"
proof -
  obtain W s b where d: "io_exec demo_io_start (init_iow, init_io) = Some (W, s)" "budget s = Some b"
    using demo_io_state by blast
  from io_fifo [OF demo_io_prefix d] d show ?thesis by blast
qed

subsection \<open>Credits\<close>



text \<open>A reservation is granted exactly when the bytes are not negative and the credits in use with them stay within the
  limit of every pool of the owner; a refused one changes nothing.\<close>
theorem io_reserve_exact:
  assumes "io_lawful ks (init_iow, init_io)" "io_exec ks (init_iow, init_io) = Some (W, s)" "pools s p = Some x"
  shows "\<exists>b ok s'. budget s = Some b \<and> hs_io_reserve p directory n s = Some (ok, s') \<and>
    (ok \<longleftrightarrow> 0 \<le> n \<and> (\<forall>q y. pools s q = Some y \<longrightarrow>
       (if directory then b_directory b + n \<le> p_directory_limit y else b_body b + n \<le> p_body_limit y))) \<and>
    (\<not> ok \<longrightarrow> s' = s)"
proof -
  have inv: "io_inv W s" by (rule exec_inv [OF assms(1,2)])
  obtain b where b: "budget s = Some b" using pool_budget [OF inv assms(3)] .
  obtain js where i: "inv_pools b s" using io_invE [OF inv b] .
  let ?f = "if directory then p_directory_limit else p_body_limit"
  have all: "\<forall>q\<in>set (b_pools b). pools s q \<noteq> None" and set: "set (b_pools b) = dom (pools s)"
    using i unfolding inv_pools_def by auto
  obtain l where l: "min_limit ?f s (b_pools b) INT64_MAX = Some l" "\<forall>q\<in>set (b_pools b). \<forall>y. pools s q = Some y \<longrightarrow> l \<le> ?f y"
    "l = INT64_MAX \<or> (\<exists>q\<in>set (b_pools b). \<exists>y. pools s q = Some y \<and> l = ?f y)"
    using min_limit_Some [OF all, of ?f INT64_MAX] by blast
  have "?f x \<le> INT_MAX" using pool_facts(3,4) [OF i assms(3)] by simp
  moreover have "l \<le> ?f x" using l(2) assms(3) pool_facts(5) [OF i assms(3)] by blast
  ultimately obtain q0 y0 where q0: "pools s q0 = Some y0" "l = ?f y0" using l(3) by fastforce
  have "(u \<le> l - n) = (\<forall>q y. pools s q = Some y \<longrightarrow> u + n \<le> ?f y)" for u
  proof
    show "\<forall>q y. pools s q = Some y \<longrightarrow> u + n \<le> ?f y" if "u \<le> l - n"
      using that l(2) set by (metis (mono_tags, lifting) domI le_diff_eq order_trans)
    show "u \<le> l - n" if "\<forall>q y. pools s q = Some y \<longrightarrow> u + n \<le> ?f y" using that q0 by (simp add: le_diff_eq)
  qed
  then have eq: "(u \<le> l - n) = (\<forall>q y. pools s q = Some y \<longrightarrow> u + n \<le> ?f y)" for u .
  let ?u = "if directory then b_directory b else b_body b"
  let ?ok = "\<not> (n < 0 \<or> ?u > l - n)"
  have "\<exists>s'. hs_io_reserve p directory n s = Some (?ok, s') \<and> (\<not> ?ok \<longrightarrow> s' = s)"
    using b l(1) assms(3) by (cases ?ok) (simp_all add: hs_io_reserve_def Let_def)
  then obtain s' where s': "hs_io_reserve p directory n s = Some (?ok, s')" "\<not> ?ok \<longrightarrow> s' = s" by blast
  have "?ok \<longleftrightarrow> 0 \<le> n \<and> (\<forall>q y. pools s q = Some y \<longrightarrow>
       (if directory then b_directory b + n \<le> p_directory_limit y else b_body b + n \<le> p_body_limit y))"
    using eq [of ?u] by (cases directory) (simp_all add: not_less)
  with b s' show ?thesis by blast
qed

lemma demo_io_pool: "\<exists>W s x. io_exec demo_io_start (init_iow, init_io) = Some (W, s) \<and> pools s 1 = Some x"
  by (simp add: demo_io_start_def io_defs Let_def)

theorem io_reserve_exact_witness:
  "\<exists>W s b ok s'. io_exec demo_io_start (init_iow, init_io) = Some (W, s) \<and> budget s = Some b \<and>
     hs_io_reserve 1 True 34465 s = Some (ok, s') \<and> (\<not> ok \<longrightarrow> s' = s)"
proof -
  obtain W s x where d: "io_exec demo_io_start (init_iow, init_io) = Some (W, s)" "pools s 1 = Some x"
    using demo_io_pool by blast
  from io_reserve_exact [OF demo_io_prefix d, of True 34465] d(1) show ?thesis by blast
qed

subsection \<open>Freeing a pool\<close>

text \<open>A worker that has published its job reaches the top of its loop in two steps of its own.\<close>

lemma notify_retire:
  assumes "io_inv W s" "busy s w = Some ph" "ph = Published p \<or> ph = Told p"
  shows "\<exists>s'. io_exec [Notify w, Retire w] (W, s) = Some (W, s') \<and> io_inv W s' \<and> busy s' = (busy s)(w := None)"
proof -
  obtain s1 where s1: "worker_notify w s = Some s1" "io_inv W s1" using worker_notify_ok [OF assms(1)] by blast
  have b1: "busy s1 = (busy s)(w \<mapsto> Told p)"
    using s1(1) assms(2,3) by (auto simp: worker_notify_def hs_notify_def Option.bind_eq_Some_conv)
  obtain s2 where s2: "worker_retire w s1 = Some s2" "io_inv W s2" using worker_retire_ok [OF s1(2)] by blast
  have "busy s2 = (busy s)(w := None)"
    using s2(1) b1 by (auto simp: worker_retire_def Option.bind_eq_Some_conv)
  with s1 s2 show ?thesis by simp
qed

lemma freeing_facts:
  assumes "io_inv W s" "freeing W = Some p"
  obtains x b js where "pools s p = Some x" "budget s = Some b" "inv_jobs js s" "inv_busy js b s" "inv_counts js b s"
    "inv_queue js b s" "inv_pools b s" "inv_files W s" "\<forall>j y. jobs s j = Some y \<longrightarrow> j_pool y \<noteq> p"
proof -
  have "inv_freeing W s" using assms(1) by (simp add: io_inv_def)
  then obtain x where x: "pools s p = Some x" and nj: "\<forall>j y. jobs s j = Some y \<longrightarrow> j_pool y \<noteq> p"
    using assms(2) by (auto simp: inv_freeing_def)
  obtain b where b: "budget s = Some b" using pool_budget [OF assms(1) x] .
  obtain js where "inv_jobs js s" "inv_busy js b s" "inv_counts js b s" "inv_queue js b s" "inv_pools b s" "inv_files W s"
    using io_invE [OF assms(1) b] .
  with x b nj show thesis using that by blast
qed

lemma free_drains:
  assumes "io_inv W s" "freeing W = Some p" "nat (active_in p s) = n"
  shows "\<exists>ks s'. (\<forall>k\<in>set ks. by_worker k) \<and> io_lawful ks (W, s) \<and> io_exec ks (W, s) = Some (W, s') \<and> pool_quiet p s'"
  using assms
proof (induction n arbitrary: s rule: less_induct)
  case (less n)
  obtain x b js where f: "pools s p = Some x" "budget s = Some b" "inv_jobs js s" "inv_busy js b s" "inv_counts js b s"
    "inv_queue js b s" "inv_pools b s" "inv_files W s" "\<forall>j y. jobs s j = Some y \<longrightarrow> j_pool y \<noteq> p"
    using freeing_facts [OF less.prems(1,2)] .
  have fin: "finite (dom (busy s))" using f(4) by (simp add: inv_busy_def)
  have q0: "p_count x = 0"
    using counts_pool(1) [OF f(5,1)] f(9) by (auto simp: queued_in_def job_pool_def filter_empty_conv)
  have nn: "0 \<le> active_in p s" unfolding active_in_def by (rule heap_sum_nonneg) simp
  show ?case
  proof (cases "active_in p s = 0")
    case True
    then have "pool_quiet p s" using f(1) q0 counts_pool(2) [OF f(5,1)] by (simp add: pool_quiet_def)
    then show ?thesis by (intro exI [of _ "[]"]) simp
  next
    case False
    then have "0 < heap_sum (\<lambda>_ ph. of_bool (phase_pool ph = p) :: int) (busy s)" using nn by (simp add: active_in_def)
    then obtain w ph where w: "busy s w = Some ph" "phase_pool ph = p" using heap_sum_pos_ex by fastforce
    have "ph \<noteq> Running j q" for j q
      using running_facts [OF f(4), of w j q] w f(9) by (metis phase_pool.simps(1))
    then have "ph = Published p \<or> ph = Told p" using w(2) by (cases ph) auto
    from notify_retire [OF less.prems(1) w(1) this] obtain s1 where
      s1: "io_exec [Notify w, Retire w] (W, s) = Some (W, s1)" "io_inv W s1" "busy s1 = (busy s)(w := None)" by blast
    have "active_in p s1 = active_in p s - 1" using fin w by (simp add: active_in_def s1(3) heap_sum_free)
    then have "nat (active_in p s1) < n" using less.prems(3) nn False by simp
    from less.IH [OF this s1(2) less.prems(2) refl] obtain ks s' where
      ks: "\<forall>k\<in>set ks. by_worker k" "io_lawful ks (W, s1)" "io_exec ks (W, s1) = Some (W, s')" "pool_quiet p s'" by blast
    have "io_lawful ([Notify w, Retire w] @ ks) (W, s)" "io_exec ([Notify w, Retire w] @ ks) (W, s) = Some (W, s')"
      using s1(1) ks(2,3) by (auto simp: io_legal_def split: option.splits)
    then show ?thesis using ks(1,4) by (intro exI [of _ "[Notify w, Retire w] @ ks"]) auto
  qed
qed

text \<open>C24: the wait in \<open>hs_io_pool_free\<close> can always end: from every reachable state in which the owner waits for a pool, the
  workers alone, without any call of the owner, can reach a state in which the pool is quiet, and
  the pool can then be freed.\<close>
theorem io_pool_free_ends:
  assumes "io_lawful ks (init_iow, init_io)" "io_exec ks (init_iow, init_io) = Some (W, s)" "freeing W = Some p"
  shows "\<exists>ws s1 s2. (\<forall>k\<in>set ws. by_worker k) \<and> io_lawful ws (W, s) \<and> io_exec ws (W, s) = Some (W, s1) \<and>
    pool_quiet p s1 \<and> pool_free_end p s1 = Some s2 \<and> pools s2 = (pools s1)(p := None)"
proof -
  have inv: "io_inv W s" by (rule exec_inv [OF assms(1,2)])
  obtain ws s1 where ws: "\<forall>k\<in>set ws. by_worker k" "io_lawful ws (W, s)" "io_exec ws (W, s) = Some (W, s1)" "pool_quiet p s1"
    using free_drains [OF inv assms(3) refl] by blast
  have "io_inv W s1" using io_exec_ok [OF inv ws(2)] ws(3) by auto
  from pool_free_end_ok [OF this assms(3) ws(4)] ws show ?thesis by blast
qed

lemma demo_io_freeing:
  "\<exists>W s. io_exec (demo_io_start @ demo_io_end) (init_iow, init_io) = Some (W, s) \<and> freeing W = Some 1 \<and> busy s 0 = Some (Published 1)"
  by (simp add: demo_io_start_def demo_io_end_def io_defs Let_def)

theorem io_pool_free_ends_witness:
  "\<exists>W s ws s1 s2. io_exec (demo_io_start @ demo_io_end) (init_iow, init_io) = Some (W, s) \<and> busy s 0 = Some (Published 1) \<and>
     io_exec ws (W, s) = Some (W, s1) \<and> pool_free_end 1 s1 = Some s2"
proof -
  obtain W s where d: "io_exec (demo_io_start @ demo_io_end) (init_iow, init_io) = Some (W, s)" "freeing W = Some 1" "busy s 0 = Some (Published 1)"
    using demo_io_freeing by blast
  from io_pool_free_ends [OF demo_io_lawful d(1,2)] d show ?thesis by blast
qed

text \<open>Freeing a pool leaves nothing behind. When the wait ends, no job, no busy worker and no list entry refers to
  the pool any more; with the last pool the budget is freed too, and then no job and no busy worker is left.\<close>
theorem io_pool_free_clean:
  assumes "io_lawful ks (init_iow, init_io)" "io_exec ks (init_iow, init_io) = Some (W, s)" "freeing W = Some p" "pool_quiet p s"
  shows "\<exists>s'. pool_free_end p s = Some s' \<and> pools s' p = None \<and> (\<forall>j y. jobs s' j = Some y \<longrightarrow> j_pool y \<noteq> p) \<and>
    (\<forall>w ph. busy s' w = Some ph \<longrightarrow> phase_pool ph \<noteq> p) \<and> (\<forall>b. budget s' = Some b \<longrightarrow> p \<notin> set (b_pools b)) \<and>
    (budget s' = None \<longrightarrow> pools s' = Map.empty \<and> jobs s' = Map.empty \<and> busy s' = Map.empty)"
proof -
  have inv: "io_inv W s" by (rule exec_inv [OF assms(1,2)])
  obtain s' e where s': "pool_free_end p s = Some s'" "io_inv (forget p e W) s'" "pools s' = (pools s)(p := None)"
    using pool_free_end_ok [OF inv assms(3,4)] by blast
  have dead: "pools s' p = None" using s'(3) by simp
  show ?thesis
  proof (cases "budget s'")
    case None
    with s'(2) have "pools s' = Map.empty" "jobs s' = Map.empty" "busy s' = Map.empty" by (simp_all add: io_inv_def)
    with None s'(1) dead show ?thesis by simp
  next
    case (Some b)
    obtain js where i: "inv_jobs js s'" "inv_busy js b s'" "inv_pools b s'" using io_invE [OF s'(2) Some] .
    have "p \<notin> set (b_pools b)" using i(3) dead unfolding inv_pools_def by auto
    moreover have "\<forall>j y. jobs s' j = Some y \<longrightarrow> j_pool y \<noteq> p" "\<forall>w ph. busy s' w = Some ph \<longrightarrow> phase_pool ph \<noteq> p"
      using job_facts(1) [OF i(1)] busy_facts(2) [OF i(2)] dead by blast+
    ultimately show ?thesis using s'(1) dead Some by simp
  qed
qed

definition demo_io_free :: "io_call list" where
  "demo_io_free = demo_io_start @ demo_io_end @ [Notify 0, Retire 0]"

lemma demo_io_free_facts:
  "io_lawful demo_io_free (init_iow, init_io)"
  "\<exists>W s. io_exec demo_io_free (init_iow, init_io) = Some (W, s) \<and> freeing W = Some 1 \<and> pool_quiet 1 s"
  by (simp_all add: demo_io_free_def demo_io_start_def demo_io_end_def io_defs Let_def)

theorem io_pool_free_clean_witness:
  "\<exists>W s s'. io_exec demo_io_free (init_iow, init_io) = Some (W, s) \<and> pool_free_end 1 s = Some s' \<and> pools s' 1 = None"
proof -
  obtain W s where d: "io_exec demo_io_free (init_iow, init_io) = Some (W, s)" "freeing W = Some 1" "pool_quiet 1 s"
    using demo_io_free_facts(2) by blast
  from io_pool_free_clean [OF demo_io_free_facts(1) d] d(1) show ?thesis by blast
qed

end
