(* ===== verification/Native_Path.thy ===== *)
theory Native_Path
  imports Native_Model "HOL-Library.Sublist" "HOL-Library.Multiset"
begin

text \<open>
  Rooted opens of \<^verbatim>\<open>internal/native/native.c\<close>: \<open>hs_beneath\<close>, \<open>hs_open_components\<close> and \<open>hs_open\<close>, in their
  Linux form. A path is a string without the terminating NUL.

  The file system is not assumed to stand still: what a system call answers is a function of the number
  of system calls made before it (\<open>t\<close>), of the directory descriptor and of the name. Descriptors
  are numbers. \<open>hs_open_components\<close> keeps a log of the successful \<open>openat\<close> calls (directory, name, new
  descriptor) and of the \<open>close\<close> calls; a string or descriptor stack that outgrows its array is
  \<open>None\<close>.
\<close>

definition PATH_MAX :: nat where "PATH_MAX = 4096"

definition ENOENT :: int where "ENOENT = 2"
definition EINTR :: int where "EINTR = 4"
definition EAGAIN :: int where "EAGAIN = 11"
definition EACCES :: int where "EACCES = 13"
definition EPERM :: int where "EPERM = 1"
definition EXDEV :: int where "EXDEV = 18"
definition ENOTDIR :: int where "ENOTDIR = 20"
definition EINVAL :: int where "EINVAL = 22"
definition ENAMETOOLONG :: int where "ENAMETOOLONG = 36"
definition ENOSYS :: int where "ENOSYS = 38"
definition ELOOP :: int where "ELOOP = 40"
definition EOPNOTSUPP :: int where "EOPNOTSUPP = 95"
definition ECANCELED :: int where "ECANCELED = 125"

lemmas errnos = ENOENT_def EINTR_def EAGAIN_def EACCES_def EPERM_def EXDEV_def ENOTDIR_def EINVAL_def ENAMETOOLONG_def
  ENOSYS_def ELOOP_def EOPNOTSUPP_def ECANCELED_def

subsection \<open>The final check of an opened handle\<close>

text \<open>\<^verbatim>\<open>while (n > 1 && r[n-1] == '/') n--;\<close>\<close>

fun trim_len :: "string \<Rightarrow> nat \<Rightarrow> nat" where
  "trim_len r n = (if n > 1 \<and> r ! (n - 1) = CHR ''/'' then trim_len r (n - 1) else n)"

declare trim_len.simps [simp del]

text \<open>\<open>strncmp(a, b, n) == 0\<close> for strings without NUL.\<close>

definition strncmp_eq :: "string \<Rightarrow> string \<Rightarrow> nat \<Rightarrow> bool" where
  "strncmp_eq a b n \<longleftrightarrow> take n a = take n b"

text \<open>The two arguments are what \<open>hs_fd_path\<close> answers for the root and the file.\<close>

definition hs_beneath :: "string option \<Rightarrow> string option \<Rightarrow> bool" where
  "hs_beneath root f = (case (root, f) of
     (Some r, Some p) \<Rightarrow>
       (let n = trim_len r (length r)
        in strncmp_eq r p n \<and> (n = 1 \<or> n = length p \<or> (n < length p \<and> p ! n = CHR ''/'')))
   | _ \<Rightarrow> False)"

subsection \<open>Component-wise resolution\<close>

datatype entry_kind = Symlink | Other

record sysfs =
  fs_stat :: "nat \<Rightarrow> nat \<Rightarrow> string \<Rightarrow> int + entry_kind"
  fs_readlink :: "nat \<Rightarrow> nat \<Rightarrow> string \<Rightarrow> int + string"
  fs_openat :: "nat \<Rightarrow> nat \<Rightarrow> string \<Rightarrow> bool \<Rightarrow> int + nat"
  fs_path :: "nat \<Rightarrow> nat \<Rightarrow> string option"

record walk =
  wk_todo :: string
  wk_dirs :: "nat list"
  wk_links :: nat
  wk_t :: nat
  wk_opens :: "(nat \<times> string \<times> nat) list"
  wk_closes :: "nat list"

text \<open>The component in front, and the rest behind its slashes.\<close>

definition head_comp :: "string \<Rightarrow> string" where
  "head_comp s = takeWhile (\<lambda>c. c \<noteq> CHR ''/'') s"

definition rest_comp :: "string \<Rightarrow> string" where
  "rest_comp s = dropWhile (\<lambda>c. c = CHR ''/'') (dropWhile (\<lambda>c. c \<noteq> CHR ''/'') s)"

text \<open>\<^verbatim>\<open>while(depth>0)close(dirs[depth--]);\<close>: \<open>dirs\<close> has the deepest directory first and the root last.\<close>

definition close_to_root :: "walk \<Rightarrow> walk" where
  "close_to_root k = k\<lparr>wk_dirs := [last (wk_dirs k)], wk_closes := wk_closes k @ butlast (wk_dirs k)\<rparr>"

text \<open>
  An absolute link is accepted when it is the root's path or below it; the target is what follows.
  \<open>target=link+base;while(*target=='/')target++;\<close>
\<close>

definition absolute_target :: "string \<Rightarrow> string \<Rightarrow> string option" where
  "absolute_target link root_path =
     (let base = trim_len root_path (length root_path)
      in if \<not> strncmp_eq link root_path base \<or> (base > 1 \<and> base < length link \<and> link ! base \<noteq> CHR ''/'') then None
         else Some (dropWhile (\<lambda>c. c = CHR ''/'') (drop base link)))"

definition next_todo :: "string \<Rightarrow> string \<Rightarrow> string" where
  "next_todo target rest = target @ (if rest = [] then [] else ''/'') @ rest"

datatype walk_end = Fail int walk | Opened nat walk

fun walk_of :: "walk_end \<Rightarrow> walk" where
  "walk_of (Fail e k) = k"
| "walk_of (Opened f k) = k"

text \<open>One round of the loop: it ends, or goes on with a new state.\<close>

definition walk_link :: "sysfs \<Rightarrow> nat \<Rightarrow> string \<Rightarrow> string \<Rightarrow> walk \<Rightarrow> walk_end + walk" where
  "walk_link fs root nm rest k =
     (if wk_links k + 1 > 40 then Inl (Fail ELOOP k)
      else let k = k\<lparr>wk_links := wk_links k + 1, wk_t := wk_t k + 1\<rparr>
      in case fs_readlink fs (wk_t k) (hd (wk_dirs k)) nm of
        Inl e \<Rightarrow> Inl (Fail e k)
      | Inr full \<Rightarrow>
          let link = take (PATH_MAX - 1) full
          in if length link = PATH_MAX - 1 then Inl (Fail ENAMETOOLONG k)
             else if link \<noteq> [] \<and> hd link = CHR ''/'' then
               (case fs_path fs (wk_t k + 1) root of
                  None \<Rightarrow> Inl (Fail EPERM k)
                | Some rp \<Rightarrow>
                    (case absolute_target link rp of
                       None \<Rightarrow> Inl (Fail EPERM k)
                     | Some target \<Rightarrow>
                         let k = close_to_root (k\<lparr>wk_t := wk_t k + 1\<rparr>)
                         in if length (next_todo target rest) \<ge> PATH_MAX then Inl (Fail ENAMETOOLONG k)
                            else Inr (k\<lparr>wk_todo := next_todo target rest\<rparr>)))
             else if length (next_todo link rest) \<ge> PATH_MAX then Inl (Fail ENAMETOOLONG k)
             else Inr (k\<lparr>wk_todo := next_todo link rest\<rparr>))"

definition walk_open :: "sysfs \<Rightarrow> string \<Rightarrow> string \<Rightarrow> walk \<Rightarrow> walk_end + walk" where
  "walk_open fs nm rest k =
     (let k = k\<lparr>wk_t := wk_t k + 1\<rparr>
      in case fs_openat fs (wk_t k) (hd (wk_dirs k)) nm (rest \<noteq> []) of
        Inl e \<Rightarrow> Inl (Fail e k)
      | Inr fd \<Rightarrow>
          let k = k\<lparr>wk_opens := wk_opens k @ [(hd (wk_dirs k), nm, fd)]\<rparr>
          in if rest = [] then Inl (Opened fd k)
             else if length (wk_dirs k) = 256 then Inl (Fail ELOOP (k\<lparr>wk_closes := wk_closes k @ [fd]\<rparr>))
             else Inr (k\<lparr>wk_dirs := fd # wk_dirs k, wk_todo := rest\<rparr>))"

definition walk_step :: "sysfs \<Rightarrow> nat \<Rightarrow> walk \<Rightarrow> walk_end + walk" where
  "walk_step fs root k =
     (let nm = head_comp (wk_todo k); rest = rest_comp (wk_todo k)
      in if nm = ''.'' then Inr (k\<lparr>wk_todo := rest\<rparr>)
         else if nm = ''..'' then
           (if length (wk_dirs k) = 1 then Inl (Fail EPERM k)
            else Inr (k\<lparr>wk_dirs := tl (wk_dirs k), wk_closes := wk_closes k @ [hd (wk_dirs k)], wk_todo := rest\<rparr>))
         else let k = k\<lparr>wk_t := wk_t k + 1\<rparr>
         in case fs_stat fs (wk_t k) (hd (wk_dirs k)) nm of
           Inl e \<Rightarrow> Inl (Fail e k)
         | Inr Symlink \<Rightarrow> walk_link fs root nm rest k
         | Inr Other \<Rightarrow> walk_open fs nm rest k)"

text \<open>\<^verbatim>\<open>result=openat(dirs[depth],".",...)\<close> when nothing is left.\<close>

definition walk_last :: "sysfs \<Rightarrow> walk \<Rightarrow> walk_end" where
  "walk_last fs k =
     (let k = k\<lparr>wk_t := wk_t k + 1\<rparr>
      in case fs_openat fs (wk_t k) (hd (wk_dirs k)) ''.'' True of
        Inl e \<Rightarrow> Fail e k
      | Inr fd \<Rightarrow> Opened fd (k\<lparr>wk_opens := wk_opens k @ [(hd (wk_dirs k), ''.'', fd)]\<rparr>))"

text \<open>Each round consumes input or one of the 40 links.\<close>

lemma rest_comp_shorter: "s \<noteq> [] \<Longrightarrow> length (rest_comp s) < length s"
proof -
  assume s: "s \<noteq> []"
  let ?d = "dropWhile (\<lambda>c. c \<noteq> CHR ''/'') s"
  show ?thesis
  proof (cases ?d)
    case Nil
    have "rest_comp s = []" unfolding rest_comp_def Nil by simp
    then show ?thesis using s by simp
  next
    case (Cons c cs)
    then have "c = CHR ''/''" by (metis (mono_tags, lifting) dropWhile_eq_Cons_conv)
    then have "length (rest_comp s) \<le> length cs" using Cons by (simp add: rest_comp_def length_dropWhile_le)
    also have "\<dots> < length ?d" using Cons by simp
    also have "\<dots> \<le> length s" by (rule length_dropWhile_le)
    finally show ?thesis .
  qed
qed

lemma walk_link_links: "walk_link fs root nm rest k = Inr k' \<Longrightarrow> wk_links k' = wk_links k + 1 \<and> wk_links k' \<le> 40"
  by (auto simp: walk_link_def close_to_root_def Let_def split: if_splits sum.splits option.splits)

lemma walk_open_todo: "walk_open fs nm rest k = Inr k' \<Longrightarrow> wk_links k' = wk_links k \<and> wk_todo k' = rest"
  by (auto simp: walk_open_def Let_def split: if_splits sum.splits)

lemma walk_step_progress:
  assumes "walk_step fs root k = Inr k'" "wk_todo k \<noteq> []"
  shows "wk_links k' = wk_links k + 1 \<and> wk_links k' \<le> 40 \<or> wk_links k' = wk_links k \<and> length (wk_todo k') < length (wk_todo k)"
  using assms rest_comp_shorter [OF assms(2)]
  by (auto simp: walk_step_def Let_def dest!: walk_link_links walk_open_todo split: if_splits sum.splits entry_kind.splits)

function walk_loop :: "sysfs \<Rightarrow> nat \<Rightarrow> walk \<Rightarrow> walk_end option" where
  "walk_loop fs root k =
     (if length (wk_todo k) \<ge> PATH_MAX \<or> length (wk_dirs k) > 256 \<or> wk_dirs k = [] then None
      else if wk_todo k = [] then Some (walk_last fs k)
      else case walk_step fs root k of Inl r \<Rightarrow> Some r | Inr k' \<Rightarrow> walk_loop fs root k')"
  by pat_completeness auto

termination
proof (relation "measures [\<lambda>(fs, root, k). 41 - wk_links k, \<lambda>(fs, root, k). length (wk_todo k)]", goal_cases)
  case 1
  show ?case by simp
next
  case (2 fs root k k')
  then show ?case using walk_step_progress [of fs root k k'] by auto
qed

declare walk_loop.simps [simp del]

text \<open>The result of the whole function: the descriptor or an error, and the state with all directories closed.\<close>

definition hs_open_components :: "sysfs \<Rightarrow> nat \<Rightarrow> string \<Rightarrow> nat \<Rightarrow> ((int + nat) \<times> walk) option" where
  "hs_open_components fs root relative t =
     (let k = \<lparr>wk_todo = (if relative = [] then ''.'' else relative), wk_dirs = [root], wk_links = 0, wk_t = t, wk_opens = [], wk_closes = []\<rparr>
      in if length relative \<ge> PATH_MAX then Some (Inl ENAMETOOLONG, k)
         else do {
           r \<leftarrow> walk_loop fs root k;
           Some (case r of Fail e k \<Rightarrow> (Inl e, close_to_root k) | Opened f k \<Rightarrow> (Inr f, close_to_root k))
         })"

end
