(* ===== verification/Native_Confine.thy ===== *)
theory Native_Confine
  imports Native_Path
begin

text \<open>
  What rooted opens promise: confinement to the root, no leaked descriptor, termination, and that
  \<open>hs_beneath\<close> is the prefix order on path components.
\<close>

subsection \<open>Confinement of the component walk\<close>

text \<open>A name that cannot leave its directory when it is opened without following links.\<close>

definition plain :: "string \<Rightarrow> bool" where
  "plain n \<longleftrightarrow> n \<noteq> ''..'' \<and> CHR ''/'' \<notin> set n"

text \<open>Descriptors that were reached from the root by opening plain names only.\<close>

inductive inside :: "(nat \<times> string \<times> nat) list \<Rightarrow> nat \<Rightarrow> nat \<Rightarrow> bool" for L root where
  inside_root: "inside L root root"
| inside_open: "inside L root d \<Longrightarrow> (d, n, f) \<in> set L \<Longrightarrow> plain n \<Longrightarrow> inside L root f"

lemma inside_mono: "inside L root d \<Longrightarrow> set L \<subseteq> set L' \<Longrightarrow> inside L' root d"
  by (induction rule: inside.induct) (auto intro: inside.intros)

lemma inside_app: "inside L root d \<Longrightarrow> inside (L @ M) root d"
  by (rule inside_mono) auto

lemma head_comp_plain: "head_comp s \<noteq> ''..'' \<Longrightarrow> plain (head_comp s)"
  by (auto simp: plain_def head_comp_def dest: set_takeWhileD)

definition log_fds :: "(nat \<times> string \<times> nat) list \<Rightarrow> nat list" where
  "log_fds L = map (\<lambda>(d, n, f). f) L"

lemma log_fds_simps [simp]: "log_fds [] = []" "log_fds (L @ M) = log_fds L @ log_fds M" "log_fds ((d, n, f) # L) = f # log_fds L"
  by (simp_all add: log_fds_def)

definition log_ok :: "nat \<Rightarrow> (nat \<times> string \<times> nat) list \<Rightarrow> bool" where
  "log_ok root L \<longleftrightarrow> (\<forall>(d, n, f)\<in>set L. inside L root d \<and> plain n)"

lemma log_ok_app:
  assumes "log_ok root L" "inside L root d" "plain n"
  shows "log_ok root (L @ [(d, n, f)])"
  using assms by (auto simp: log_ok_def intro: inside_app)

text \<open>The stack holds the root last and only descriptors inside; what was opened is closed or on the stack.\<close>

definition stack_ok :: "nat \<Rightarrow> walk \<Rightarrow> bool" where
  "stack_ok root k \<longleftrightarrow> wk_dirs k \<noteq> [] \<and> last (wk_dirs k) = root \<and> length (wk_dirs k) \<le> 256 \<and>
     (\<forall>d\<in>set (wk_dirs k). inside (wk_opens k) root d) \<and> log_ok root (wk_opens k)"

definition balanced :: "walk \<Rightarrow> bool" where
  "balanced k \<longleftrightarrow> mset (log_fds (wk_opens k)) = mset (wk_closes k) + mset (butlast (wk_dirs k))"

definition walk_inv :: "nat \<Rightarrow> walk \<Rightarrow> bool" where
  "walk_inv root k \<longleftrightarrow> stack_ok root k \<and> balanced k \<and> length (wk_todo k) < PATH_MAX"

fun end_ok :: "nat \<Rightarrow> walk_end \<Rightarrow> bool" where
  "end_ok root (Fail e k) \<longleftrightarrow> stack_ok root k \<and> balanced k"
| "end_ok root (Opened f k) \<longleftrightarrow> stack_ok root k \<and> inside (wk_opens k) root f \<and>
     mset (log_fds (wk_opens k)) = add_mset f (mset (wk_closes k) + mset (butlast (wk_dirs k)))"

fun round_ok :: "nat \<Rightarrow> walk_end + walk \<Rightarrow> bool" where
  "round_ok root (Inl r) = end_ok root r"
| "round_ok root (Inr k) = walk_inv root k"

lemma walk_frame [simp]:
  "stack_ok root (k\<lparr>wk_t := t\<rparr>) = stack_ok root k" "balanced (k\<lparr>wk_t := t\<rparr>) = balanced k"
  "stack_ok root (k\<lparr>wk_links := l\<rparr>) = stack_ok root k" "balanced (k\<lparr>wk_links := l\<rparr>) = balanced k"
  "stack_ok root (k\<lparr>wk_todo := s\<rparr>) = stack_ok root k" "balanced (k\<lparr>wk_todo := s\<rparr>) = balanced k"
  "stack_ok root (k\<lparr>wk_closes := c\<rparr>) = stack_ok root k"
  by (simp_all add: stack_ok_def balanced_def)

lemma hd_inside: "stack_ok root k \<Longrightarrow> inside (wk_opens k) root (hd (wk_dirs k))"
  by (simp add: stack_ok_def)

lemma close_to_root_ok:
  assumes "stack_ok root k" "balanced k"
  shows "stack_ok root (close_to_root k)" "balanced (close_to_root k)"
  using assms by (auto simp: stack_ok_def balanced_def close_to_root_def)

lemma walk_link_ok:
  assumes "stack_ok root k" "balanced k"
  shows "round_ok root (walk_link fs root nm rest k)"
  using assms close_to_root_ok
  by (auto simp: walk_link_def walk_inv_def Let_def split: sum.splits option.splits)

lemma walk_open_ok:
  assumes "stack_ok root k" "balanced k" "plain nm" "length rest < PATH_MAX"
  shows "round_ok root (walk_open fs nm rest k)"
proof (cases "fs_openat fs (Suc (wk_t k)) (hd (wk_dirs k)) nm (rest \<noteq> [])")
  case (Inl e)
  then show ?thesis using assms by (simp add: walk_open_def)
next
  case (Inr fd)
  let ?L = "wk_opens k @ [(hd (wk_dirs k), nm, fd)]"
  have log: "log_ok root ?L" using assms hd_inside [OF assms(1)] by (simp add: log_ok_app stack_ok_def)
  have fd: "inside ?L root fd"
    by (rule inside_open [OF inside_app [OF hd_inside [OF assms(1)]] _ assms(3)]) simp
  have st: "stack_ok root (k\<lparr>wk_t := Suc (wk_t k), wk_opens := ?L\<rparr>)"
    using assms(1) log by (auto simp: stack_ok_def intro: inside_app)
  have bal: "mset (log_fds ?L) = add_mset fd (mset (wk_closes k) + mset (butlast (wk_dirs k)))"
    using assms(2) by (simp add: balanced_def)
  show ?thesis
  proof (cases "rest = []")
    case True
    then show ?thesis using Inr fd st bal by (simp add: walk_open_def)
  next
    case False
    then show ?thesis
      using Inr fd st bal assms(1,4) by (auto simp: walk_open_def Let_def walk_inv_def stack_ok_def balanced_def)
  qed
qed

lemma walk_step_ok:
  assumes "walk_inv root k" "wk_todo k \<noteq> []"
  shows "round_ok root (walk_step fs root k)"
proof -
  have st: "stack_ok root k" "balanced k" using assms(1) by (simp_all add: walk_inv_def)
  have len: "length (rest_comp (wk_todo k)) < PATH_MAX"
    using assms(1) rest_comp_shorter [OF assms(2)] by (simp add: walk_inv_def)
  let ?nm = "head_comp (wk_todo k)" and ?rest = "rest_comp (wk_todo k)" and ?k = "k\<lparr>wk_t := wk_t k + 1\<rparr>"
  consider (dot) "?nm = ''.''" | (up) "?nm = ''..''" | (name) "?nm \<noteq> ''.''" "?nm \<noteq> ''..''" by blast
  then show ?thesis
  proof cases
    case dot
    then show ?thesis using st len by (simp add: walk_step_def Let_def walk_inv_def)
  next
    case up
    show ?thesis
    proof (cases "length (wk_dirs k) = 1")
      case True
      then show ?thesis using up st by (simp add: walk_step_def)
    next
      case False
      then obtain d e ds where ds: "wk_dirs k = d # e # ds"
        using st(1) by (cases "wk_dirs k"; cases "tl (wk_dirs k)") (auto simp: stack_ok_def)
      then show ?thesis
        using up st len by (auto simp: walk_step_def Let_def walk_inv_def stack_ok_def balanced_def)
    qed
  next
    case name
    have "round_ok root (walk_link fs root ?nm ?rest ?k)" by (rule walk_link_ok) (use st in simp_all)
    moreover have "round_ok root (walk_open fs ?nm ?rest ?k)"
      by (rule walk_open_ok) (use st len head_comp_plain name(2) in simp_all)
    ultimately show ?thesis using name st by (simp add: walk_step_def Let_def split: sum.splits entry_kind.splits)
  qed
qed

lemma walk_last_ok:
  assumes "stack_ok root k" "balanced k"
  shows "end_ok root (walk_last fs k)"
proof (cases "fs_openat fs (Suc (wk_t k)) (hd (wk_dirs k)) ''.'' True")
  case (Inl e)
  then show ?thesis using assms by (simp add: walk_last_def)
next
  case (Inr fd)
  let ?L = "wk_opens k @ [(hd (wk_dirs k), ''.'', fd)]"
  have dot: "plain ''.''" by (simp add: plain_def)
  have "log_ok root ?L" using assms hd_inside [OF assms(1)] dot by (simp add: log_ok_app stack_ok_def)
  moreover have "inside ?L root fd"
    by (rule inside_open [OF inside_app [OF hd_inside [OF assms(1)]] _ dot]) simp
  ultimately show ?thesis
    using Inr assms by (auto simp: walk_last_def stack_ok_def balanced_def intro: inside_app)
qed

lemma walk_loop_ok:
  "walk_inv root k \<Longrightarrow> \<exists>r. walk_loop fs root k = Some r \<and> end_ok root r"
proof (induction fs root k rule: walk_loop.induct)
  case (1 fs root k)
  have st: "stack_ok root k" "balanced k" "length (wk_todo k) < PATH_MAX" using "1.prems" by (simp_all add: walk_inv_def)
  then have go: "\<not> (length (wk_todo k) \<ge> PATH_MAX \<or> length (wk_dirs k) > 256 \<or> wk_dirs k = [])" by (simp add: stack_ok_def)
  show ?case
  proof (cases "wk_todo k = []")
    case True
    then show ?thesis using go walk_last_ok [OF st(1,2)] by (simp add: walk_loop.simps)
  next
    case False
    from walk_step_ok [OF "1.prems" False, of fs] "1.IH" [OF go False] go False show ?thesis
      by (cases "walk_step fs root k") (simp_all add: walk_loop.simps [of fs root k])
  qed
qed

lemma open_components_ok:
  "\<exists>res k. hs_open_components fs root relative t = Some (res, k) \<and>
    (\<forall>(d, n, f)\<in>set (wk_opens k). inside (wk_opens k) root d \<and> n \<noteq> ''..'' \<and> CHR ''/'' \<notin> set n) \<and>
    (case res of
       Inl e \<Rightarrow> mset (log_fds (wk_opens k)) = mset (wk_closes k)
     | Inr f \<Rightarrow> inside (wk_opens k) root f \<and> mset (log_fds (wk_opens k)) = add_mset f (mset (wk_closes k)))"
proof -
  let ?k = "\<lparr>wk_todo = (if relative = [] then ''.'' else relative), wk_dirs = [root], wk_links = 0, wk_t = t, wk_opens = [], wk_closes = []\<rparr>"
  show ?thesis
  proof (cases "length relative \<ge> PATH_MAX")
    case True
    then show ?thesis by (simp add: hs_open_components_def)
  next
    case False
    then have "walk_inv root ?k" by (auto simp: walk_inv_def stack_ok_def balanced_def log_ok_def PATH_MAX_def intro: inside_root)
    then obtain r where r: "walk_loop fs root ?k = Some r" "end_ok root r" using walk_loop_ok by blast
    then show ?thesis
      using False by (cases r) (auto simp: hs_open_components_def close_to_root_def balanced_def stack_ok_def log_ok_def plain_def)
  qed
qed



subsection \<open>The final check is the prefix order on components\<close>

definition joined :: "string list \<Rightarrow> string" where
  "joined cs = concat (map (\<lambda>c. CHR ''/'' # c) cs)"

definition abs_path :: "string list \<Rightarrow> string" where
  "abs_path cs = (if cs = [] then ''/'' else joined cs)"

definition clean :: "string list \<Rightarrow> bool" where
  "clean cs \<longleftrightarrow> (\<forall>c\<in>set cs. c \<noteq> [] \<and> CHR ''/'' \<notin> set c)"

lemma joined_simps [simp]: "joined [] = []" "joined (c # cs) = CHR ''/'' # c @ joined cs" "joined (cs @ ds) = joined cs @ joined ds"
  by (simp_all add: joined_def)

lemma clean_simps [simp]: "clean []" "clean (c # cs) \<longleftrightarrow> c \<noteq> [] \<and> CHR ''/'' \<notin> set c \<and> clean cs"
  by (auto simp: clean_def)

definition at_sep :: "string \<Rightarrow> bool" where
  "at_sep s \<longleftrightarrow> s = [] \<or> hd s = CHR ''/''"

lemma at_sep_joined: "at_sep (joined cs)"
  by (cases cs) (simp_all add: at_sep_def)

lemma front_unique:
  assumes "CHR ''/'' \<notin> set a" "CHR ''/'' \<notin> set b" "at_sep u" "at_sep v" "a @ u = b @ v"
  shows "a = b \<and> u = v"
proof -
  have "takeWhile (\<lambda>c. c \<noteq> CHR ''/'') (x @ w) = x" if "CHR ''/'' \<notin> set x" "at_sep w" for x w
  proof -
    have "takeWhile (\<lambda>c. c \<noteq> CHR ''/'') (x @ w) = x @ takeWhile (\<lambda>c. c \<noteq> CHR ''/'') w"
      using that(1) by (intro takeWhile_append2) auto
    then show ?thesis using that(2) by (cases w) (auto simp: at_sep_def)
  qed
  then have "a = b" using assms by metis
  with assms(5) show ?thesis by simp
qed

lemma joined_prefix:
  assumes "clean rs" "clean ps" "joined ps = joined rs @ v" "at_sep v"
  shows "prefix rs ps"
  using assms
proof (induction rs arbitrary: ps)
  case Nil
  then show ?case by simp
next
  case (Cons r rs)
  then obtain q qs where ps: "ps = q # qs" by (cases ps) auto
  have sep: "at_sep (joined rs @ v)" using Cons.prems(4) at_sep_joined [of rs] by (cases "joined rs") (auto simp: at_sep_def)
  have "q @ joined qs = r @ (joined rs @ v)" using Cons.prems(3) ps by simp
  with front_unique [OF _ _ at_sep_joined [of qs] sep, of q r] Cons.prems(1,2) ps have "q = r" "joined qs = joined rs @ v" by auto
  with Cons ps show ?case by simp
qed

lemma trim_joined:
  assumes "clean rs" "rs \<noteq> []"
  shows "trim_len (joined rs) (length (joined rs)) = length (joined rs)" "length (joined rs) > 1"
proof -
  have last: "joined rs \<noteq> [] \<and> last (joined rs) \<noteq> CHR ''/''" using assms
  proof (induction rs)
    case (Cons r rs)
    then show ?case by (cases "rs = []") (auto dest: last_in_set)
  qed simp
  then show "trim_len (joined rs) (length (joined rs)) = length (joined rs)"
    by (subst trim_len.simps) (auto simp: last_conv_nth)
  show "length (joined rs) > 1" using assms by (cases rs) auto
qed

lemma split_at_sep:
  "take (length r) p = r \<and> (length r = length p \<or> length r < length p \<and> p ! length r = CHR ''/'') \<longleftrightarrow>
   (\<exists>v. p = r @ v \<and> at_sep v)"
proof
  assume a: "take (length r) p = r \<and> (length r = length p \<or> length r < length p \<and> p ! length r = CHR ''/'')"
  define v where "v = drop (length r) p"
  have "p = r @ v" using a append_take_drop_id [of "length r" p] unfolding v_def by metis
  moreover have "at_sep v" using a unfolding v_def at_sep_def by (metis drop_all hd_drop_conv_nth order_refl)
  ultimately show "\<exists>v. p = r @ v \<and> at_sep v" by blast
next
  assume "\<exists>v. p = r @ v \<and> at_sep v"
  then obtain v where v: "p = r @ v" "at_sep v" by blast
  then show "take (length r) p = r \<and> (length r = length p \<or> length r < length p \<and> p ! length r = CHR ''/'')"
    by (cases v) (simp_all add: at_sep_def)
qed

text \<open>C19: on the absolute paths the kernel reports (components without separators joined by single ones) \<open>hs_beneath\<close>
  holds exactly when the components of the root are a prefix of the components of the file: a sibling
  whose name merely starts like the root is outside.\<close>
theorem beneath_iff_prefix:
  assumes "clean rs" "clean ps"
  shows "hs_beneath (Some (abs_path rs)) (Some (abs_path ps)) \<longleftrightarrow> prefix rs ps"
proof (cases "rs = []")
  case True
  have "take (Suc 0) (abs_path ps) = ''/''" by (cases ps) (simp_all add: abs_path_def)
  then show ?thesis using True by (simp add: hs_beneath_def abs_path_def trim_len.simps strncmp_eq_def)
next
  case False
  let ?r = "joined rs" and ?n = "length (joined rs)"
  have n: "trim_len ?r ?n = ?n" "?n > 1" using trim_joined [OF assms(1) False] .
  show ?thesis
  proof (cases "ps = []")
    case True
    have "length (take ?n ''/'') \<noteq> ?n" using n(2) by simp
    then have "?r \<noteq> take ?n ''/''" by metis
    then show ?thesis using True False n by (auto simp: hs_beneath_def abs_path_def strncmp_eq_def Let_def)
  next
    case ps: False
    let ?p = "joined ps"
    have "hs_beneath (Some (abs_path rs)) (Some (abs_path ps)) \<longleftrightarrow>
        take ?n ?p = ?r \<and> (?n = length ?p \<or> ?n < length ?p \<and> ?p ! ?n = CHR ''/'')"
      using False ps n by (auto simp: hs_beneath_def abs_path_def strncmp_eq_def Let_def)
    also have "\<dots> \<longleftrightarrow> (\<exists>v. ?p = ?r @ v \<and> at_sep v)" by (rule split_at_sep)
    also have "\<dots> \<longleftrightarrow> prefix rs ps"
      using joined_prefix [OF assms] at_sep_joined by (auto simp: prefix_def)
    finally show ?thesis .
  qed
qed

theorem beneath_iff_prefix_witness:
  "(hs_beneath (Some (abs_path [''srv''])) (Some (abs_path [''srv'', ''a''])) \<longleftrightarrow> True) \<and>
   (hs_beneath (Some (abs_path [''srv''])) (Some (abs_path [''srv2''])) \<longleftrightarrow> False)"
  using beneath_iff_prefix [of "[''srv'']" "[''srv'', ''a'']"] beneath_iff_prefix [of "[''srv'']" "[''srv2'']"] by simp

text \<open>
  An absolute link to the root itself followed by further components is not resolved: the next round sees an
  empty component, which no directory has.
\<close>

lemma root_link_unresolved:
  assumes "\<And>t d. fs_stat fs t d '''' = Inl ENOENT" "fs_stat fs 1 3 ''l'' = Inr Symlink" "fs_readlink fs 2 3 ''l'' = Inr ''/srv''"
    "fs_path fs 3 3 = Some ''/srv''"
  shows "\<exists>k. hs_open_components fs 3 ''l/file'' 0 = Some (Inl ENOENT, k)"
  using assms
  by (simp add: hs_open_components_def walk_loop.simps walk_step_def walk_link_def head_comp_def rest_comp_def PATH_MAX_def
      absolute_target_def strncmp_eq_def trim_len.simps close_to_root_def next_todo_def Let_def numeral_2_eq_2 numeral_3_eq_3)

end
