(* ===== verification/Native_File.thy ===== *)
theory Native_File
  imports Native_Confine
begin

text \<open>
  The file operations a worker runs outside the locks, in their Linux form: \<open>hs_stat\<close>, \<open>hs_open\<close>,
  \<open>hs_read\<close>, \<open>hs_add_name\<close>, \<open>hs_list\<close>, \<open>hs_send\<close> and the dispatch of \<open>hs_worker\<close>. What the kernel and
  \<open>malloc\<close> answer is an argument. A loop that waits for the kernel consumes a list of its answers, one per
  round; running out of answers is the value \<open>Waiting\<close>. A write outside an array is \<open>None\<close>.
\<close>

subsection \<open>Metadata\<close>

datatype st_mode = S_IFDIR | S_IFREG | S_IFOTHER

record stat_buf =
  st_size :: int
  st_sec :: int
  st_nsec :: int
  st_mode :: st_mode

text \<open>\<open>st\<close> is the answer of \<open>fstat\<close>. With \<open>save\<close> the answer is stored, without it is compared.\<close>

definition hs_stat :: "stat_buf option \<Rightarrow> bool \<Rightarrow> hs_file \<Rightarrow> int \<times> hs_file" where
  "hs_stat st save f = (case st of
     None \<Rightarrow> (- 4, f)
   | Some s \<Rightarrow>
       if save then
         (0, f\<lparr>f_size := st_size s, f_seconds := st_sec s, f_nanos := st_nsec s,
               f_kind := (case st_mode s of S_IFDIR \<Rightarrow> 2 | S_IFREG \<Rightarrow> 1 | S_IFOTHER \<Rightarrow> 0)\<rparr>)
       else (if st_size s = f_size f \<and> st_sec s = f_seconds f \<and> st_nsec s = f_nanos f then 0 else - 3, f))"

subsection \<open>Opening\<close>

text \<open>
  The system calls of \<open>hs_open\<close>: \<open>openat2\<close> beneath a directory, \<open>open\<close> of a root directory, \<open>fstat\<close>, and
  those of the component walk.
\<close>

record open_sys =
  os_openat2 :: "nat \<Rightarrow> string \<Rightarrow> int + nat"
  os_open :: "string \<Rightarrow> int + nat"
  os_fstat :: "nat \<Rightarrow> stat_buf option"
  os_walk :: sysfs

definition open_errno :: "int \<Rightarrow> int" where
  "open_errno e = (if e = ENOENT \<or> e = ENOTDIR then - 6
     else if e = EACCES \<or> e = EPERM \<or> e = ELOOP \<or> e = EXDEV then - 5 else - 4)"

text \<open>The descriptor, the number of system calls of the walk, and the descriptors opened and closed.\<close>

definition open_fd :: "open_sys \<Rightarrow> nat option \<Rightarrow> string \<Rightarrow> ((int + nat) \<times> nat \<times> nat list \<times> nat list) option" where
  "open_fd os root path = (case root of
     None \<Rightarrow> Some (case os_open os path of Inl e \<Rightarrow> (Inl e, 0, [], []) | Inr fd \<Rightarrow> (Inr fd, 0, [fd], []))
   | Some d \<Rightarrow>
       (case os_openat2 os d (if path = [] then ''.'' else path) of
          Inr fd \<Rightarrow> Some (Inr fd, 0, [fd], [])
        | Inl e \<Rightarrow>
            if e = ENOSYS \<or> e = EINVAL \<or> e = EXDEV then do {
              (r, k) \<leftarrow> hs_open_components (os_walk os) d path 0;
              Some (r, wk_t k, log_fds (wk_opens k), wk_closes k)
            }
            else Some (Inl e, 0, [], [])))"

definition new_file :: "nat \<Rightarrow> hs_file" where
  "new_file fd = \<lparr>f_fd = fd, f_kind = 0, f_size = 0, f_seconds = 0, f_nanos = 0, f_generation = 0\<rparr>"

text \<open>Code, \<open>j->result\<close>, and the descriptors opened and closed. \<open>mem\<close> says whether \<open>calloc\<close> succeeds.\<close>

definition hs_open :: "open_sys \<Rightarrow> bool \<Rightarrow> nat option \<Rightarrow> string \<Rightarrow> (int \<times> hs_file option \<times> nat list \<times> nat list) option" where
  "hs_open os mem root path =
     (if \<not> mem then Some (- 7, None, [], [])
      else do {
        (r, t, opened, closed) \<leftarrow> open_fd os root path;
        Some (case r of
          Inl e \<Rightarrow> (open_errno e, None, opened, closed)
        | Inr fd \<Rightarrow>
            (if root \<noteq> None \<and> \<not> hs_beneath (fs_path (os_walk os) (t + 1) (the root)) (fs_path (os_walk os) (t + 2) fd)
             then (- 5, None, opened, closed @ [fd])
             else let (code, f) = hs_stat (os_fstat os fd) True (new_file fd)
                  in if code \<noteq> 0 \<or> f_kind f = 0 \<or> (root = None \<and> f_kind f \<noteq> 2)
                     then (if code \<noteq> 0 then code else - 5, None, opened, closed @ [fd])
                     else (0, Some f, opened, closed)))
      })"

subsection \<open>Reading\<close>

text \<open>
  A round of the read loop: the value of \<open>j->cancelled\<close>, and what \<open>pread\<close> or the ring answers for a request
  (bytes wanted, position): an \<open>errno\<close> or the bytes placed in the buffer.
\<close>

type_synonym read_round = "bool \<times> (int \<Rightarrow> int \<Rightarrow> int + bytes)"

datatype 'a progress = Waiting | Ended 'a

text \<open>The kernel writes \<open>bs\<close> at \<open>j->data + n\<close>.\<close>

definition put_at :: "nat \<Rightarrow> bytes \<Rightarrow> bytes \<Rightarrow> bytes option" where
  "put_at n bs buf = (if n + length bs \<le> length buf then Some (take n buf @ bs @ drop (n + length bs) buf) else None)"

text \<open>What an \<open>errno\<close> means: \<open>None\<close> is another round. The ring has a code of its own for a cancelled request.\<close>

definition read_errno :: "bool \<Rightarrow> int \<Rightarrow> int option" where
  "read_errno uring e = (if e = EINTR then None else if uring \<and> e = ECANCELED then Some (- 9) else Some (- 4))"

fun read_loop :: "bool \<Rightarrow> read_round list \<Rightarrow> int \<Rightarrow> int \<Rightarrow> nat \<Rightarrow> bytes \<Rightarrow> (int \<times> nat \<times> bytes) progress option" where
  "read_loop uring rounds offset len n buf =
     (if int n \<ge> len then Some (Ended (0, n, buf))
      else case rounds of
        [] \<Rightarrow> Some Waiting
      | (cancelled, pread) # rounds \<Rightarrow>
          if cancelled then Some (Ended (- 9, n, buf))
          else (case pread (len - int n) (offset + int n) of
            Inl e \<Rightarrow> (case read_errno uring e of None \<Rightarrow> read_loop uring rounds offset len n buf
                       | Some code \<Rightarrow> Some (Ended (code, n, buf)))
          | Inr bs \<Rightarrow>
              if bs = [] then Some (Ended (- 3, n, buf))
              else do { buf \<leftarrow> put_at n bs buf; read_loop uring rounds offset len (n + length bs) buf }))"

declare read_loop.simps [simp del]

text \<open>\<open>offset < 0 || length < 0 || offset > size || length > size - offset\<close>\<close>

definition bad_range :: "hs_file \<Rightarrow> int \<Rightarrow> int \<Rightarrow> bool" where
  "bad_range f offset len \<longleftrightarrow> offset < 0 \<or> len < 0 \<or> offset > f_size f \<or> len > f_size f - offset"

text \<open>
  Code, \<open>j->value\<close> and \<open>j->data\<close>. \<open>mem\<close> is the block \<open>malloc\<close> returns (of any content) for a size.
\<close>

definition hs_read :: "stat_buf option \<Rightarrow> stat_buf option \<Rightarrow> (nat \<Rightarrow> bytes option) \<Rightarrow> bool \<Rightarrow> read_round list \<Rightarrow> hs_file \<Rightarrow> int \<Rightarrow> int
    \<Rightarrow> (int \<times> int \<times> bytes option) progress option" where
  "hs_read st1 st2 mem uring rounds f offset len =
     (let code = fst (hs_stat st1 False f)
      in if code \<noteq> 0 then Some (Ended (code, 0, None))
         else if bad_range f offset len then Some (Ended (- 3, 0, None))
         else case mem (nat len + 1) of
           None \<Rightarrow> Some (Ended (- 7, 0, None))
         | Some buf \<Rightarrow> do {
             r \<leftarrow> read_loop uring rounds offset len 0 buf;
             Some (case r of
               Waiting \<Rightarrow> Waiting
             | Ended (code, n, buf) \<Rightarrow>
                 if code \<noteq> 0 then Ended (code, 0, Some buf)
                 else Ended (fst (hs_stat st2 False f), int n, Some buf))
           })"

subsection \<open>Directory listing\<close>

record listing =
  l_names :: "string list"
  l_capacity :: int
  l_charge :: int
  l_used :: int

text \<open>A directory entry with the answers to the calls made for it: \<open>hs_io_reserve\<close>, \<open>realloc\<close>, \<open>malloc\<close>.\<close>

record dir_entry =
  d_name :: string
  d_grant :: bool
  d_realloc :: bool
  d_malloc :: bool

definition name_charge :: "string \<Rightarrow> int" where
  "name_charge s = (int (length s) + 1) * 32 + 2048"

definition name_used :: "string \<Rightarrow> int" where
  "name_used s = int (length s) + 1 + 64"

text \<open>
  \<open>limit\<close> is \<open>j->offset\<close>. A signed overflow, of \<open>used\<close> or of the doubled capacity, and a store outside \<open>names\<close>
  are \<open>None\<close>.
\<close>

definition hs_add_name :: "int \<Rightarrow> dir_entry \<Rightarrow> listing \<Rightarrow> (int \<times> listing) option" where
  "hs_add_name limit e l =
     (if d_name e = ''.'' \<or> d_name e = ''..'' then Some (0, l)
      else let l = l\<lparr>l_used := l_used l + name_used (d_name e)\<rparr>
      in if l_used l > INT64_MAX then None
         else if l_used l > limit \<or> int (length (l_names l)) = INT_MAX then Some (- 7, l)
         else if name_charge (d_name e) > INT_MAX - l_charge l \<or> \<not> d_grant e then Some (- 7, l)
         else let l = l\<lparr>l_charge := l_charge l + name_charge (d_name e)\<rparr>
         in if int (length (l_names l)) = l_capacity l \<and> 2 * l_capacity l > INT_MAX then None
            else if int (length (l_names l)) = l_capacity l \<and> \<not> d_realloc e then Some (- 7, l)
            else let l = (if int (length (l_names l)) = l_capacity l
                          then l\<lparr>l_capacity := (if l_capacity l \<noteq> 0 then l_capacity l * 2 else 64)\<rparr> else l)
            in if \<not> d_malloc e then Some (- 7, l)
               else if int (length (l_names l)) < l_capacity l then Some (0, l\<lparr>l_names := l_names l @ [d_name e]\<rparr>)
               else None)"

text \<open>The entries \<open>readdir\<close> returns until it answers NULL, then with \<open>errno = end_errno\<close>.\<close>

fun list_loop :: "int \<Rightarrow> int \<Rightarrow> dir_entry list \<Rightarrow> listing \<Rightarrow> (int \<times> listing) option" where
  "list_loop limit end_errno [] l = Some (if end_errno \<noteq> 0 then - 4 else 0, l)"
| "list_loop limit end_errno (e # es) l = do {
     (result, l) \<leftarrow> hs_add_name limit e l;
     if result \<noteq> 0 then Some (result, l) else list_loop limit end_errno es l
   }"

record dir_sys =
  ds_grant :: bool
  ds_openat :: "int + nat"
  ds_fdopendir :: bool
  ds_entries :: "dir_entry list"
  ds_errno :: int

definition empty_listing :: listing where
  "empty_listing = \<lparr>l_names = [], l_capacity = 0, l_charge = 0, l_used = 0\<rparr>"

text \<open>Code, listing, and the descriptors opened and closed.\<close>

definition hs_list :: "dir_sys \<Rightarrow> hs_file \<Rightarrow> int \<Rightarrow> (int \<times> listing \<times> nat list \<times> nat list) option" where
  "hs_list ds f limit =
     (if f_kind f \<noteq> 2 then Some (- 6, empty_listing, [], [])
      else if \<not> ds_grant ds then Some (- 7, empty_listing, [], [])
      else let l = empty_listing\<lparr>l_charge := 65536\<rparr>
      in case ds_openat ds of
        Inl e \<Rightarrow> Some (- 4, l, [], [])
      | Inr fd \<Rightarrow>
          if \<not> ds_fdopendir ds then Some (- 4, l, [fd], [fd])
          else do {
            (result, l) \<leftarrow> list_loop limit (ds_errno ds) (ds_entries ds) l;
            Some (result, l, [fd], [fd])
          })"

subsection \<open>Sending\<close>

text \<open>\<open>sendfile\<close> is the answer to the one \<open>sendfile\<close> call: an \<open>errno\<close> or the number of bytes sent.\<close>

definition send_errno :: "int \<Rightarrow> int" where
  "send_errno e = (if e = EAGAIN \<or> e = EINTR then 0 else if e = EINVAL \<or> e = ENOSYS \<or> e = EOPNOTSUPP then - 8 else - 4)"

definition hs_send :: "(nat \<Rightarrow> stat_buf option) \<Rightarrow> int + int \<Rightarrow> bool \<Rightarrow> hs_file \<Rightarrow> int \<Rightarrow> int \<Rightarrow> int \<times> int" where
  "hs_send fstat sendfile uring f offset len =
     (let code = fst (hs_stat (fstat 0) False f)
      in if code \<noteq> 0 then (code, 0)
         else if bad_range f offset len then (- 3, 0)
         else if len = 0 then (0, 0)
         else if uring then (- 8, 0)
         else case sendfile of
           Inl e \<Rightarrow> (send_errno e, 0)
         | Inr n \<Rightarrow>
             if n = 0 \<and> len \<noteq> 0 \<and> fst (hs_stat (fstat 1) False f) \<noteq> 0 then (- 3, n)
             else (fst (hs_stat (fstat 2) False f), n))"

subsection \<open>The dispatch\<close>

text \<open>Everything the kernel and the allocator answer to one job.\<close>

record job_sys =
  js_open :: open_sys
  js_calloc :: bool
  js_addr :: ptr
  js_fstat :: "nat \<Rightarrow> stat_buf option"
  js_malloc :: "nat \<Rightarrow> bytes option"
  js_rounds :: "read_round list"
  js_dir :: dir_sys
  js_sendfile :: "int + int"

definition plain_outcome :: "int \<Rightarrow> outcome" where
  "plain_outcome code = \<lparr>oc_code = code, oc_value = 0, oc_data = None, oc_names = [], oc_file = None\<rparr>"

text \<open>
  The switch of \<open>hs_worker\<close> on an uncancelled job: an operation it does not know keeps the code \<open>-9\<close>. \<open>file\<close> is
  \<open>j->file\<close>; operations 1 to 4 read through it.
\<close>

definition run_operation :: "job_sys \<Rightarrow> bool \<Rightarrow> hs_job \<Rightarrow> hs_file option \<Rightarrow> outcome progress option" where
  "run_operation js uring j file =
     (if j_operation j = 0 then do {
        (code, f, _, _) \<leftarrow> hs_open (js_open js) (js_calloc js) (map_option f_fd file) (j_path j);
        Some (Ended ((plain_outcome code)\<lparr>oc_file := map_option (\<lambda>f. (js_addr js, f)) f\<rparr>))
      }
      else if j_operation j = 1 then do {
        f \<leftarrow> file;
        r \<leftarrow> hs_read (js_fstat js 0) (js_fstat js 1) (js_malloc js) uring (js_rounds js) f (j_offset j) (j_length j);
        Some (case r of Waiting \<Rightarrow> Waiting
          | Ended (code, n, d) \<Rightarrow> Ended ((plain_outcome code)\<lparr>oc_value := n, oc_data := d\<rparr>))
      }
      else if j_operation j = 2 then do { f \<leftarrow> file; Some (Ended (plain_outcome (fst (hs_stat (js_fstat js 0) False f)))) }
      else if j_operation j = 3 then do {
        f \<leftarrow> file;
        (code, l, _, _) \<leftarrow> hs_list (js_dir js) f (j_offset j);
        Some (Ended ((plain_outcome code)\<lparr>oc_names := l_names l\<rparr>))
      }
      else if j_operation j = 4 then do {
        f \<leftarrow> file;
        let (code, n) = hs_send (js_fstat js) (js_sendfile js) uring f (j_offset j) (j_length j)
        in Some (Ended ((plain_outcome code)\<lparr>oc_value := n\<rparr>))
      }
      else Some (Ended (plain_outcome (- 9))))"

end
