(* ===== verification/Native_Ops.thy ===== *)
theory Native_Ops
  imports Native_File
begin

text \<open>
  What the file operations promise: an open returns a handle beneath its root or nothing and keeps no
  descriptor it does not return; a read returns exactly the requested bytes, or a code, and ends; a listing is exactly
  the entries of the directory with their charges, and its arrays never overflow.
\<close>

subsection \<open>Opening\<close>

lemma open_fd_ok:
  "\<exists>r t opened closed. open_fd os root path = Some (r, t, opened, closed) \<and>
     mset opened = mset closed + (case r of Inl e \<Rightarrow> {#} | Inr fd \<Rightarrow> {#fd#})"
proof (cases root)
  case None
  then show ?thesis by (auto simp: open_fd_def split: sum.splits)
next
  case (Some d)
  obtain r k where "hs_open_components (os_walk os) d path 0 = Some (r, k)"
    "mset (log_fds (wk_opens k)) = mset (wk_closes k) + (case r of Inl e \<Rightarrow> {#} | Inr fd \<Rightarrow> {#fd#})"
    using open_components_ok [of "os_walk os" d path 0] by (fastforce split: sum.splits)
  then show ?thesis using Some
    by (cases "os_openat2 os d (if path = [] then ''.'' else path)") (simp_all add: open_fd_def del: if_split)
qed

lemma saved_kind: "hs_stat st True f = (0, f') \<Longrightarrow> f_kind f' \<in> {0, 1, 2} \<and> f_fd f' = f_fd f"
  by (auto simp: hs_stat_def split: option.splits st_mode.splits)

lemma stat_codes: "fst (hs_stat st save f) \<in> {0, - 3, - 4}" "fst (hs_stat st True f) \<in> {0, - 4}"
  by (auto simp: hs_stat_def split: option.splits)

lemma open_errno_codes: "open_errno e \<in> {- 4, - 5, - 6}"
  by (simp add: open_errno_def)

text \<open>C28: whatever the kernel answers, \<open>hs_open\<close> returns one of its documented codes; it delivers a file exactly
  with code 0. A delivered file is a regular file or a directory, a root is a directory, and below a root the
  handle itself was checked to lie beneath the root. Every descriptor opened on the way is closed once, except the one in the
  delivered file.\<close>
theorem open_result:
  "\<exists>code f opened closed. hs_open os mem root path = Some (code, f, opened, closed) \<and>
     code \<in> {0, - 4, - 5, - 6, - 7} \<and> (code = 0 \<longleftrightarrow> f \<noteq> None) \<and>
     mset opened = mset closed + (case f of None \<Rightarrow> {#} | Some v \<Rightarrow> {#f_fd v#}) \<and>
     (\<forall>v. f = Some v \<longrightarrow> f_kind v \<in> {1, 2} \<and> (root = None \<longrightarrow> f_kind v = 2) \<and>
        (\<forall>d. root = Some d \<longrightarrow> (\<exists>t. hs_beneath (fs_path (os_walk os) t d) (fs_path (os_walk os) (t + 1) (f_fd v)))))"
proof (cases mem)
  case False
  then show ?thesis by (simp add: hs_open_def)
next
  case mem: True
  obtain r t opened closed where fd: "open_fd os root path = Some (r, t, opened, closed)"
    and bal: "mset opened = mset closed + (case r of Inl e \<Rightarrow> {#} | Inr fd \<Rightarrow> {#fd#})"
    using open_fd_ok [of os root path] by blast
  show ?thesis
  proof (cases r)
    case (Inl e)
    then show ?thesis using mem fd bal open_errno_codes [of e] by (auto simp: hs_open_def)
  next
    case (Inr h)
    obtain c f where st: "hs_stat (os_fstat os h) True (new_file h) = (c, f)" by fastforce
    have c: "c \<in> {0, - 4}" using stat_codes(2) [of "os_fstat os h" "new_file h"] st by simp
    have k: "c = 0 \<Longrightarrow> f_kind f \<in> {0, 1, 2} \<and> f_fd f = h" using saved_kind st by (fastforce simp: new_file_def)
    show ?thesis
    proof (cases "root \<noteq> None \<and> \<not> hs_beneath (fs_path (os_walk os) (t + 1) (the root)) (fs_path (os_walk os) (t + 2) h)")
      case True
      then show ?thesis using mem fd bal Inr by (simp add: hs_open_def)
    next
      case False
      show ?thesis
      proof (cases "c \<noteq> 0 \<or> f_kind f = 0 \<or> (root = None \<and> f_kind f \<noteq> 2)")
        case True
        then show ?thesis using mem fd bal Inr False st c by (auto simp: hs_open_def)
      next
        case good: False
        have "hs_open os mem root path = Some (0, Some f, opened, closed)"
          using mem fd Inr False st good by (simp add: hs_open_def)
        moreover have "\<forall>d. root = Some d \<longrightarrow> (\<exists>t. hs_beneath (fs_path (os_walk os) t d) (fs_path (os_walk os) (t + 1) (f_fd f)))"
        proof (intro allI impI exI)
          fix d assume "root = Some d"
          then show "hs_beneath (fs_path (os_walk os) (t + 1) d) (fs_path (os_walk os) (t + 1 + 1) (f_fd f))"
            using False k good by simp
        qed
        ultimately show ?thesis using k good bal Inr by auto
      qed
    qed
  qed
qed

subsection \<open>Reading\<close>

text \<open>
  \<open>content\<close> is what the file holds while it is read: an answer is at most the request and is what
  stands at the position asked for.
\<close>

definition reads :: "bytes \<Rightarrow> read_round \<Rightarrow> bool" where
  "reads content r \<longleftrightarrow> (\<forall>req off bs. 0 < req \<and> 0 \<le> off \<and> snd r req off = Inr bs \<longrightarrow>
     int (length bs) \<le> req \<and> bs = take (length bs) (drop (nat off) content))"

lemma reads_D:
  "reads content r \<Longrightarrow> 0 < req \<Longrightarrow> 0 \<le> off \<Longrightarrow> snd r req off = Inr bs \<Longrightarrow>
     int (length bs) \<le> req \<and> bs = take (length bs) (drop (nat off) content)"
  unfolding reads_def by blast

definition may_interrupt :: "read_round \<Rightarrow> bool" where
  "may_interrupt r \<longleftrightarrow> (\<exists>req off. snd r req off = Inl EINTR)"

definition filled :: "bytes \<Rightarrow> int \<Rightarrow> nat \<Rightarrow> bytes \<Rightarrow> bool" where
  "filled content offset n buf \<longleftrightarrow> take n buf = take n (drop (nat offset) content) \<and> n \<le> length (drop (nat offset) content)"

lemma filled_0 [simp]: "filled content offset 0 buf"
  by (simp add: filled_def)

lemma put_at_filled:
  assumes "filled content offset n buf" "bs = take (length bs) (drop (nat (offset + int n)) content)" "0 \<le> offset"
    "n + length bs \<le> length buf"
  shows "\<exists>buf'. put_at n bs buf = Some buf' \<and> length buf' = length buf \<and> filled content offset (n + length bs) buf'"
proof -
  let ?d = "drop (nat offset) content"
  have pos: "drop (nat (offset + int n)) content = drop n ?d" using assms(3) by (simp add: nat_add_distrib add.commute)
  have bs: "bs = take (length bs) (drop n ?d)" using assms(2) pos by simp
  then have len: "length bs \<le> length ?d - n" by (metis length_take length_drop min.cobounded1 min.commute)
  have "take (n + length bs) ?d = take n ?d @ take (length bs) (drop n ?d)" by (simp add: take_add)
  also have "\<dots> = take n buf @ bs" using assms(1) bs by (simp add: filled_def)
  finally have "take (n + length bs) ?d = take n buf @ bs" .
  moreover have "take (n + length bs) (take n buf @ bs @ drop (n + length bs) buf) = take n buf @ bs"
    using assms(4) by (cases bs) (simp_all add: min_def)
  moreover have "n + length bs \<le> length ?d" using len assms(1) by (simp add: filled_def) linarith
  ultimately show ?thesis using assms(4) by (simp add: put_at_def filled_def)
qed

lemma read_errno_codes: "read_errno u e = Some c \<Longrightarrow> c \<in> {- 4, - 9}"
  by (auto simp: read_errno_def split: if_splits)

lemma read_loop_ok:
  assumes "\<forall>r\<in>set rounds. reads content r" "0 \<le> offset" "length buf = nat len + 1" "int n \<le> len" "filled content offset n buf"
  shows "\<exists>p. read_loop u rounds offset len n buf = Some p \<and>
    (\<forall>c m b. p = Ended (c, m, b) \<longrightarrow> length b = length buf \<and> c \<in> {0, - 3, - 4, - 9} \<and>
       (c = 0 \<longrightarrow> int m = len \<and> filled content offset m b)) \<and>
    (nat len - n + length (filter may_interrupt rounds) \<le> length rounds \<longrightarrow> p \<noteq> Waiting)"
  using assms
proof (induction rounds arbitrary: n buf)
  case Nil
  then show ?case by (auto simp: read_loop.simps)
next
  case (Cons r rounds)
  obtain cancelled pread where r: "r = (cancelled, pread)" by fastforce
  show ?case
  proof (cases "int n \<ge> len \<or> cancelled")
    case True
    then show ?thesis using Cons.prems r by (auto simp: read_loop.simps)
  next
    case False
    then have run: "read_loop u (r # rounds) offset len n buf = (case pread (len - int n) (offset + int n) of
        Inl e \<Rightarrow> (case read_errno u e of None \<Rightarrow> read_loop u rounds offset len n buf | Some code \<Rightarrow> Some (Ended (code, n, buf)))
      | Inr bs \<Rightarrow> if bs = [] then Some (Ended (- 3, n, buf))
                 else do { buf \<leftarrow> put_at n bs buf; read_loop u rounds offset len (n + length bs) buf })"
      using r by (simp add: read_loop.simps [of u "(False, pread) # rounds"])
    show ?thesis
    proof (cases "pread (len - int n) (offset + int n)")
      case (Inl e)
      show ?thesis
      proof (cases "read_errno u e")
        case None
        then have "e = EINTR" by (auto simp: read_errno_def split: if_splits)
        then have "may_interrupt r" using Inl r by (auto simp: may_interrupt_def)
        then show ?thesis using Cons.IH [of buf n] Cons.prems run Inl None by simp
      next
        case (Some code)
        then show ?thesis using read_errno_codes [OF Some] run Inl by auto
      qed
    next
      case (Inr bs)
      have "0 < len - int n" "0 \<le> offset + int n" "reads content r" using False Cons.prems(1,2) by simp_all
      moreover have "snd r (len - int n) (offset + int n) = Inr bs" using r Inr by simp
      ultimately have bs: "int (length bs) \<le> len - int n" "bs = take (length bs) (drop (nat (offset + int n)) content)"
        using reads_D by blast+
      show ?thesis
      proof (cases "bs = []")
        case True
        then show ?thesis using run Inr by simp
      next
        case False
        have "n + length bs \<le> length buf" using bs(1) Cons.prems(3) by linarith
        with put_at_filled [OF Cons.prems(5) bs(2) Cons.prems(2)] obtain b where
          b: "put_at n bs buf = Some b" "length b = length buf" "filled content offset (n + length bs) b" by blast
        have "nat len - (n + length bs) + length (filter may_interrupt rounds) \<le> length rounds"
          if "nat len - n + length (filter may_interrupt (r # rounds)) \<le> length (r # rounds)"
          using that False bs(1) \<open>\<not> (int n \<ge> len \<or> cancelled)\<close> by (cases bs) (simp_all split: if_splits)
        moreover have "int (n + length bs) \<le> len" using bs(1) by simp
        moreover have "read_loop u (r # rounds) offset len n buf = read_loop u rounds offset len (n + length bs) b"
          using run Inr b(1) False by simp
        ultimately show ?thesis
          using Cons.IH [OF _ Cons.prems(2) _ _ b(3)] Cons.prems(1,3) b(2) by (metis list.set_intros(2))
      qed
    qed
  qed
qed

lemma read_ok:
  assumes "\<forall>r\<in>set rounds. reads content r" "\<forall>k b. mem k = Some b \<longrightarrow> length b = k"
  shows "\<exists>p. hs_read st1 st2 mem uring rounds f offset len = Some p \<and>
    (\<forall>code value d. p = Ended (code, value, d) \<longrightarrow> code \<in> {0, - 3, - 4, - 7, - 9} \<and>
       (code = 0 \<longrightarrow> value = len \<and> fst (hs_stat st2 False f) = 0 \<and>
          (\<exists>buf. d = Some buf \<and> length buf = nat len + 1 \<and> nat len \<le> length (drop (nat offset) content) \<and>
             take (nat len) buf = take (nat len) (drop (nat offset) content)))) \<and>
    (nat len + length (filter may_interrupt rounds) \<le> length rounds \<longrightarrow> p \<noteq> Waiting)"
proof (cases "fst (hs_stat st1 False f) \<noteq> 0 \<or> bad_range f offset len \<or> mem (nat len + 1) = None")
  case True
  then show ?thesis using stat_codes(1) [of st1 False f] by (auto simp: hs_read_def)
next
  case False
  then obtain buf where buf: "mem (nat len + 1) = Some buf" "length buf = nat len + 1" and "0 \<le> offset" "0 \<le> len"
    using assms(2) by (auto simp: bad_range_def)
  then obtain p where p: "read_loop uring rounds offset len 0 buf = Some p"
    "\<forall>c m b. p = Ended (c, m, b) \<longrightarrow> length b = length buf \<and> c \<in> {0, - 3, - 4, - 9} \<and> (c = 0 \<longrightarrow> int m = len \<and> filled content offset m b)"
    "nat len + length (filter may_interrupt rounds) \<le> length rounds \<longrightarrow> p \<noteq> Waiting"
    using read_loop_ok [OF assms(1), of offset buf len 0 uring] by auto
  show ?thesis
  proof (cases p)
    case Waiting
    then show ?thesis using p False buf by (simp add: hs_read_def)
  next
    case (Ended e)
    obtain c m b where e: "e = (c, m, b)" by (metis prod_cases3)
    show ?thesis using Ended e p False buf stat_codes(1) [of st2 False f]
      by (auto simp: hs_read_def filled_def)
  qed
qed

text \<open>C29: a read never writes outside its buffer, whatever short reads and interruptions occur. When it reports success
  it has the whole requested region, in order, and the file was unchanged after it. It ends as soon as the kernel has
  answered as often as there are bytes to read, not counting the interrupted answers.\<close>
theorem read_exact:
  assumes "\<forall>r\<in>set rounds. reads content r" "\<forall>k b. mem k = Some b \<longrightarrow> length b = k"
  shows "\<exists>p. hs_read st1 st2 mem uring rounds f offset len = Some p \<and>
    (\<forall>code value d. p = Ended (code, value, d) \<longrightarrow> code \<in> {0, - 3, - 4, - 7, - 9} \<and>
       (code = 0 \<longrightarrow> value = len \<and> fst (hs_stat st2 False f) = 0 \<and>
          (\<exists>buf. d = Some buf \<and> length buf = nat len + 1 \<and> nat len \<le> length (drop (nat offset) content) \<and>
             take (nat len) buf = take (nat len) (drop (nat offset) content)))) \<and>
    (nat len + length (filter may_interrupt rounds) \<le> length rounds \<longrightarrow> p \<noteq> Waiting)"
  using assms by (rule read_ok)

text \<open>A six-byte file read in two pieces with an interruption between them.\<close>

definition demo_rounds :: "read_round list" where
  "demo_rounds = [(False, \<lambda>req off. if off = 1 \<and> req = 4 then Inr [2, 3] else Inr []), (False, \<lambda>req off. Inl EINTR),
     (False, \<lambda>req off. if off = 3 \<and> req = 2 then Inr [4, 5] else Inr [])]"

definition demo_file :: hs_file where
  "demo_file = (new_file 7)\<lparr>f_kind := 1, f_size := 6\<rparr>"

definition demo_stat :: "stat_buf option" where
  "demo_stat = Some \<lparr>st_size = 6, st_sec = 0, st_nsec = 0, st_mode = S_IFREG\<rparr>"

lemma demo_rounds_reads: "\<forall>r\<in>set demo_rounds. reads [1, 2, 3, 4, 5, 6] r"
  by (auto simp: demo_rounds_def reads_def split: if_splits)

theorem read_exact_witness:
  "\<exists>buf. hs_read demo_stat demo_stat (\<lambda>n. Some (replicate n 0)) False demo_rounds demo_file 1 4 = Some (Ended (0, 4, Some buf)) \<and>
     take 4 buf = [2, 3, 4, 5]"
proof -
  have run: "hs_read demo_stat demo_stat (\<lambda>n. Some (replicate n 0)) False demo_rounds demo_file 1 4 = Some (Ended (0, 4, Some [2, 3, 4, 5, 0]))"
    by (simp add: hs_read_def demo_stat_def demo_file_def new_file_def hs_stat_def bad_range_def demo_rounds_def read_loop.simps
        put_at_def read_errno_def)
  show ?thesis
    using read_exact [OF demo_rounds_reads, of "\<lambda>n. Some (replicate n 0)" demo_stat demo_stat False demo_file 1 4] run by simp
qed

theorem open_result_witness:
  "\<exists>code f opened closed. hs_open \<lparr>os_openat2 = \<lambda>d p. Inr 9, os_open = \<lambda>p. Inl ENOENT, os_fstat = \<lambda>fd. demo_stat,
       os_walk = \<lparr>fs_stat = \<lambda>t d n. Inl ENOENT, fs_readlink = \<lambda>t d n. Inl ENOENT, fs_openat = \<lambda>t d n b. Inl ENOENT,
         fs_path = \<lambda>t fd. if fd = 3 then Some ''/srv'' else Some ''/srv/a''\<rparr>\<rparr> True (Some 3) ''a'' = Some (code, f, opened, closed) \<and>
     (code = 0 \<longleftrightarrow> f \<noteq> None) \<and> mset opened = mset closed + (case f of None \<Rightarrow> {#} | Some v \<Rightarrow> {#f_fd v#})"
  using open_result [of "\<lparr>os_openat2 = \<lambda>d p. Inr 9, os_open = \<lambda>p. Inl ENOENT, os_fstat = \<lambda>fd. demo_stat,
       os_walk = \<lparr>fs_stat = \<lambda>t d n. Inl ENOENT, fs_readlink = \<lambda>t d n. Inl ENOENT, fs_openat = \<lambda>t d n b. Inl ENOENT,
         fs_path = \<lambda>t fd. if fd = 3 then Some ''/srv'' else Some ''/srv/a''\<rparr>\<rparr>" True "Some 3" "''a''"] by blast

subsection \<open>Listing\<close>

definition listed :: "string \<Rightarrow> bool" where
  "listed s \<longleftrightarrow> s \<noteq> ''.'' \<and> s \<noteq> ''..''"

definition listing_ok :: "listing \<Rightarrow> bool" where
  "listing_ok l \<longleftrightarrow> int (length (l_names l)) \<le> l_capacity l \<and> l_capacity l \<le> max 64 (2 * int (length (l_names l))) \<and>
     65536 + 2080 * int (length (l_names l)) \<le> l_charge l \<and> l_charge l \<le> INT_MAX"

text \<open>Each name was charged at least 2080 bytes, so the array stays far below the point where doubling overflows.\<close>

lemma listing_small: "listing_ok l \<Longrightarrow> int (length (l_names l)) \<le> 1032413"
  by (simp add: listing_ok_def)

definition fits :: "int \<Rightarrow> dir_entry \<Rightarrow> listing \<Rightarrow> bool" where
  "fits limit e l \<longleftrightarrow> d_grant e \<and> d_realloc e \<and> d_malloc e \<and> l_used l + name_used (d_name e) \<le> limit \<and>
     l_charge l + name_charge (d_name e) \<le> INT_MAX"

lemma add_name_ok:
  assumes "listing_ok l" "l_used l \<le> l_charge l" "length (d_name e) \<le> 1024" "listed (d_name e)"
  shows "\<exists>c l'. hs_add_name limit e l = Some (c, l') \<and> listing_ok l' \<and> (fits limit e l \<longrightarrow> c = 0) \<and>
    (if c = 0 then l_names l' = l_names l @ [d_name e] \<and> l_charge l' = l_charge l + name_charge (d_name e) \<and>
                   l_used l' = l_used l + name_used (d_name e) \<and> l_used l' \<le> limit \<and> l_used l' \<le> l_charge l'
     else c = - 7 \<and> l_names l' = l_names l)"
proof -
  have small: "int (length (l_names l)) \<le> 1032413" by (rule listing_small [OF assms(1)])
  have cap: "int (length (l_names l)) \<le> l_capacity l" "l_capacity l \<le> max 64 (2 * int (length (l_names l)))"
    "65536 + 2080 * int (length (l_names l)) \<le> l_charge l" "l_charge l \<le> INT_MAX"
    using assms(1) by (simp_all add: listing_ok_def)
  have used: "l_used l + name_used (d_name e) \<le> INT64_MAX" using assms(2,3) cap(4) by (simp add: name_used_def)
  have less: "name_used (d_name e) \<le> name_charge (d_name e)" "2080 \<le> name_charge (d_name e)"
    by (simp_all add: name_used_def name_charge_def)
  show ?thesis
  proof (cases "l_used l + name_used (d_name e) > limit \<or> name_charge (d_name e) > INT_MAX - l_charge l \<or> \<not> d_grant e")
    case True
    then show ?thesis
      using assms(1,4) used small by (auto simp: hs_add_name_def listed_def fits_def Let_def listing_ok_def)
  next
    case go: False
    show ?thesis
    proof (cases "int (length (l_names l)) = l_capacity l")
      case True
      then have "2 * l_capacity l \<le> INT_MAX" using small by simp
      then show ?thesis
        using True go assms cap used small less by (auto simp: hs_add_name_def listed_def fits_def Let_def listing_ok_def)
    next
      case False
      then show ?thesis
        using go assms cap used small less by (auto simp: hs_add_name_def listed_def fits_def Let_def listing_ok_def)
    qed
  qed
qed

text \<open>Every reservation and allocation for the entries is answered, and their totals fit.\<close>

definition entries_fit :: "int \<Rightarrow> dir_entry list \<Rightarrow> listing \<Rightarrow> bool" where
  "entries_fit limit es l \<longleftrightarrow> (\<forall>e\<in>set es. d_grant e \<and> d_realloc e \<and> d_malloc e) \<and>
     l_used l + sum_list (map name_used (filter listed (map d_name es))) \<le> limit \<and>
     l_charge l + sum_list (map name_charge (filter listed (map d_name es))) \<le> INT_MAX"

lemma name_sums_nonneg: "0 \<le> sum_list (map name_used ss)" "0 \<le> sum_list (map name_charge ss)"
  by (auto intro!: sum_list_nonneg simp: name_used_def name_charge_def)

lemma entries_fit_Cons:
  assumes "entries_fit limit (e # es) l" "listed (d_name e)"
  shows "fits limit e l" "l_used l' = l_used l + name_used (d_name e) \<Longrightarrow> l_charge l' = l_charge l + name_charge (d_name e) \<Longrightarrow>
    entries_fit limit es l'"
  using assms name_sums_nonneg [of "filter listed (map d_name es)"] by (auto simp: entries_fit_def fits_def)

lemma list_loop_ok:
  assumes "listing_ok l" "l_used l \<le> l_charge l" "l_used l \<le> limit" "\<forall>e\<in>set es. length (d_name e) \<le> 1024"
  shows "\<exists>c l'. list_loop limit err es l = Some (c, l') \<and> listing_ok l' \<and> c \<in> {0, - 4, - 7} \<and>
    (\<exists>k. l_names l' = l_names l @ take k (filter listed (map d_name es))) \<and>
    (c = 0 \<longrightarrow> err = 0 \<and> l_names l' = l_names l @ filter listed (map d_name es) \<and>
       l_charge l' = l_charge l + sum_list (map name_charge (filter listed (map d_name es))) \<and> l_used l' \<le> limit \<and>
       l_used l' = l_used l + sum_list (map name_used (filter listed (map d_name es)))) \<and>
    (entries_fit limit es l \<and> err = 0 \<longrightarrow> c = 0)"
  using assms
proof (induction es arbitrary: l)
  case Nil
  then show ?case by simp
next
  case (Cons e es)
  show ?case
  proof (cases "listed (d_name e)")
    case False
    then have "hs_add_name limit e l = Some (0, l)" by (auto simp: hs_add_name_def listed_def)
    moreover have "entries_fit limit (e # es) l \<Longrightarrow> entries_fit limit es l" using False by (simp add: entries_fit_def)
    ultimately show ?thesis using Cons.IH [OF Cons.prems(1-3)] Cons.prems(4) False by auto
  next
    case True
    obtain c l1 where a: "hs_add_name limit e l = Some (c, l1)" "listing_ok l1" "fits limit e l \<longrightarrow> c = 0"
      and eff: "if c = 0 then l_names l1 = l_names l @ [d_name e] \<and> l_charge l1 = l_charge l + name_charge (d_name e) \<and>
                   l_used l1 = l_used l + name_used (d_name e) \<and> l_used l1 \<le> limit \<and> l_used l1 \<le> l_charge l1
         else c = - 7 \<and> l_names l1 = l_names l"
      using add_name_ok [OF Cons.prems(1,2) _ True, of limit] Cons.prems(4) by auto
    show ?thesis
    proof (cases "c = 0")
      case False
      then have "\<exists>k. l_names l1 = l_names l @ take k (filter listed (map d_name (e # es)))"
        using eff by (intro exI [of _ 0]) simp
      then show ?thesis using False a eff entries_fit_Cons(1) [OF _ True] by auto
    next
      case c: True
      then have e: "l_names l1 = l_names l @ [d_name e]" "l_charge l1 = l_charge l + name_charge (d_name e)"
        "l_used l1 = l_used l + name_used (d_name e)" "l_used l1 \<le> limit" "l_used l1 \<le> l_charge l1" using eff by auto
      have tl: "\<forall>e\<in>set es. length (d_name e) \<le> 1024" using Cons.prems(4) by simp
      obtain c2 l2 k where r: "list_loop limit err es l1 = Some (c2, l2)" "listing_ok l2" "c2 \<in> {0, - 4, - 7}"
        "l_names l2 = l_names l1 @ take k (filter listed (map d_name es))"
        "c2 = 0 \<longrightarrow> err = 0 \<and> l_names l2 = l_names l1 @ filter listed (map d_name es) \<and>
         l_charge l2 = l_charge l1 + sum_list (map name_charge (filter listed (map d_name es))) \<and> l_used l2 \<le> limit \<and>
         l_used l2 = l_used l1 + sum_list (map name_used (filter listed (map d_name es)))"
        "entries_fit limit es l1 \<and> err = 0 \<longrightarrow> c2 = 0"
        using Cons.IH [OF a(2) e(5,4) tl] by blast
      have "\<exists>k. l_names l2 = l_names l @ take k (filter listed (map d_name (e # es)))"
        using r(4) e(1) True by (intro exI [of _ "Suc k"]) simp
      moreover have "entries_fit limit (e # es) l \<and> err = 0 \<longrightarrow> c2 = 0"
        using entries_fit_Cons(2) [OF _ True e(3,2)] r(6) by blast
      ultimately show ?thesis using r(1-3,5) a(1) c e True by auto
    qed
  qed
qed

text \<open>C31: a directory listing never overflows its counters or its array and leaves no descriptor open. Whatever happens,
  the names it keeps are the first entries of the directory in order, without \<open>.\<close> and \<open>..\<close>. With code 0 they are all of
  them, the job's directory charge is exactly what the names cost, and the size limit is respected; and the code is 0
  whenever the directory can be read, the credits and memory are granted and the names fit.\<close>
theorem list_exact:
  assumes "\<forall>e\<in>set (ds_entries ds). length (d_name e) \<le> 1024" "0 \<le> limit"
  shows "\<exists>code l fds. hs_list ds f limit = Some (code, l, fds, fds) \<and> code \<in> {0, - 4, - 6, - 7} \<and>
    int (length (l_names l)) \<le> l_capacity l \<and> 0 \<le> l_charge l \<and> l_charge l \<le> INT_MAX \<and>
    (\<exists>k. l_names l = take k (filter listed (map d_name (ds_entries ds)))) \<and>
    (code = 0 \<longrightarrow> f_kind f = 2 \<and> l_names l = filter listed (map d_name (ds_entries ds)) \<and>
       l_charge l = 65536 + sum_list (map name_charge (l_names l)) \<and> sum_list (map name_used (l_names l)) \<le> limit) \<and>
    (f_kind f = 2 \<and> ds_grant ds \<and> (\<exists>fd. ds_openat ds = Inr fd) \<and> ds_fdopendir ds \<and> ds_errno ds = 0 \<and>
       entries_fit limit (ds_entries ds) (empty_listing\<lparr>l_charge := 65536\<rparr>) \<longrightarrow> code = 0)"
proof -
  let ?l = "empty_listing\<lparr>l_charge := 65536\<rparr>"
  have ok: "listing_ok ?l" "l_used ?l \<le> l_charge ?l" "l_used ?l \<le> limit" using assms(2) by (simp_all add: listing_ok_def empty_listing_def)
  obtain c l' k where r: "list_loop limit (ds_errno ds) (ds_entries ds) ?l = Some (c, l')" "listing_ok l'" "c \<in> {0, - 4, - 7}"
    "l_names l' = l_names ?l @ take k (filter listed (map d_name (ds_entries ds)))"
    "c = 0 \<longrightarrow> ds_errno ds = 0 \<and> l_names l' = l_names ?l @ filter listed (map d_name (ds_entries ds)) \<and>
       l_charge l' = l_charge ?l + sum_list (map name_charge (filter listed (map d_name (ds_entries ds)))) \<and> l_used l' \<le> limit \<and>
       l_used l' = l_used ?l + sum_list (map name_used (filter listed (map d_name (ds_entries ds))))"
    "entries_fit limit (ds_entries ds) ?l \<and> ds_errno ds = 0 \<longrightarrow> c = 0"
    using list_loop_ok [OF ok assms(1), of "ds_errno ds"] by blast
  show ?thesis
  proof (cases "f_kind f = 2 \<and> ds_grant ds \<and> (\<exists>fd. ds_openat ds = Inr fd) \<and> ds_fdopendir ds")
    case True
    then obtain fd where run: "hs_list ds f limit = Some (c, l', [fd], [fd])" using r(1) by (auto simp: hs_list_def Let_def)
    have "l_names l' = take k (filter listed (map d_name (ds_entries ds)))" using r(4) by (simp add: empty_listing_def)
    then show ?thesis using True run r(2,3,5,6) by (auto simp: listing_ok_def empty_listing_def)
  next
    case False
    then show ?thesis by (cases "ds_openat ds") (auto simp: hs_list_def empty_listing_def)
  qed
qed

definition demo_dir :: dir_sys where
  "demo_dir = \<lparr>ds_grant = True, ds_openat = Inr 5, ds_fdopendir = True,
     ds_entries = map (\<lambda>s. \<lparr>d_name = s, d_grant = True, d_realloc = True, d_malloc = True\<rparr>) [''.'', ''a'', ''..'', ''b''], ds_errno = 0\<rparr>"

theorem list_exact_witness:
  "\<exists>l fds. hs_list demo_dir (demo_file\<lparr>f_kind := 2\<rparr>) 1000 = Some (0, l, fds, fds) \<and> l_names l = [''a'', ''b'']"
proof -
  have fit: "entries_fit 1000 (ds_entries demo_dir) (empty_listing\<lparr>l_charge := 65536\<rparr>)"
    by (simp add: entries_fit_def demo_dir_def empty_listing_def listed_def name_used_def name_charge_def)
  obtain code l fds where r: "hs_list demo_dir (demo_file\<lparr>f_kind := 2\<rparr>) 1000 = Some (code, l, fds, fds)"
    "code = 0 \<longrightarrow> l_names l = filter listed (map d_name (ds_entries demo_dir))" "code = 0"
    using list_exact [of demo_dir 1000 "demo_file\<lparr>f_kind := 2\<rparr>"] fit by (auto simp: demo_dir_def)
  then show ?thesis by (auto simp: demo_dir_def listed_def)
qed

subsection \<open>A read job, from the worker to the owner\<close>

text \<open>What the owner relies on: a platform's \<open>run\<close> leaves the requested region in the outcome of a successful read.\<close>

locale job_reader =
  fixes run :: "'s \<Rightarrow> hs_job \<Rightarrow> hs_file \<Rightarrow> outcome progress option" and serves :: "bytes \<Rightarrow> 's \<Rightarrow> hs_file \<Rightarrow> bool"
  assumes region: "run js y f = Some (Ended r) \<Longrightarrow> serves content js f \<Longrightarrow> j_operation y = 1 \<Longrightarrow> oc_code r = 0 \<Longrightarrow>
    oc_value r = j_length y \<and> (\<exists>buf. oc_data r = Some buf \<and> length buf = nat (j_length y) + 1 \<and>
      take (nat (j_length y)) buf = take (nat (j_length y)) (drop (nat (j_offset y)) content))"
begin

lemma delivered:
  assumes "busy s w = Some (Running j (j_pool y))" "jobs s j = Some y" "pools s (j_pool y) = Some x" "\<not> j_cancelled y" "j_operation y = 1"
    "run js y f = Some (Ended r)" "oc_code r = 0" "0 \<le> j_length y" "serves content js f"
  shows "\<exists>s'. worker_publish w r s = Some s' \<and> hs_io_done j s' = Some True \<and> hs_io_code j s' = Some 0 \<and>
    hs_io_bytes j s' = Some (take (nat (j_length y)) (drop (nat (j_offset y)) content))"
proof -
  obtain buf where "oc_value r = j_length y" "oc_data r = Some buf" "length buf = nat (j_length y) + 1"
    "take (nat (j_length y)) buf = take (nat (j_length y)) (drop (nat (j_offset y)) content)"
    using region [OF assms(6,9,5,7)] by blast
  then show ?thesis
    using assms(1-5,7,8) by (simp add: worker_publish_def with_outcome_def hs_io_done_def hs_io_code_def hs_io_bytes_def Let_def)
qed

end

lemma read_outcome:
  assumes "run_operation js u y (Some f) = Some (Ended r)" "j_operation y = 1" "oc_code r = 0"
    "\<forall>r\<in>set (js_rounds js). reads content r" "\<forall>k b. js_malloc js k = Some b \<longrightarrow> length b = k"
  shows "oc_value r = j_length y \<and> (\<exists>buf. oc_data r = Some buf \<and> length buf = nat (j_length y) + 1 \<and>
    nat (j_length y) \<le> length (drop (nat (j_offset y)) content) \<and>
    take (nat (j_length y)) buf = take (nat (j_length y)) (drop (nat (j_offset y)) content))"
proof -
  let ?st = "js_fstat js 0" and ?st' = "js_fstat js 1"
  obtain code n d where rd: "hs_read ?st ?st' (js_malloc js) u (js_rounds js) f (j_offset y) (j_length y) = Some (Ended (code, n, d))"
    "r = (plain_outcome code)\<lparr>oc_value := n, oc_data := d\<rparr>"
    using assms(1,2) by (auto simp: run_operation_def split: bind_splits progress.splits)
  then have "code = 0" using assms(3) by (simp add: plain_outcome_def)
  then show ?thesis
    using read_ok [OF assms(4,5), of ?st ?st' u f "j_offset y" "j_length y"] rd by auto
qed

definition posix_serves :: "bytes \<Rightarrow> job_sys \<times> bool \<Rightarrow> hs_file \<Rightarrow> bool" where
  "posix_serves content js f \<longleftrightarrow> (\<forall>r\<in>set (js_rounds (fst js)). reads content r) \<and> (\<forall>k b. js_malloc (fst js) k = Some b \<longrightarrow> length b = k)"

interpretation posix: job_reader "\<lambda>(js, u) y f. run_operation js u y (Some f)" posix_serves
proof
  fix js :: "job_sys \<times> bool" and y f r content
  assume "(case js of (js, u) \<Rightarrow> \<lambda>y f. run_operation js u y (Some f)) y f = Some (Ended r)" "posix_serves content js f"
    "j_operation y = 1" "oc_code r = 0"
  then show "oc_value r = j_length y \<and> (\<exists>buf. oc_data r = Some buf \<and> length buf = nat (j_length y) + 1 \<and>
      take (nat (j_length y)) buf = take (nat (j_length y)) (drop (nat (j_offset y)) content))"
    using read_outcome [of "fst js" "snd js" y f r content] by (cases js) (auto simp: posix_serves_def)
qed

text \<open>C30: when the worker publishes a successful read of an uncancelled job, the owner that asks for the job's bytes gets exactly
  the requested region of the file, and the copy never reads past the job's buffer.\<close>
theorem read_job_delivered:
  assumes "busy s w = Some (Running j (j_pool y))" "jobs s j = Some y" "pools s (j_pool y) = Some x" "\<not> j_cancelled y" "j_operation y = 1"
    "run_operation js u y (Some f) = Some (Ended r)" "oc_code r = 0" "0 \<le> j_length y"
    "\<forall>r\<in>set (js_rounds js). reads content r" "\<forall>k b. js_malloc js k = Some b \<longrightarrow> length b = k"
  shows "\<exists>s'. worker_publish w r s = Some s' \<and> hs_io_done j s' = Some True \<and> hs_io_code j s' = Some 0 \<and>
    hs_io_bytes j s' = Some (take (nat (j_length y)) (drop (nat (j_offset y)) content))"
  using posix.delivered [OF assms(1-5), of "(js, u)" f r content] assms(6-10) by (simp add: posix_serves_def)

definition demo_read_job :: hs_job where
  "demo_read_job = (new_job 2 1 (Some 4) ''f'' 1 4 0 1 0)"

definition demo_job_sys :: job_sys where
  "demo_job_sys = \<lparr>js_open = \<lparr>os_openat2 = \<lambda>d p. Inl ENOENT, os_open = \<lambda>p. Inl ENOENT, os_fstat = \<lambda>fd. demo_stat,
       os_walk = \<lparr>fs_stat = \<lambda>t d n. Inl ENOENT, fs_readlink = \<lambda>t d n. Inl ENOENT, fs_openat = \<lambda>t d n b. Inl ENOENT, fs_path = \<lambda>t fd. None\<rparr>\<rparr>,
     js_calloc = True, js_addr = 9, js_fstat = \<lambda>_. demo_stat, js_malloc = \<lambda>n. Some (replicate n 0), js_rounds = demo_rounds,
     js_dir = demo_dir, js_sendfile = Inr 0\<rparr>"

definition demo_running :: io where
  "demo_running = init_io\<lparr>jobs := [1 \<mapsto> demo_read_job], pools := [2 \<mapsto> new_pool 1 8 100 100 0], busy := [0 \<mapsto> Running 1 2]\<rparr>"

theorem read_job_delivered_witness:
  "\<exists>r s'. run_operation demo_job_sys False demo_read_job (Some demo_file) = Some (Ended r) \<and>
     worker_publish 0 r demo_running = Some s' \<and> hs_io_bytes 1 s' = Some [2, 3, 4, 5]"
proof -
  let ?r = "(plain_outcome 0)\<lparr>oc_value := 4, oc_data := Some [2, 3, 4, 5, 0]\<rparr>"
  have job: "j_pool demo_read_job = 2" "j_offset demo_read_job = 1" "j_length demo_read_job = 4" "j_operation demo_read_job = 1"
    "\<not> j_cancelled demo_read_job" by (simp_all add: demo_read_job_def new_job_def)
  have run: "run_operation demo_job_sys False demo_read_job (Some demo_file) = Some (Ended ?r)"
    using job by (simp add: run_operation_def demo_job_sys_def hs_read_def demo_stat_def demo_file_def new_file_def hs_stat_def bad_range_def
        demo_rounds_def read_loop.simps put_at_def read_errno_def)
  have "\<exists>s'. worker_publish 0 ?r demo_running = Some s' \<and> hs_io_done 1 s' = Some True \<and> hs_io_code 1 s' = Some 0 \<and>
      hs_io_bytes 1 s' = Some (take (nat (j_length demo_read_job)) (drop (nat (j_offset demo_read_job)) [1, 2, 3, 4, 5, 6]))"
    by (rule read_job_delivered [where js = demo_job_sys and u = False and f = demo_file and x = "new_pool 1 8 100 100 0"])
      (use run job demo_rounds_reads in \<open>simp_all add: demo_running_def plain_outcome_def demo_job_sys_def\<close>)
  then show ?thesis using run job by auto
qed

end
