(* ===== verification/Native_Uring.thy ===== *)
theory Native_Uring
  imports Native_Ops
begin

text \<open>
  The io_uring backend of \<^verbatim>\<open>internal/native/native.c\<close>: opening and closing a ring, one request through it, the
  probe of its operations and the selection of a backend. What the kernel answers is an argument; the memory
  it shares with the program is a record of the ring's indices and arrays, which a call of
  \<open>io_uring_enter\<close> may change. An access outside an array is \<open>None\<close>. The log of a call lists the
  descriptors and mappings it acquired and those it gave back.
\<close>

unbundle bit_operations_syntax

subsection \<open>Opening and closing\<close>

record uring_params =
  up_sq_entries :: nat
  up_cq_entries :: nat
  up_sqe128 :: bool
  up_single_mmap :: bool
  up_sq_array_off :: nat
  up_cq_cqes_off :: nat

datatype resource = Fd nat | Mapping nat nat

type_synonym log = "resource list \<times> resource list"

record uring_sys =
  us_setup :: "int + (nat \<times> uring_params)"
  us_mmap_sq :: "nat \<Rightarrow> int + nat"
  us_mmap_cq :: "nat \<Rightarrow> int + nat"
  us_mmap_sqes :: "nat \<Rightarrow> int + nat"

text \<open>\<open>sizeof\<close> of \<open>unsigned\<close>, \<open>struct io_uring_cqe\<close> and \<open>struct io_uring_sqe\<close>.\<close>

definition sq_bytes :: "uring_params \<Rightarrow> nat" where
  "sq_bytes p = (let sq = up_sq_array_off p + up_sq_entries p * 4; cq = up_cq_cqes_off p + up_cq_entries p * 16
     in if up_single_mmap p \<and> cq > sq then cq else sq)"

definition cq_bytes :: "uring_params \<Rightarrow> nat" where
  "cq_bytes p = up_cq_cqes_off p + up_cq_entries p * 16"

definition sqes_bytes :: "uring_params \<Rightarrow> nat" where
  "sqes_bytes p = up_sq_entries p * 64"

record hs_uring =
  u_fd :: nat
  u_sq_ring :: nat
  u_cq_ring :: nat
  u_sqes :: nat
  u_sq_size :: nat
  u_cq_size :: nat
  u_sqes_size :: nat

definition ENOTSUP :: int where "ENOTSUP = 95"

definition hs_uring_open :: "uring_sys \<Rightarrow> (int + hs_uring) \<times> log" where
  "hs_uring_open us = (case us_setup us of
     Inl e \<Rightarrow> (Inl (- e), [], [])
   | Inr (fd, p) \<Rightarrow>
       if up_sqe128 p then (Inl (- ENOTSUP), [Fd fd], [Fd fd])
       else (case us_mmap_sq us (sq_bytes p) of
         Inl e \<Rightarrow> (Inl (- e), [Fd fd], [Fd fd])
       | Inr sq \<Rightarrow>
           (let sqm = Mapping sq (sq_bytes p)
            in case (if up_single_mmap p then Inr sq else us_mmap_cq us (cq_bytes p)) of
              Inl e \<Rightarrow> (Inl (- e), [Fd fd, sqm], [sqm, Fd fd])
            | Inr cq \<Rightarrow>
                (let cqm = (if up_single_mmap p then [] else [Mapping cq (cq_bytes p)])
                 in case us_mmap_sqes us (sqes_bytes p) of
                   Inl e \<Rightarrow> (Inl (- e), [Fd fd, sqm] @ cqm, (if cq \<noteq> sq then [Mapping cq (cq_bytes p)] else []) @ [sqm, Fd fd])
                 | Inr sqes \<Rightarrow>
                     (Inr \<lparr>u_fd = fd, u_sq_ring = sq, u_cq_ring = cq, u_sqes = sqes, u_sq_size = sq_bytes p,
                           u_cq_size = cq_bytes p, u_sqes_size = sqes_bytes p\<rparr>,
                      [Fd fd, sqm] @ cqm @ [Mapping sqes (sqes_bytes p)], [])))))"

text \<open>The ring is open when this is called; the resources given back.\<close>

definition hs_uring_close :: "hs_uring \<Rightarrow> resource list" where
  "hs_uring_close u = [Mapping (u_sqes u) (u_sqes_size u)] @
     (if u_cq_ring u \<noteq> u_sq_ring u then [Mapping (u_cq_ring u) (u_cq_size u)] else []) @
     [Mapping (u_sq_ring u) (u_sq_size u), Fd (u_fd u)]"

subsection \<open>One request\<close>

record sqe =
  s_opcode :: u8
  s_fd :: int
  s_off :: u64
  s_addr :: u64
  s_len :: u32
  s_user_data :: u64

record ring_mem =
  m_sq_head :: u32
  m_sq_tail :: u32
  m_sq_mask :: u32
  m_sqes :: "sqe list"
  m_sq_array :: "u32 list"
  m_cq_head :: u32
  m_cq_tail :: u32
  m_cq_mask :: u32
  m_cqes :: "int list"

definition EBUSY :: int where "EBUSY = 16"

text \<open>One \<open>io_uring_enter\<close>: an \<open>errno\<close> when it fails, and the shared memory after it.\<close>

type_synonym enter = "ring_mem \<Rightarrow> int option \<times> ring_mem"

definition ring_submit :: "sqe \<Rightarrow> ring_mem \<Rightarrow> (int + ring_mem) option" where
  "ring_submit q m =
     (if m_sq_tail m - m_sq_head m \<ge> m_sq_mask m + 1 then Some (Inl (- EBUSY))
      else let i = m_sq_tail m AND m_sq_mask m
      in if unat i < length (m_sqes m) \<and> unat i < length (m_sq_array m) then
           Some (Inr (m\<lparr>m_sqes := (m_sqes m)[unat i := q], m_sq_array := (m_sq_array m)[unat i := i],
                        m_sq_tail := m_sq_tail m + 1\<rparr>))
         else None)"

text \<open>The two loops around \<open>io_uring_enter\<close>, and the entry taken from the completion queue.\<close>

fun enter_loop :: "enter list \<Rightarrow> ring_mem \<Rightarrow> ((int \<times> ring_mem) + (ring_mem \<times> enter list)) progress" where
  "enter_loop [] m = Waiting"
| "enter_loop (k # ks) m = (case k m of
     (Some e, m) \<Rightarrow> if e = EINTR then enter_loop ks m else Ended (Inl (- e, m))
   | (None, m) \<Rightarrow> Ended (Inr (m, ks)))"

fun wait_loop :: "u32 \<Rightarrow> enter list \<Rightarrow> ring_mem \<Rightarrow> (int + ring_mem) progress" where
  "wait_loop head ks m =
     (if head \<noteq> m_cq_tail m then Ended (Inr m)
      else case ks of
        [] \<Rightarrow> Waiting
      | k # ks \<Rightarrow> (case k m of
          (Some e, m) \<Rightarrow> if e \<noteq> EINTR then Ended (Inl (- e)) else wait_loop head ks m
        | (None, m) \<Rightarrow> wait_loop head ks m))"

declare wait_loop.simps [simp del]

definition ring_reap :: "u32 \<Rightarrow> ring_mem \<Rightarrow> (int \<times> ring_mem) option" where
  "ring_reap head m =
     (let i = unat (head AND m_cq_mask m)
      in if i < length (m_cqes m) then Some (m_cqes m ! i, m\<lparr>m_cq_head := head + 1\<rparr>) else None)"

definition hs_uring_io :: "enter list \<Rightarrow> u8 \<Rightarrow> int \<Rightarrow> u64 \<Rightarrow> u32 \<Rightarrow> u64 \<Rightarrow> ring_mem \<Rightarrow> int progress option" where
  "hs_uring_io ks opcode fd buffer len offset m = do {
     r \<leftarrow> ring_submit \<lparr>s_opcode = opcode, s_fd = fd, s_off = offset, s_addr = buffer, s_len = len, s_user_data = 1\<rparr> m;
     (case r of
        Inl code \<Rightarrow> Some (Ended code)
      | Inr m \<Rightarrow>
          (case enter_loop ks m of
             Waiting \<Rightarrow> Some Waiting
           | Ended (Inl (code, m)) \<Rightarrow> Some (Ended code)
           | Ended (Inr (m, ks)) \<Rightarrow>
               (case wait_loop (m_cq_head m) ks m of
                  Waiting \<Rightarrow> Some Waiting
                | Ended (Inl code) \<Rightarrow> Some (Ended code)
                | Ended (Inr m') \<Rightarrow> do { (res, _) \<leftarrow> ring_reap (m_cq_head m) m'; Some (Ended res) })))
   }"

definition IORING_OP_READ :: nat where "IORING_OP_READ = 22"
definition IORING_OP_SEND :: nat where "IORING_OP_SEND = 26"
definition IORING_OP_ASYNC_CANCEL :: nat where "IORING_OP_ASYNC_CANCEL = 14"

text \<open>\<open>mem\<close> is the shared memory of the ring just opened.\<close>

definition hs_uring_read :: "uring_sys \<Rightarrow> ring_mem \<Rightarrow> enter list \<Rightarrow> int \<Rightarrow> u64 \<Rightarrow> u32 \<Rightarrow> u64 \<Rightarrow> (int \<times> log) progress option" where
  "hs_uring_read us m ks fd buffer len offset = (case hs_uring_open us of
     (Inl code, l) \<Rightarrow> Some (Ended (code, l))
   | (Inr u, got, back) \<Rightarrow> do {
       r \<leftarrow> hs_uring_io ks (of_nat IORING_OP_READ) fd buffer len offset m;
       Some (case r of Waiting \<Rightarrow> Waiting | Ended result \<Rightarrow> Ended (result, got, back @ hs_uring_close u))
     })"

subsection \<open>Probing and selection\<close>

text \<open>The probe the kernel fills in: its result, the number of operations it knows and their flags.\<close>

record probe =
  pr_calloc :: bool
  pr_result :: int
  pr_ops_len :: u8
  pr_supported :: "bool list"

definition hs_uring_probe_opcode :: "probe \<Rightarrow> nat \<Rightarrow> bool option" where
  "hs_uring_probe_opcode pr opcode =
     (if \<not> pr_calloc pr then Some False
      else if pr_result pr \<ge> 0 \<and> opcode < unat (pr_ops_len pr) then
        (if opcode < length (pr_supported pr) then Some (pr_supported pr ! opcode) else None)
      else Some False)"

definition hs_io_uring_capabilities :: "uring_sys \<Rightarrow> (nat \<Rightarrow> probe) \<Rightarrow> (u32 \<times> log) option" where
  "hs_io_uring_capabilities us pr = (case hs_uring_open us of
     (Inl code, l) \<Rightarrow> Some (0, l)
   | (Inr u, got, back) \<Rightarrow> do {
       r \<leftarrow> hs_uring_probe_opcode (pr 0) IORING_OP_READ;
       s \<leftarrow> hs_uring_probe_opcode (pr 1) IORING_OP_SEND;
       c \<leftarrow> hs_uring_probe_opcode (pr 2) IORING_OP_ASYNC_CANCEL;
       Some (1 OR (if r then push_bit 1 1 else 0) OR (if s then push_bit 2 1 else 0) OR (if c then push_bit 3 1 else 0),
             got, back @ hs_uring_close u)
     })"

definition hs_io_uring_available :: "uring_sys \<Rightarrow> (nat \<Rightarrow> probe) \<Rightarrow> bool option" where
  "hs_io_uring_available us pr = map_option (\<lambda>(caps, _). caps AND 3 = 3) (hs_io_uring_capabilities us pr)"

text \<open>The Linux build.\<close>

definition hs_io_backend_supported :: "uring_sys \<Rightarrow> (nat \<Rightarrow> probe) \<Rightarrow> int \<Rightarrow> bool option" where
  "hs_io_backend_supported us pr backend =
     (if backend = 0 then Some True
      else if backend = 1 then hs_io_uring_available us pr
      else if backend = 2 then Some True
      else Some False)"

subsection \<open>Resources and bounds\<close>

text \<open>A mapping is not placed on top of a live one.\<close>

definition fresh_maps :: "uring_sys \<Rightarrow> bool" where
  "fresh_maps us \<longleftrightarrow> (\<forall>m n a b. us_mmap_sq us m = Inr a \<and> us_mmap_cq us n = Inr b \<longrightarrow> a \<noteq> b)"

lemma fresh_maps_D: "fresh_maps us \<Longrightarrow> us_mmap_sq us m = Inr a \<Longrightarrow> us_mmap_cq us n = Inr a \<Longrightarrow> False"
  unfolding fresh_maps_def by blast

lemma uring_open_balanced:
  assumes "fresh_maps us" "hs_uring_open us = (r, got, back)"
  shows "case r of Inl code \<Rightarrow> mset got = mset back | Inr u \<Rightarrow> mset got = mset (back @ hs_uring_close u)"
  using assms
  by (auto simp: hs_uring_open_def hs_uring_close_def Let_def split: sum.splits if_splits prod.splits dest: fresh_maps_D)

text \<open>Each array has the power-of-two size its mask stands for, and the kernel moves indices only.\<close>

definition ring_wf :: "ring_mem \<Rightarrow> bool" where
  "ring_wf m \<longleftrightarrow> length (m_sqes m) = unat (m_sq_mask m) + 1 \<and> length (m_sq_array m) = unat (m_sq_mask m) + 1 \<and>
     length (m_cqes m) = unat (m_cq_mask m) + 1"

definition keeps_ring :: "enter \<Rightarrow> bool" where
  "keeps_ring k \<longleftrightarrow> (\<forall>m. ring_wf m \<longrightarrow> ring_wf (snd (k m)))"

lemma masked_index: "unat (i AND m) \<le> unat m" for i m :: "'a::len word"
  by (metis word_and_le1 word_le_nat_alt)

lemma ring_submit_ok:
  assumes "ring_wf m"
  shows "\<exists>r. ring_submit q m = Some r \<and> (\<forall>m'. r = Inr m' \<longrightarrow> ring_wf m')"
  using assms masked_index [of "m_sq_tail m" "m_sq_mask m"]
  by (auto simp: ring_submit_def ring_wf_def Let_def)

lemma enter_loop_wf:
  "ring_wf m \<Longrightarrow> \<forall>k\<in>set ks. keeps_ring k \<Longrightarrow> enter_loop ks m = Ended (Inr (m', ks')) \<Longrightarrow>
     ring_wf m' \<and> set ks' \<subseteq> set ks"
proof (induction ks m rule: enter_loop.induct)
  case (2 k ks m)
  have "ring_wf (snd (k m))" using 2 by (simp add: keeps_ring_def)
  then show ?case using 2 by (cases "k m"; cases "fst (k m)") (auto split: if_splits)
qed simp

lemma wait_loop_wf:
  "ring_wf m \<Longrightarrow> \<forall>k\<in>set ks. keeps_ring k \<Longrightarrow> wait_loop head ks m = Ended (Inr m') \<Longrightarrow> ring_wf m'"
proof (induction ks arbitrary: m)
  case Nil
  then show ?case by (auto simp: wait_loop.simps split: if_splits)
next
  case (Cons k ks)
  have wf: "ring_wf (snd (k m))" using Cons.prems by (simp add: keeps_ring_def)
  obtain e m1 where k: "k m = (e, m1)" by fastforce
  show ?case
    using Cons.IH [of m1] Cons.prems wf k
    by (auto simp: wait_loop.simps [of head "k # ks"] split: if_splits option.splits)
qed

lemma uring_io_ok:
  assumes "ring_wf m" "\<forall>k\<in>set ks. keeps_ring k"
  shows "\<exists>p. hs_uring_io ks opcode fd buffer len offset m = Some p"
proof -
  let ?q = "\<lparr>s_opcode = opcode, s_fd = fd, s_off = offset, s_addr = buffer, s_len = len, s_user_data = 1\<rparr>"
  obtain r where r: "ring_submit ?q m = Some r" "\<forall>m'. r = Inr m' \<longrightarrow> ring_wf m'" using ring_submit_ok [OF assms(1)] by blast
  show ?thesis
  proof (cases r)
    case (Inl c)
    then show ?thesis using r by (simp add: hs_uring_io_def)
  next
    case (Inr m1)
    then have wf: "ring_wf m1" using r by simp
    have "\<exists>y. ring_reap (m_cq_head m2) m3 = Some y" if "ring_wf m3" for m2 m3
      using that masked_index [of "m_cq_head m2" "m_cq_mask m3"] by (auto simp: ring_reap_def ring_wf_def Let_def)
    then have reap: "\<exists>y. ring_reap (m_cq_head m2) m3 = Some y"
      if "enter_loop ks m1 = Ended (Inr (m2, ks2))" "wait_loop (m_cq_head m2) ks2 m2 = Ended (Inr m3)" for m2 ks2 m3
      using enter_loop_wf [OF wf assms(2) that(1)] wait_loop_wf [OF _ _ that(2)] assms(2) by blast
    then show ?thesis
      using r(1) Inr by (fastforce simp: hs_uring_io_def split: progress.splits sum.splits prod.splits)
  qed
qed

text \<open>C32: one read through the ring, whatever the kernel answers: the submission and completion indices stay inside
  the arrays they index although the counters wrap around, and whenever the call returns, the ring's descriptor
  and each of its mappings has been given back exactly once.\<close>
theorem uring_read_clean:
  assumes "fresh_maps us" "ring_wf m" "\<forall>k\<in>set ks. keeps_ring k"
  shows "\<exists>p. hs_uring_read us m ks fd buffer len offset = Some p \<and>
    (\<forall>code got back. p = Ended (code, got, back) \<longrightarrow> mset got = mset back)"
proof -
  obtain r got given where uo: "hs_uring_open us = (r, got, given)" by (metis prod_cases3)
  obtain p where p: "hs_uring_io ks (of_nat IORING_OP_READ) fd buffer len offset m = Some p" using uring_io_ok [OF assms(2,3)] by blast
  show ?thesis
    using uring_open_balanced [OF assms(1) uo] uo p
    by (cases r; cases p) (auto simp: hs_uring_read_def)
qed

definition demo_uring :: uring_sys where
  "demo_uring = \<lparr>us_setup = Inr (6, \<lparr>up_sq_entries = 2, up_cq_entries = 4, up_sqe128 = False, up_single_mmap = False,
       up_sq_array_off = 64, up_cq_cqes_off = 64\<rparr>),
     us_mmap_sq = \<lambda>_. Inr 4096, us_mmap_cq = \<lambda>_. Inr 8192, us_mmap_sqes = \<lambda>_. Inr 12288\<rparr>"

definition demo_ring :: ring_mem where
  "demo_ring = \<lparr>m_sq_head = 4294967295, m_sq_tail = 4294967295, m_sq_mask = 1,
     m_sqes = replicate 2 \<lparr>s_opcode = 0, s_fd = 0, s_off = 0, s_addr = 0, s_len = 0, s_user_data = 0\<rparr>, m_sq_array = [0, 0],
     m_cq_head = 4294967295, m_cq_tail = 4294967295, m_cq_mask = 3, m_cqes = [0, 0, 0, 0]\<rparr>"

text \<open>A kernel that is interrupted once and then answers with five bytes, on a ring whose counters wrap.\<close>

definition demo_enter :: "enter list" where
  "demo_enter = [\<lambda>m. (Some EINTR, m), \<lambda>m. (None, m\<lparr>m_cq_tail := m_cq_tail m + 1, m_cqes := map (\<lambda>_. 5) (m_cqes m)\<rparr>)]"

lemma demo_enter_keeps: "\<forall>k\<in>set demo_enter. keeps_ring k"
  by (auto simp: demo_enter_def keeps_ring_def ring_wf_def)

lemma demo_uring_read: "\<exists>got back. hs_uring_read demo_uring demo_ring demo_enter 7 0 100 0 = Some (Ended (5, got, back))"
  by (simp add: hs_uring_read_def demo_uring_def hs_uring_open_def sq_bytes_def hs_uring_io_def ring_submit_def demo_ring_def demo_enter_def
      wait_loop.simps ring_reap_def Let_def)

theorem uring_read_clean_witness:
  "\<exists>got back. hs_uring_read demo_uring demo_ring demo_enter 7 0 100 0 = Some (Ended (5, got, back)) \<and> mset got = mset back"
proof -
  have "fresh_maps demo_uring" by (simp add: fresh_maps_def demo_uring_def)
  moreover have "ring_wf demo_ring" by (simp add: ring_wf_def demo_ring_def)
  ultimately show ?thesis
    using uring_read_clean [OF _ _ demo_enter_keeps, of demo_uring demo_ring 7 0 100 0] demo_uring_read by auto
qed

subsection \<open>Selection of a backend\<close>

text \<open>The array of the probe has 256 entries, one more than an 8-bit count can reach.\<close>

lemma probe_ok: "length (pr_supported pr) = 256 \<Longrightarrow> \<exists>b. hs_uring_probe_opcode pr opcode = Some b"
proof -
  have "unat (pr_ops_len pr) < 2 ^ LENGTH(8)" by (rule unsigned_less)
  moreover assume "length (pr_supported pr) = 256"
  ultimately show ?thesis by (auto simp: hs_uring_probe_opcode_def)
qed

lemma capability_bits:
  "(1 OR (if r then push_bit 1 1 else 0) OR (if s then push_bit 2 1 else 0) OR (if c then push_bit 3 1 else 0)) AND 3 = (3 :: u32) \<longleftrightarrow> r"
  by (cases r; cases s; cases c) simp_all

text \<open>The ring is selected exactly when a ring could be opened and the kernel reports the read operation, the platform
  and epoll backends always, any other number never. Probing never reads outside its table and gives back the ring it
  opened.\<close>
theorem backend_selection:
  assumes "\<forall>i. length (pr_supported (pr i)) = 256" "fresh_maps us"
  shows "\<exists>caps got back. hs_io_uring_capabilities us pr = Some (caps, got, back) \<and> mset got = mset back \<and>
    (hs_io_backend_supported us pr backend = Some (backend = 0 \<or> backend = 2 \<or>
       backend = 1 \<and> (\<exists>u l. hs_uring_open us = (Inr u, l)) \<and> hs_uring_probe_opcode (pr 0) IORING_OP_READ = Some True))"
proof -
  obtain r got given where uo: "hs_uring_open us = (r, got, given)" by (metis prod_cases3)
  obtain a b c where p: "hs_uring_probe_opcode (pr 0) IORING_OP_READ = Some a" "hs_uring_probe_opcode (pr 1) IORING_OP_SEND = Some b"
    "hs_uring_probe_opcode (pr 2) IORING_OP_ASYNC_CANCEL = Some c" using assms(1) probe_ok by metis
  show ?thesis
  proof (cases r)
    case (Inl code)
    then show ?thesis using uo uring_open_balanced [OF assms(2) uo]
      by (simp add: hs_io_backend_supported_def hs_io_uring_available_def hs_io_uring_capabilities_def)
  next
    case (Inr u)
    then show ?thesis using uo p uring_open_balanced [OF assms(2) uo] capability_bits [of a b c]
      by (simp add: hs_io_backend_supported_def hs_io_uring_available_def hs_io_uring_capabilities_def)
  qed
qed

theorem backend_selection_witness:
  "hs_io_backend_supported demo_uring (\<lambda>_. \<lparr>pr_calloc = True, pr_result = 0, pr_ops_len = 48, pr_supported = replicate 256 True\<rparr>) 1 = Some True"
proof -
  let ?pr = "\<lambda>_::nat. \<lparr>pr_calloc = True, pr_result = 0, pr_ops_len = 48, pr_supported = replicate 256 True\<rparr>"
  have "\<exists>u l. hs_uring_open demo_uring = (Inr u, l)" by (simp add: demo_uring_def hs_uring_open_def)
  moreover have "hs_uring_probe_opcode (?pr 0) IORING_OP_READ = Some True" by (simp add: hs_uring_probe_opcode_def IORING_OP_READ_def)
  moreover have "fresh_maps demo_uring" by (simp add: fresh_maps_def demo_uring_def)
  ultimately show ?thesis using backend_selection [of ?pr demo_uring 1] by (simp del: replicate.simps) blast
qed

end
