(* ===== verification/Native_Windows.thy ===== *)
theory Native_Windows
  imports Native_Ops
begin

text \<open>
  The Windows branches of the file operations of \<^verbatim>\<open>internal/native/native.c\<close>: \<open>hs_wide\<close>, \<open>hs_final_path\<close>,
  \<open>hs_beneath\<close>, \<open>hs_stat\<close>, \<open>hs_open\<close>, \<open>hs_read\<close>, \<open>hs_list\<close> and \<open>hs_send\<close>. A block of wide characters is a list with its
  terminating zeros; a read or a store outside a block, and a string without its zero, are \<open>None\<close>. What Windows
  answers is an argument: a call made at several points of an operation has the point as its first argument, so the file
  system may change between them.
\<close>

subsection \<open>Wide strings\<close>

type_synonym wchar = "16 word"

definition BSLASH :: wchar where "BSLASH = 92"
definition SLASH :: wchar where "SLASH = 47"

definition is_sep :: "wchar \<Rightarrow> bool" where
  "is_sep c \<longleftrightarrow> c = BSLASH \<or> c = SLASH"

definition cstr :: "wchar list \<Rightarrow> wchar list" where
  "cstr b = takeWhile (\<lambda>c. c \<noteq> 0) b"

definition wcslen :: "wchar list \<Rightarrow> nat option" where
  "wcslen b = (if 0 \<in> set b then Some (length (cstr b)) else None)"

definition wmemcpy :: "nat \<Rightarrow> wchar list \<Rightarrow> wchar list \<Rightarrow> wchar list option" where
  "wmemcpy n src b = (if n + length src \<le> length b then Some (take n b @ src @ drop (n + length src) b) else None)"

text \<open>\<open>_wcsnicmp(a, b, n) == 0\<close>; \<open>lower\<close> is the lower-casing of the current locale.\<close>

definition wcsnicmp_eq :: "(wchar \<Rightarrow> wchar) \<Rightarrow> wchar list \<Rightarrow> wchar list \<Rightarrow> nat \<Rightarrow> bool" where
  "wcsnicmp_eq lower a b n \<longleftrightarrow> map lower (take n (cstr a)) = map lower (take n (cstr b))"

text \<open>\<^verbatim>\<open>while (n > 4 && (r[n-1] == L'\\' || r[n-1] == L'/')) n--;\<close> with the bound as an argument.\<close>

fun trim_wide :: "nat \<Rightarrow> wchar list \<Rightarrow> nat \<Rightarrow> nat" where
  "trim_wide k b n = (if n > k \<and> is_sep (b ! (n - 1)) then trim_wide k b (n - 1) else n)"

declare trim_wide.simps [simp del]

subsection \<open>The system\<close>

record file_info =
  fi_attributes :: "32 word"
  fi_volume :: "32 word"
  fi_index_high :: "32 word"
  fi_index_low :: "32 word"
  fi_size_high :: "32 word"
  fi_size_low :: "32 word"
  fi_time_high :: "32 word"
  fi_time_low :: "32 word"

text \<open>
  \<open>MultiByteToWideChar\<close> (the characters without the zero), the two calls of \<open>GetFinalPathNameByHandleW\<close> (the
  size it asks for, and the name the handle has at the second call), the two uses of \<open>CreateFileW\<close>,
  \<open>GetFileInformationByHandle\<close> and \<open>calloc\<close>.
\<close>

record win_sys =
  ws_utf16 :: "string \<Rightarrow> wchar list option"
  ws_final_size :: "nat \<Rightarrow> nat \<Rightarrow> nat"
  ws_final_name :: "nat \<Rightarrow> nat \<Rightarrow> wchar list option"
  ws_open :: "wchar list \<Rightarrow> int + nat"
  ws_open_attributes :: "wchar list \<Rightarrow> int + nat"
  ws_info :: "nat \<Rightarrow> nat \<Rightarrow> file_info option"
  ws_calloc :: "nat \<Rightarrow> nat \<Rightarrow> bool"
  ws_lower :: "wchar \<Rightarrow> wchar"

definition hs_wide :: "win_sys \<Rightarrow> string \<Rightarrow> wchar list option" where
  "hs_wide ws s = (case ws_utf16 ws s of
     None \<Rightarrow> None
   | Some w \<Rightarrow> if ws_calloc ws 0 (length w + 1) then Some (w @ [0]) else None)"

text \<open>A name that does not fit the size asked for before leaves the zeroed block as it is.\<close>

definition hs_final_path :: "win_sys \<Rightarrow> nat \<Rightarrow> nat \<Rightarrow> wchar list option" where
  "hs_final_path ws t h =
     (let n = ws_final_size ws t h
      in if n = 0 \<or> \<not> ws_calloc ws t (n + 1) then None
         else case ws_final_name ws t h of
           None \<Rightarrow> None
         | Some p \<Rightarrow> Some (if length p < n + 1 then p @ replicate (n + 1 - length p) 0 else replicate (n + 1) 0))"

definition same_file :: "file_info \<Rightarrow> file_info \<Rightarrow> bool" where
  "same_file a b \<longleftrightarrow> fi_volume a = fi_volume b \<and> fi_index_high a = fi_index_high b \<and> fi_index_low a = fi_index_low b"

text \<open>The textual prefix is opened again and must be the root itself. The answer, and the handles opened and closed.\<close>

definition same_parent :: "win_sys \<Rightarrow> nat \<Rightarrow> wchar list \<Rightarrow> bool \<times> nat list \<times> nat list" where
  "same_parent ws root path = (case ws_open_attributes ws path of
     Inl e \<Rightarrow> (False, [], [])
   | Inr parent \<Rightarrow>
       ((case (ws_info ws 0 parent, ws_info ws 1 root) of (Some a, Some b) \<Rightarrow> same_file a b | _ \<Rightarrow> False), [parent], [parent]))"

definition hs_beneath_windows :: "win_sys \<Rightarrow> nat \<Rightarrow> nat \<Rightarrow> (bool \<times> nat list \<times> nat list) option" where
  "hs_beneath_windows ws root f = (case (hs_final_path ws 2 root, hs_final_path ws 3 f) of
     (Some r, Some p) \<Rightarrow> do {
       len \<leftarrow> wcslen r;
       _ \<leftarrow> wcslen p;
       let n = trim_wide 4 r len in
       if \<not> wcsnicmp_eq (ws_lower ws) r p n then Some (False, [], [])
       else if n \<ge> length p then None
       else if p ! n = 0 \<or> is_sep (p ! n) then Some (same_parent ws root (cstr (p[n := 0])))
       else Some (False, [], [])
     }
   | _ \<Rightarrow> Some (False, [], []))"

subsection \<open>Metadata\<close>

definition FILE_ATTRIBUTE_DIRECTORY :: "32 word" where "FILE_ATTRIBUTE_DIRECTORY = 0x10"

text \<open>\<^verbatim>\<open>(high << 32) | low\<close> at 64 bits.\<close>

definition pair64 :: "32 word \<Rightarrow> 32 word \<Rightarrow> 64 word" where
  "pair64 high low = or (push_bit 32 (ucast high)) (ucast low)"

definition filetime_sec :: "64 word \<Rightarrow> int" where
  "filetime_sec ticks = sint (ticks div 10000000) - 11644473600"

definition filetime_ns :: "64 word \<Rightarrow> int" where
  "filetime_ns ticks = sint (ticks mod 10000000) * 100"

definition hs_stat_windows :: "file_info option \<Rightarrow> bool \<Rightarrow> hs_file \<Rightarrow> int \<times> hs_file" where
  "hs_stat_windows st save f = (case st of
     None \<Rightarrow> (- 4, f)
   | Some s \<Rightarrow>
       let size = sint (pair64 (fi_size_high s) (fi_size_low s));
           ticks = pair64 (fi_time_high s) (fi_time_low s);
           sec = filetime_sec ticks;
           ns = filetime_ns ticks
       in if save then
            (0, f\<lparr>f_size := size, f_seconds := sec, f_nanos := ns,
                  f_kind := (if and (fi_attributes s) FILE_ATTRIBUTE_DIRECTORY \<noteq> 0 then 2 else 1)\<rparr>)
          else (if size = f_size f \<and> sec = f_seconds f \<and> ns = f_nanos f then 0 else - 3, f))"

subsection \<open>Opening\<close>

text \<open>The loop that rewrites separators in place: it reads at \<open>src\<close> and writes at \<open>dst\<close>.\<close>

function norm_loop :: "bool \<Rightarrow> wchar list \<Rightarrow> nat \<Rightarrow> nat \<Rightarrow> wchar list option" where
  "norm_loop rooted b src dst =
     (if src \<ge> length b then None
      else if b ! src = 0 then (if dst < length b then Some (b[dst := 0]) else None)
      else let c = (if b ! src = SLASH then BSLASH else b ! src)
      in if rooted \<and> c = BSLASH \<and> dst \<noteq> 0 \<and> b ! (dst - 1) = BSLASH then norm_loop rooted b (src + 1) dst
         else if dst < length b then norm_loop rooted (b[dst := c]) (src + 1) (dst + 1)
         else None)"
  by pat_completeness auto
termination
  by (relation "measure (\<lambda>(_, b, src, _). length b - src)") auto

declare norm_loop.simps [simp del]

text \<open>\<^verbatim>\<open>while(used>7 && (joined[used-1]==L'/' || joined[used-1]==L'\\')) joined[--used]=0;\<close>\<close>

fun cut_wide :: "wchar list \<Rightarrow> nat \<Rightarrow> wchar list" where
  "cut_wide b used = (if used > 7 \<and> is_sep (b ! (used - 1)) then cut_wide (b[used - 1 := 0]) (used - 1) else b)"

declare cut_wide.simps [simp del]

text \<open>Fill the zeroed block \<open>joined\<close> of \<open>|base| + |name| + 2\<close> characters.\<close>

definition join_path :: "wchar list \<Rightarrow> wchar list \<Rightarrow> wchar list option" where
  "join_path base name = do {
     base_len \<leftarrow> wcslen base;
     name_len \<leftarrow> wcslen name;
     joined \<leftarrow> wmemcpy 0 (take base_len base) (replicate (base_len + name_len + 2) 0);
     joined \<leftarrow> (if name_len \<noteq> 0 then do {
                  joined \<leftarrow> wmemcpy base_len [BSLASH] joined;
                  wmemcpy (base_len + 1) (take (name_len + 1) name) joined
                } else Some joined);
     used \<leftarrow> wcslen joined;
     Some (cut_wide joined used)
   }"

text \<open>The path \<open>CreateFileW\<close> gets; \<open>Some None\<close> is the early return with code -5.\<close>

definition open_target :: "win_sys \<Rightarrow> nat option \<Rightarrow> wchar list \<Rightarrow> wchar list option option" where
  "open_target ws root name = (case root of
     None \<Rightarrow> Some (Some (cstr name))
   | Some d \<Rightarrow>
       (case hs_final_path ws 1 d of
          None \<Rightarrow> Some None
        | Some base \<Rightarrow>
            if ws_calloc ws 4 (length (cstr base) + length (cstr name) + 2) then do {
              joined \<leftarrow> join_path base name;
              Some (Some (cstr joined))
            }
            else Some None))"

definition ERROR_FILE_NOT_FOUND :: int where "ERROR_FILE_NOT_FOUND = 2"
definition ERROR_PATH_NOT_FOUND :: int where "ERROR_PATH_NOT_FOUND = 3"
definition ERROR_ACCESS_DENIED :: int where "ERROR_ACCESS_DENIED = 5"
definition ERROR_NO_MORE_FILES :: int where "ERROR_NO_MORE_FILES = 18"
definition ERROR_DIRECTORY :: int where "ERROR_DIRECTORY = 267"
definition ERROR_CANT_RESOLVE_FILENAME :: int where "ERROR_CANT_RESOLVE_FILENAME = 1921"

definition open_error :: "int \<Rightarrow> int" where
  "open_error e = (if e = ERROR_FILE_NOT_FOUND \<or> e = ERROR_PATH_NOT_FOUND \<or> e = ERROR_DIRECTORY then - 6
     else if e = ERROR_ACCESS_DENIED \<or> e = ERROR_CANT_RESOLVE_FILENAME then - 5 else - 4)"

text \<open>From the successful \<open>CreateFileW\<close> on. Code, \<open>j->result\<close>, and the handles opened and closed.\<close>

definition open_checked :: "win_sys \<Rightarrow> nat option \<Rightarrow> nat \<Rightarrow> (int \<times> hs_file option \<times> nat list \<times> nat list) option" where
  "open_checked ws root h = do {
     (ok, opened, closed) \<leftarrow> (case root of None \<Rightarrow> Some (True, [], []) | Some d \<Rightarrow> hs_beneath_windows ws d h);
     if \<not> ok then Some (- 5, None, h # opened, closed @ [h])
     else let (code, f) = hs_stat_windows (ws_info ws 2 h) True (new_file h)
          in if code \<noteq> 0 \<or> f_kind f = 0 \<or> (root = None \<and> f_kind f \<noteq> 2)
             then Some (if code \<noteq> 0 then code else - 5, None, h # opened, closed @ [h])
             else Some (0, Some f, h # opened, closed)
   }"

definition hs_open_windows :: "win_sys \<Rightarrow> bool \<Rightarrow> nat option \<Rightarrow> string \<Rightarrow> (int \<times> hs_file option \<times> nat list \<times> nat list) option" where
  "hs_open_windows ws mem root path =
     (if \<not> mem then Some (- 7, None, [], [])
      else case hs_wide ws path of
        None \<Rightarrow> Some (- 5, None, [], [])
      | Some name \<Rightarrow> do {
          name \<leftarrow> norm_loop (root \<noteq> None) name 0 0;
          target \<leftarrow> open_target ws root name;
          case target of
            None \<Rightarrow> Some (- 5, None, [], [])
          | Some p \<Rightarrow>
              (case ws_open ws p of
                 Inl e \<Rightarrow> Some (open_error e, None, [], [])
               | Inr h \<Rightarrow> open_checked ws root h)
        })"

subsection \<open>Reading\<close>

text \<open>
  What \<open>ReadFile\<close> does with a request: it answers at once, it is pending, or it fails. While it is pending, every
  wait of 10 ms that times out reads \<open>j->cancelled\<close>; then \<open>GetOverlappedResult\<close> answers (\<open>Waiting\<close>: it never does).
\<close>

datatype win_read = Answered bytes | Pending "bool list" "bytes option progress" | Refused

text \<open>A round: \<open>j->cancelled\<close>, the event, and the answer for bytes wanted and the two halves of the position.\<close>

record win_round =
  wr_cancelled :: bool
  wr_event :: "nat option"
  wr_read :: "int \<Rightarrow> 32 word \<Rightarrow> 32 word \<Rightarrow> win_read"

datatype win_call = Create_Event nat | Cancel_Io | Close_Event nat

definition ov_offset :: "int \<Rightarrow> 32 word" where
  "ov_offset pos = ucast (word_of_int pos :: 64 word)"

definition ov_offset_high :: "int \<Rightarrow> 32 word" where
  "ov_offset_high pos = ucast (drop_bit 32 (word_of_int pos :: 64 word))"

definition cancel_calls :: "bool list \<Rightarrow> win_call list" where
  "cancel_calls polls = replicate (length (filter (\<lambda>c. c) polls)) Cancel_Io"

text \<open>One request: the bytes read (\<open>None\<close>: failure) and the calls made on the event.\<close>

definition read_overlapped :: "nat \<Rightarrow> win_read \<Rightarrow> (bytes option \<times> win_call list) progress" where
  "read_overlapped ev r = (case r of
     Answered bs \<Rightarrow> Ended (Some bs, [Create_Event ev, Close_Event ev])
   | Refused \<Rightarrow> Ended (None, [Create_Event ev, Close_Event ev])
   | Pending polls p \<Rightarrow>
       (case p of Waiting \<Rightarrow> Waiting
        | Ended res \<Rightarrow> Ended (res, Create_Event ev # cancel_calls polls @ [Close_Event ev])))"

fun read_loop_windows :: "win_round list \<Rightarrow> int \<Rightarrow> int \<Rightarrow> nat \<Rightarrow> bytes \<Rightarrow> win_call list
    \<Rightarrow> (int \<times> nat \<times> bytes \<times> win_call list) progress option" where
  "read_loop_windows rounds offset len n buf calls =
     (if int n \<ge> len then Some (Ended (0, n, buf, calls))
      else case rounds of
        [] \<Rightarrow> Some Waiting
      | r # rounds \<Rightarrow>
          if wr_cancelled r then Some (Ended (- 9, n, buf, calls))
          else let request = len - int n; pos = offset + int n
          in case wr_event r of
            None \<Rightarrow> Some (Ended (- 4, n, buf, calls))
          | Some ev \<Rightarrow>
              (case read_overlapped ev (wr_read r request (ov_offset pos) (ov_offset_high pos)) of
                 Waiting \<Rightarrow> Some Waiting
               | Ended (None, cs) \<Rightarrow> Some (Ended (- 4, n, buf, calls @ cs))
               | Ended (Some bs, cs) \<Rightarrow>
                   if bs = [] then Some (Ended (- 3, n, buf, calls @ cs))
                   else do {
                     buf \<leftarrow> put_at n bs buf;
                     read_loop_windows rounds offset len (n + length bs) buf (calls @ cs)
                   }))"

declare read_loop_windows.simps [simp del]

definition hs_read_windows :: "file_info option \<Rightarrow> file_info option \<Rightarrow> (nat \<Rightarrow> bytes option) \<Rightarrow> win_round list \<Rightarrow> hs_file \<Rightarrow> int \<Rightarrow> int
    \<Rightarrow> (int \<times> int \<times> bytes option \<times> win_call list) progress option" where
  "hs_read_windows st1 st2 mem rounds f offset len =
     (let code = fst (hs_stat_windows st1 False f)
      in if code \<noteq> 0 then Some (Ended (code, 0, None, []))
         else if bad_range f offset len then Some (Ended (- 3, 0, None, []))
         else case mem (nat len + 1) of
           None \<Rightarrow> Some (Ended (- 7, 0, None, []))
         | Some buf \<Rightarrow> do {
             r \<leftarrow> read_loop_windows rounds offset len 0 buf [];
             Some (case r of
               Waiting \<Rightarrow> Waiting
             | Ended (code, n, buf, calls) \<Rightarrow>
                 if code \<noteq> 0 then Ended (code, 0, Some buf, calls)
                 else Ended (fst (hs_stat_windows st2 False f), int n, Some buf, calls))
           })"

subsection \<open>Directory listing\<close>

text \<open>
  The block of 64 KiB that \<open>GetFileInformationByHandleEx\<close> fills: the entries by their offset, each with
  \<open>NextEntryOffset\<close>, the name as \<open>WideCharToMultiByte\<close> converts it (\<open>None\<close>: it has no conversion), whether the
  \<open>malloc\<close> for the conversion succeeds, and the answers \<open>hs_add_name\<close> gets.
\<close>

record win_entry =
  we_next :: nat
  we_name :: "string option"
  we_malloc :: bool
  we_grant :: bool
  we_realloc :: bool
  we_copy :: bool

type_synonym win_block = "nat \<Rightarrow> win_entry option"

definition entry_of :: "win_entry \<Rightarrow> dir_entry" where
  "entry_of e = \<lparr>d_name = (case we_name e of None \<Rightarrow> [] | Some s \<Rightarrow> s), d_grant = we_grant e, d_realloc = we_realloc e, d_malloc = we_copy e\<rparr>"

text \<open>The inner loop; an offset outside the block, or where there is no entry, is \<open>None\<close>.\<close>

function block_loop :: "int \<Rightarrow> win_block \<Rightarrow> nat \<Rightarrow> listing \<Rightarrow> (int \<times> listing) option" where
  "block_loop limit block off l =
     (if off \<ge> 65536 then None
      else case block off of
        None \<Rightarrow> None
      | Some e \<Rightarrow>
          if \<not> we_malloc e \<or> we_name e = None \<or> we_name e = Some [] then Some (- 4, l)
          else do {
            (result, l) \<leftarrow> hs_add_name limit (entry_of e) l;
            if result \<noteq> 0 \<or> we_next e = 0 then Some (result, l)
            else block_loop limit block (off + we_next e) l
          })"
  by pat_completeness auto
termination
  by (relation "measure (\<lambda>(_, _, off, _). 65536 - off)") auto

declare block_loop.simps [simp del]

text \<open>The blocks until \<open>GetFileInformationByHandleEx\<close> fails, then with \<open>GetLastError() = err\<close>.\<close>

fun list_blocks :: "int \<Rightarrow> int \<Rightarrow> win_block list \<Rightarrow> listing \<Rightarrow> (int \<times> listing) option" where
  "list_blocks limit err [] l = Some (if err = ERROR_NO_MORE_FILES then 0 else - 4, l)"
| "list_blocks limit err (b # bs) l = do {
     (result, l) \<leftarrow> block_loop limit b 0 l;
     if result \<noteq> 0 then Some (result, l) else list_blocks limit err bs l
   }"

definition hs_list_windows :: "bool \<Rightarrow> bool \<Rightarrow> win_block list \<Rightarrow> int \<Rightarrow> hs_file \<Rightarrow> int \<Rightarrow> (int \<times> listing) option" where
  "hs_list_windows grant mem blocks err f limit =
     (if f_kind f \<noteq> 2 then Some (- 6, empty_listing)
      else if \<not> grant then Some (- 7, empty_listing)
      else if \<not> mem then Some (- 7, empty_listing\<lparr>l_charge := 65536\<rparr>)
      else list_blocks limit err blocks (empty_listing\<lparr>l_charge := 65536\<rparr>))"

subsection \<open>Sending\<close>

text \<open>
  \<open>TransmitFile\<close> succeeds at once with the count \<open>GetOverlappedResult\<close> gives, is pending or is refused. A pending
  call is waited for; every wait, also the last, reads \<open>j->cancelled\<close>.
\<close>

datatype win_send = Sent int | Send_Pending "bool list" "int option progress" | Send_Refused

definition transmit :: "nat \<Rightarrow> win_send \<Rightarrow> (int option \<times> win_call list) progress" where
  "transmit ev r = (case r of
     Sent n \<Rightarrow> Ended (Some n, [Create_Event ev, Close_Event ev])
   | Send_Refused \<Rightarrow> Ended (None, [Create_Event ev, Close_Event ev])
   | Send_Pending polls p \<Rightarrow>
       (case p of Waiting \<Rightarrow> Waiting
        | Ended res \<Rightarrow> Ended (res, Create_Event ev # cancel_calls polls @ [Close_Event ev])))"

definition hs_send_windows :: "(nat \<Rightarrow> file_info option) \<Rightarrow> nat option \<Rightarrow> (int \<Rightarrow> 32 word \<Rightarrow> 32 word \<Rightarrow> win_send) \<Rightarrow> hs_file \<Rightarrow> int \<Rightarrow> int
    \<Rightarrow> (int \<times> int \<times> win_call list) progress" where
  "hs_send_windows info event send f offset len =
     (let code = fst (hs_stat_windows (info 0) False f)
      in if code \<noteq> 0 then Ended (code, 0, [])
         else if bad_range f offset len then Ended (- 3, 0, [])
         else if len = 0 then Ended (0, 0, [])
         else case event of
           None \<Rightarrow> Ended (- 4, 0, [])
         | Some ev \<Rightarrow>
             (case transmit ev (send len (ov_offset offset) (ov_offset_high offset)) of
                Waiting \<Rightarrow> Waiting
              | Ended (None, cs) \<Rightarrow> Ended (- 4, 0, cs)
              | Ended (Some sent, cs) \<Rightarrow>
                  let value = (if sent \<noteq> 0 then sent else len)
                  in if value = 0 \<and> len \<noteq> 0 \<and> fst (hs_stat_windows (info 1) False f) \<noteq> 0 then Ended (- 3, value, cs)
                     else Ended (fst (hs_stat_windows (info 2) False f), value, cs)))"

subsection \<open>The dispatch\<close>

record win_job_sys =
  wj_open :: win_sys
  wj_calloc :: bool
  wj_addr :: ptr
  wj_info :: "nat \<Rightarrow> file_info option"
  wj_malloc :: "nat \<Rightarrow> bytes option"
  wj_rounds :: "win_round list"
  wj_grant :: bool
  wj_buffer :: bool
  wj_blocks :: "win_block list"
  wj_error :: int
  wj_event :: "nat option"
  wj_send :: "int \<Rightarrow> 32 word \<Rightarrow> 32 word \<Rightarrow> win_send"

text \<open>The switch of \<open>hs_worker\<close> on an uncancelled job.\<close>

definition run_operation_windows :: "win_job_sys \<Rightarrow> hs_job \<Rightarrow> hs_file option \<Rightarrow> outcome progress option" where
  "run_operation_windows js j file =
     (if j_operation j = 0 then do {
        (code, f, _, _) \<leftarrow> hs_open_windows (wj_open js) (wj_calloc js) (map_option f_fd file) (j_path j);
        Some (Ended ((plain_outcome code)\<lparr>oc_file := map_option (\<lambda>f. (wj_addr js, f)) f\<rparr>))
      }
      else if j_operation j = 1 then do {
        f \<leftarrow> file;
        r \<leftarrow> hs_read_windows (wj_info js 0) (wj_info js 1) (wj_malloc js) (wj_rounds js) f (j_offset j) (j_length j);
        Some (case r of Waiting \<Rightarrow> Waiting
          | Ended (code, n, d, _) \<Rightarrow> Ended ((plain_outcome code)\<lparr>oc_value := n, oc_data := d\<rparr>))
      }
      else if j_operation j = 2 then do { f \<leftarrow> file; Some (Ended (plain_outcome (fst (hs_stat_windows (wj_info js 0) False f)))) }
      else if j_operation j = 3 then do {
        f \<leftarrow> file;
        (code, l) \<leftarrow> hs_list_windows (wj_grant js) (wj_buffer js) (wj_blocks js) (wj_error js) f (j_offset j);
        Some (Ended ((plain_outcome code)\<lparr>oc_names := l_names l\<rparr>))
      }
      else if j_operation j = 4 then do {
        f \<leftarrow> file;
        Some (case hs_send_windows (wj_info js) (wj_event js) (wj_send js) f (j_offset j) (j_length j) of
            Waiting \<Rightarrow> Waiting
          | Ended (code, n, _) \<Rightarrow> Ended ((plain_outcome code)\<lparr>oc_value := n\<rparr>))
      }
      else Some (Ended (plain_outcome (- 9))))"

end
