(* ===== verification/Native_Windows_Props.thy ===== *)
theory Native_Windows_Props
  imports Native_Windows
begin

text \<open>
  What the Windows branches promise. The in-place rewriting of separators and the joined path equal their descriptions on
  strings and stay in their blocks; an opened file is delivered only after the prefix of its final path was
  opened again and found to be the root; metadata, reads and listings are those of the Linux branches on the translated
  answers, so their properties carry over.
\<close>

subsection \<open>Wide strings\<close>

lemma cstr_terminated:
  assumes "0 \<in> set b"
  shows "length (cstr b) < length b" "b ! length (cstr b) = 0" "take (length (cstr b)) b = cstr b"
proof -
  have "takeWhile (\<lambda>c. c \<noteq> 0) b \<noteq> b" using assms by (metis (mono_tags, lifting) set_takeWhileD)
  then show "length (cstr b) < length b" unfolding cstr_def
    by (metis (no_types, lifting) length_takeWhile_le nat_less_le takeWhile_eq_take take_all order_refl)
  then show "b ! length (cstr b) = 0" using nth_length_takeWhile unfolding cstr_def by blast
  show "take (length (cstr b)) b = cstr b" unfolding cstr_def by (metis takeWhile_eq_take)
qed

lemma cstr_no_zero [simp]: "0 \<notin> set (cstr b)"
  unfolding cstr_def by (auto dest: set_takeWhileD)

lemma cstr_append [simp]: "0 \<notin> set w \<Longrightarrow> cstr (w @ 0 # x) = w"
  unfolding cstr_def by (subst takeWhile_append2) auto

lemma cstr_cut:
  assumes "n \<le> length (cstr b)" "n < length b"
  shows "cstr (b[n := 0]) = take n b"
proof -
  have "take n b = take n (cstr b)"
    using assms(1) unfolding cstr_def by (metis takeWhile_eq_take take_take min.absorb1)
  then have "0 \<notin> set (take n b)" by (metis cstr_no_zero in_set_takeD)
  then show ?thesis using assms(2) by (simp add: upd_conv_take_nth_drop)
qed

lemma wcslen_some [simp]: "0 \<in> set b \<Longrightarrow> wcslen b = Some (length (cstr b))"
  by (simp add: wcslen_def)

lemma cstr_nth: "i < length (cstr b) \<Longrightarrow> cstr b ! i = b ! i"
  unfolding cstr_def by (rule takeWhile_nth)

lemma trim_wide_bounds:
  "trim_wide k b n \<le> n" "k \<le> n \<Longrightarrow> k \<le> trim_wide k b n" "n \<le> k \<Longrightarrow> trim_wide k b n = n"
  "\<forall>i. trim_wide k b n \<le> i \<and> i < n \<longrightarrow> is_sep (b ! i)"
  "trim_wide k b n \<le> k \<or> \<not> is_sep (b ! (trim_wide k b n - 1))"
proof (induction k b n rule: trim_wide.induct)
  case (1 k b n)
  { case 1 then show ?case using "1.IH"(1) by (auto simp: trim_wide.simps [of k b n]) }
  { case 2 then show ?case using "1.IH"(2) by (auto simp: trim_wide.simps [of k b n]) }
  { case 3 then show ?case by (simp add: trim_wide.simps [of k b n]) }
  { case 4 show ?case using "1.IH"(4)
      by (auto simp: trim_wide.simps [of k b n]) (metis One_nat_def Suc_pred less_Suc_eq less_nat_zero_code neq0_conv less_antisym) }
  { case 5 show ?case using "1.IH"(5) by (auto simp: trim_wide.simps [of k b n]) }
qed

lemma trim_wide_cong: "n \<le> length s \<Longrightarrow> take n s = take n b \<Longrightarrow> n \<le> length b \<Longrightarrow> trim_wide k s n = trim_wide k b n"
proof (induction k s n rule: trim_wide.induct)
  case (1 k s n)
  have "s ! (n - 1) = b ! (n - 1)" if "0 < n" using 1(3) that by (metis diff_less nth_take zero_less_one)
  moreover have "take (n - 1) s = take (n - 1) b" using 1(3) by (metis diff_le_self min.absorb1 take_take)
  ultimately show ?case using 1 by (auto simp: trim_wide.simps [of k s n] trim_wide.simps [of k b n])
qed

subsection \<open>Separators\<close>

definition to_bslash :: "wchar \<Rightarrow> wchar" where
  "to_bslash c = (if c = SLASH then BSLASH else c)"

text \<open>A run of separators becomes one.\<close>

fun squeeze :: "wchar list \<Rightarrow> wchar list" where
  "squeeze (c # d # w) = (if c = BSLASH \<and> d = BSLASH then squeeze (d # w) else c # squeeze (d # w))"
| "squeeze w = w"

definition normal :: "bool \<Rightarrow> wchar list \<Rightarrow> wchar list" where
  "normal rooted w = (if rooted then squeeze (map to_bslash w) else map to_bslash w)"

lemma squeeze_Nil_iff [simp]: "squeeze w = [] \<longleftrightarrow> w = []"
  by (induction w rule: squeeze.induct) auto

lemma squeeze_hd [simp]: "hd (squeeze w) = hd w"
  by (induction w rule: squeeze.induct) auto

lemma squeeze_last [simp]: "last (squeeze w) = last w"
  by (induction w rule: squeeze.induct) auto

lemma squeeze_set [simp]: "set (squeeze w) = set w"
  by (induction w rule: squeeze.induct) auto

lemma squeeze_length: "length (squeeze w) \<le> length w"
  by (induction w rule: squeeze.induct) auto

lemma squeeze_snoc:
  "squeeze (w @ [c]) = (if c = BSLASH \<and> w \<noteq> [] \<and> last w = BSLASH then squeeze w else squeeze w @ [c])"
  by (induction w rule: squeeze.induct) auto

definition no_double :: "wchar list \<Rightarrow> bool" where
  "no_double w \<longleftrightarrow> successively (\<lambda>c d. \<not> (c = BSLASH \<and> d = BSLASH)) w"

lemma squeeze_no_double: "no_double (squeeze w)"
proof (induction w rule: squeeze.induct)
  case (1 c d w)
  then show ?case by (cases "squeeze (d # w)") (auto simp: no_double_def successively_Cons dest: arg_cong [where f = hd])
qed (auto simp: no_double_def)

lemma normal_simps [simp]: "normal r [] = []" "length (normal r w) \<le> length w" "0 \<notin> set w \<Longrightarrow> 0 \<notin> set (normal r w)"
  using squeeze_length [of "map to_bslash w"] by (auto simp: normal_def to_bslash_def BSLASH_def)

lemma normal_snoc:
  "normal r (w @ [c]) = (if r \<and> to_bslash c = BSLASH \<and> normal r w \<noteq> [] \<and> last (normal r w) = BSLASH then normal r w
     else normal r w @ [to_bslash c])"
  by (auto simp: normal_def squeeze_snoc)

text \<open>The rewriting in place: the part behind \<open>src\<close> is still the original, the part before \<open>dst\<close> is finished.\<close>

lemma norm_loop_ok:
  assumes "0 \<in> set b0" "length b = length b0" "src \<le> length (cstr b0)" "dst \<le> src" "drop src b = drop src b0"
    "take dst b = normal rooted (take src (cstr b0))"
  shows "\<exists>b'. norm_loop rooted b src dst = Some b' \<and> length b' = length b0 \<and> 0 \<in> set b' \<and> cstr b' = normal rooted (cstr b0)"
  using assms
proof (induction "length (cstr b0) - src" arbitrary: b src dst rule: less_induct)
  case less
  note len = cstr_terminated [OF less.prems(1)]
  have here: "b ! src = b0 ! src" using less.prems(2,5) len(1) less.prems(3) by (metis hd_drop_conv_nth le_less_trans)
  have dst: "dst < length b" "src < length b" using less.prems(2-4) len(1) by simp_all
  show ?case
  proof (cases "src = length (cstr b0)")
    case True
    have "take dst b = normal rooted (cstr b0)" using True less.prems(6) by simp
    then have "cstr (b[dst := 0]) = normal rooted (cstr b0)" using dst by (simp add: upd_conv_take_nth_drop)
    moreover have "norm_loop rooted b src dst = Some (b[dst := 0])" using True here len(2) dst by (simp add: norm_loop.simps [of rooted b])
    ultimately show ?thesis using less.prems(2) dst by (simp add: set_update_memI)
  next
    case False
    then have lt: "src < length (cstr b0)" using less.prems(3) by simp
    let ?c = "cstr b0 ! src"
    have c: "b ! src = ?c" "b ! src \<noteq> 0" using here cstr_nth [OF lt] nth_mem [OF lt] by auto
    have grow: "take (Suc src) (cstr b0) = take src (cstr b0) @ [?c]" using lt by (simp add: take_Suc_conv_app_nth)
    have prev: "dst \<noteq> 0 \<longleftrightarrow> take dst b \<noteq> []" "dst \<noteq> 0 \<Longrightarrow> last (take dst b) = b ! (dst - 1)"
      using dst by (cases b; auto simp: last_conv_nth min_def)+
    have drops: "drop (Suc src) b = drop (Suc src) b0" using less.prems(5) by (metis drop_Suc drop_drop plus_1_eq_Suc tl_drop)
    show ?thesis
    proof (cases "rooted \<and> to_bslash ?c = BSLASH \<and> dst \<noteq> 0 \<and> b ! (dst - 1) = BSLASH")
      case True
      have "norm_loop rooted b src dst = norm_loop rooted b (Suc src) dst"
        using True c dst by (subst norm_loop.simps) (auto simp: to_bslash_def Let_def split: if_splits)
      moreover have "take dst b = normal rooted (take (Suc src) (cstr b0))"
        using True prev less.prems(6) grow by (simp add: normal_snoc)
      ultimately show ?thesis
        using less.hyps [of "Suc src" b dst] lt less.prems(1,2,4) drops by simp
    next
      case no: False
      have "norm_loop rooted b src dst = norm_loop rooted (b[dst := to_bslash ?c]) (Suc src) (Suc dst)"
        using no c dst by (auto simp: norm_loop.simps [of rooted b src] to_bslash_def Let_def)
      moreover have "take (Suc dst) (b[dst := to_bslash ?c]) = normal rooted (take (Suc src) (cstr b0))"
        using no prev less.prems(6) grow dst by (auto simp: normal_snoc take_Suc_conv_app_nth)
      moreover have "drop (Suc src) (b[dst := to_bslash ?c]) = drop (Suc src) b0"
        using drops less.prems(4) by simp
      ultimately show ?thesis
        using less.hyps [of "Suc src" "b[dst := to_bslash ?c]" "Suc dst"] lt less.prems(1,2,4) by simp
    qed
  qed
qed

lemma cut_wide_ok:
  assumes "used = length (cstr b)" "0 \<in> set b"
  shows "cstr (cut_wide b used) = take (trim_wide 7 b used) b"
  using assms
proof (induction b used rule: cut_wide.induct)
  case (1 b used)
  note t = cstr_terminated [OF 1(3)]
  show ?case
  proof (cases "used > 7 \<and> is_sep (b ! (used - 1))")
    case False
    then have "cut_wide b used = b" "trim_wide 7 b used = used" by (auto simp: cut_wide.simps [of b used] trim_wide.simps [of 7 b used])
    then show ?thesis using 1(2) t(3) by simp
  next
    case True
    let ?b = "b[used - 1 := 0]"
    have lt: "used - 1 < length b" using 1(2) t(1) by simp
    have cut: "cstr ?b = take (used - 1) b" using cstr_cut [of "used - 1" b] 1(2) lt by simp
    have same: "take (used - 1) ?b = take (used - 1) b" by simp
    have "cstr (cut_wide ?b (used - 1)) = take (trim_wide 7 ?b (used - 1)) ?b"
      using 1(1) [OF True] cut lt by (simp add: set_update_memI)
    also have "trim_wide 7 ?b (used - 1) = trim_wide 7 b (used - 1)" using trim_wide_cong [OF _ same] lt by simp
    also have "take (trim_wide 7 b (used - 1)) ?b = take (trim_wide 7 b (used - 1)) b"
      using trim_wide_bounds(1) [of 7 b "used - 1"] by simp
    finally show ?thesis using True by (simp add: cut_wide.simps [of b used] trim_wide.simps [of 7 b used])
  qed
qed

text \<open>The string \<open>CreateFileW\<close> gets for a root and a relative name.\<close>

definition joined_path :: "wchar list \<Rightarrow> wchar list \<Rightarrow> wchar list" where
  "joined_path base name = (let s = base @ (if name = [] then [] else BSLASH # name) in take (trim_wide 7 s (length s)) s)"

lemma join_path_ok:
  assumes "0 \<in> set base" "0 \<in> set name"
  shows "\<exists>j. join_path base name = Some j \<and> cstr j = joined_path (cstr base) (cstr name)"
proof -
  let ?bl = "length (cstr base)" and ?nl = "length (cstr name)"
  let ?s = "cstr base @ (if cstr name = [] then [] else BSLASH # cstr name)"
  note b = cstr_terminated [OF assms(1)] and n = cstr_terminated [OF assms(2)]
  have nm: "take (Suc ?nl) name = cstr name @ [0]" using n by (simp add: take_Suc_conv_app_nth)
  define j where "j = ?s @ 0 # replicate (if cstr name = [] then 1 else 0) 0"
  have z: "0 \<in> set j" by (simp add: j_def)
  have s0: "0 \<notin> set ?s" by (simp add: BSLASH_def)
  then have c: "cstr j = ?s" unfolding j_def by (rule cstr_append)
  have "join_path base name = Some (cut_wide j (length ?s))"
  proof (cases "cstr name = []")
    case True
    have "drop ?bl (replicate (?bl + 2) (0::wchar)) = [0, 0]" by (subst drop_replicate) (simp add: numeral_2_eq_2)
    then show ?thesis using True assms b z c by (simp add: join_path_def wmemcpy_def j_def)
  next
    case False
    then show ?thesis using assms b nm z c by (simp add: join_path_def wmemcpy_def j_def)
  qed
  moreover have "cstr (cut_wide j (length ?s)) = take (trim_wide 7 j (length ?s)) j" using cut_wide_ok [of _ j] z c by metis
  moreover have "trim_wide 7 ?s (length ?s) = trim_wide 7 j (length ?s)" by (rule trim_wide_cong) (simp_all add: j_def)
  moreover have "trim_wide 7 ?s (length ?s) \<le> length ?s" by (rule trim_wide_bounds)
  ultimately show ?thesis by (simp add: joined_path_def Let_def j_def)
qed

lemma final_path_terminated: "hs_final_path ws t h = Some b \<Longrightarrow> 0 \<in> set b"
  by (auto simp: hs_final_path_def Let_def split: if_splits option.splits)

lemma wide_ok: "hs_wide ws s = Some b \<Longrightarrow> 0 \<in> set b"
  by (auto simp: hs_wide_def split: if_splits option.splits)

subsection \<open>The final check of an opened handle\<close>

text \<open>
  The final path of the file is the final path of the root, up to case and without trailing separators, followed by
  nothing or by a separator; and the directory of that name, opened again, is the same file as the root.
\<close>

definition within_root :: "win_sys \<Rightarrow> nat \<Rightarrow> nat \<Rightarrow> bool" where
  "within_root ws root f \<longleftrightarrow> (\<exists>r p pre rest parent a b. hs_final_path ws 2 root = Some r \<and> hs_final_path ws 3 f = Some p \<and>
     cstr p = pre @ rest \<and> map (ws_lower ws) pre = map (ws_lower ws) (take (trim_wide 4 (cstr r) (length (cstr r))) (cstr r)) \<and>
     (rest = [] \<or> is_sep (hd rest)) \<and> ws_open_attributes ws pre = Inr parent \<and>
     ws_info ws 0 parent = Some a \<and> ws_info ws 1 root = Some b \<and> same_file a b)"

lemma same_parent_ok:
  "\<exists>hs. same_parent ws root pre = ((\<exists>parent a b. ws_open_attributes ws pre = Inr parent \<and> ws_info ws 0 parent = Some a \<and>
     ws_info ws 1 root = Some b \<and> same_file a b), hs, hs)"
  by (auto simp: same_parent_def split: sum.splits option.splits)

lemma beneath_windows_ok:
  "\<exists>hs. hs_beneath_windows ws root f = Some (within_root ws root f, hs, hs)"
proof (cases "hs_final_path ws 2 root = None \<or> hs_final_path ws 3 f = None")
  case True
  then have "\<not> within_root ws root f" by (auto simp: within_root_def)
  then show ?thesis using True by (auto simp: hs_beneath_windows_def split: option.splits)
next
  case False
  then obtain r p where paths: "hs_final_path ws 2 root = Some r" "hs_final_path ws 3 f = Some p" by auto
  note zr = final_path_terminated [OF paths(1)] and zp = final_path_terminated [OF paths(2)]
  note tr = cstr_terminated [OF zr] and tp = cstr_terminated [OF zp]
  let ?n = "trim_wide 4 r (length (cstr r))" and ?lower = "map (ws_lower ws)"
  have n: "?n \<le> length (cstr r)" by (rule trim_wide_bounds)
  have eq: "trim_wide 4 (cstr r) (length (cstr r)) = ?n" using tr by (intro trim_wide_cong) simp_all
  have within: "within_root ws root f \<longleftrightarrow> ?lower (take ?n (cstr p)) = ?lower (take ?n (cstr r)) \<and>
      (drop ?n (cstr p) = [] \<or> is_sep (hd (drop ?n (cstr p)))) \<and>
      (\<exists>parent a b. ws_open_attributes ws (take ?n (cstr p)) = Inr parent \<and> ws_info ws 0 parent = Some a \<and>
         ws_info ws 1 root = Some b \<and> same_file a b)" (is "_ \<longleftrightarrow> ?rhs")
  proof
    assume "within_root ws root f"
    then obtain pre rest parent a b where w: "cstr p = pre @ rest" "?lower pre = ?lower (take ?n (cstr r))"
      "rest = [] \<or> is_sep (hd rest)" "ws_open_attributes ws pre = Inr parent" "ws_info ws 0 parent = Some a"
      "ws_info ws 1 root = Some b" "same_file a b"
      unfolding within_root_def eq paths option.inject by (metis eq)
    have "length pre = ?n" using w(2) n by (metis length_map length_take min.absorb2)
    then show ?rhs using w by auto
  next
    assume ?rhs
    then show "within_root ws root f" unfolding within_root_def paths option.inject using eq by (metis append_take_drop_id)
  qed
  show ?thesis
  proof (cases "wcsnicmp_eq (ws_lower ws) r p ?n")
    case False
    then have "\<not> within_root ws root f" unfolding within wcsnicmp_eq_def by metis
    then show ?thesis using False paths zr zp by (simp add: hs_beneath_windows_def)
  next
    case same: True
    have "length (take ?n (cstr p)) = ?n" using same n unfolding wcsnicmp_eq_def by (metis length_map length_take min.absorb2)
    then have np: "?n \<le> length (cstr p)" by simp
    then have lt: "?n < length p" using tp(1) by simp
    have cut: "cstr (p[?n := 0]) = take ?n (cstr p)" using cstr_cut [OF np lt] np tp(3) by (metis take_take min.absorb1)
    have sep: "p ! ?n = 0 \<or> is_sep (p ! ?n) \<longleftrightarrow> drop ?n (cstr p) = [] \<or> is_sep (hd (drop ?n (cstr p)))"
    proof (cases "?n = length (cstr p)")
      case True
      then show ?thesis using tp(2) by simp
    next
      case False
      then have "?n < length (cstr p)" using np by simp
      then show ?thesis using cstr_nth [of ?n p] nth_mem [of ?n "cstr p"] by (auto simp: hd_drop_conv_nth)
    qed
    obtain hs where "same_parent ws root (take ?n (cstr p)) = ((\<exists>parent a b. ws_open_attributes ws (take ?n (cstr p)) = Inr parent \<and>
        ws_info ws 0 parent = Some a \<and> ws_info ws 1 root = Some b \<and> same_file a b), hs, hs)" using same_parent_ok by blast
    then show ?thesis using same sep lt paths zr zp cut unfolding within wcsnicmp_eq_def
      by (auto simp: hs_beneath_windows_def wcsnicmp_eq_def Let_def)
  qed
qed

subsection \<open>Opening\<close>

text \<open>Metadata on Windows is that of the other branch on the translated answer.\<close>

definition stat_of :: "file_info \<Rightarrow> stat_buf" where
  "stat_of s = \<lparr>st_size = sint (pair64 (fi_size_high s) (fi_size_low s)),
     st_sec = filetime_sec (pair64 (fi_time_high s) (fi_time_low s)), st_nsec = filetime_ns (pair64 (fi_time_high s) (fi_time_low s)),
     st_mode = (if and (fi_attributes s) FILE_ATTRIBUTE_DIRECTORY \<noteq> 0 then S_IFDIR else S_IFREG)\<rparr>"

lemma stat_windows_eq: "hs_stat_windows st save f = hs_stat (map_option stat_of st) save f"
  by (simp add: hs_stat_windows_def hs_stat_def stat_of_def Let_def split: option.splits)

lemma open_error_codes: "open_error e \<in> {- 4, - 5, - 6}"
  by (simp add: open_error_def)

lemma open_checked_ok:
  "\<exists>code f opened closed. open_checked ws root h = Some (code, f, opened, closed) \<and> code \<in> {0, - 4, - 5} \<and> (code = 0 \<longleftrightarrow> f \<noteq> None) \<and>
     mset opened = mset closed + (case f of None \<Rightarrow> {#} | Some v \<Rightarrow> {#f_fd v#}) \<and>
     (\<forall>v. f = Some v \<longrightarrow> f_fd v = h \<and> f_kind v \<in> {1, 2} \<and> (root = None \<longrightarrow> f_kind v = 2) \<and>
        (\<forall>d. root = Some d \<longrightarrow> within_root ws d h))"
proof -
  obtain ok hs where chk: "(case root of None \<Rightarrow> Some (True, [], []) | Some d \<Rightarrow> hs_beneath_windows ws d h) = Some (ok, hs, hs)"
    "ok \<longleftrightarrow> (\<forall>d. root = Some d \<longrightarrow> within_root ws d h)"
  proof (cases root)
    case None
    then show ?thesis using that [of True "[]"] by simp
  next
    case (Some d)
    then show ?thesis using that beneath_windows_ok [of ws d h] by auto
  qed
  obtain c f where st: "hs_stat_windows (ws_info ws 2 h) True (new_file h) = (c, f)" by fastforce
  then have c: "c \<in> {0, - 4}" "c = 0 \<Longrightarrow> f_kind f \<in> {0, 1, 2} \<and> f_fd f = h"
    using stat_codes(2) [of "map_option stat_of (ws_info ws 2 h)" "new_file h"] saved_kind
    by (fastforce simp: stat_windows_eq new_file_def)+
  show ?thesis
  proof (cases "ok \<and> c = 0 \<and> f_kind f \<noteq> 0 \<and> (root = None \<longrightarrow> f_kind f = 2)")
    case True
    then have "open_checked ws root h = Some (0, Some f, h # hs, hs)" using chk(1) st by (auto simp: open_checked_def)
    then show ?thesis using True c chk(2) by simp
  next
    case False
    then obtain code where "open_checked ws root h = Some (code, None, h # hs, hs @ [h])" "code \<in> {- 4, - 5}"
      using chk(1) st c(1) that by (cases ok) (auto simp: open_checked_def)
    then show ?thesis by auto
  qed
qed

text \<open>The name \<open>CreateFileW\<close> gets: rewritten, and below a root joined to the root's final path.\<close>

definition target_path :: "win_sys \<Rightarrow> nat option \<Rightarrow> wchar list \<Rightarrow> wchar list option" where
  "target_path ws root w = (case root of None \<Rightarrow> Some (normal False w)
     | Some d \<Rightarrow> map_option (\<lambda>base. joined_path (cstr base) (normal True w)) (hs_final_path ws 1 d))"

lemma open_target_ok:
  assumes "hs_wide ws path = Some wide"
  shows "\<exists>name p. norm_loop (root \<noteq> None) wide 0 0 = Some name \<and> open_target ws root name = Some p \<and>
    (p \<noteq> None \<longrightarrow> p = target_path ws root (cstr wide))"
proof -
  obtain name where n: "norm_loop (root \<noteq> None) wide 0 0 = Some name" "0 \<in> set name" "cstr name = normal (root \<noteq> None) (cstr wide)"
    using norm_loop_ok [OF wide_ok [OF assms] refl, of 0 0 "root \<noteq> None"] by auto
  have "\<exists>p. open_target ws root name = Some p \<and> (p \<noteq> None \<longrightarrow> p = target_path ws root (cstr wide))"
  proof (cases "\<exists>d base. root = Some d \<and> hs_final_path ws 1 d = Some base")
    case True
    then obtain d base where d: "root = Some d" "hs_final_path ws 1 d = Some base" by blast
    then show ?thesis using join_path_ok [OF final_path_terminated [OF d(2)] n(2)] n(3)
      by (auto simp: open_target_def target_path_def)
  next
    case False
    then show ?thesis using n(3) by (cases root) (auto simp: open_target_def target_path_def split: option.splits)
  qed
  then show ?thesis using n(1) by blast
qed

text \<open>C25: whatever Windows answers and however the file system changes meanwhile, \<open>hs_open\<close> stays in its blocks and returns one of its
  documented codes; it delivers a file exactly with code 0. A delivered file is a file or a directory, a root is a
  directory, and below a root the handle's final path extends that of the root at a separator and the directory of that
  name was opened again and has the volume and index of the root. Every handle opened on the way is closed once, except
  the one in the delivered file.\<close>
theorem windows_open_result:
  "\<exists>code f opened closed. hs_open_windows ws mem root path = Some (code, f, opened, closed) \<and>
     code \<in> {0, - 4, - 5, - 6, - 7} \<and> (code = 0 \<longleftrightarrow> f \<noteq> None) \<and>
     mset opened = mset closed + (case f of None \<Rightarrow> {#} | Some v \<Rightarrow> {#f_fd v#}) \<and>
     (\<forall>v. f = Some v \<longrightarrow> f_kind v \<in> {1, 2} \<and> (root = None \<longrightarrow> f_kind v = 2) \<and>
        (\<forall>d. root = Some d \<longrightarrow> within_root ws d (f_fd v)) \<and>
        (\<exists>wide p. hs_wide ws path = Some wide \<and> target_path ws root (cstr wide) = Some p \<and> ws_open ws p = Inr (f_fd v)))"
proof (cases "mem \<and> hs_wide ws path \<noteq> None")
  case False
  then show ?thesis by (cases mem) (auto simp: hs_open_windows_def)
next
  case True
  then obtain wide where w: "hs_wide ws path = Some wide" by blast
  then obtain name t where t: "norm_loop (root \<noteq> None) wide 0 0 = Some name" "open_target ws root name = Some t"
    "t \<noteq> None \<longrightarrow> t = target_path ws root (cstr wide)" using open_target_ok by blast
  note run = True w t(1,2)
  show ?thesis
  proof (cases t)
    case None
    then show ?thesis using run by (simp add: hs_open_windows_def)
  next
    case (Some p)
    show ?thesis
    proof (cases "ws_open ws p")
      case (Inl e)
      then show ?thesis using run Some open_error_codes [of e] by (auto simp: hs_open_windows_def)
    next
      case (Inr h)
      then have "hs_open_windows ws mem root path = open_checked ws root h" using run Some by (simp add: hs_open_windows_def)
      moreover have "target_path ws root (cstr wide) = Some p" using t(3) Some by simp
      ultimately show ?thesis using open_checked_ok [of ws root h] w Inr by auto
    qed
  qed
qed

text \<open>A disk with a root \<^verbatim>\<open>\\?\C:\w\<close> (handle 1) and the file \<^verbatim>\<open>a\b\<close> in it (handle 2), asked for as \<^verbatim>\<open>a//b/\<close>.\<close>

definition wide_of :: "string \<Rightarrow> wchar list" where
  "wide_of s = map of_char s"

definition demo_win :: win_sys where
  "demo_win = \<lparr>ws_utf16 = \<lambda>s. Some (wide_of s), ws_final_size = \<lambda>t h. 13,
     ws_final_name = \<lambda>t h. Some ([92, 92, 63, 92, 67, 58, 92, 119] @ (if h = 2 then [92, 97, 92, 98] else [])),
     ws_open = \<lambda>p. if p = [92, 92, 63, 92, 67, 58, 92, 119, 92, 97, 92, 98] then Inr 2 else Inl 2,
     ws_open_attributes = \<lambda>p. if p = [92, 92, 63, 92, 67, 58, 92, 119] then Inr 7 else Inl 2,
     ws_info = \<lambda>t h. Some \<lparr>fi_attributes = (if h = 2 then 0x20 else 0x10), fi_volume = 5, fi_index_high = 0,
        fi_index_low = (if h = 2 then 9 else 8), fi_size_high = 0, fi_size_low = 6, fi_time_high = 0, fi_time_low = 0\<rparr>,
     ws_calloc = \<lambda>t n. True, ws_lower = \<lambda>c. c\<rparr>"

theorem windows_open_result_witness:
  "\<exists>f opened closed. hs_open_windows demo_win True (Some 1) ''a//b/'' = Some (0, Some f, opened, closed) \<and> f_kind f = 1 \<and>
     within_root demo_win 1 (f_fd f) \<and> mset opened = mset closed + {#f_fd f#}"
proof -
  have "case hs_open_windows demo_win True (Some 1) ''a//b/'' of Some (c, Some f, _, _) \<Rightarrow> c = 0 \<and> f_kind f = 1 | _ \<Rightarrow> False"
    by code_simp
  then have "\<exists>f opened closed. hs_open_windows demo_win True (Some 1) ''a//b/'' = Some (0, Some f, opened, closed) \<and> f_kind f = 1"
    by (auto split: option.splits)
  then show ?thesis using windows_open_result [of demo_win True "Some 1" "''a//b/''"] by auto
qed

text \<open>An extended path is clean when it has no forward slash and no repeated separator behind its first character.\<close>

definition clean :: "wchar list \<Rightarrow> bool" where
  "clean s \<longleftrightarrow> SLASH \<notin> set s \<and> no_double (tl s)"

lemma joined_path_form:
  assumes "nm \<noteq> []" "\<not> is_sep (hd nm)"
  shows "\<exists>k. joined_path base nm = base @ BSLASH # hd nm # take k (tl nm)"
proof -
  let ?s = "base @ BSLASH # nm"
  let ?t = "trim_wide 7 ?s (length ?s)"
  have hd: "?s ! (length base + 1) = hd nm" using assms(1) by (simp add: nth_append hd_conv_nth)
  have "\<not> ?t \<le> length base + 1"
  proof
    assume "?t \<le> length base + 1"
    moreover have "length base + 1 < length ?s" using assms(1) by simp
    ultimately show False using trim_wide_bounds(4) [of 7 ?s "length ?s"] assms(2) hd by metis
  qed
  then obtain k where "?t = length base + 2 + k" using that [of "?t - (length base + 2)"] by simp
  then have "joined_path base nm = take (length base + 2 + k) ?s" using assms(1) by (simp add: joined_path_def Let_def)
  also have "\<dots> = base @ BSLASH # hd nm # take k (tl nm)" using assms(1) by (cases nm) simp_all
  finally show ?thesis by blast
qed

lemma no_double_take: "no_double w \<Longrightarrow> no_double (take k w)"
  unfolding no_double_def by (metis append_take_drop_id successively_append_iff)

lemma no_double_Cons: "no_double (c # w) \<longleftrightarrow> (w = [] \<or> \<not> (c = BSLASH \<and> hd w = BSLASH)) \<and> no_double w"
  unfolding no_double_def by (cases w) auto

lemma no_double_append:
  "no_double (v @ w) \<longleftrightarrow> no_double v \<and> no_double w \<and> (v = [] \<or> w = [] \<or> \<not> (last v = BSLASH \<and> hd w = BSLASH))"
  unfolding no_double_def by (auto simp: successively_append_iff)

lemma clean_joined:
  assumes "clean base" "2 \<le> length base" "nm \<noteq> []" "\<not> is_sep (hd nm)" "SLASH \<notin> set nm" "no_double nm"
  shows "clean (joined_path base nm) \<longleftrightarrow> last base \<noteq> BSLASH"
proof -
  obtain k where k: "joined_path base nm = base @ BSLASH # hd nm # take k (tl nm)" using joined_path_form [OF assms(3,4)] by blast
  obtain a b rest where "base = a # b # rest" using assms(2) by (cases base; cases "tl base") auto
  then have tl: "tl base \<noteq> []" "last (tl base) = last base" "base \<noteq> []" by simp_all
  have "hd nm # take k (tl nm) = take (Suc k) nm" using assms(3) by (cases nm) simp_all
  then have nd: "no_double (hd nm # take k (tl nm))" using no_double_take [OF assms(6)] by metis
  have "SLASH \<notin> set (joined_path base nm)"
    unfolding k using assms(1,3,5) by (cases nm) (auto simp: clean_def BSLASH_def SLASH_def dest: in_set_takeD)
  moreover have "hd nm \<noteq> BSLASH" using assms(4) by (simp add: is_sep_def)
  ultimately show ?thesis using assms(1) tl nd by (auto simp: clean_def k no_double_append no_double_Cons)
qed


text \<open>A volume as the root: the path for \<^verbatim>\<open>a/b\<close> has a doubled separator.\<close>

definition demo_volume :: win_sys where
  "demo_volume = demo_win\<lparr>ws_final_name := \<lambda>t h. Some [92, 92, 63, 92, 67, 58, 92]\<rparr>"

lemma demo_volume_base: "hs_final_path demo_volume t h = Some ([92, 92, 63, 92, 67, 58, 92] @ replicate 7 0)"
  by (simp add: hs_final_path_def demo_volume_def demo_win_def)


subsection \<open>Metadata\<close>

lemma pair64_uint: "uint (pair64 high low) = uint high * 2 ^ 32 + uint low"
proof -
  have "pair64 high low = push_bit 32 (ucast high) + ucast low"
    unfolding pair64_def by (rule disjunctive_add [symmetric]) (auto simp: bit_simps dest: bit_imp_le_length)
  moreover have "uint high < 2 ^ 32" "uint low < 2 ^ 32" using uint_lt2p [of high] uint_lt2p [of low] by simp_all
  ultimately show ?thesis
    by (simp add: push_bit_eq_mult uint_word_ariths unsigned_ucast_eq take_bit_eq_mod uint_word_of_int)
qed

lemma sint_eq_uint: "uint w < 2 ^ 63 \<Longrightarrow> sint (w :: 64 word) = uint w"
  using signed_take_bit_int_eq_self [of 63 "uint w"] order_trans [OF _ uint_ge_0 [of w], of "- (2 ^ 63)"] by (simp add: sint_uint)

lemma pair64_sint: "uint high < 2 ^ 31 \<Longrightarrow> sint (pair64 high low) = uint high * 2 ^ 32 + uint low"
proof -
  assume high: "uint high < 2 ^ 31"
  have "uint low < 2 ^ 32" using uint_lt2p [of low] by simp
  then have "uint (pair64 high low) < 2 ^ 63" using high by (simp add: pair64_uint)
  then show ?thesis using sint_eq_uint [of "pair64 high low"] by (simp add: pair64_uint)
qed

text \<open>The file time in units of 100 ns since 1601 is kept exactly, as seconds since 1970 and nanoseconds.\<close>

lemma filetime_exact:
  "(filetime_sec t + 11644473600) * 1000000000 + filetime_ns t = uint t * 100" "0 \<le> filetime_ns t" "filetime_ns t < 1000000000"
proof -
  have t: "uint t < 2 ^ 64" "0 \<le> uint t" using uint_lt2p [of t] by simp_all
  have d: "uint (t div 10000000) = uint t div 10000000" "uint (t mod 10000000) = uint t mod 10000000"
    by (simp_all add: uint_div uint_mod)
  have "sint (t div 10000000) = uint t div 10000000" "sint (t mod 10000000) = uint t mod 10000000"
    using t sint_eq_uint [of "t div 10000000"] sint_eq_uint [of "t mod 10000000"] pos_mod_bound [of 10000000 "uint t"] by (simp_all add: d)
  moreover have "uint t div 10000000 * 1000000000 + uint t mod 10000000 * 100 = uint t * 100"
    using div_mult_mod_eq [of "uint t" 10000000] by linarith
  ultimately show "(filetime_sec t + 11644473600) * 1000000000 + filetime_ns t = uint t * 100" "0 \<le> filetime_ns t" "filetime_ns t < 1000000000"
    by (simp_all add: filetime_sec_def filetime_ns_def)
qed

subsection \<open>Reading\<close>

lemma ov_offset_uint:
  assumes "0 \<le> pos" "pos < 2 ^ 63"
  shows "uint (ov_offset_high pos) * 2 ^ 32 + uint (ov_offset pos) = pos"
proof -
  have "uint (word_of_int pos :: 64 word) = pos" using assms by (simp add: uint_word_of_int)
  then have "uint (ov_offset pos) = pos mod 2 ^ 32" "uint (ov_offset_high pos) = (pos div 2 ^ 32) mod 2 ^ 32"
    by (simp_all add: ov_offset_def ov_offset_high_def unsigned_ucast_eq take_bit_eq_mod drop_bit_eq_div uint_div)
  moreover have "pos div 2 ^ 32 < 2 ^ 32" "0 \<le> pos div 2 ^ 32" using assms by simp_all
  ultimately show ?thesis by simp
qed

text \<open>A round as the other branch sees it, for positions of a file.\<close>

definition EIO :: int where "EIO = 5"

fun answer :: "win_read \<Rightarrow> bytes option" where
  "answer (Answered bs) = Some bs"
| "answer (Pending polls (Ended res)) = res"
| "answer _ = None"

definition round_of :: "win_round \<Rightarrow> read_round" where
  "round_of r = (wr_cancelled r, \<lambda>req pos.
     if wr_event r = None \<or> \<not> pos < 2 ^ 63 then Inl EIO
     else case answer (wr_read r req (ov_offset pos) (ov_offset_high pos)) of None \<Rightarrow> Inl EIO | Some bs \<Rightarrow> Inr bs)"

definition never_done :: "win_round \<Rightarrow> bool" where
  "never_done r \<longleftrightarrow> (\<exists>req lo hi polls. wr_read r req lo hi = Pending polls Waiting)"

text \<open>An event is created, the request possibly cancelled, and the event closed, again and again.\<close>

definition one_event :: "nat \<times> nat \<Rightarrow> win_call list" where
  "one_event p = Create_Event (fst p) # replicate (snd p) Cancel_Io @ [Close_Event (fst p)]"

definition events_closed :: "win_call list \<Rightarrow> bool" where
  "events_closed cs \<longleftrightarrow> (\<exists>ps. cs = concat (map one_event ps))"

lemma events_closed_simps [simp]: "events_closed []" "events_closed (one_event p)"
  "events_closed cs \<Longrightarrow> events_closed ds \<Longrightarrow> events_closed (cs @ ds)"
proof -
  show "events_closed []" unfolding events_closed_def by (rule exI [of _ "[]"]) simp
  show "events_closed (one_event p)" unfolding events_closed_def by (rule exI [of _ "[p]"]) simp
  show "events_closed (cs @ ds)" if "events_closed cs" "events_closed ds"
    using that unfolding events_closed_def by (metis concat_append map_append)
qed

lemma read_overlapped_ended:
  assumes "read_overlapped ev r = Ended (res, cs)"
  shows "res = answer r" "events_closed cs"
proof -
  have "res = answer r \<and> (\<exists>k. cs = one_event (ev, k))"
    using assms by (auto simp: read_overlapped_def one_event_def cancel_calls_def split: win_read.splits progress.splits
        intro: exI [of _ 0])
  then show "res = answer r" "events_closed cs" by auto
qed

lemma read_overlapped_waiting: "read_overlapped ev r = Waiting \<Longrightarrow> \<exists>polls. r = Pending polls Waiting"
  by (auto simp: read_overlapped_def split: win_read.splits progress.splits)

definition sim_read :: "(int \<times> 'v \<times> 'd \<times> win_call list) progress option \<Rightarrow> (int \<times> 'v \<times> 'd) progress option \<Rightarrow> bool" where
  "sim_read w l \<longleftrightarrow> (case w of None \<Rightarrow> l = None | Some Waiting \<Rightarrow> l = Some Waiting
     | Some (Ended (c, m, b, cs)) \<Rightarrow> l = Some (Ended (c, m, b)) \<and> events_closed cs)"

lemma sim_read_simps [simp]: "sim_read None None" "sim_read (Some Waiting) (Some Waiting)"
  "sim_read (Some (Ended (c, m, b, cs))) (Some (Ended (c, m, b))) \<longleftrightarrow> events_closed cs"
  by (simp_all add: sim_read_def)

lemma read_loop_round_of:
  "read_loop False (round_of r # rs) offset len n buf =
     (if int n \<ge> len then Some (Ended (0, n, buf))
      else if wr_cancelled r then Some (Ended (- 9, n, buf))
      else if wr_event r = None \<or> \<not> offset + int n < 2 ^ 63 then Some (Ended (- 4, n, buf))
      else case answer (wr_read r (len - int n) (ov_offset (offset + int n)) (ov_offset_high (offset + int n))) of
        None \<Rightarrow> Some (Ended (- 4, n, buf))
      | Some bs \<Rightarrow> if bs = [] then Some (Ended (- 3, n, buf))
          else put_at n bs buf \<bind> read_loop False rs offset len (n + length bs))"
  by (subst read_loop.simps) (simp add: round_of_def read_errno_def EIO_def EINTR_def split: option.split)

lemma read_loop_windows_sim:
  assumes "events_closed calls" "0 \<le> offset" "offset + len \<le> 2 ^ 63"
  shows "read_loop_windows rounds offset len n buf calls = Some Waiting \<and> (\<exists>r\<in>set rounds. never_done r) \<or>
    sim_read (read_loop_windows rounds offset len n buf calls) (read_loop False (map round_of rounds) offset len n buf)"
  using assms(1)
proof (induction rounds arbitrary: n buf calls)
  case Nil
  then show ?case by (simp add: read_loop_windows.simps read_loop.simps)
next
  case (Cons r rounds)
  let ?pos = "offset + int n" and ?req = "len - int n"
  let ?r = "wr_read r ?req (ov_offset ?pos) (ov_offset_high ?pos)"
  show ?case
  proof (cases "int n \<ge> len \<or> wr_cancelled r \<or> wr_event r = None")
    case True
    then show ?thesis using Cons.prems
      by (auto simp: read_loop_windows.simps [of "r # rounds"] read_loop_round_of)
  next
    case False
    then obtain ev where ev: "wr_event r = Some ev" and go: "\<not> int n \<ge> len" "\<not> wr_cancelled r" by auto
    have pos: "?pos < 2 ^ 63" using go assms(3) by simp
    have l: "read_loop False (map round_of (r # rounds)) offset len n buf = (case answer ?r of
        None \<Rightarrow> Some (Ended (- 4, n, buf))
      | Some bs \<Rightarrow> if bs = [] then Some (Ended (- 3, n, buf))
          else put_at n bs buf \<bind> read_loop False (map round_of rounds) offset len (n + length bs))"
      using go ev pos by (simp add: read_loop_round_of)
    show ?thesis
    proof (cases "read_overlapped ev ?r")
      case Waiting
      then show ?thesis using read_overlapped_waiting [OF Waiting] go ev
        by (auto simp: read_loop_windows.simps [of "r # rounds"] never_done_def)
    next
      case (Ended e)
      obtain res cs where e: "e = (res, cs)" by fastforce
      note o = read_overlapped_ended [OF Ended [unfolded e]]
      have c: "events_closed (calls @ cs)" using Cons.prems o(2) by simp
      have w: "read_loop_windows (r # rounds) offset len n buf calls = (case answer ?r of
          None \<Rightarrow> Some (Ended (- 4, n, buf, calls @ cs))
        | Some bs \<Rightarrow> if bs = [] then Some (Ended (- 3, n, buf, calls @ cs))
            else put_at n bs buf \<bind> (\<lambda>buf. read_loop_windows rounds offset len (n + length bs) buf (calls @ cs)))"
        using go ev Ended e o(1) by (simp add: read_loop_windows.simps [of "r # rounds"] split: option.splits)
      show ?thesis using Cons.IH [OF c] c unfolding w l by (auto split: option.splits bind_splits)
    qed
  qed
qed

text \<open>\<open>content\<close> is what the file holds: a request is answered with what stands at the position the two halves name.\<close>

definition reads_windows :: "bytes \<Rightarrow> win_round \<Rightarrow> bool" where
  "reads_windows content r \<longleftrightarrow> (\<forall>req lo hi bs. 0 < req \<and> answer (wr_read r req lo hi) = Some bs \<longrightarrow>
     int (length bs) \<le> req \<and> bs = take (length bs) (drop (nat (uint hi * 2 ^ 32 + uint lo)) content))"

lemma reads_round_of: "reads_windows content r \<Longrightarrow> reads content (round_of r)"
  unfolding reads_def
proof (intro allI impI)
  fix req off bs assume r: "reads_windows content r" and a: "0 < req \<and> 0 \<le> off \<and> snd (round_of r) req off = Inr bs"
  then have off: "off < 2 ^ 63" and ans: "answer (wr_read r req (ov_offset off) (ov_offset_high off)) = Some bs"
    by (auto simp: round_of_def split: if_splits option.splits)
  have "nat (uint (ov_offset_high off) * 2 ^ 32 + uint (ov_offset off)) = nat off" using a off ov_offset_uint by simp
  then show "int (length bs) \<le> req \<and> bs = take (length bs) (drop (nat off) content)"
    using r a ans unfolding reads_windows_def by metis
qed

lemma round_of_not_interrupted: "filter may_interrupt (map round_of rounds) = []"
  by (auto simp: may_interrupt_def round_of_def EIO_def EINTR_def filter_empty_conv split: option.splits)

lemma read_windows_sim:
  assumes "f_size f < 2 ^ 63"
  shows "hs_read_windows st1 st2 mem rounds f offset len = Some Waiting \<and> (\<exists>r\<in>set rounds. never_done r) \<or>
    sim_read (hs_read_windows st1 st2 mem rounds f offset len)
      (hs_read (map_option stat_of st1) (map_option stat_of st2) mem False (map round_of rounds) f offset len)"
proof (cases "fst (hs_stat_windows st1 False f) \<noteq> 0 \<or> bad_range f offset len \<or> mem (nat len + 1) = None")
  case True
  then show ?thesis by (auto simp: hs_read_windows_def hs_read_def stat_windows_eq Let_def)
next
  case False
  then obtain buf where buf: "mem (nat len + 1) = Some buf" and "0 \<le> offset" "offset + len \<le> 2 ^ 63"
    using assms by (auto simp: bad_range_def)
  from read_loop_windows_sim [OF events_closed_simps(1) this(2,3), of rounds 0 buf]
  show ?thesis
  proof (elim disjE conjE)
    assume "read_loop_windows rounds offset len 0 buf [] = Some Waiting" "\<exists>r\<in>set rounds. never_done r"
    then show ?thesis using False buf by (simp add: hs_read_windows_def)
  next
    assume "sim_read (read_loop_windows rounds offset len 0 buf []) (read_loop False (map round_of rounds) offset len 0 buf)"
    then show ?thesis using False buf
      by (auto simp: hs_read_windows_def hs_read_def stat_windows_eq sim_read_def Let_def split: option.splits progress.splits)
  qed
qed

lemma read_windows_ok:
  assumes "\<forall>r\<in>set rounds. reads_windows content r" "\<forall>k b. mem k = Some b \<longrightarrow> length b = k" "f_size f < 2 ^ 63"
  shows "\<exists>p. hs_read_windows st1 st2 mem rounds f offset len = Some p \<and>
    (\<forall>code value d calls. p = Ended (code, value, d, calls) \<longrightarrow> code \<in> {0, - 3, - 4, - 7, - 9} \<and> events_closed calls \<and>
       (code = 0 \<longrightarrow> value = len \<and> fst (hs_stat_windows st2 False f) = 0 \<and>
          (\<exists>buf. d = Some buf \<and> length buf = nat len + 1 \<and> nat len \<le> length (drop (nat offset) content) \<and>
             take (nat len) buf = take (nat len) (drop (nat offset) content)))) \<and>
    (nat len \<le> length rounds \<and> \<not> (\<exists>r\<in>set rounds. never_done r) \<longrightarrow> p \<noteq> Waiting)"
proof -
  have "\<forall>r\<in>set (map round_of rounds). reads content r" using assms(1) reads_round_of by auto
  note ok = read_ok [OF this assms(2), of "map_option stat_of st1" "map_option stat_of st2" False f offset len,
      unfolded round_of_not_interrupted]
  from read_windows_sim [OF assms(3), of st1 st2 mem rounds offset len] show ?thesis
    using ok by (auto simp: stat_windows_eq sim_read_def split: option.splits progress.splits)
qed

text \<open>C26: a read on Windows never writes outside its buffer, closes every event it creates, and when it reports success has the whole
  requested region of the file although each position is passed in two halves. It ends as soon as Windows has answered as
  often as there are bytes to read, unless one of the requests is never completed.\<close>
theorem windows_read_exact:
  assumes "\<forall>r\<in>set rounds. reads_windows content r" "\<forall>k b. mem k = Some b \<longrightarrow> length b = k" "f_size f < 2 ^ 63"
  shows "\<exists>p. hs_read_windows st1 st2 mem rounds f offset len = Some p \<and>
    (\<forall>code value d calls. p = Ended (code, value, d, calls) \<longrightarrow> code \<in> {0, - 3, - 4, - 7, - 9} \<and> events_closed calls \<and>
       (code = 0 \<longrightarrow> value = len \<and> fst (hs_stat_windows st2 False f) = 0 \<and>
          (\<exists>buf. d = Some buf \<and> length buf = nat len + 1 \<and> nat len \<le> length (drop (nat offset) content) \<and>
             take (nat len) buf = take (nat len) (drop (nat offset) content)))) \<and>
    (nat len \<le> length rounds \<and> \<not> (\<exists>r\<in>set rounds. never_done r) \<longrightarrow> p \<noteq> Waiting)"
  using assms by (rule read_windows_ok)

text \<open>The region of a six-byte file in two pieces; the first request is pending for two waits and is cancelled in none.\<close>

definition demo_win_rounds :: "win_round list" where
  "demo_win_rounds =
     [\<lparr>wr_cancelled = False, wr_event = Some 3,
        wr_read = \<lambda>req lo hi. if req = 4 \<and> lo = 1 \<and> hi = 0 then Pending [False, False] (Ended (Some [2, 3])) else Refused\<rparr>,
      \<lparr>wr_cancelled = False, wr_event = Some 4,
        wr_read = \<lambda>req lo hi. if req = 2 \<and> lo = 3 \<and> hi = 0 then Answered [4, 5] else Refused\<rparr>]"

definition demo_win_info :: "file_info option" where
  "demo_win_info = Some \<lparr>fi_attributes = 0x20, fi_volume = 5, fi_index_high = 0, fi_index_low = 9, fi_size_high = 0, fi_size_low = 6,
     fi_time_high = 0, fi_time_low = 0\<rparr>"

definition demo_win_file :: hs_file where
  "demo_win_file = (new_file 7)\<lparr>f_kind := 1, f_size := 6, f_seconds := - 11644473600\<rparr>"

lemma demo_win_reads: "\<forall>r\<in>set demo_win_rounds. reads_windows [1, 2, 3, 4, 5, 6] r"
  by (auto simp: demo_win_rounds_def reads_windows_def split: if_splits)

theorem windows_read_exact_witness:
  "\<exists>buf calls. hs_read_windows demo_win_info demo_win_info (\<lambda>n. Some (replicate n 0)) demo_win_rounds demo_win_file 1 4 =
     Some (Ended (0, 4, Some buf, calls)) \<and> take 4 buf = [2, 3, 4, 5] \<and> events_closed calls"
proof -
  have run: "hs_read_windows demo_win_info demo_win_info (\<lambda>n. Some (replicate n 0)) demo_win_rounds demo_win_file 1 4 =
      Some (Ended (0, 4, Some [2, 3, 4, 5, 0], [Create_Event 3, Close_Event 3, Create_Event 4, Close_Event 4]))" by code_simp
  have "f_size demo_win_file < 2 ^ 63" by (simp add: demo_win_file_def)
  then show ?thesis
    using windows_read_exact [OF demo_win_reads, of "\<lambda>n. Some (replicate n 0)" demo_win_file demo_win_info demo_win_info 1 4] run by auto
qed

subsection \<open>Directory listing\<close>

text \<open>The block holds the entries \<open>es\<close>, each found from the one before it; the last has no next one.\<close>

fun laid_out :: "win_block \<Rightarrow> nat \<Rightarrow> win_entry list \<Rightarrow> bool" where
  "laid_out block off [] \<longleftrightarrow> False"
| "laid_out block off [e] \<longleftrightarrow> off < 65536 \<and> block off = Some e \<and> we_next e = 0"
| "laid_out block off (e # e' # es) \<longleftrightarrow> off < 65536 \<and> block off = Some e \<and> we_next e \<noteq> 0 \<and> laid_out block (off + we_next e) (e' # es)"

definition converts :: "win_entry \<Rightarrow> bool" where
  "converts e \<longleftrightarrow> we_malloc e \<and> we_name e \<noteq> None \<and> we_name e \<noteq> Some []"

definition conversion_error :: "win_entry list \<Rightarrow> int" where
  "conversion_error es = (if \<forall>e\<in>set es. converts e then 0 else EIO)"

lemma conversion_error_simps [simp]:
  "conversion_error [] = 0" "converts e \<Longrightarrow> conversion_error (e # es) = conversion_error es"
  "\<not> converts e \<Longrightarrow> conversion_error (e # es) = EIO"
  by (simp_all add: conversion_error_def)

lemma block_loop_eq:
  "laid_out block off es \<Longrightarrow> block_loop limit block off l = list_loop limit (conversion_error es) (map entry_of (takeWhile converts es)) l"
proof (induction block off es arbitrary: l rule: laid_out.induct)
  case (2 block off e)
  then show ?case by (auto simp: block_loop.simps [of limit block off] converts_def conversion_error_def EIO_def split: bind_splits)
next
  case (3 block off e e' es)
  then have IH: "block_loop limit block (off + we_next e) l =
      list_loop limit (conversion_error (e' # es)) (map entry_of (takeWhile converts (e' # es))) l" for l by simp
  have "block_loop limit block off l = (if \<not> converts e then Some (- 4, l) else do {
      (result, l) \<leftarrow> hs_add_name limit (entry_of e) l;
      if result \<noteq> 0 then Some (result, l) else block_loop limit block (off + we_next e) l })"
    using "3.prems" by (subst block_loop.simps) (auto simp: converts_def)
  then show ?case unfolding IH by (cases "converts e") (simp_all add: EIO_def cong: if_cong)
qed simp

lemma list_loop_append:
  "list_loop limit err (xs @ ys) l = do {
     (c, l) \<leftarrow> list_loop limit 0 xs l;
     if c \<noteq> 0 then Some (c, l) else list_loop limit err ys l }"
proof (induction xs arbitrary: l)
  case (Cons x xs)
  then show ?case by (cases "hs_add_name limit x l") auto
qed simp

lemma list_loop_error_nonzero: "list_loop limit EIO xs l = Some (c, l') \<Longrightarrow> c \<noteq> 0"
  by (induction xs arbitrary: l) (auto simp: EIO_def split: bind_splits if_splits)

definition list_error :: "int \<Rightarrow> win_entry list \<Rightarrow> int" where
  "list_error err es = (if err = ERROR_NO_MORE_FILES then conversion_error es else EIO)"

lemma list_blocks_eq:
  assumes "list_all2 (\<lambda>b es. laid_out b 0 es) blocks ess"
  shows "list_blocks limit err blocks l =
    list_loop limit (list_error err (concat ess)) (map entry_of (takeWhile converts (concat ess))) l"
  using assms
proof (induction blocks ess arbitrary: l rule: list_all2_induct)
  case Nil
  then show ?case by (simp add: list_error_def conversion_error_def EIO_def)
next
  case (Cons b bs es ess)
  show ?case
  proof (cases "\<forall>e\<in>set es. converts e")
    case True
    then have tw: "takeWhile converts (es @ concat ess) = es @ takeWhile converts (concat ess)" "takeWhile converts es = es"
      "conversion_error es = 0" "list_error err (es @ concat ess) = list_error err (concat ess)"
      by (auto simp: takeWhile_append2 takeWhile_eq_all_conv conversion_error_def list_error_def)
    then show ?thesis using block_loop_eq [OF Cons(1)] Cons(3) by (simp add: tw list_loop_append cong: if_cong)
  next
    case False
    then obtain e where e: "e \<in> set es" "\<not> converts e" by blast
    then have "takeWhile converts (es @ concat ess) = takeWhile converts es" "conversion_error es = EIO"
      "list_error err (es @ concat ess) = EIO"
      by (auto simp: takeWhile_append1 conversion_error_def list_error_def)
    then show ?thesis using block_loop_eq [OF Cons(1)] list_loop_error_nonzero
      by (auto simp: bind_eq_Some_conv split: bind_splits prod.splits)
  qed
qed

lemma list_windows_ok:
  assumes "list_all2 (\<lambda>b es. laid_out b 0 es) blocks ess" "0 \<le> limit"
    "\<forall>e\<in>set (concat ess). length (d_name (entry_of e)) \<le> 1024" "f_kind f = 2" "grant" "mem"
  shows "\<exists>code l. hs_list_windows grant mem blocks err f limit = Some (code, l) \<and> listing_ok l \<and> code \<in> {0, - 4, - 7} \<and>
    (\<exists>k. l_names l = take k (filter listed (map (\<lambda>e. d_name (entry_of e)) (concat ess)))) \<and>
    (code = 0 \<longrightarrow> err = ERROR_NO_MORE_FILES \<and> (\<forall>e\<in>set (concat ess). converts e) \<and>
       l_names l = filter listed (map (\<lambda>e. d_name (entry_of e)) (concat ess)) \<and>
       l_charge l = 65536 + sum_list (map name_charge (l_names l)) \<and> sum_list (map name_used (l_names l)) \<le> limit)"
proof -
  let ?l = "empty_listing\<lparr>l_charge := 65536\<rparr>" and ?es = "concat ess"
  let ?run = "map entry_of (takeWhile converts ?es)"
  have ok: "listing_ok ?l" "l_used ?l \<le> l_charge ?l" "l_used ?l \<le> limit" using assms(2) by (simp_all add: listing_ok_def empty_listing_def)
  have short: "\<forall>e\<in>set ?run. length (d_name e) \<le> 1024" using assms(3) by (auto simp del: set_concat dest!: set_takeWhileD)
  obtain c l k where r: "list_loop limit (list_error err ?es) ?run ?l = Some (c, l)" "listing_ok l" "c \<in> {0, - 4, - 7}"
    "l_names l = l_names ?l @ take k (filter listed (map d_name ?run))"
    "c = 0 \<longrightarrow> list_error err ?es = 0 \<and> l_names l = l_names ?l @ filter listed (map d_name ?run) \<and>
       l_charge l = l_charge ?l + sum_list (map name_charge (filter listed (map d_name ?run))) \<and> l_used l \<le> limit \<and>
       l_used l = l_used ?l + sum_list (map name_used (filter listed (map d_name ?run)))"
    using list_loop_ok [OF ok short, of "list_error err ?es"] by blast
  have run: "hs_list_windows grant mem blocks err f limit = Some (c, l)"
    using assms(4-6) r(1) list_blocks_eq [OF assms(1)] by (simp add: hs_list_windows_def)
  have rest: "map (\<lambda>e. d_name (entry_of e)) ?es = map d_name ?run @ map (\<lambda>e. d_name (entry_of e)) (dropWhile converts ?es)"
    by (simp add: o_def flip: map_append)
  have "\<exists>k. l_names l = take k (filter listed (map (\<lambda>e. d_name (entry_of e)) ?es))"
    using r(4) by (intro exI [of _ "min k (length (filter listed (map d_name ?run)))"]) (simp add: rest empty_listing_def min_def)
  moreover have "list_error err ?es = 0 \<longleftrightarrow> err = ERROR_NO_MORE_FILES \<and> (\<forall>e\<in>set ?es. converts e)"
    by (auto simp: list_error_def conversion_error_def EIO_def)
  moreover have "\<forall>e\<in>set ?es. converts e \<Longrightarrow> map d_name ?run = map (\<lambda>e. d_name (entry_of e)) ?es"
    by (simp add: o_def takeWhile_eq_all_conv [THEN iffD2] del: set_concat)
  ultimately show ?thesis using run r(2,3,5) by (auto simp: empty_listing_def)
qed

text \<open>A listing on Windows follows the entries of each block and ends inside it. It never overflows its counters or its array;
  the names it keeps are the first entries in order, without \<open>.\<close> and \<open>..\<close>; with code 0 every name had a conversion, the
  enumeration came to its end, all names are there, and the charge is exactly what they cost.\<close>
theorem windows_list_exact:
  assumes "list_all2 (\<lambda>b es. laid_out b 0 es) blocks ess" "0 \<le> limit"
    "\<forall>e\<in>set (concat ess). length (d_name (entry_of e)) \<le> 1024"
  shows "\<exists>code l. hs_list_windows grant mem blocks err f limit = Some (code, l) \<and> code \<in> {0, - 4, - 6, - 7} \<and>
    int (length (l_names l)) \<le> l_capacity l \<and> 0 \<le> l_charge l \<and> l_charge l \<le> INT_MAX \<and>
    (\<exists>k. l_names l = take k (filter listed (map (\<lambda>e. d_name (entry_of e)) (concat ess)))) \<and>
    (code = 0 \<longrightarrow> f_kind f = 2 \<and> err = ERROR_NO_MORE_FILES \<and> (\<forall>e\<in>set (concat ess). converts e) \<and>
       l_names l = filter listed (map (\<lambda>e. d_name (entry_of e)) (concat ess)) \<and>
       l_charge l = 65536 + sum_list (map name_charge (l_names l)) \<and> sum_list (map name_used (l_names l)) \<le> limit)"
proof (cases "f_kind f = 2 \<and> grant \<and> mem")
  case True
  let ?names = "filter listed (map (\<lambda>e. d_name (entry_of e)) (concat ess))"
  from True have kind: "f_kind f = 2" "grant" "mem" by simp_all
  obtain code l where r: "hs_list_windows grant mem blocks err f limit = Some (code, l)"
    "listing_ok l" "code \<in> {0, - 4, - 7}" "\<exists>k. l_names l = take k ?names"
    "code = 0 \<longrightarrow> err = ERROR_NO_MORE_FILES \<and> (\<forall>e\<in>set (concat ess). converts e) \<and> l_names l = ?names \<and>
       l_charge l = 65536 + sum_list (map name_charge (l_names l)) \<and> sum_list (map name_used (l_names l)) \<le> limit"
    using list_windows_ok [OF assms kind, of err] by (elim exE conjE) (rule that, assumption+, rule exI, assumption+)
  moreover have "code \<in> {0, - 4, - 6, - 7}" using r(3) by blast
  moreover have "int (length (l_names l)) \<le> l_capacity l \<and> 0 \<le> l_charge l \<and> l_charge l \<le> INT_MAX"
    using r(2) by (simp add: listing_ok_def)
  ultimately show ?thesis using kind(1) by (intro exI [of _ code] exI [of _ l] conjI impI; simp del: set_concat)
next
  case False
  then show ?thesis by (auto simp: hs_list_windows_def empty_listing_def intro!: exI [of _ 0])
qed

text \<open>Two entries in one block, 96 bytes apart.\<close>

definition demo_entry :: "nat \<Rightarrow> string \<Rightarrow> win_entry" where
  "demo_entry next s = \<lparr>we_next = next, we_name = Some s, we_malloc = True, we_grant = True, we_realloc = True, we_copy = True\<rparr>"

definition demo_block :: win_block where
  "demo_block off = (if off = 0 then Some (demo_entry 96 ''.'') else if off = 96 then Some (demo_entry 0 ''a'') else None)"

theorem windows_list_exact_witness:
  "\<exists>l. hs_list_windows True True [demo_block] ERROR_NO_MORE_FILES (demo_win_file\<lparr>f_kind := 2\<rparr>) 1000 = Some (0, l) \<and> l_names l = [''a'']"
proof -
  have out: "list_all2 (\<lambda>b es. laid_out b 0 es) [demo_block] [[demo_entry 96 ''.'', demo_entry 0 ''a'']]"
    by (simp add: demo_block_def demo_entry_def)
  have "map_option fst (hs_list_windows True True [demo_block] ERROR_NO_MORE_FILES (demo_win_file\<lparr>f_kind := 2\<rparr>) 1000) = Some 0"
    by (simp add: hs_list_windows_def block_loop.simps demo_block_def demo_entry_def entry_of_def hs_add_name_def Let_def name_used_def
        name_charge_def empty_listing_def demo_win_file_def)
  then show ?thesis
    using windows_list_exact [OF out, of 1000 True True ERROR_NO_MORE_FILES "demo_win_file\<lparr>f_kind := 2\<rparr>"]
    by (auto simp: demo_entry_def entry_of_def listed_def)
qed

subsection \<open>Sending\<close>

text \<open>With code 0 and bytes to send, progress is reported and never more than Windows counted, or the whole region.\<close>

lemma windows_send_progress:
  assumes "hs_send_windows info event send f offset len = Ended (code, value, calls)"
  shows "events_closed calls \<and> code \<in> {0, - 3, - 4} \<and> (code = 0 \<and> len \<noteq> 0 \<longrightarrow> value \<noteq> 0 \<and> fst (hs_stat_windows (info 2) False f) = 0)"
proof -
  have t: "transmit ev r = Ended (res, cs) \<Longrightarrow> \<exists>k. cs = one_event (ev, k)" for ev r res cs
    by (auto simp: transmit_def one_event_def cancel_calls_def split: win_send.splits progress.splits intro: exI [of _ 0])
  show ?thesis using assms stat_codes(1) [of "map_option stat_of (info 0)" False f] stat_codes(1) [of "map_option stat_of (info 2)" False f]
    by (auto simp: hs_send_windows_def stat_windows_eq Let_def dest!: t split: if_splits option.splits progress.splits prod.splits)
qed

subsection \<open>A read job, from the worker to the owner\<close>

lemma windows_read_outcome:
  assumes "run_operation_windows js y (Some f) = Some (Ended r)" "j_operation y = 1" "oc_code r = 0" "f_size f < 2 ^ 63"
    "\<forall>r\<in>set (wj_rounds js). reads_windows content r" "\<forall>k b. wj_malloc js k = Some b \<longrightarrow> length b = k"
  shows "oc_value r = j_length y \<and> (\<exists>buf. oc_data r = Some buf \<and> length buf = nat (j_length y) + 1 \<and>
    take (nat (j_length y)) buf = take (nat (j_length y)) (drop (nat (j_offset y)) content))"
proof -
  obtain code n d cs where rd: "hs_read_windows (wj_info js 0) (wj_info js 1) (wj_malloc js) (wj_rounds js) f (j_offset y) (j_length y) =
      Some (Ended (code, n, d, cs))" "r = (plain_outcome code)\<lparr>oc_value := n, oc_data := d\<rparr>"
    using assms(1,2) by (auto simp: run_operation_windows_def split: bind_splits progress.splits)
  then have "code = 0" using assms(3) by (simp add: plain_outcome_def)
  then show ?thesis
    using read_windows_ok [OF assms(5,6,4), of "wj_info js 0" "wj_info js 1" "j_offset y" "j_length y"] rd by auto
qed

definition windows_serves :: "bytes \<Rightarrow> win_job_sys \<Rightarrow> hs_file \<Rightarrow> bool" where
  "windows_serves content js f \<longleftrightarrow> f_size f < 2 ^ 63 \<and> (\<forall>r\<in>set (wj_rounds js). reads_windows content r) \<and>
     (\<forall>k b. wj_malloc js k = Some b \<longrightarrow> length b = k)"

interpretation windows: job_reader "\<lambda>js y f. run_operation_windows js y (Some f)" windows_serves
  by unfold_locales (use windows_read_outcome in \<open>auto simp: windows_serves_def\<close>)

text \<open>When the worker publishes a successful read, the owner gets exactly the requested region, as on the other platforms.\<close>

lemma windows_read_job_delivered:
  assumes "busy s w = Some (Running j (j_pool y))" "jobs s j = Some y" "pools s (j_pool y) = Some x" "\<not> j_cancelled y" "j_operation y = 1"
    "run_operation_windows js y (Some f) = Some (Ended r)" "oc_code r = 0" "0 \<le> j_length y" "f_size f < 2 ^ 63"
    "\<forall>r\<in>set (wj_rounds js). reads_windows content r" "\<forall>k b. wj_malloc js k = Some b \<longrightarrow> length b = k"
  shows "\<exists>s'. worker_publish w r s = Some s' \<and> hs_io_done j s' = Some True \<and> hs_io_code j s' = Some 0 \<and>
    hs_io_bytes j s' = Some (take (nat (j_length y)) (drop (nat (j_offset y)) content))"
  using windows.delivered [OF assms(1-5), of js f r content] assms(6-11) by (simp add: windows_serves_def)

end
