(* ===== verification/Node_Model.thy ===== *)
theory Node_Model
  imports Bridge_Model
begin

text \<open>
  The Node.js addon, \<^verbatim>\<open>c_abi/node/async_addon.c\<close> and \<^verbatim>\<open>c_abi/node/addon.c\<close>: the environment with its reference and
  pending counts, handles wrapped in JavaScript objects, operations shared by a token and its work, and the
  works whose promises are settled when the library completes them.

  Two threads take part: the host thread, which runs JavaScript, finalizers and deliveries, and the library's notifier,
  which calls \<open>work_completed\<close>. A body under the mutex is one step. The host thread is busy between the call of the
  C ABI and \<open>finish_submit\<close>, and while \<open>work_finalizer\<close> waits for the notifier: \<open>nhost\<close> says so. An access to freed
  memory is \<open>None\<close>.

  The addon is a client of the C ABI. \<open>owned\<close> counts the references it holds on instances, responses,
  chunks, operations and servers (the host's side of the \<open>world\<close> of the runtime); using or releasing what it does not hold is
  \<open>None\<close>. Answers of Node-API, of \<open>calloc\<close> and of the C ABI are arguments.
\<close>

subsection \<open>Objects\<close>

datatype abi_ref = Inst ptr | Resp ptr | Chunk ptr | Oper ptr | Serv ptr

record hs_node_operation =
  no_ptr :: "ptr option"
  no_refs :: int

record hs_node_handle =
  nh_kind :: int
  nh_closed :: bool
  nh_ptr :: "ptr option"

record hs_node_env =
  ne_refs :: int
  ne_pending :: int
  ne_closing :: bool
  ne_cleanup :: bool
  ne_handles :: "ptr list"

text \<open>
  The last three fields are the state of the work's thread-safe function (a call is queued, its last user has released
  it) and of its promise (how often it was settled).
\<close>

record hs_node_work =
  nw_event :: hs_event_t
  nw_operation :: "ptr option"
  nw_native_done :: bool
  nw_finalized :: bool
  nw_queued :: bool
  nw_released :: bool
  nw_settled :: nat

datatype host = HostIdle | Submitting ptr int ptr | Finalizing ptr

record node =
  nenv :: "hs_node_env option"
  nhandles :: "ptr \<rightharpoonup> hs_node_handle"
  nworks :: "ptr \<rightharpoonup> hs_node_work"
  nops :: "ptr \<rightharpoonup> hs_node_operation"
  owned :: "abi_ref \<Rightarrow> int"
  hooks_removed :: nat
  nhost :: host

definition no_event :: hs_event_t where
  "no_event = \<lparr>ev_code = 0, ev_kind = 0, ev_engine = None, ev_server = None, ev_response = None, ev_chunk = None\<rparr>"

text \<open>\<open>async_addon_init\<close>: the environment holds the reference that \<open>env_cleanup\<close> drops.\<close>

definition async_addon_init :: node where
  "async_addon_init = \<lparr>nenv = Some \<lparr>ne_refs = 1, ne_pending = 0, ne_closing = False, ne_cleanup = False, ne_handles = []\<rparr>,
     nhandles = Map.empty, nworks = Map.empty, nops = Map.empty, owned = (\<lambda>_. 0), hooks_removed = 0, nhost = HostIdle\<rparr>"

subsection \<open>References of the C ABI\<close>

definition abi_grant :: "abi_ref \<Rightarrow> node \<Rightarrow> node" where
  "abi_grant r s = s\<lparr>owned := (owned s)(r := owned s r + 1)\<rparr>"

definition abi_use :: "abi_ref \<Rightarrow> node \<Rightarrow> node option" where
  "abi_use r s = (if owned s r > 0 then Some s else None)"

definition abi_release :: "abi_ref \<Rightarrow> node \<Rightarrow> node option" where
  "abi_release r s = (if owned s r > 0 then Some (s\<lparr>owned := (owned s)(r := owned s r - 1)\<rparr>) else None)"

subsection \<open>The environment\<close>

definition node_env_drop :: "node \<Rightarrow> node option" where
  "node_env_drop s = do {
     e \<leftarrow> nenv s;
     let n = ne_refs e - 1
     in Some (s\<lparr>nenv := (if n = 0 then None else Some (e\<lparr>ne_refs := n\<rparr>))\<rparr>)
   }"

definition node_pending_done :: "node \<Rightarrow> node option" where
  "node_pending_done s = do {
     e \<leftarrow> nenv s;
     let e = e\<lparr>ne_pending := ne_pending e - 1\<rparr>
     in Some (if ne_closing e \<and> ne_pending e = 0 \<and> ne_cleanup e
              then s\<lparr>nenv := Some (e\<lparr>ne_cleanup := False\<rparr>), hooks_removed := hooks_removed s + 1\<rparr>
              else s\<lparr>nenv := Some e\<rparr>)
   }"

subsection \<open>Releasing\<close>

text \<open>\<open>cl\<close> is what \<open>hs_engine_close_async\<close> answers for an instance: a code and, with code 0, an operation.\<close>

definition discard_engine :: "(ptr \<Rightarrow> int \<times> ptr) \<Rightarrow> ptr \<Rightarrow> node \<Rightarrow> node option" where
  "discard_engine cl g s = do {
     s \<leftarrow> abi_use (Inst g) s;
     let (rc, q) = cl g;
         s = (if rc = 0 then abi_grant (Oper q) s else s)
     in do {
       s \<leftarrow> abi_release (Inst g) s;
       if rc = 0 then abi_release (Oper q) s else Some s
     }
   }"

definition dispose_event :: "(ptr \<Rightarrow> int \<times> ptr) \<Rightarrow> hs_event_t \<Rightarrow> node \<Rightarrow> (hs_event_t \<times> node) option" where
  "dispose_event cl v s = do {
     s \<leftarrow> (case ev_engine v of None \<Rightarrow> Some s | Some g \<Rightarrow> discard_engine cl g s);
     s \<leftarrow> (case ev_response v of None \<Rightarrow> Some s | Some q \<Rightarrow> abi_release (Resp q) s);
     s \<leftarrow> (case ev_chunk v of None \<Rightarrow> Some s | Some q \<Rightarrow> abi_release (Chunk q) s);
     Some (v\<lparr>ev_engine := None, ev_response := None, ev_chunk := None\<rparr>, s)
   }"

text \<open>One reference to a shared operation is dropped; its memory goes with the last one.\<close>

definition drop_operation :: "ptr \<Rightarrow> hs_node_operation \<Rightarrow> node \<Rightarrow> node" where
  "drop_operation p x s = s\<lparr>nops := (nops s)(p := (if no_refs x - 1 = 0 then None else Some (x\<lparr>no_refs := no_refs x - 1\<rparr>)))\<rparr>"

definition cancel_operation :: "hs_node_operation \<Rightarrow> node \<Rightarrow> node option" where
  "cancel_operation x s = (case no_ptr x of None \<Rightarrow> Some s | Some q \<Rightarrow> abi_use (Oper q) s)"

definition release_node_handle :: "(ptr \<Rightarrow> int \<times> ptr) \<Rightarrow> ptr \<Rightarrow> node \<Rightarrow> node option" where
  "release_node_handle cl p s = do {
     h \<leftarrow> nhandles s p;
     case nh_ptr h of
       None \<Rightarrow> Some s
     | Some q \<Rightarrow> do {
         s \<leftarrow> (if nh_kind h = 1 then (if nh_closed h then abi_release (Inst q) s else discard_engine cl q s)
              else if nh_kind h = 2 then abi_release (Resp q) s
              else if nh_kind h = 3 then do {
                _ \<leftarrow> nenv s;
                x \<leftarrow> nops s q;
                s \<leftarrow> cancel_operation x s;
                Some (drop_operation q x s)
              }
              else if nh_kind h = 4 then abi_release (Serv q) s
              else Some s);
         Some (s\<lparr>nhandles := (nhandles s)(p \<mapsto> h\<lparr>nh_ptr := None\<rparr>)\<rparr>)
       }
   }"

definition handle_finalizer :: "(ptr \<Rightarrow> int \<times> ptr) \<Rightarrow> ptr \<Rightarrow> node \<Rightarrow> node option" where
  "handle_finalizer cl p s = do {
     _ \<leftarrow> nhandles s p;
     e \<leftarrow> nenv s;
     s \<leftarrow> release_node_handle cl p (s\<lparr>nenv := Some (e\<lparr>ne_handles := remove1 p (ne_handles e)\<rparr>)\<rparr>);
     node_env_drop (s\<lparr>nhandles := (nhandles s)(p := None)\<rparr>)
   }"

text \<open>\<open>p\<close> is the block \<open>calloc\<close> returns.\<close>

definition wrap_handle :: "ptr \<Rightarrow> int \<Rightarrow> ptr option \<Rightarrow> node \<Rightarrow> node option" where
  "wrap_handle p kind q s = do {
     e \<leftarrow> nenv s;
     Some (s\<lparr>nenv := Some (e\<lparr>ne_refs := ne_refs e + 1, ne_handles := p # ne_handles e\<rparr>),
             nhandles := (nhandles s)(p \<mapsto> \<lparr>nh_kind = kind, nh_closed = False, nh_ptr = q\<rparr>)\<rparr>)
   }"

text \<open>\<open>get_handle\<close> on an object that wraps handle \<open>p\<close> (\<open>None\<close>: an object without the type tag).\<close>

definition get_handle :: "ptr option \<Rightarrow> int \<Rightarrow> node \<Rightarrow> hs_node_handle option option" where
  "get_handle obj kind s = (case obj of
     None \<Rightarrow> Some None
   | Some p \<Rightarrow> do { h \<leftarrow> nhandles s p; Some (if nh_kind h \<noteq> kind \<or> nh_ptr h = None then None else Some h) })"

definition node_codes :: "string list" where
  "node_codes = [''HS_OK'', ''HS_CONFIG'', ''HS_INVALID_ARGUMENT'', ''HS_IO'', ''HS_CLOSED'', ''HS_UNSUPPORTED'', ''HS_UPSTREAM'',
     ''HS_TIMEOUT'', ''HS_CANCELLED'', ''HS_FILE_CHANGED'', ''HS_LIMIT'', ''HS_BUSY'', ''HS_ABI_MISMATCH'']"

definition node_error :: "int \<Rightarrow> string" where
  "node_error code = (if code \<ge> 0 \<and> code \<le> 12 then node_codes ! nat code else ''HS_IO'')"

subsection \<open>Works\<close>

text \<open>\<open>work_finalizer\<close> up to its wait, and after it.\<close>

definition work_finalizer_begin :: "ptr \<Rightarrow> node \<Rightarrow> node option" where
  "work_finalizer_begin p s = do {
     w \<leftarrow> nworks s p;
     _ \<leftarrow> nenv s;
     s \<leftarrow> (if \<not> nw_native_done w then
             (case nw_operation w of None \<Rightarrow> Some s | Some q \<Rightarrow> do { x \<leftarrow> nops s q; cancel_operation x s })
           else Some s);
     Some (s\<lparr>nworks := (nworks s)(p \<mapsto> w\<lparr>nw_finalized := True\<rparr>), nhost := Finalizing p\<rparr>)
   }"

text \<open>Dropping the operation of a work: its reference on the C ABI's operation goes with it.\<close>

definition release_operation :: "ptr option \<Rightarrow> node \<Rightarrow> node option" where
  "release_operation q s = (case q of
     None \<Rightarrow> Some s
   | Some q \<Rightarrow> do {
       _ \<leftarrow> nenv s;
       x \<leftarrow> nops s q;
       (case no_ptr x of
          None \<Rightarrow> Some (drop_operation q (x\<lparr>no_ptr := None\<rparr>) s)
        | Some r \<Rightarrow> abi_release (Oper r) (drop_operation q (x\<lparr>no_ptr := None\<rparr>) s))
     })"

definition work_finalizer_end :: "(ptr \<Rightarrow> int \<times> ptr) \<Rightarrow> ptr \<Rightarrow> node \<Rightarrow> node option" where
  "work_finalizer_end cl p s = do {
     w \<leftarrow> nworks s p;
     (v, s) \<leftarrow> dispose_event cl (nw_event w) s;
     s \<leftarrow> release_operation (nw_operation w) s;
     s \<leftarrow> node_pending_done s;
     s \<leftarrow> node_env_drop s;
     Some (s\<lparr>nworks := (nworks s)(p := None), nhost := HostIdle\<rparr>)
   }"

text \<open>The result of a completed operation handed to JavaScript; \<open>h\<close> is the block of a new handle.\<close>

definition set_event :: "ptr \<Rightarrow> hs_node_work \<Rightarrow> hs_event_t \<Rightarrow> node \<Rightarrow> node" where
  "set_event p w v s = s\<lparr>nworks := (nworks s)(p \<mapsto> w\<lparr>nw_event := v, nw_queued := False, nw_settled := nw_settled w + 1\<rparr>)\<rparr>"

definition HS_RESULT_ENGINE :: int where "HS_RESULT_ENGINE = 1"
definition HS_RESULT_NEXT :: int where "HS_RESULT_NEXT = 4"

text \<open>The call queued on the thread-safe function runs; \<open>null_env\<close> when Node is already tearing down.\<close>

definition deliver_work :: "(ptr \<Rightarrow> int \<times> ptr) \<Rightarrow> ptr \<Rightarrow> bool \<Rightarrow> ptr \<Rightarrow> node \<Rightarrow> node option" where
  "deliver_work cl h null_env p s = do {
     w \<leftarrow> nworks s p;
     e \<leftarrow> nenv s;
     let v = nw_event w
     in if null_env \<or> ne_closing e then do {
          (v, s) \<leftarrow> dispose_event cl v s;
          Some (s\<lparr>nworks := (nworks s)(p \<mapsto> w\<lparr>nw_event := v, nw_queued := False\<rparr>)\<rparr>)
        }
        else if ev_code v \<noteq> 0 then do {
          (v, s) \<leftarrow> dispose_event cl v s;
          Some (set_event p w v s)
        }
        else if ev_kind v = HS_RESULT_ENGINE then do {
          s \<leftarrow> wrap_handle h 1 (ev_engine v) s;
          Some (set_event p w (v\<lparr>ev_engine := None\<rparr>) s)
        }
        else if ev_kind v = HS_RESULT_HANDLED then do {
          s \<leftarrow> (case ev_response v of None \<Rightarrow> Some s | Some q \<Rightarrow> abi_use (Resp q) s);
          s \<leftarrow> wrap_handle h 2 (ev_response v) s;
          Some (set_event p w (v\<lparr>ev_response := None\<rparr>) s)
        }
        else if ev_kind v = HS_RESULT_CHUNK then do {
          s \<leftarrow> (case ev_chunk v of None \<Rightarrow> Some s | Some q \<Rightarrow> abi_release (Chunk q) s);
          Some (set_event p w (v\<lparr>ev_chunk := None\<rparr>) s)
        }
        else Some (set_event p w v s)
   }"

text \<open>The notifier reports the end of an operation; the event's references now belong to the addon.\<close>

definition grant_event :: "hs_event_t \<Rightarrow> node \<Rightarrow> node" where
  "grant_event v s =
     (let s = (case ev_engine v of None \<Rightarrow> s | Some g \<Rightarrow> abi_grant (Inst g) s);
          s = (case ev_response v of None \<Rightarrow> s | Some q \<Rightarrow> abi_grant (Resp q) s)
      in case ev_chunk v of None \<Rightarrow> s | Some q \<Rightarrow> abi_grant (Chunk q) s)"

definition work_completed :: "ptr \<Rightarrow> hs_event_t \<Rightarrow> node \<Rightarrow> node option" where
  "work_completed p v s = do {
     w \<leftarrow> nworks s p;
     _ \<leftarrow> nenv s;
     let s = grant_event v s;
         w = w\<lparr>nw_event := v\<rparr>;
         w = (if nw_finalized w then w else w\<lparr>nw_queued := True, nw_released := True\<rparr>)
     in Some (s\<lparr>nworks := (nworks s)(p \<mapsto> w\<lparr>nw_native_done := True\<rparr>)\<rparr>)
   }"

text \<open>\<open>new_work\<close>: \<open>mem\<close> is the block \<open>calloc\<close> returns, \<open>napi\<close> whether the promise and the thread-safe function were made.\<close>

definition new_work :: "ptr option \<Rightarrow> bool \<Rightarrow> node \<Rightarrow> (ptr option \<times> node) option" where
  "new_work mem napi s = (case mem of
     None \<Rightarrow> Some (None, s)
   | Some p \<Rightarrow> do {
       e \<leftarrow> nenv s;
       let s = s\<lparr>nenv := Some (e\<lparr>ne_refs := ne_refs e + 1, ne_pending := ne_pending e + 1\<rparr>)\<rparr>
       in if napi then
            Some (Some p, s\<lparr>nworks := (nworks s)(p \<mapsto> \<lparr>nw_event = no_event, nw_operation = None, nw_native_done = False,
              nw_finalized = False, nw_queued = False, nw_released = False, nw_settled = 0\<rparr>)\<rparr>)
          else do {
            s \<leftarrow> node_pending_done s;
            s \<leftarrow> node_env_drop s;
            Some (None, s)
          }
     })"

text \<open>The C ABI answered a submission with \<open>rc\<close> and, with 0, operation \<open>q\<close>.\<close>

definition submitted :: "ptr \<Rightarrow> int \<Rightarrow> ptr \<Rightarrow> node \<Rightarrow> node" where
  "submitted p rc q s = (if rc = 0 then abi_grant (Oper q) s else s)\<lparr>nhost := Submitting p rc q\<rparr>"

text \<open>\<open>finish_submit\<close>; \<open>a\<close> and \<open>h\<close> are the blocks of the shared operation and of its token.\<close>

definition finish_submit :: "ptr \<Rightarrow> ptr \<Rightarrow> ptr \<Rightarrow> int \<Rightarrow> ptr \<Rightarrow> node \<Rightarrow> node option" where
  "finish_submit a h p rc q s = do {
     w \<leftarrow> nworks s p;
     _ \<leftarrow> nenv s;
     if rc \<noteq> 0 then
       Some (s\<lparr>nworks := (nworks s)(p \<mapsto> w\<lparr>nw_native_done := True, nw_released := True, nw_settled := nw_settled w + 1\<rparr>), nhost := HostIdle\<rparr>)
     else
       wrap_handle h 3 (Some a)
         (s\<lparr>nworks := (nworks s)(p \<mapsto> w\<lparr>nw_operation := Some a\<rparr>), nops := (nops s)(a \<mapsto> \<lparr>no_ptr = Some q, no_refs = 2\<rparr>), nhost := HostIdle\<rparr>)
   }"

subsection \<open>Calls from JavaScript\<close>

text \<open>\<open>copy_js_string\<close>: the UTF-8 bytes of a JavaScript string of at most 1 MiB.\<close>

definition copy_js_string :: "bytes option \<Rightarrow> bool \<Rightarrow> bytes option" where
  "copy_js_string v mem = (case v of None \<Rightarrow> None | Some b \<Rightarrow> if length b > 1048576 \<or> \<not> mem then None else Some b)"

text \<open>A work is made and the C ABI called on its behalf.\<close>

definition start_work :: "ptr option \<Rightarrow> bool \<Rightarrow> int \<Rightarrow> ptr \<Rightarrow> node \<Rightarrow> node option" where
  "start_work mem napi rc q s = do {
     (w, s) \<leftarrow> new_work mem napi s;
     Some (case w of None \<Rightarrow> s | Some p \<Rightarrow> submitted p rc q s)
   }"

definition EngineCreate :: "bytes option \<Rightarrow> bool \<Rightarrow> ptr option \<Rightarrow> bool \<Rightarrow> int \<Rightarrow> ptr \<Rightarrow> node \<Rightarrow> node option" where
  "EngineCreate arg mem0 mem napi rc q s = (case copy_js_string arg mem0 of
     None \<Rightarrow> Some s
   | Some json \<Rightarrow> start_work mem napi rc q s)"

definition EngineClose :: "ptr option \<Rightarrow> ptr option \<Rightarrow> bool \<Rightarrow> int \<Rightarrow> ptr \<Rightarrow> node \<Rightarrow> node option" where
  "EngineClose obj mem napi rc q s = do {
     g \<leftarrow> get_handle obj 1 s;
     case g of
       None \<Rightarrow> Some s
     | Some h \<Rightarrow> do {
         (w, s) \<leftarrow> new_work mem napi s;
         (case w of
            None \<Rightarrow> Some s
          | Some p \<Rightarrow> do {
              s \<leftarrow> abi_use (Inst (the (nh_ptr h))) s;
              Some (submitted p rc q
                (if rc = 0 then s\<lparr>nhandles := (nhandles s)(the obj \<mapsto> h\<lparr>nh_closed := True\<rparr>)\<rparr> else s))
            })
       }
   }"

text \<open>
  The arguments of \<open>_submit\<close>: header pairs are copied until one fails. A value comes with whether \<open>malloc\<close> succeeds for
  it. The result is the request for the C ABI, if all is valid.
\<close>

fun copy_pairs :: "((bytes option \<times> bool) \<times> bytes option \<times> bool) list \<Rightarrow> bool \<times> (bytes option \<times> bytes option) list" where
  "copy_pairs [] = (True, [])"
| "copy_pairs (((k, km), v, vm) # ps) =
     (let a = copy_js_string k km; b = (if a = None then None else copy_js_string v vm)
      in if a \<noteq> None \<and> b \<noteq> None then let (ok, hs) = copy_pairs ps in (ok, (a, b) # hs)
         else (False, (a, b) # map (\<lambda>_. (None, None)) ps))"

definition js_span :: "bytes option \<Rightarrow> hs_span_t" where
  "js_span b = \<lparr>sp_data = b, sp_length = of_nat (length (the b))\<rparr>"

record js_submit =
  js_method :: "bytes option \<times> bool"
  js_target :: "bytes option \<times> bool"
  js_pairs :: "((bytes option \<times> bool) \<times> bytes option \<times> bool) list option"
  js_calloc_ok :: bool

definition submit_request :: "js_submit \<Rightarrow> hs_request_t option" where
  "submit_request a = do {
     meth \<leftarrow> copy_js_string (fst (js_method a)) (snd (js_method a));
     target \<leftarrow> copy_js_string (fst (js_target a)) (snd (js_target a));
     ps \<leftarrow> js_pairs a;
     if length ps > 256 \<or> \<not> js_calloc_ok a then None
     else let (valid, hs) = copy_pairs ps
          in if valid then
               Some \<lparr>rq_struct_size = sizeof_request, rq_abi_major = 1, rq_method = js_span (Some meth), rq_target = js_span (Some target),
                 rq_headers = Some (map (\<lambda>(k, v). (js_span k, js_span v)) hs), rq_header_count = of_nat (length ps)\<rparr>
             else None
   }"

text \<open>\<open>abi\<close> is what \<open>hs_submit_async\<close> answers for a request.\<close>

definition EngineSubmit :: "ptr option \<Rightarrow> (hs_request_t \<Rightarrow> int \<times> ptr) \<Rightarrow> js_submit \<Rightarrow> ptr option \<Rightarrow> bool \<Rightarrow> node \<Rightarrow> node option" where
  "EngineSubmit obj abi a mem napi s = do {
     g \<leftarrow> get_handle obj 1 s;
     (case (g, submit_request a) of
        (Some h, Some r) \<Rightarrow> do {
          (w, s) \<leftarrow> new_work mem napi s;
          (case w of
             None \<Rightarrow> Some s
           | Some p \<Rightarrow> do {
               s \<leftarrow> abi_use (Inst (the (nh_ptr h))) s;
               Some (submitted p (fst (abi r)) (snd (abi r)) s)
             })
        }
      | _ \<Rightarrow> Some s)
   }"

definition ResponseRead :: "ptr option \<Rightarrow> ptr option \<Rightarrow> bool \<Rightarrow> int \<Rightarrow> ptr \<Rightarrow> node \<Rightarrow> node option" where
  "ResponseRead obj mem napi rc q s = do {
     g \<leftarrow> get_handle obj 2 s;
     case g of
       None \<Rightarrow> Some s
     | Some h \<Rightarrow> do {
         (w, s) \<leftarrow> new_work mem napi s;
         (case w of
            None \<Rightarrow> Some s
          | Some p \<Rightarrow> do { s \<leftarrow> abi_use (Resp (the (nh_ptr h))) s; Some (submitted p rc q s) })
       }
   }"

definition HandleRelease :: "(ptr \<Rightarrow> int \<times> ptr) \<Rightarrow> ptr option \<Rightarrow> node \<Rightarrow> node option" where
  "HandleRelease cl obj s = (case obj of None \<Rightarrow> Some s | Some p \<Rightarrow> release_node_handle cl p s)"

definition OperationCancel :: "ptr option \<Rightarrow> node \<Rightarrow> node option" where
  "OperationCancel obj s = do {
     g \<leftarrow> get_handle obj 3 s;
     case g of
       None \<Rightarrow> Some s
     | Some h \<Rightarrow> do { _ \<leftarrow> nenv s; x \<leftarrow> nops s (the (nh_ptr h)); cancel_operation x s }
   }"

fun release_all :: "(ptr \<Rightarrow> int \<times> ptr) \<Rightarrow> ptr list \<Rightarrow> node \<Rightarrow> node option" where
  "release_all cl [] s = Some s"
| "release_all cl (p # ps) s = do { s \<leftarrow> release_node_handle cl p s; release_all cl ps s }"

definition env_cleanup :: "(ptr \<Rightarrow> int \<times> ptr) \<Rightarrow> node \<Rightarrow> node option" where
  "env_cleanup cl s = do {
     e \<leftarrow> nenv s;
     s \<leftarrow> release_all cl (ne_handles e)
            (s\<lparr>nenv := Some (e\<lparr>ne_closing := True, ne_cleanup := True, ne_pending := ne_pending e + 1\<rparr>)\<rparr>);
     s \<leftarrow> node_pending_done s;
     node_env_drop s
   }"

text \<open>\<^verbatim>\<open>addon.c\<close>: the blocking calls. \<open>err\<close> and \<open>srv\<close> are what \<open>hs_server_start\<close> answers.\<close>

definition StartServer_js :: "bytes option option \<Rightarrow> bool \<Rightarrow> int \<Rightarrow> ptr \<Rightarrow> ptr \<Rightarrow> node \<Rightarrow> node option" where
  "StartServer_js arg mem err srv h s =
     (if (case arg of None \<Rightarrow> False | Some v \<Rightarrow> copy_js_string v mem = None) then Some s
      else if err \<noteq> HS_OK then Some s
      else wrap_handle h 4 (Some srv) (abi_grant (Serv srv) s))"

definition StopServer :: "ptr option \<Rightarrow> node \<Rightarrow> node option" where
  "StopServer obj s = do {
     g \<leftarrow> get_handle obj 4 s;
     case g of None \<Rightarrow> Some s | Some h \<Rightarrow> abi_use (Serv (the (nh_ptr h))) s
   }"

end
