(* ===== verification/Node_Inv.thy ===== *)
theory Node_Inv
  imports Node_Model
begin

text \<open>
  The invariant of the addon. Every reference on an object of the C ABI is held_refs by exactly one owner: a handle, the
  event of a work, a shared operation, or the host thread between a submission and \<open>finish_submit\<close>. The counts of a
  shared operation, of the environment and of pending works are exact. The releasing functions are
  characterised by their effect: they never fail, and give back exactly the references of what they release.
\<close>

subsection \<open>Who holds what\<close>

definition ref1 :: "abi_ref option \<Rightarrow> abi_ref \<Rightarrow> int" where
  "ref1 a r = of_bool (a = Some r)"

definition href :: "hs_node_handle \<Rightarrow> abi_ref \<Rightarrow> int" where
  "href h = ref1 (if nh_kind h = 1 then map_option Inst (nh_ptr h) else if nh_kind h = 2 then map_option Resp (nh_ptr h)
     else if nh_kind h = 4 then map_option Serv (nh_ptr h) else None)"

definition eref :: "hs_event_t \<Rightarrow> abi_ref \<Rightarrow> int" where
  "eref v r = ref1 (map_option Inst (ev_engine v)) r + ref1 (map_option Resp (ev_response v)) r + ref1 (map_option Chunk (ev_chunk v)) r"

definition oref :: "hs_node_operation \<Rightarrow> abi_ref \<Rightarrow> int" where
  "oref x = ref1 (map_option Oper (no_ptr x))"

fun host_ref :: "host \<Rightarrow> abi_ref \<Rightarrow> int" where
  "host_ref (Submitting p rc q) r = (if rc = 0 then ref1 (Some (Oper q)) r else 0)"
| "host_ref _ r = 0"

definition token :: "hs_node_handle \<Rightarrow> ptr option" where
  "token h = (if nh_kind h = 3 then nh_ptr h else None)"

definition tokens :: "node \<Rightarrow> ptr \<Rightarrow> int" where
  "tokens s q = heap_sum (\<lambda>_ h. of_bool (token h = Some q)) (nhandles s)"

definition users :: "node \<Rightarrow> ptr \<Rightarrow> int" where
  "users s q = heap_sum (\<lambda>_ w. of_bool (nw_operation w = Some q)) (nworks s)"

definition inv_finite :: "node \<Rightarrow> bool" where
  "inv_finite s \<longleftrightarrow> finite (dom (nhandles s)) \<and> finite (dom (nworks s)) \<and> finite (dom (nops s))"

definition held_refs :: "node \<Rightarrow> abi_ref \<Rightarrow> int" where
  "held_refs s r = heap_sum (\<lambda>_ h. href h r) (nhandles s) + heap_sum (\<lambda>_ w. eref (nw_event w) r) (nworks s) +
     heap_sum (\<lambda>_ x. oref x r) (nops s)"

definition inv_owned :: "node \<Rightarrow> bool" where
  "inv_owned s \<longleftrightarrow> (\<forall>r. owned s r = held_refs s r + host_ref (nhost s) r)"

definition inv_nops :: "node \<Rightarrow> bool" where
  "inv_nops s \<longleftrightarrow> (\<forall>q. cell no_refs (nops s q) = tokens s q + users s q) \<and>
     (\<forall>q x. nops s q = Some x \<longrightarrow> 0 < no_refs x \<and> (no_ptr x \<noteq> None \<longrightarrow> 0 < users s q))"

definition size_of :: "('a \<rightharpoonup> 'b) \<Rightarrow> int" where
  "size_of h = int (card (dom h))"

definition env_ok :: "hs_node_env \<Rightarrow> node \<Rightarrow> bool" where
  "env_ok e s \<longleftrightarrow> ne_refs e = of_bool (\<not> ne_closing e) + size_of (nhandles s) + size_of (nworks s) \<and> 0 < ne_refs e \<and>
     ne_pending e = size_of (nworks s) \<and> distinct (ne_handles e) \<and> set (ne_handles e) = dom (nhandles s) \<and>
     (if ne_closing e then ne_cleanup e = (ne_pending e \<noteq> 0) else \<not> ne_cleanup e) \<and>
     hooks_removed s = of_bool (ne_closing e \<and> \<not> ne_cleanup e)"

definition inv_env :: "node \<Rightarrow> bool" where
  "inv_env s \<longleftrightarrow> (case nenv s of
     None \<Rightarrow> nhandles s = Map.empty \<and> nworks s = Map.empty \<and> hooks_removed s = 1
   | Some e \<Rightarrow> env_ok e s)"

definition work_ok :: "hs_node_work \<Rightarrow> bool" where
  "work_ok w \<longleftrightarrow> nw_settled w \<le> 1 \<and> (nw_queued w \<longrightarrow> nw_settled w = 0) \<and>
     (\<not> nw_native_done w \<longrightarrow> nw_event w = no_event \<and> nw_settled w = 0 \<and> \<not> nw_queued w)"

definition inv_works :: "node \<Rightarrow> bool" where
  "inv_works s \<longleftrightarrow> (\<forall>p w. nworks s p = Some w \<longrightarrow> work_ok w)"

fun host_ok :: "host \<Rightarrow> (ptr \<rightharpoonup> hs_node_work) \<Rightarrow> bool" where
  "host_ok HostIdle m \<longleftrightarrow> True"
| "host_ok (Submitting p rc q) m \<longleftrightarrow> (\<exists>w. m p = Some w \<and> nw_operation w = None \<and> \<not> nw_finalized w \<and> nw_settled w = 0 \<and>
     (rc \<noteq> 0 \<longrightarrow> \<not> nw_native_done w))"
| "host_ok (Finalizing p) m \<longleftrightarrow> p \<in> dom m"

definition inv_host :: "node \<Rightarrow> bool" where
  "inv_host s \<longleftrightarrow> host_ok (nhost s) (nworks s)"

definition node_inv :: "node \<Rightarrow> bool" where
  "node_inv s \<longleftrightarrow> inv_finite s \<and> inv_owned s \<and> inv_nops s \<and> inv_env s \<and> inv_works s \<and> inv_host s"

lemmas ref_defs = href_def eref_def oref_def ref1_def

lemma node_invD:
  assumes "node_inv s"
  shows "inv_finite s" "inv_owned s" "inv_nops s" "inv_env s" "inv_works s" "inv_host s"
  using assms by (simp_all add: node_inv_def)

lemma node_invI:
  "inv_finite s \<Longrightarrow> inv_owned s \<Longrightarrow> inv_nops s \<Longrightarrow> inv_env s \<Longrightarrow> inv_works s \<Longrightarrow> inv_host s \<Longrightarrow> node_inv s"
  by (simp add: node_inv_def)

lemma node_init: "node_inv async_addon_init"
  by (simp add: node_inv_def inv_finite_def inv_owned_def inv_nops_def inv_env_def env_ok_def inv_works_def inv_host_def
      async_addon_init_def tokens_def users_def held_refs_def size_of_def)

subsection \<open>Sizes\<close>

lemma size_of_simps [simp]:
  "size_of Map.empty = 0"
  "finite (dom h) \<Longrightarrow> h p = Some x \<Longrightarrow> size_of (h(p \<mapsto> y)) = size_of h"
  "finite (dom h) \<Longrightarrow> h p = None \<Longrightarrow> size_of (h(p \<mapsto> y)) = size_of h + 1"
  by (auto simp: size_of_def insert_absorb domI card_insert_if)

lemma size_of_remove:
  assumes "finite (dom h)" "h p = Some x"
  shows "size_of (h(p := None)) = size_of h - 1"
proof -
  have "Suc (card (dom h - {p})) = card (dom h)" using assms by (intro card_Suc_Diff1) auto
  moreover have "dom (h(p := None)) = dom h - {p}" by auto
  ultimately show ?thesis by (simp add: size_of_def del: card_Diff_insert)
qed

lemma size_of_nonneg [simp]: "0 \<le> size_of h"
  by (simp add: size_of_def)

lemma size_of_pos: "finite (dom h) \<Longrightarrow> h p = Some x \<Longrightarrow> 0 < size_of h"
  by (auto simp: size_of_def card_gt_0_iff)

lemma size_of_zero: "finite (dom h) \<Longrightarrow> size_of h = 0 \<longleftrightarrow> h = Map.empty"
  by (auto simp: size_of_def)

subsection \<open>Shares of the sums\<close>

lemma ref1_nonneg [simp]: "0 \<le> ref1 a r"
  by (simp add: ref1_def)

lemma refs_nonneg [simp]: "0 \<le> href h r" "0 \<le> eref v r" "0 \<le> oref x r" "0 \<le> host_ref t r"
  by (simp_all add: href_def eref_def oref_def) (cases t; simp)

lemma share:
  assumes "inv_finite s"
  shows "nhandles s p = Some h \<Longrightarrow> href h r \<le> held_refs s r" "nworks s q = Some w \<Longrightarrow> eref (nw_event w) r \<le> held_refs s r"
    "nops s a = Some x \<Longrightarrow> oref x r \<le> held_refs s r" "0 \<le> held_refs s r"
proof -
  have n: "0 \<le> heap_sum (\<lambda>_ h. href h r) (nhandles s)" "0 \<le> heap_sum (\<lambda>_ w. eref (nw_event w) r) (nworks s)"
    "0 \<le> heap_sum (\<lambda>_ x. oref x r) (nops s)" by (auto intro: heap_sum_nonneg)
  show "0 \<le> held_refs s r" using n by (simp add: held_refs_def)
  show "href h r \<le> held_refs s r" if "nhandles s p = Some h"
    using heap_sum_ge_cell [of "nhandles s" "\<lambda>_ h. href h r" p h] n assms that by (simp add: held_refs_def inv_finite_def)
  show "eref (nw_event w) r \<le> held_refs s r" if "nworks s q = Some w"
    using heap_sum_ge_cell [of "nworks s" "\<lambda>_ w. eref (nw_event w) r" q w] n assms that by (simp add: held_refs_def inv_finite_def)
  show "oref x r \<le> held_refs s r" if "nops s a = Some x"
    using heap_sum_ge_cell [of "nops s" "\<lambda>_ x. oref x r" a x] n assms that by (simp add: held_refs_def inv_finite_def)
qed

lemma users_nonneg [simp]: "0 \<le> users s q" "0 \<le> tokens s q"
  by (auto simp: users_def tokens_def intro: heap_sum_nonneg)

lemma owned_ge: "inv_owned s \<Longrightarrow> held_refs s r \<le> owned s r"
  by (simp add: inv_owned_def)

text \<open>A referenced operation is there.\<close>

lemma token_live:
  assumes "inv_finite s" "inv_nops s" "nhandles s p = Some h" "token h = Some q"
  shows "\<exists>x. nops s q = Some x"
proof -
  have "of_bool (token h = Some q) \<le> tokens s q" unfolding tokens_def
    using assms heap_sum_ge_cell [of "nhandles s" "\<lambda>_ h. of_bool (token h = Some q)" p h] by (simp add: inv_finite_def)
  moreover have "cell no_refs (nops s q) = tokens s q + users s q" using assms(2) by (simp add: inv_nops_def)
  ultimately have "0 < cell no_refs (nops s q)" using assms(4) users_nonneg(1) [of s q] by (simp del: users_nonneg)
  then show ?thesis by (cases "nops s q") simp_all
qed

lemma user_live:
  assumes "inv_finite s" "inv_nops s" "nworks s p = Some w" "nw_operation w = Some q"
  shows "\<exists>x. nops s q = Some x"
proof -
  have "of_bool (nw_operation w = Some q) \<le> users s q" unfolding users_def
    using assms heap_sum_ge_cell [of "nworks s" "\<lambda>_ w. of_bool (nw_operation w = Some q)" p w] by (simp add: inv_finite_def)
  moreover have "cell no_refs (nops s q) = tokens s q + users s q" using assms(2) by (simp add: inv_nops_def)
  ultimately have "0 < cell no_refs (nops s q)" using assms(4) users_nonneg(2) [of s q] by (simp del: users_nonneg)
  then show ?thesis by (cases "nops s q") simp_all
qed

subsection \<open>How updates change the sums\<close>

lemma held_upd:
  assumes "inv_finite s"
  shows "held_refs (s\<lparr>nhandles := (nhandles s)(p := c)\<rparr>) r = held_refs s r - cell (\<lambda>h. href h r) (nhandles s p) + cell (\<lambda>h. href h r) c"
    "held_refs (s\<lparr>nworks := (nworks s)(p := d)\<rparr>) r = held_refs s r - cell (\<lambda>w. eref (nw_event w) r) (nworks s p) + cell (\<lambda>w. eref (nw_event w) r) d"
    "held_refs (s\<lparr>nops := (nops s)(p := o')\<rparr>) r = held_refs s r - cell (\<lambda>x. oref x r) (nops s p) + cell (\<lambda>x. oref x r) o'"
  using assms by (simp_all add: held_refs_def inv_finite_def heap_sum_set)

lemma tokens_upd:
  "inv_finite s \<Longrightarrow> tokens (s\<lparr>nhandles := (nhandles s)(p := c)\<rparr>) q =
     tokens s q - cell (\<lambda>h. of_bool (token h = Some q)) (nhandles s p) + cell (\<lambda>h. of_bool (token h = Some q)) c"
  by (simp add: tokens_def inv_finite_def heap_sum_set)

lemma users_upd:
  "inv_finite s \<Longrightarrow> users (s\<lparr>nworks := (nworks s)(p := d)\<rparr>) q =
     users s q - cell (\<lambda>w. of_bool (nw_operation w = Some q)) (nworks s p) + cell (\<lambda>w. of_bool (nw_operation w = Some q)) d"
  by (simp add: users_def inv_finite_def heap_sum_set)

text \<open>The sums look at their own heap only.\<close>

lemma node_frame [simp]:
  "held_refs (s\<lparr>nenv := e\<rparr>) = held_refs s" "held_refs (s\<lparr>owned := f\<rparr>) = held_refs s" "held_refs (s\<lparr>nhost := t\<rparr>) = held_refs s" "held_refs (s\<lparr>hooks_removed := k\<rparr>) = held_refs s"
  "tokens (s\<lparr>nenv := e\<rparr>) = tokens s" "tokens (s\<lparr>owned := f\<rparr>) = tokens s" "tokens (s\<lparr>nhost := t\<rparr>) = tokens s"
  "tokens (s\<lparr>hooks_removed := k\<rparr>) = tokens s" "tokens (s\<lparr>nworks := m\<rparr>) = tokens s" "tokens (s\<lparr>nops := n\<rparr>) = tokens s"
  "users (s\<lparr>nenv := e\<rparr>) = users s" "users (s\<lparr>owned := f\<rparr>) = users s" "users (s\<lparr>nhost := t\<rparr>) = users s"
  "users (s\<lparr>hooks_removed := k\<rparr>) = users s" "users (s\<lparr>nhandles := j\<rparr>) = users s" "users (s\<lparr>nops := n\<rparr>) = users s"
  "inv_finite (s\<lparr>nenv := e\<rparr>) = inv_finite s" "inv_finite (s\<lparr>owned := f\<rparr>) = inv_finite s" "inv_finite (s\<lparr>nhost := t\<rparr>) = inv_finite s"
  "inv_finite (s\<lparr>hooks_removed := k\<rparr>) = inv_finite s"
  by (auto simp: held_refs_def tokens_def users_def inv_finite_def fun_eq_iff)

lemma inv_finite_upd [simp]:
  "inv_finite s \<Longrightarrow> inv_finite (s\<lparr>nhandles := (nhandles s)(p := c)\<rparr>)"
  "inv_finite s \<Longrightarrow> inv_finite (s\<lparr>nworks := (nworks s)(p := d)\<rparr>)"
  "inv_finite s \<Longrightarrow> inv_finite (s\<lparr>nops := (nops s)(p := x)\<rparr>)"
  by (cases c; cases d; cases x; simp add: inv_finite_def)+

subsection \<open>Effects\<close>

lemma discard_engine_eq:
  assumes "0 < owned s (Inst g)" "\<forall>r. 0 \<le> owned s r"
  shows "discard_engine cl g s = Some (s\<lparr>owned := (\<lambda>r. owned s r - ref1 (Some (Inst g)) r)\<rparr>)"
proof (cases "cl g")
  case (Pair rc q)
  have "0 < owned s (Oper q) + 1" using assms(2) by (simp add: add_nonneg_pos)
  then show ?thesis
    using assms(1) Pair
    by (auto simp: discard_engine_def abi_use_def abi_grant_def abi_release_def ref1_def fun_eq_iff Let_def intro!: node.equality)
qed

lemma abi_release_eq: "0 < owned s r \<Longrightarrow> abi_release r s = Some (s\<lparr>owned := (\<lambda>r'. owned s r' - ref1 (Some r) r')\<rparr>)"
  by (auto simp: abi_release_def ref1_def fun_eq_iff intro!: node.equality)

lemma dispose_event_eq:
  assumes "\<forall>r. eref v r \<le> owned s r" "\<forall>r. 0 \<le> owned s r"
  shows "dispose_event cl v s = Some (v\<lparr>ev_engine := None, ev_response := None, ev_chunk := None\<rparr>, s\<lparr>owned := (\<lambda>r. owned s r - eref v r)\<rparr>)"
proof -
  have e: "0 < owned s (Inst g)" if "ev_engine v = Some g" for g using assms(1) [rule_format, of "Inst g"] that by (simp add: ref_defs split: if_splits)
  have q: "0 < owned s (Resp g)" if "ev_response v = Some g" for g using assms(1) [rule_format, of "Resp g"] that by (simp add: ref_defs split: if_splits)
  have c: "0 < owned s (Chunk g)" if "ev_chunk v = Some g" for g using assms(1) [rule_format, of "Chunk g"] that by (simp add: ref_defs split: if_splits)
  show ?thesis
    using e q c discard_engine_eq [OF _ assms(2), of _ cl]
    by (cases "ev_engine v"; cases "ev_response v"; cases "ev_chunk v")
      (auto simp: dispose_event_def abi_release_eq ref_defs fun_eq_iff intro!: node.equality)
qed

text \<open>The shared operations after a token \<open>q\<close> was dropped.\<close>

definition dropped :: "ptr option \<Rightarrow> (ptr \<rightharpoonup> hs_node_operation) \<Rightarrow> (ptr \<rightharpoonup> hs_node_operation)" where
  "dropped t m = (case t of None \<Rightarrow> m | Some q \<Rightarrow>
     m(q := (case m q of None \<Rightarrow> None | Some x \<Rightarrow> if no_refs x = 1 then None else Some (x\<lparr>no_refs := no_refs x - 1\<rparr>))))"

lemma dropped_None [simp]: "dropped None m = m"
  by (simp add: dropped_def)

lemma release_node_handle_eq:
  assumes inv: "inv_finite s" "inv_owned s" "inv_nops s" and env: "nenv s \<noteq> None" and h: "nhandles s p = Some h"
  shows "release_node_handle cl p s = Some (s\<lparr>owned := (\<lambda>r. owned s r - href h r), nops := dropped (token h) (nops s),
    nhandles := (nhandles s)(p \<mapsto> h\<lparr>nh_ptr := None\<rparr>)\<rparr>)"
proof (cases "nh_ptr h")
  case None
  then have "h\<lparr>nh_ptr := None\<rparr> = h" by simp
  then show ?thesis using None h by (auto simp: release_node_handle_def ref_defs token_def fun_eq_iff intro!: node.equality)
next
  case (Some q)
  have own: "0 \<le> owned s r" "href h r \<le> owned s r" for r
    using owned_ge [OF inv(2), of r] share(1) [OF inv(1) h, of r] share(4) [OF inv(1), of r] by linarith+
  have op: "\<exists>x. nops s q = Some x \<and> (\<forall>a. no_ptr x = Some a \<longrightarrow> 0 < owned s (Oper a))" if k: "nh_kind h = 3"
  proof -
    have "token h = Some q" using k Some by (simp add: token_def)
    then obtain x where x: "nops s q = Some x" using token_live [OF inv(1,3) h] by blast
    have "0 < owned s (Oper a)" if "no_ptr x = Some a" for a
      using share(3) [OF inv(1) x, of "Oper a"] owned_ge [OF inv(2), of "Oper a"] that by (simp add: ref_defs)
    then show ?thesis using x by blast
  qed
  consider "nh_kind h = 1" | "nh_kind h = 2" | "nh_kind h = 3" | "nh_kind h = 4" | "nh_kind h \<notin> {1, 2, 3, 4}" by blast
  then show ?thesis
  proof cases
    case 1
    then have "0 < owned s (Inst q)" using own(2) [of "Inst q"] Some by (simp add: ref_defs)
    then show ?thesis
      using 1 Some h own(1)
      by (auto simp: release_node_handle_def discard_engine_eq abi_release_eq ref_defs token_def intro!: node.equality)
  next
    case 2
    then have "0 < owned s (Resp q)" using own(2) [of "Resp q"] Some by (simp add: ref_defs)
    then show ?thesis using 2 Some h by (auto simp: release_node_handle_def abi_release_eq ref_defs token_def intro!: node.equality)
  next
    case 3
    obtain x where x: "nops s q = Some x" "\<forall>a. no_ptr x = Some a \<longrightarrow> 0 < owned s (Oper a)" using op [OF 3] by blast
    then have "cancel_operation x s = Some s" by (auto simp: cancel_operation_def abi_use_def split: option.splits)
    then show ?thesis
      using 3 Some h env x(1)
      by (auto simp: release_node_handle_def ref_defs token_def dropped_def drop_operation_def fun_eq_iff intro!: node.equality)
  next
    case 4
    then have "0 < owned s (Serv q)" using own(2) [of "Serv q"] Some by (simp add: ref_defs)
    then show ?thesis using 4 Some h by (auto simp: release_node_handle_def abi_release_eq ref_defs token_def intro!: node.equality)
  next
    case 5
    then show ?thesis using Some h by (auto simp: release_node_handle_def ref_defs token_def fun_eq_iff intro!: node.equality)
  qed
qed

end
