(* ===== verification/Node_Steps.thy ===== *)
theory Node_Steps
  imports Node_Inv
begin

text \<open>Every step of the addon, taken when Node-API takes it, succeeds and keeps the invariant.\<close>

lemmas node_sums = held_refs_def tokens_def users_def heap_sum_set

subsection \<open>Releasing handles\<close>

lemma nops_cell: "inv_nops s \<Longrightarrow> cell no_refs (nops s q) = tokens s q + users s q"
  by (simp add: inv_nops_def)

lemma nops_pos: "inv_nops s \<Longrightarrow> nops s q = Some x \<Longrightarrow> 0 < no_refs x" "inv_nops s \<Longrightarrow> nops s q = Some x \<Longrightarrow> no_ptr x \<noteq> None \<Longrightarrow> 0 < users s q"
  unfolding inv_nops_def by blast+

text \<open>The last reference to an operation is dropped after its work is gone, when it holds nothing.\<close>

lemma last_token_empty:
  assumes "inv_finite s" "inv_nops s" "nhandles s p = Some h" "token h = Some q" "nops s q = Some x" "no_refs x = 1"
  shows "no_ptr x = None"
proof (rule ccontr)
  assume "no_ptr x \<noteq> None"
  then have "0 < users s q" using nops_pos(2) [OF assms(2,5)] by blast
  moreover have "1 \<le> tokens s q" unfolding tokens_def
    using assms heap_sum_ge_cell [of "nhandles s" "\<lambda>_ h. of_bool (token h = Some q)" p h] by (simp add: inv_finite_def)
  ultimately show False using nops_cell [OF assms(2), of q] assms(5,6) by simp
qed

lemma own_at: "inv_owned s \<Longrightarrow> owned s r = held_refs s r + host_ref (nhost s) r"
  by (simp add: inv_owned_def)

definition core :: "node \<Rightarrow> bool" where
  "core s \<longleftrightarrow> inv_finite s \<and> inv_owned s \<and> inv_nops s"

lemma coreD: "core s \<Longrightarrow> inv_finite s" "core s \<Longrightarrow> inv_owned s" "core s \<Longrightarrow> inv_nops s"
  by (simp_all add: core_def)

lemma node_inv_core: "node_inv s \<Longrightarrow> core s"
  by (simp add: node_inv_def core_def)

lemma core_frame [simp]: "core (s\<lparr>nenv := e\<rparr>) = core s" "core (s\<lparr>hooks_removed := k\<rparr>) = core s"
  by (simp_all add: core_def inv_owned_def inv_nops_def)

lemma oref_drop: "oref (x\<lparr>no_refs := n\<rparr>) = oref x"
  by (simp add: oref_def)

lemma release_core:
  assumes c: "core s" and h: "nhandles s p = Some h"
  shows "core (s\<lparr>owned := (\<lambda>r. owned s r - href h r), nops := dropped (token h) (nops s), nhandles := (nhandles s)(p \<mapsto> h\<lparr>nh_ptr := None\<rparr>)\<rparr>)"
    (is "core ?t")
proof -
  note fin = coreD(1) [OF c] and own = coreD(2) [OF c] and nop = coreD(3) [OF c]
  have f: "finite (dom (nhandles s))" "finite (dom (nops s))" "finite (dom (nworks s))" using fin by (simp_all add: inv_finite_def)
  have none: "href (h\<lparr>nh_ptr := None\<rparr>) r = 0" "token (h\<lparr>nh_ptr := None\<rparr>) = None" for r by (simp_all add: ref_defs token_def)
  have tok: "tokens ?t a = tokens s a - of_bool (token h = Some a)" for a using f h none by (simp add: node_sums)
  show ?thesis
  proof (cases "token h")
    case None
    have "held_refs ?t r = held_refs s r - href h r" for r using None f h none by (simp add: node_sums)
    then have "owned ?t r = held_refs ?t r + host_ref (nhost ?t) r" for r using own_at [OF own, of r] by simp
    then have "inv_owned ?t" unfolding inv_owned_def by blast
    then show ?thesis using None fin nop tok by (simp add: core_def inv_nops_def inv_finite_def users_def)
  next
    case (Some q)
    obtain x where x: "nops s q = Some x" using token_live [OF fin nop h Some] by blast
    have last: "no_refs x = 1 \<Longrightarrow> no_ptr x = None" using last_token_empty [OF fin nop h Some x] .
    have href: "href h r = 0" for r using Some by (simp add: ref_defs token_def split: if_splits)
    have "held_refs ?t r = held_refs s r" for r
      using Some f h x none href last by (simp add: node_sums dropped_def oref_drop) (simp add: ref_defs)
    then have "owned ?t r = held_refs ?t r + host_ref (nhost ?t) r" for r using own_at [OF own, of r] href [of r] by simp
    then have o': "inv_owned ?t" unfolding inv_owned_def by blast
    have "cell no_refs (nops ?t a) = tokens ?t a + users ?t a" for a
      using nops_cell [OF nop, of a] tok [of a] Some x by (auto simp: dropped_def users_def)
    moreover have "0 < no_refs y \<and> (no_ptr y \<noteq> None \<longrightarrow> 0 < users ?t a)" if "nops ?t a = Some y" for a y
      using that nops_pos [OF nop, of a] nops_pos(1) [OF nop x] Some x by (auto simp: dropped_def users_def split: if_splits)
    ultimately have "inv_nops ?t" by (simp add: inv_nops_def)
    then show ?thesis using o' fin Some by (simp add: core_def dropped_def inv_finite_def x)
  qed
qed

definition same_rest :: "node \<Rightarrow> node \<Rightarrow> bool" where
  "same_rest s t \<longleftrightarrow> nenv t = nenv s \<and> nworks t = nworks s \<and> nhost t = nhost s \<and> hooks_removed t = hooks_removed s \<and>
     dom (nhandles t) = dom (nhandles s)"

lemma same_rest_refl [simp]: "same_rest s s"
  by (simp add: same_rest_def)

lemma same_rest_trans: "same_rest s t \<Longrightarrow> same_rest t u \<Longrightarrow> same_rest s u"
  by (simp add: same_rest_def)

lemma release_handle_ok:
  assumes "core s" "nenv s \<noteq> None" "nhandles s p = Some h"
  shows "\<exists>t. release_node_handle cl p s = Some t \<and> core t \<and> same_rest s t \<and> nhandles t p = Some (h\<lparr>nh_ptr := None\<rparr>)"
  using release_node_handle_eq [OF coreD [OF assms(1)] assms(2,3)] release_core [OF assms(1,3)] assms(3)
  by (auto simp: same_rest_def)

lemma release_all_ok:
  assumes "core s" "nenv s \<noteq> None" "set ps \<subseteq> dom (nhandles s)"
  shows "\<exists>t. release_all cl ps s = Some t \<and> core t \<and> same_rest s t"
  using assms
proof (induction ps arbitrary: s)
  case (Cons p ps)
  then obtain h where "nhandles s p = Some h" by auto
  then obtain t where t: "release_node_handle cl p s = Some t" "core t" "same_rest s t"
    using release_handle_ok [OF Cons.prems(1,2)] by blast
  then obtain u where "release_all cl ps t = Some u" "core u" "same_rest t u"
    using Cons.IH [OF t(2)] Cons.prems by (auto simp: same_rest_def)
  then show ?case using t same_rest_trans by auto
qed simp

lemma node_inv_rest:
  assumes "node_inv s" "core t" "same_rest s t"
  shows "node_inv t"
proof -
  have "inv_env t" using node_invD(4) [OF assms(1)] assms(2,3)
    by (auto simp: inv_env_def env_ok_def same_rest_def size_of_def split: option.splits)
  moreover have "nworks t = nworks s" "nhost t = nhost s" using assms(3) by (simp_all add: same_rest_def)
  then have "inv_works t" "inv_host t" using node_invD(5,6) [OF assms(1)] by (simp_all add: inv_works_def inv_host_def)
  ultimately show ?thesis using assms(2) by (simp add: node_inv_def core_def)
qed

lemma release_handle_inv:
  assumes "node_inv s" "nhandles s p = Some h"
  shows "\<exists>t. release_node_handle cl p s = Some t \<and> node_inv t \<and> same_rest s t \<and> nhandles t p = Some (h\<lparr>nh_ptr := None\<rparr>)"
proof -
  have "nenv s \<noteq> None" using node_invD(4) [OF assms(1)] assms(2) by (auto simp: inv_env_def split: option.splits)
  then show ?thesis using release_handle_ok [OF node_inv_core [OF assms(1)] _ assms(2)] node_inv_rest [OF assms(1)] by blast
qed

subsection \<open>The environment\<close>

lemma env_of: "node_inv s \<Longrightarrow> nenv s = Some e \<Longrightarrow> env_ok e s"
  using node_invD(4) by (fastforce simp: inv_env_def)

lemma live_env: "node_inv s \<Longrightarrow> nhandles s p = Some h \<Longrightarrow> \<exists>e. nenv s = Some e" "node_inv s \<Longrightarrow> nworks s q = Some w \<Longrightarrow> \<exists>e. nenv s = Some e"
  using node_invD(4) by (fastforce simp: inv_env_def split: option.splits)+

text \<open>A handle that was released goes away with its reference on the environment.\<close>

lemma remove_handle_inv:
  assumes inv: "node_inv s" and h: "nhandles s p = Some h" "nh_ptr h = None" and e: "nenv s = Some e"
  shows "\<exists>t. node_env_drop (s\<lparr>nenv := Some (e\<lparr>ne_handles := remove1 p (ne_handles e)\<rparr>), nhandles := (nhandles s)(p := None)\<rparr>) = Some t \<and> node_inv t"
proof -
  let ?e = "e\<lparr>ne_handles := remove1 p (ne_handles e), ne_refs := ne_refs e - 1\<rparr>"
  let ?t = "s\<lparr>nenv := (if ne_refs e - 1 = 0 then None else Some ?e), nhandles := (nhandles s)(p := None)\<rparr>"
  have f: "finite (dom (nhandles s))" "finite (dom (nworks s))" "finite (dom (nops s))" using node_invD(1) [OF inv] by (simp_all add: inv_finite_def)
  have ok: "env_ok e s" using env_of [OF inv e] .
  have none: "href h r = 0" "token h = None" for r using h by (simp_all add: ref_defs token_def)
  have sums: "held_refs ?t r = held_refs s r" "tokens ?t q = tokens s q" "users ?t q = users s q" for r q using f h none by (simp_all add: node_sums)
  have size: "size_of ((nhandles s)(p := None)) = size_of (nhandles s) - 1" using size_of_remove [OF f(1) h(1)] .
  have "inv_env ?t"
  proof (cases "ne_refs e - 1 = 0")
    case True
    then have z: "of_bool (\<not> ne_closing e) + (size_of (nhandles s) - 1) + size_of (nworks s) = 0" using ok by (simp add: env_ok_def)
    have n: "0 \<le> size_of (nhandles s) - 1" "0 \<le> (of_bool (\<not> ne_closing e) :: int)" "0 \<le> size_of (nworks s)"
      using size size_of_nonneg [of "(nhandles s)(p := None)"] by simp_all
    with z size have "size_of (nworks s) = 0" "size_of ((nhandles s)(p := None)) = 0" "(of_bool (\<not> ne_closing e) :: int) = 0" by linarith+
    then have "nworks s = Map.empty" "(nhandles s)(p := None) = Map.empty" "ne_closing e"
      using f size_of_zero [of "nworks s"] size_of_zero [of "(nhandles s)(p := None)"] by auto
    then show ?thesis using True ok by (simp add: inv_env_def env_ok_def)
  next
    case False
    have "set (remove1 p (ne_handles e)) = dom ((nhandles s)(p := None))" "distinct (remove1 p (ne_handles e))"
      using ok by (auto simp: env_ok_def)
    then show ?thesis using False ok size by (simp add: inv_env_def env_ok_def)
  qed
  moreover have "inv_finite ?t" using f by (simp add: inv_finite_def)
  moreover have "inv_owned ?t" "inv_nops ?t" using node_invD(2,3) [OF inv] sums by (simp_all add: inv_owned_def inv_nops_def)
  moreover have "inv_works ?t" "inv_host ?t" using node_invD(5,6) [OF inv] by (simp_all add: inv_works_def inv_host_def)
  ultimately have "node_inv ?t" by (intro node_invI)
  moreover have "node_env_drop (s\<lparr>nenv := Some (e\<lparr>ne_handles := remove1 p (ne_handles e)\<rparr>), nhandles := (nhandles s)(p := None)\<rparr>) = Some ?t"
    by (auto simp: node_env_drop_def Let_def intro!: node.equality hs_node_env.equality)
  ultimately show ?thesis by blast
qed

lemma handle_finalizer_inv:
  assumes inv: "node_inv s" and h: "nhandles s p = Some h"
  shows "\<exists>t. handle_finalizer cl p s = Some t \<and> node_inv t"
proof -
  obtain e where e: "nenv s = Some e" using live_env(1) [OF inv h] by blast
  note c = coreD [OF node_inv_core [OF inv]]
  let ?u = "s\<lparr>owned := (\<lambda>r. owned s r - href h r), nops := dropped (token h) (nops s), nhandles := (nhandles s)(p \<mapsto> h\<lparr>nh_ptr := None\<rparr>)\<rparr>"
  have u: "node_inv ?u" using release_core [OF node_inv_core [OF inv] h] h
    by (intro node_inv_rest [OF inv]) (auto simp: same_rest_def)
  have c': "inv_finite (s\<lparr>nenv := Some e'\<rparr>)" "inv_owned (s\<lparr>nenv := Some e'\<rparr>)" "inv_nops (s\<lparr>nenv := Some e'\<rparr>)" for e'
    using c by (simp_all add: inv_owned_def inv_nops_def)
  from release_node_handle_eq [OF c', where p = p and h = h and cl = cl] h
  have r: "release_node_handle cl p (s\<lparr>nenv := Some e'\<rparr>) = Some (?u\<lparr>nenv := Some e'\<rparr>)" for e' by simp
  show ?thesis
    using remove_handle_inv [OF u, of p "h\<lparr>nh_ptr := None\<rparr>" e] e h r by (simp add: handle_finalizer_def)
qed

end
