(* ===== verification/Node_Works.thy ===== *)
theory Node_Works
  imports Node_Steps
begin

text \<open>The life of a work: creation, submission, completion, delivery, finalization; and the end of the environment.\<close>

lemma node_finite: "node_inv s \<Longrightarrow> finite (dom (nhandles s)) \<and> finite (dom (nworks s)) \<and> finite (dom (nops s))"
  by (simp add: node_inv_def inv_finite_def)

lemma owned_nonneg: "node_inv s \<Longrightarrow> 0 \<le> owned s r"
  using own_at [OF node_invD(2)] share(4) [OF node_invD(1)] refs_nonneg(4) by (metis add_nonneg_nonneg)

lemma owned_share:
  assumes "node_inv s"
  shows "nhandles s p = Some h \<Longrightarrow> href h r \<le> owned s r" "nworks s q = Some w \<Longrightarrow> eref (nw_event w) r \<le> owned s r"
    "nops s a = Some x \<Longrightarrow> oref x r \<le> owned s r"
  using share [OF node_invD(1) [OF assms]] owned_ge [OF node_invD(2) [OF assms], of r] by (meson order_trans)+

subsection \<open>Changing one work\<close>

lemma update_work_inv:
  assumes inv: "node_inv s" and w: "nworks s p = Some w"
    and t: "nworks t = (nworks s)(p \<mapsto> w')" "nhandles t = nhandles s" "nops t = nops s" "nenv t = nenv s" "hooks_removed t = hooks_removed s"
    and own: "\<forall>r. owned t r = owned s r + eref (nw_event w') r - eref (nw_event w) r" "\<forall>r. host_ref (nhost t) r = host_ref (nhost s) r"
    and w': "nw_operation w' = nw_operation w" "work_ok w'" "host_ok (nhost t) (nworks t)"
  shows "node_inv t"
proof -
  have f: "finite (dom (nworks s))" using node_finite [OF inv] by simp
  have sums: "held_refs t r = held_refs s r - eref (nw_event w) r + eref (nw_event w') r" "tokens t q = tokens s q" "users t q = users s q" for r q
    using f t w w' by (simp_all add: node_sums)
  have size: "size_of (nworks t) = size_of (nworks s)" using t(1) f w by simp
  have "owned t r = held_refs t r + host_ref (nhost t) r" for r
    using own_at [OF node_invD(2) [OF inv], of r] own sums(1) [of r] by simp
  then have "inv_owned t" unfolding inv_owned_def by blast
  moreover have "inv_nops t" using node_invD(3) [OF inv] sums t(3) by (simp add: inv_nops_def)
  moreover have "inv_env t" using node_invD(4) [OF inv] t size w by (auto simp: inv_env_def env_ok_def split: option.splits)
  moreover have "inv_works t" using node_invD(5) [OF inv] t(1) w'(2) by (simp add: inv_works_def)
  moreover have "inv_finite t" using node_invD(1) [OF inv] t by (simp add: inv_finite_def)
  moreover have "inv_host t" using w'(3) by (simp add: inv_host_def)
  ultimately show ?thesis by (intro node_invI)
qed

lemma grant_event_eq: "grant_event v s = s\<lparr>owned := (\<lambda>r. owned s r + eref v r)\<rparr>"
  by (cases "ev_engine v"; cases "ev_response v"; cases "ev_chunk v")
    (auto simp: grant_event_def abi_grant_def ref_defs fun_eq_iff intro!: node.equality)

lemma no_event_ref [simp]: "eref no_event r = 0"
  by (simp add: ref_defs no_event_def)

lemma works_ok: "node_inv s \<Longrightarrow> nworks s p = Some w \<Longrightarrow> work_ok w"
  using node_invD(5) by (simp add: inv_works_def)

definition awaited :: "ptr \<Rightarrow> node \<Rightarrow> bool" where
  "awaited p s \<longleftrightarrow> (\<exists>w. nworks s p = Some w \<and> \<not> nw_native_done w) \<and> (\<forall>rc q. nhost s = Submitting p rc q \<longrightarrow> rc = 0)"

lemma host_ok_upd:
  assumes "host_ok t m" "m p = Some w" "nw_operation w' = nw_operation w" "nw_finalized w' = nw_finalized w" "nw_settled w' = nw_settled w"
    "\<forall>rc q. t = Submitting p rc q \<and> rc \<noteq> 0 \<longrightarrow> nw_native_done w' = nw_native_done w"
  shows "host_ok t (m(p \<mapsto> w'))"
  using assms by (cases t) auto

lemma work_completed_inv:
  assumes inv: "node_inv s" and a: "awaited p s"
  shows "\<exists>t. work_completed p v s = Some t \<and> node_inv t"
proof -
  obtain w where w: "nworks s p = Some w" "\<not> nw_native_done w" using a by (auto simp: awaited_def)
  obtain e where e: "nenv s = Some e" using live_env(2) [OF inv w(1)] by blast
  have ok: "nw_event w = no_event" "nw_settled w = 0" using works_ok [OF inv w(1)] w(2) by (simp_all add: work_ok_def)
  let ?w = "(if nw_finalized w then w else w\<lparr>nw_queued := True, nw_released := True\<rparr>)\<lparr>nw_event := v, nw_native_done := True\<rparr>"
  let ?t = "s\<lparr>owned := (\<lambda>r. owned s r + eref v r), nworks := (nworks s)(p \<mapsto> ?w)\<rparr>"
  have "node_inv ?t"
  proof (rule update_work_inv [OF inv w(1)])
    show "nworks ?t = (nworks s)(p \<mapsto> ?w)" "nhandles ?t = nhandles s" "nops ?t = nops s" "nenv ?t = nenv s" "hooks_removed ?t = hooks_removed s"
      by simp_all
    show "\<forall>r. owned ?t r = owned s r + eref (nw_event ?w) r - eref (nw_event w) r" using ok by simp
    show "work_ok ?w" using works_ok [OF inv w(1)] w(2) ok by (simp add: work_ok_def)
    have "host_ok (nhost s) ((nworks s)(p \<mapsto> ?w))"
      using a by (intro host_ok_upd [where w = w]) (use node_invD(6) [OF inv] w in \<open>auto simp: inv_host_def awaited_def\<close>)
    then show "host_ok (nhost ?t) (nworks ?t)" by simp
  qed simp_all
  moreover have "work_completed p v s = Some ?t"
    using w e by (auto simp: work_completed_def grant_event_eq Let_def intro!: node.equality hs_node_work.equality)
  ultimately show ?thesis by blast
qed

lemma node_cancel_ok:
  assumes "node_inv s" "nops s q = Some x"
  shows "cancel_operation x s = Some s"
proof (cases "no_ptr x")
  case (Some a)
  then show ?thesis using owned_share(3) [OF assms, of "Oper a"] by (simp add: cancel_operation_def abi_use_def ref_defs)
qed (simp add: cancel_operation_def)

lemma finalizer_begin_inv:
  assumes inv: "node_inv s" and w: "nworks s p = Some w" and idle: "nhost s = HostIdle"
  shows "\<exists>t. work_finalizer_begin p s = Some t \<and> node_inv t"
proof -
  obtain e where e: "nenv s = Some e" using live_env(2) [OF inv w] by blast
  let ?t = "s\<lparr>nworks := (nworks s)(p \<mapsto> w\<lparr>nw_finalized := True\<rparr>), nhost := Finalizing p\<rparr>"
  have "node_inv ?t"
    by (rule update_work_inv [OF inv w, of ?t "w\<lparr>nw_finalized := True\<rparr>"]) (use works_ok [OF inv w] idle in \<open>simp_all add: work_ok_def\<close>)
  moreover note node_cancel_ok [OF inv]
  then have "work_finalizer_begin p s = Some ?t"
    using w e user_live [OF node_invD(1,3) [OF inv] w]
    by (auto simp: work_finalizer_begin_def split: option.splits)
  ultimately show ?thesis by blast
qed

subsection \<open>Delivery\<close>

text \<open>A result moves from the event of a work into a new handle.\<close>

lemma hand_over_inv:
  assumes inv: "node_inv s" and w: "nworks s p = Some w" and e: "nenv s = Some e" and h: "nhandles s a = None" and idle: "nhost s = HostIdle"
    and t: "nworks t = (nworks s)(p \<mapsto> w')" "nhandles t = (nhandles s)(a \<mapsto> H)" "nops t = nops s" "hooks_removed t = hooks_removed s" "nhost t = HostIdle"
      "owned t = owned s" "nenv t = Some (e\<lparr>ne_refs := ne_refs e + 1, ne_handles := a # ne_handles e\<rparr>)"
    and own: "\<forall>r. eref (nw_event w) r = href H r + eref (nw_event w') r" "token H = None"
    and w': "nw_operation w' = nw_operation w" "work_ok w'"
  shows "node_inv t"
proof -
  have f: "finite (dom (nworks s))" "finite (dom (nhandles s))" using node_finite [OF inv] by simp_all
  have sums: "held_refs t r = held_refs s r" "tokens t q = tokens s q" "users t q = users s q" for r q
    using f t(1-3) w w' h own by (simp_all add: node_sums)
  have size: "size_of (nworks t) = size_of (nworks s)" "size_of (nhandles t) = size_of (nhandles s) + 1" using t(1,2) f w h by simp_all
  have "inv_owned t" using node_invD(2) [OF inv] t idle sums(1) by (simp add: inv_owned_def)
  moreover have "inv_nops t" using node_invD(3) [OF inv] sums t(3) by (simp add: inv_nops_def)
  moreover have "inv_env t" using env_of [OF inv e] t size h by (auto simp: inv_env_def env_ok_def)
  moreover have "inv_works t" using node_invD(5) [OF inv] t(1) w'(2) by (simp add: inv_works_def)
  moreover have "inv_finite t" using node_invD(1) [OF inv] t by (simp add: inv_finite_def)
  moreover have "inv_host t" using t(5) by (simp add: inv_host_def)
  ultimately show ?thesis by (intro node_invI)
qed

lemma deliver_work_inv:
  assumes inv: "node_inv s" and w: "nworks s p = Some w" "nw_queued w" and h: "nhandles s a = None" and idle: "nhost s = HostIdle"
  shows "\<exists>t. deliver_work cl a nul p s = Some t \<and> node_inv t"
proof -
  obtain e where e: "nenv s = Some e" using live_env(2) [OF inv w(1)] by blast
  have ok: "nw_native_done w" "nw_settled w = 0" using works_ok [OF inv w(1)] w(2) by (auto simp: work_ok_def)
  let ?v = "nw_event w" and ?clear = "(nw_event w)\<lparr>ev_engine := None, ev_response := None, ev_chunk := None\<rparr>"
  have own: "\<forall>r. eref ?v r \<le> owned s r" "\<forall>r. 0 \<le> owned s r" using owned_share(2) [OF inv w(1)] owned_nonneg [OF inv] by blast+
  have clear: "eref ?clear r = 0" for r by (simp add: ref_defs)
  note disp = dispose_event_eq [OF own, of cl]
  note upd = update_work_inv [OF inv w(1)]
  have settle: "node_inv (set_event p w v (s\<lparr>owned := f\<rparr>))" if "\<forall>r. f r = owned s r + eref v r - eref ?v r" for v f
    by (rule upd [of _ "w\<lparr>nw_event := v, nw_queued := False, nw_settled := nw_settled w + 1\<rparr>"])
      (use that idle ok in \<open>simp_all add: set_event_def work_ok_def\<close>)
  have over: "node_inv (set_event p w v (s\<lparr>nenv := Some (e\<lparr>ne_refs := ne_refs e + 1, ne_handles := a # ne_handles e\<rparr>), nhandles := (nhandles s)(a \<mapsto> H)\<rparr>))"
    if "\<forall>r. eref ?v r = href H r + eref v r" "token H = None" for v H
    by (rule hand_over_inv [OF inv w(1) e h idle, of _ "w\<lparr>nw_event := v, nw_queued := False, nw_settled := nw_settled w + 1\<rparr>" H])
      (use that idle ok in \<open>simp_all add: set_event_def work_ok_def\<close>)
  consider (closing) "nul \<or> ne_closing e" | (err) "\<not> (nul \<or> ne_closing e)" "ev_code ?v \<noteq> 0"
    | (eng) "\<not> (nul \<or> ne_closing e)" "ev_code ?v = 0" "ev_kind ?v = HS_RESULT_ENGINE"
    | (hand) "\<not> (nul \<or> ne_closing e)" "ev_code ?v = 0" "ev_kind ?v = HS_RESULT_HANDLED"
    | (chunk) "\<not> (nul \<or> ne_closing e)" "ev_code ?v = 0" "ev_kind ?v = HS_RESULT_CHUNK"
    | (other) "\<not> (nul \<or> ne_closing e)" "ev_code ?v = 0" "ev_kind ?v \<notin> {HS_RESULT_ENGINE, HS_RESULT_HANDLED, HS_RESULT_CHUNK}" by blast
  then show ?thesis
  proof cases
    case closing
    let ?w = "w\<lparr>nw_event := ?clear, nw_queued := False\<rparr>"
    let ?t = "s\<lparr>owned := (\<lambda>r. owned s r - eref ?v r), nworks := (nworks s)(p \<mapsto> ?w)\<rparr>"
    have "node_inv ?t" by (rule upd [of _ ?w]) (use idle ok clear in \<open>simp_all add: work_ok_def\<close>)
    moreover have "deliver_work cl a nul p s = Some ?t" using closing w(1) e disp by (auto simp: deliver_work_def intro!: node.equality)
    ultimately show ?thesis by blast
  next
    case err
    then have "deliver_work cl a nul p s = Some (set_event p w ?clear (s\<lparr>owned := (\<lambda>r. owned s r - eref ?v r)\<rparr>))"
      using w(1) e disp by (simp add: deliver_work_def Let_def)
    then show ?thesis using settle [of "\<lambda>r. owned s r - eref ?v r" ?clear] clear by simp
  next
    case eng
    then have "deliver_work cl a nul p s = Some (set_event p w (?v\<lparr>ev_engine := None\<rparr>) (s\<lparr>nenv := Some (e\<lparr>ne_refs := ne_refs e + 1, ne_handles := a # ne_handles e\<rparr>),
        nhandles := (nhandles s)(a \<mapsto> \<lparr>nh_kind = 1, nh_closed = False, nh_ptr = ev_engine ?v\<rparr>)\<rparr>))"
      using w(1) e by (simp add: deliver_work_def Let_def wrap_handle_def HS_RESULT_ENGINE_def)
    then show ?thesis using over [of "\<lparr>nh_kind = 1, nh_closed = False, nh_ptr = ev_engine ?v\<rparr>" "?v\<lparr>ev_engine := None\<rparr>"] by (simp add: ref_defs token_def)
  next
    case hand
    have "0 < owned s (Resp q)" if "ev_response ?v = Some q" for q
      using own(1) [rule_format, of "Resp q"] that by (simp add: ref_defs split: if_splits)
    then have "deliver_work cl a nul p s = Some (set_event p w (?v\<lparr>ev_response := None\<rparr>) (s\<lparr>nenv := Some (e\<lparr>ne_refs := ne_refs e + 1, ne_handles := a # ne_handles e\<rparr>),
        nhandles := (nhandles s)(a \<mapsto> \<lparr>nh_kind = 2, nh_closed = False, nh_ptr = ev_response ?v\<rparr>)\<rparr>))"
      using hand w(1) e by (simp add: deliver_work_def Let_def wrap_handle_def abi_use_def HS_RESULT_ENGINE_def HS_RESULT_HANDLED_def split: option.splits)
    then show ?thesis using over [of "\<lparr>nh_kind = 2, nh_closed = False, nh_ptr = ev_response ?v\<rparr>" "?v\<lparr>ev_response := None\<rparr>"] by (simp add: ref_defs token_def)
  next
    case chunk
    have "0 < owned s (Chunk q)" if "ev_chunk ?v = Some q" for q
      using own(1) [rule_format, of "Chunk q"] that by (simp add: ref_defs split: if_splits)
    then have "deliver_work cl a nul p s = Some (set_event p w (?v\<lparr>ev_chunk := None\<rparr>) (s\<lparr>owned := (\<lambda>r. owned s r - ref1 (map_option Chunk (ev_chunk ?v)) r)\<rparr>))"
      using chunk w(1) e by (cases "ev_chunk ?v") (simp_all add: deliver_work_def Let_def abi_release_eq ref1_def HS_RESULT_ENGINE_def HS_RESULT_HANDLED_def HS_RESULT_CHUNK_def)
    then show ?thesis
      using settle [of "\<lambda>r. owned s r - ref1 (map_option Chunk (ev_chunk ?v)) r" "?v\<lparr>ev_chunk := None\<rparr>"] by (simp add: eref_def ref1_def)
  next
    case other
    then have "deliver_work cl a nul p s = Some (set_event p w ?v (s\<lparr>owned := owned s\<rparr>))" using w(1) e by (simp add: deliver_work_def Let_def)
    then show ?thesis using settle [of "owned s" ?v] by simp
  qed
qed

subsection \<open>Submission\<close>

lemma new_work_inv:
  assumes inv: "node_inv s" and e: "nenv s = Some e" "\<not> ne_closing e" and p: "\<forall>p. mem = Some p \<longrightarrow> nworks s p = None" and idle: "nhost s = HostIdle"
  shows "\<exists>w t. new_work mem napi s = Some (w, t) \<and> nhandles t = nhandles s \<and> owned t = owned s \<and>
    (case w of None \<Rightarrow> node_inv t | Some p \<Rightarrow> node_inv (submitted p rc q t))"
proof (cases mem)
  case None
  then show ?thesis using inv by (simp add: new_work_def)
next
  case (Some a)
  let ?e = "e\<lparr>ne_refs := ne_refs e + 1, ne_pending := ne_pending e + 1\<rparr>"
  have ok: "env_ok e s" using env_of [OF inv e(1)] .
  show ?thesis
  proof (cases napi)
    case False
    have "0 < ne_refs e" "\<not> ne_cleanup e" using ok e by (simp_all add: env_ok_def)
    then have "new_work mem napi s = Some (None, s)"
      using Some False e by (auto simp: new_work_def node_pending_done_def node_env_drop_def Let_def intro!: node.equality hs_node_env.equality)
    then show ?thesis using inv by simp
  next
    case True
    let ?w = "\<lparr>nw_event = no_event, nw_operation = None, nw_native_done = False, nw_finalized = False, nw_queued = False, nw_released = False, nw_settled = 0\<rparr>"
    let ?t = "s\<lparr>nenv := Some ?e, nworks := (nworks s)(a \<mapsto> ?w)\<rparr>"
    let ?u = "submitted a rc q ?t"
    have a: "nworks s a = None" using p Some by simp
    have f: "finite (dom (nworks s))" "finite (dom (nhandles s))" using node_finite [OF inv] by simp_all
    have u: "nworks ?u = (nworks s)(a \<mapsto> ?w)" "nhandles ?u = nhandles s" "nops ?u = nops s" "nenv ?u = Some ?e" "nhost ?u = Submitting a rc q"
      "hooks_removed ?u = hooks_removed s" "owned ?u r = owned s r + host_ref (Submitting a rc q) r" for r
      by (auto simp: submitted_def abi_grant_def ref1_def)
    have sums: "held_refs ?u r = held_refs s r" "tokens ?u b = tokens s b" "users ?u b = users s b" for r b using f u(1-3) a by (simp_all add: node_sums)
    have "owned ?u r = held_refs ?u r + host_ref (nhost ?u) r" for r
      using own_at [OF node_invD(2) [OF inv], of r] sums(1) [of r] u idle by simp
    then have "inv_owned ?u" unfolding inv_owned_def by blast
    moreover have "inv_nops ?u" using node_invD(3) [OF inv] sums u(3) by (simp add: inv_nops_def)
    moreover have "inv_env ?u" using ok e u(1,2,4,6) f a by (simp add: inv_env_def env_ok_def)
    moreover have "inv_works ?u" using node_invD(5) [OF inv] u(1) by (simp add: inv_works_def work_ok_def)
    moreover have "inv_finite ?u" using node_invD(1) [OF inv] u(1-3) by (simp add: inv_finite_def)
    moreover have "inv_host ?u" using u(1,5) by (simp add: inv_host_def)
    ultimately have "node_inv ?u" by (intro node_invI)
    moreover have "new_work mem napi s = Some (Some a, ?t)"
      using Some True e by (auto simp: new_work_def Let_def intro!: node.equality)
    ultimately show ?thesis by simp
  qed
qed

lemma finish_submit_inv:
  assumes inv: "node_inv s" and host: "nhost s = Submitting p rc q" and a: "nops s a = None" and h: "nhandles s b = None"
  shows "\<exists>t. finish_submit a b p rc q s = Some t \<and> node_inv t"
proof -
  obtain w where w: "nworks s p = Some w" "nw_operation w = None" "nw_settled w = 0" "rc \<noteq> 0 \<longrightarrow> \<not> nw_native_done w"
    using node_invD(6) [OF inv] host by (auto simp: inv_host_def)
  obtain e where e: "nenv s = Some e" using live_env(2) [OF inv w(1)] by blast
  show ?thesis
  proof (cases "rc = 0")
    case False
    let ?w = "w\<lparr>nw_native_done := True, nw_released := True, nw_settled := nw_settled w + 1\<rparr>"
    let ?t = "s\<lparr>nworks := (nworks s)(p \<mapsto> ?w), nhost := HostIdle\<rparr>"
    have "node_inv ?t"
      by (rule update_work_inv [OF inv w(1), of ?t ?w]) (use host False w works_ok [OF inv w(1)] in \<open>auto simp: work_ok_def\<close>)
    moreover have "finish_submit a b p rc q s = Some ?t" using False w(1) e by (simp add: finish_submit_def)
    ultimately show ?thesis by blast
  next
    case True
    let ?w = "w\<lparr>nw_operation := Some a\<rparr>" and ?x = "\<lparr>no_ptr = Some q, no_refs = 2\<rparr>" and ?h = "\<lparr>nh_kind = 3, nh_closed = False, nh_ptr = Some a\<rparr>"
    let ?t = "s\<lparr>nworks := (nworks s)(p \<mapsto> ?w), nops := (nops s)(a \<mapsto> ?x), nhost := HostIdle, nenv := Some (e\<lparr>ne_refs := ne_refs e + 1, ne_handles := b # ne_handles e\<rparr>),
      nhandles := (nhandles s)(b \<mapsto> ?h)\<rparr>"
    have f: "finite (dom (nworks s))" "finite (dom (nhandles s))" "finite (dom (nops s))" using node_finite [OF inv] by simp_all
    have own: "held_refs ?t r = held_refs s r + host_ref (nhost s) r" for r
      using f w h a host True by (simp add: node_sums) (simp add: ref_defs)
    have "tokens s a + users s a = 0" using nops_cell [OF node_invD(3) [OF inv], of a] a by simp
    then have zero: "tokens s a = 0" "users s a = 0" using users_nonneg [of s a] by linarith+
    have cnt: "tokens ?t c = tokens s c + of_bool (c = a)" "users ?t c = users s c + of_bool (c = a)" for c
      using f w h by (auto simp: node_sums token_def)
    have "owned ?t r = held_refs ?t r + host_ref (nhost ?t) r" for r using own_at [OF node_invD(2) [OF inv], of r] own [of r] by simp
    then have "inv_owned ?t" unfolding inv_owned_def by blast
    moreover have "inv_nops ?t"
    proof -
      have "cell no_refs (nops ?t c) = tokens ?t c + users ?t c" for c
        using nops_cell [OF node_invD(3) [OF inv], of c] cnt [of c] zero by (auto split: if_splits)
      moreover have "0 < no_refs x \<and> (no_ptr x \<noteq> None \<longrightarrow> 0 < users ?t c)" if "nops ?t c = Some x" for c x
        using that nops_pos [OF node_invD(3) [OF inv], of c] cnt(2) [of c] zero users_nonneg(1) [of s c]
        by (auto split: if_splits simp del: users_nonneg)
      ultimately show ?thesis unfolding inv_nops_def by blast
    qed
    moreover have "inv_env ?t" using env_of [OF inv e] f w h by (simp add: inv_env_def env_ok_def) auto
    moreover have "inv_works ?t" using node_invD(5) [OF inv] works_ok [OF inv w(1)] by (simp add: inv_works_def work_ok_def)
    moreover have "inv_finite ?t" using node_invD(1) [OF inv] by (simp add: inv_finite_def)
    moreover have "inv_host ?t" by (simp add: inv_host_def)
    ultimately have "node_inv ?t" by (intro node_invI)
    moreover have "finish_submit a b p rc q s = Some ?t"
      using True w(1) e by (auto simp: finish_submit_def wrap_handle_def intro!: node.equality)
    ultimately show ?thesis by blast
  qed
qed

subsection \<open>The end of a work\<close>

text \<open>The operations and references after the work of operation \<open>q\<close> is gone.\<close>

definition retired :: "ptr option \<Rightarrow> (ptr \<rightharpoonup> hs_node_operation) \<Rightarrow> (ptr \<rightharpoonup> hs_node_operation)" where
  "retired c m = (case c of None \<Rightarrow> m | Some q \<Rightarrow>
     m(q := (case m q of None \<Rightarrow> None | Some x \<Rightarrow> if no_refs x = 1 then None else Some (x\<lparr>no_ptr := None, no_refs := no_refs x - 1\<rparr>))))"

definition retired_ref :: "ptr option \<Rightarrow> (ptr \<rightharpoonup> hs_node_operation) \<Rightarrow> abi_ref \<Rightarrow> int" where
  "retired_ref c m r = (case c of None \<Rightarrow> 0 | Some q \<Rightarrow> cell (\<lambda>x. oref x r) (m q))"

lemma release_operation_eq:
  assumes "nenv s \<noteq> None" "\<forall>q. c = Some q \<longrightarrow> nops s q \<noteq> None" "\<forall>r. retired_ref c (nops s) r \<le> owned s r"
  shows "release_operation c s = Some (s\<lparr>nops := retired c (nops s), owned := (\<lambda>r. owned s r - retired_ref c (nops s) r)\<rparr>)"
proof (cases c)
  case None
  then show ?thesis by (simp add: release_operation_def retired_def retired_ref_def)
next
  case (Some q)
  then obtain x where x: "nops s q = Some x" using assms(2) by auto
  have "0 < owned s (Oper a)" if "no_ptr x = Some a" for a
    using assms(3) [rule_format, of "Oper a"] Some x that by (simp add: retired_ref_def ref_defs)
  then show ?thesis
    using Some x assms(1)
    by (cases "no_ptr x")
      (auto simp: release_operation_def retired_def retired_ref_def drop_operation_def abi_release_eq ref_defs fun_eq_iff intro!: node.equality)
qed

lemma retired_nops:
  assumes inv: "node_inv s" and w: "nworks s p = Some w" and t: "nops t = retired (nw_operation w) (nops s)" "nworks t = (nworks s)(p := None)" "nhandles t = nhandles s"
  shows "inv_nops t" "held_refs t r = held_refs s r - eref (nw_event w) r - retired_ref (nw_operation w) (nops s) r"
proof -
  have f: "finite (dom (nworks s))" "finite (dom (nhandles s))" "finite (dom (nops s))" using node_finite [OF inv] by simp_all
  note nop = node_invD(3) [OF inv]
  have cnt: "tokens t c = tokens s c" "users t c = users s c - of_bool (nw_operation w = Some c)" for c using f t w by (simp_all add: node_sums)
  have x: "\<exists>x. nops s q = Some x" if "nw_operation w = Some q" for q using user_live [OF node_invD(1) [OF inv] nop w that] .
  have "cell no_refs (nops t c) = tokens t c + users t c" for c
    using nops_cell [OF nop, of c] cnt [of c] t(1) x [of c] by (cases "nw_operation w") (auto simp: retired_def split: option.splits)
  moreover have "0 < no_refs y \<and> (no_ptr y \<noteq> None \<longrightarrow> 0 < users t c)" if "nops t c = Some y" for c y
    using that nops_pos [OF nop, of c] cnt(2) [of c] t(1) x [of c]
    by (cases "nw_operation w") (fastforce simp: retired_def split: option.splits if_splits)+
  ultimately show "inv_nops t" unfolding inv_nops_def by blast
  show "held_refs t r = held_refs s r - eref (nw_event w) r - retired_ref (nw_operation w) (nops s) r"
  proof (cases "nw_operation w")
    case None
    then show ?thesis using f t w by (simp add: node_sums retired_def retired_ref_def)
  next
    case (Some q)
    then obtain y where y: "nops s q = Some y" using x by blast
    then show ?thesis using f t w Some by (simp add: node_sums retired_def retired_ref_def) (simp add: ref_defs)
  qed
qed

lemma finalizer_end_inv:
  assumes inv: "node_inv s" and host: "nhost s = Finalizing p" and w: "nworks s p = Some w"
  shows "\<exists>t. work_finalizer_end cl p s = Some t \<and> node_inv t"
proof -
  let ?c = "nw_operation w" and ?v = "nw_event w"
  obtain e where e: "nenv s = Some e" using live_env(2) [OF inv w] by blast
  have ok: "env_ok e s" using env_of [OF inv e] .
  have f: "finite (dom (nworks s))" "finite (dom (nhandles s))" using node_finite [OF inv] by simp_all
  have own: "\<forall>r. eref ?v r \<le> owned s r" "\<forall>r. 0 \<le> owned s r" using owned_share(2) [OF inv w] owned_nonneg [OF inv] by blast+
  let ?h = "ne_closing e \<and> ne_pending e = 1 \<and> ne_cleanup e"
  let ?e = "e\<lparr>ne_pending := ne_pending e - 1, ne_cleanup := (if ?h then False else ne_cleanup e), ne_refs := ne_refs e - 1\<rparr>"
  let ?t = "s\<lparr>owned := (\<lambda>r. owned s r - eref ?v r - retired_ref ?c (nops s) r), nops := retired ?c (nops s), nworks := (nworks s)(p := None),
    nhost := HostIdle, hooks_removed := hooks_removed s + of_bool ?h, nenv := (if ne_refs e = 1 then None else Some ?e)\<rparr>"
  have held_t: "inv_nops ?t" "\<And>r. held_refs ?t r = held_refs s r - eref ?v r - retired_ref ?c (nops s) r"
    using retired_nops [OF inv w, of ?t] by simp_all
  have fin: "inv_finite ?t" using node_invD(1) [OF inv] by (simp add: inv_finite_def retired_def split: option.splits)
  have ge: "eref ?v r + retired_ref ?c (nops s) r \<le> owned s r" for r
    using held_t(2) [of r] share(4) [OF fin, of r] own_at [OF node_invD(2) [OF inv], of r] host by simp
  have r: "release_operation ?c (s\<lparr>owned := (\<lambda>r. owned s r - eref ?v r)\<rparr>) =
      Some (s\<lparr>owned := (\<lambda>r. owned s r - eref ?v r - retired_ref ?c (nops s) r), nops := retired ?c (nops s)\<rparr>)"
  proof -
    have "\<forall>r. retired_ref ?c (nops s) r \<le> owned s r - eref ?v r" using ge by (simp add: algebra_simps)
    then show ?thesis
      using release_operation_eq [of "s\<lparr>owned := (\<lambda>r. owned s r - eref ?v r)\<rparr>" ?c] e user_live [OF node_invD(1,3) [OF inv] w]
      by (auto intro!: node.equality)
  qed
  have "owned ?t r = held_refs ?t r + host_ref (nhost ?t) r" for r
    using own_at [OF node_invD(2) [OF inv], of r] held_t(2) [of r] host by simp
  then have "inv_owned ?t" unfolding inv_owned_def by blast
  moreover have "inv_env ?t"
  proof (cases "ne_refs e = 1")
    case True
    have "0 < size_of (nworks s)" using size_of_pos [OF f(1) w] .
    moreover have "of_bool (\<not> ne_closing e) + size_of (nhandles s) + size_of (nworks s) = 1" using True ok by (simp add: env_ok_def)
    moreover have "0 \<le> (of_bool (\<not> ne_closing e) :: int)" "0 \<le> size_of (nhandles s)" by simp_all
    ultimately have z: "size_of (nworks s) = 1" "size_of (nhandles s) = 0" "(of_bool (\<not> ne_closing e) :: int) = 0" by linarith+
    then have "(nworks s)(p := None) = Map.empty" "nhandles s = Map.empty" "ne_closing e"
      using size_of_remove [OF f(1) w] size_of_zero [of "(nworks s)(p := None)"] size_of_zero [OF f(2)] f by auto
    then show ?thesis using True ok z by (simp add: inv_env_def env_ok_def)
  next
    case False
    have "size_of ((nworks s)(p := None)) = size_of (nworks s) - 1" using size_of_remove [OF f(1) w] .
    then show ?thesis using False ok size_of_pos [OF f(1) w] by (auto simp: inv_env_def env_ok_def split: if_splits)
  qed
  moreover have "inv_works ?t" using node_invD(5) [OF inv] by (simp add: inv_works_def)
  moreover have "inv_host ?t" by (simp add: inv_host_def)
  ultimately have "node_inv ?t" using held_t(1) fin by (intro node_invI)
  moreover have "work_finalizer_end cl p s = Some ?t"
    using w e dispose_event_eq [OF own, of cl] r
    by (auto simp: work_finalizer_end_def node_pending_done_def node_env_drop_def Let_def intro!: node.equality hs_node_env.equality)
  ultimately show ?thesis by blast
qed

subsection \<open>The end of the environment\<close>

lemma env_cleanup_inv:
  assumes inv: "node_inv s" and e: "nenv s = Some e" "\<not> ne_closing e" and idle: "nhost s = HostIdle"
  shows "\<exists>t. env_cleanup cl s = Some t \<and> node_inv t"
proof -
  let ?e = "e\<lparr>ne_closing := True, ne_cleanup := True, ne_pending := ne_pending e + 1\<rparr>"
  have ok: "env_ok e s" using env_of [OF inv e(1)] .
  have "core (s\<lparr>nenv := Some ?e\<rparr>)" using node_inv_core [OF inv] by simp
  moreover have "set (ne_handles e) \<subseteq> dom (nhandles (s\<lparr>nenv := Some ?e\<rparr>))" using ok by (simp add: env_ok_def)
  ultimately obtain u where u: "release_all cl (ne_handles e) (s\<lparr>nenv := Some ?e\<rparr>) = Some u" "core u" "same_rest (s\<lparr>nenv := Some ?e\<rparr>) u"
    using release_all_ok [of "s\<lparr>nenv := Some ?e\<rparr>" "ne_handles e" cl] by auto
  have same: "nenv u = Some ?e" "nworks u = nworks s" "nhost u = HostIdle" "hooks_removed u = hooks_removed s" "dom (nhandles u) = dom (nhandles s)"
    using u(3) idle by (simp_all add: same_rest_def)
  let ?h = "ne_pending e = 0"
  let ?f = "?e\<lparr>ne_pending := ne_pending e, ne_cleanup := (\<not> ?h), ne_refs := ne_refs e - 1\<rparr>"
  let ?t = "u\<lparr>hooks_removed := hooks_removed s + of_bool ?h, nenv := (if ne_refs e = 1 then None else Some ?f)\<rparr>"
  have f: "finite (dom (nworks s))" "finite (dom (nhandles s))" using node_finite [OF inv] by simp_all
  have size: "size_of (nhandles u) = size_of (nhandles s)" using same(5) by (simp add: size_of_def)
  have "inv_env ?t"
  proof (cases "ne_refs e = 1")
    case True
    then have "size_of (nhandles s) + size_of (nworks s) = 0" using ok e(2) by (simp add: env_ok_def)
    then have "size_of (nhandles s) = 0" "size_of (nworks s) = 0" using size_of_nonneg [of "nhandles s"] size_of_nonneg [of "nworks s"] by linarith+
    then have "nhandles u = Map.empty" "nworks u = Map.empty" "ne_pending e = 0"
      using size_of_zero [OF f(1)] size_of_zero [OF f(2)] same(2,5) ok by (auto simp: env_ok_def)
    then show ?thesis using True ok e(2) by (simp add: inv_env_def env_ok_def)
  next
    case False
    then show ?thesis using ok e(2) same size by (simp add: inv_env_def env_ok_def)
  qed
  moreover have "core ?t" using u(2) by simp
  moreover have "inv_works ?t" "inv_host ?t" using node_invD(5) [OF inv] same(2,3) by (simp_all add: inv_works_def inv_host_def)
  ultimately have "node_inv ?t" by (simp add: node_inv_def core_def)
  moreover have "env_cleanup cl s = Some ?t"
    using e u(1) same by (auto simp: env_cleanup_def node_pending_done_def node_env_drop_def Let_def intro!: node.equality hs_node_env.equality)
  ultimately show ?thesis by blast
qed

end
