(* ===== verification/Node_Props.thy ===== *)
theory Node_Props
  imports Node_Works Bridge_System Call_Machine
begin

text \<open>
  The addon as a state machine, and what holds of every run. A call is taken when Node-API takes it: JavaScript runs while the
  host thread is idle and the environment is not being torn down, with objects whose handles were not finalized; a queued
  delivery and each finalizer runs at most once, in any order; the cleanup hook runs once. The notifier completes each
  accepted operation once. \<open>malloc\<close> returns blocks that are not in use.
\<close>

subsection \<open>The machine\<close>

datatype (plugins only: code size) node_call =
    JsCreate "bytes option" bool "ptr option" bool int ptr
  | JsClose "ptr option" "ptr option" bool int ptr
  | JsSubmit "ptr option" "hs_request_t \<Rightarrow> int \<times> ptr" js_submit "ptr option" bool
  | JsRead "ptr option" "ptr option" bool int ptr
  | JsRelease "ptr \<Rightarrow> int \<times> ptr" "ptr option"
  | JsCancel "ptr option"
  | JsStart "bytes option option" bool int ptr ptr
  | JsStop "ptr option"
  | FinishSubmit ptr ptr
  | Completed ptr hs_event_t
  | Deliver "ptr \<Rightarrow> int \<times> ptr" ptr bool ptr
  | FinalizeWork ptr
  | FinalizeEnd "ptr \<Rightarrow> int \<times> ptr"
  | FinalizeHandle "ptr \<Rightarrow> int \<times> ptr" ptr
  | Cleanup "ptr \<Rightarrow> int \<times> ptr"

fun node_run :: "node_call \<Rightarrow> node \<Rightarrow> node option" where
  "node_run (JsCreate arg mem0 mem napi rc q) s = EngineCreate arg mem0 mem napi rc q s"
| "node_run (JsClose obj mem napi rc q) s = EngineClose obj mem napi rc q s"
| "node_run (JsSubmit obj abi a mem napi) s = EngineSubmit obj abi a mem napi s"
| "node_run (JsRead obj mem napi rc q) s = ResponseRead obj mem napi rc q s"
| "node_run (JsRelease cl obj) s = HandleRelease cl obj s"
| "node_run (JsCancel obj) s = OperationCancel obj s"
| "node_run (JsStart arg mem err srv h) s = StartServer_js arg mem err srv h s"
| "node_run (JsStop obj) s = StopServer obj s"
| "node_run (FinishSubmit a h) s = (case nhost s of Submitting p rc q \<Rightarrow> finish_submit a h p rc q s | _ \<Rightarrow> None)"
| "node_run (Completed p v) s = work_completed p v s"
| "node_run (Deliver cl h nul p) s = deliver_work cl h nul p s"
| "node_run (FinalizeWork p) s = work_finalizer_begin p s"
| "node_run (FinalizeEnd cl) s = (case nhost s of Finalizing p \<Rightarrow> work_finalizer_end cl p s | _ \<Rightarrow> None)"
| "node_run (FinalizeHandle cl p) s = handle_finalizer cl p s"
| "node_run (Cleanup cl) s = env_cleanup cl s"

definition js_runs :: "node \<Rightarrow> bool" where
  "js_runs s \<longleftrightarrow> nhost s = HostIdle \<and> (case nenv s of None \<Rightarrow> False | Some e \<Rightarrow> \<not> ne_closing e)"

definition object_ok :: "ptr option \<Rightarrow> node \<Rightarrow> bool" where
  "object_ok obj s \<longleftrightarrow> (case obj of None \<Rightarrow> True | Some p \<Rightarrow> nhandles s p \<noteq> None)"

definition unused :: "(ptr \<rightharpoonup> 'a) \<Rightarrow> ptr option \<Rightarrow> bool" where
  "unused m p \<longleftrightarrow> (case p of None \<Rightarrow> True | Some a \<Rightarrow> m a = None)"

definition still_waiting :: "ptr \<Rightarrow> node \<Rightarrow> bool" where
  "still_waiting p s \<longleftrightarrow> (case nworks s p of None \<Rightarrow> False | Some w \<Rightarrow> \<not> nw_native_done w) \<and>
     (case nhost s of Submitting q rc a \<Rightarrow> q = p \<longrightarrow> rc = 0 | _ \<Rightarrow> True)"

fun node_legal :: "node_call \<Rightarrow> node \<Rightarrow> bool" where
  "node_legal (JsCreate arg mem0 mem napi rc q) s \<longleftrightarrow> js_runs s \<and> unused (nworks s) mem"
| "node_legal (JsClose obj mem napi rc q) s \<longleftrightarrow> js_runs s \<and> object_ok obj s \<and> unused (nworks s) mem"
| "node_legal (JsSubmit obj abi a mem napi) s \<longleftrightarrow> js_runs s \<and> object_ok obj s \<and> unused (nworks s) mem"
| "node_legal (JsRead obj mem napi rc q) s \<longleftrightarrow> js_runs s \<and> object_ok obj s \<and> unused (nworks s) mem"
| "node_legal (JsRelease cl obj) s \<longleftrightarrow> js_runs s \<and> object_ok obj s"
| "node_legal (JsCancel obj) s \<longleftrightarrow> js_runs s \<and> object_ok obj s"
| "node_legal (JsStart arg mem err srv h) s \<longleftrightarrow> js_runs s \<and> nhandles s h = None"
| "node_legal (JsStop obj) s \<longleftrightarrow> js_runs s \<and> object_ok obj s"
| "node_legal (FinishSubmit a h) s \<longleftrightarrow> (case nhost s of Submitting p rc q \<Rightarrow> True | _ \<Rightarrow> False) \<and> nops s a = None \<and> nhandles s h = None"
| "node_legal (Completed p v) s \<longleftrightarrow> still_waiting p s"
| "node_legal (Deliver cl h nul p) s \<longleftrightarrow> nhost s = HostIdle \<and> nhandles s h = None \<and> (case nworks s p of None \<Rightarrow> False | Some w \<Rightarrow> nw_queued w)"
| "node_legal (FinalizeWork p) s \<longleftrightarrow> nhost s = HostIdle \<and> nworks s p \<noteq> None"
| "node_legal (FinalizeEnd cl) s \<longleftrightarrow> (case nhost s of Finalizing p \<Rightarrow> (case nworks s p of None \<Rightarrow> False | Some w \<Rightarrow> nw_native_done w) | _ \<Rightarrow> False)"
| "node_legal (FinalizeHandle cl p) s \<longleftrightarrow> nhost s = HostIdle \<and> nhandles s p \<noteq> None"
| "node_legal (Cleanup cl) s \<longleftrightarrow> js_runs s"

abbreviation node_exec :: "node_call list \<Rightarrow> node \<Rightarrow> node option" where
  "node_exec \<equiv> exec_calls node_run"

abbreviation node_lawful :: "node_call list \<Rightarrow> node \<Rightarrow> bool" where
  "node_lawful \<equiv> lawful_calls node_run node_legal"

subsection \<open>Calls from JavaScript\<close>

lemma js_env: "js_runs s \<Longrightarrow> \<exists>e. nenv s = Some e \<and> \<not> ne_closing e" "js_runs s \<Longrightarrow> nhost s = HostIdle"
  by (auto simp: js_runs_def split: option.splits)

lemma unused_D: "unused m p \<Longrightarrow> \<forall>a. p = Some a \<longrightarrow> m a = None"
  by (auto simp: unused_def)

lemma get_handle_cases:
  assumes "object_ok obj s"
  obtains (none) "get_handle obj k s = Some None"
  | (some) p h q where "obj = Some p" "get_handle obj k s = Some (Some h)" "nhandles s p = Some h" "nh_kind h = k" "nh_ptr h = Some q"
proof (cases obj)
  case None
  then show ?thesis using none by (simp add: get_handle_def)
next
  case (Some p)
  then obtain h where "nhandles s p = Some h" using assms by (auto simp: object_ok_def)
  then show ?thesis using none some Some by (cases "nh_kind h = k"; cases "nh_ptr h") (simp_all add: get_handle_def)
qed

lemma start_work_inv:
  assumes "node_inv s" "js_runs s" "unused (nworks s) mem"
  shows "\<exists>t. start_work mem napi rc q s = Some t \<and> node_inv t"
proof -
  obtain e where e: "nenv s = Some e" "\<not> ne_closing e" using js_env(1) [OF assms(2)] by blast
  obtain w t where "new_work mem napi s = Some (w, t)" "case w of None \<Rightarrow> node_inv t | Some p \<Rightarrow> node_inv (submitted p rc q t)"
    using new_work_inv [OF assms(1) e unused_D [OF assms(3)] js_env(2) [OF assms(2)], of napi rc q] by blast
  then show ?thesis by (cases w) (simp_all add: start_work_def)
qed

text \<open>A call on a live handle: the work is made, then the C ABI used with what the handle holds.\<close>

lemma handle_work_inv:
  assumes inv: "node_inv s" and js: "js_runs s" "unused (nworks s) mem" and h: "nhandles s b = Some h" "0 < href h r"
  shows "\<exists>w t. new_work mem napi s = Some (w, t) \<and> nhandles t = nhandles s \<and> abi_use r t = Some t \<and>
    (case w of None \<Rightarrow> node_inv t | Some p \<Rightarrow> node_inv (submitted p rc q t))"
proof -
  obtain e where e: "nenv s = Some e" "\<not> ne_closing e" using js_env(1) [OF js(1)] by blast
  obtain w t where t: "new_work mem napi s = Some (w, t)" "nhandles t = nhandles s" "owned t = owned s"
    "case w of None \<Rightarrow> node_inv t | Some p \<Rightarrow> node_inv (submitted p rc q t)"
    using new_work_inv [OF inv e unused_D [OF js(2)] js_env(2) [OF js(1)], of napi rc q] by blast
  have "0 < owned t r" using owned_share(1) [OF inv h(1), of r] h(2) t(3) by simp
  then show ?thesis using t by (auto simp: abi_use_def)
qed

lemma closed_inv:
  assumes "node_inv u" "nhandles u b = Some h"
  shows "node_inv (u\<lparr>nhandles := (nhandles u)(b \<mapsto> h\<lparr>nh_closed := True\<rparr>)\<rparr>)" (is "node_inv ?t")
proof -
  have f: "finite (dom (nhandles u))" using node_finite [OF assms(1)] by simp
  have same: "href (h\<lparr>nh_closed := True\<rparr>) r = href h r" "token (h\<lparr>nh_closed := True\<rparr>) = token h" for r by (simp_all add: href_def token_def)
  have "held_refs ?t r = held_refs u r" "tokens ?t q = tokens u q" "users ?t q = users u q" for r q using f assms(2) same by (simp_all add: node_sums)
  then have "core ?t" using node_inv_core [OF assms(1)] by (simp add: core_def inv_owned_def inv_nops_def inv_finite_def)
  then show ?thesis using assms by (intro node_inv_rest [OF assms(1)]) (auto simp: same_rest_def)
qed

lemma js_calls_inv:
  assumes inv: "node_inv s" and js: "js_runs s" and m: "unused (nworks s) mem"
  shows "\<exists>t. EngineCreate arg mem0 mem napi rc q s = Some t \<and> node_inv t"
    and "object_ok obj s \<Longrightarrow> \<exists>t. EngineClose obj mem napi rc q s = Some t \<and> node_inv t"
    and "object_ok obj s \<Longrightarrow> \<exists>t. EngineSubmit obj abi a mem napi s = Some t \<and> node_inv t"
    and "object_ok obj s \<Longrightarrow> \<exists>t. ResponseRead obj mem napi rc q s = Some t \<and> node_inv t"
proof -
  show "\<exists>t. EngineCreate arg mem0 mem napi rc q s = Some t \<and> node_inv t"
    using start_work_inv [OF inv js m] inv by (auto simp: EngineCreate_def split: option.splits)
next
  assume "object_ok obj s"
  then show "\<exists>t. EngineClose obj mem napi rc q s = Some t \<and> node_inv t"
  proof (cases rule: get_handle_cases [where k = 1])
    case none
    then show ?thesis using inv by (simp add: EngineClose_def)
  next
    case (some b h g)
    then have "0 < href h (Inst g)" by (simp add: ref_defs)
    then obtain w t where t: "new_work mem napi s = Some (w, t)" "nhandles t = nhandles s" "abi_use (Inst g) t = Some t"
      "case w of None \<Rightarrow> node_inv t | Some p \<Rightarrow> node_inv (submitted p rc q t)" using handle_work_inv [OF inv js m some(3)] by blast
    have "node_inv (submitted p rc q (t\<lparr>nhandles := (nhandles t)(b \<mapsto> h\<lparr>nh_closed := True\<rparr>)\<rparr>))" if "w = Some p" for p
    proof -
      have "submitted p rc q (t\<lparr>nhandles := (nhandles t)(b \<mapsto> h\<lparr>nh_closed := True\<rparr>)\<rparr>) =
          (submitted p rc q t)\<lparr>nhandles := (nhandles (submitted p rc q t))(b \<mapsto> h\<lparr>nh_closed := True\<rparr>)\<rparr>"
        by (auto simp: submitted_def abi_grant_def intro!: node.equality)
      moreover have "nhandles (submitted p rc q t) b = Some h" using t(2) some(3) by (simp add: submitted_def abi_grant_def)
      ultimately show ?thesis using closed_inv [of "submitted p rc q t" b h] t(4) that by simp
    qed
    then show ?thesis using some t by (cases w; cases "rc = 0") (simp_all add: EngineClose_def)
  qed
next
  assume "object_ok obj s"
  then show "\<exists>t. EngineSubmit obj abi a mem napi s = Some t \<and> node_inv t"
  proof (cases rule: get_handle_cases [where k = 1])
    case none
    then show ?thesis using inv by (simp add: EngineSubmit_def)
  next
    case (some b h g)
    then have pos: "0 < href h (Inst g)" by (simp add: ref_defs)
    show ?thesis
    proof (cases "submit_request a")
      case None
      then show ?thesis using some inv by (simp add: EngineSubmit_def)
    next
      case (Some r)
      obtain w t where t: "new_work mem napi s = Some (w, t)" "abi_use (Inst g) t = Some t"
        "case w of None \<Rightarrow> node_inv t | Some p \<Rightarrow> node_inv (submitted p (fst (abi r)) (snd (abi r)) t)"
        using handle_work_inv [OF inv js m some(3) pos] by blast
      then show ?thesis using some Some by (cases w) (simp_all add: EngineSubmit_def)
    qed
  qed
next
  assume "object_ok obj s"
  then show "\<exists>t. ResponseRead obj mem napi rc q s = Some t \<and> node_inv t"
  proof (cases rule: get_handle_cases [where k = 2])
    case none
    then show ?thesis using inv by (simp add: ResponseRead_def)
  next
    case (some b h g)
    then have "0 < href h (Resp g)" by (simp add: ref_defs)
    then obtain w t where t: "new_work mem napi s = Some (w, t)" "abi_use (Resp g) t = Some t"
      "case w of None \<Rightarrow> node_inv t | Some p \<Rightarrow> node_inv (submitted p rc q t)" using handle_work_inv [OF inv js m some(3)] by blast
    then show ?thesis using some by (cases w) (simp_all add: ResponseRead_def)
  qed
qed

lemma start_server_inv:
  assumes inv: "node_inv s" and js: "js_runs s" and h: "nhandles s a = None"
  shows "\<exists>t. StartServer_js arg mem err srv a s = Some t \<and> node_inv t"
proof -
  obtain e where e: "nenv s = Some e" using js_env(1) [OF js] by blast
  let ?H = "\<lparr>nh_kind = 4, nh_closed = False, nh_ptr = Some srv\<rparr>"
  let ?t = "s\<lparr>owned := (owned s)(Serv srv := owned s (Serv srv) + 1), nenv := Some (e\<lparr>ne_refs := ne_refs e + 1, ne_handles := a # ne_handles e\<rparr>),
    nhandles := (nhandles s)(a \<mapsto> ?H)\<rparr>"
  have f: "finite (dom (nhandles s))" using node_finite [OF inv] by simp
  have H: "href ?H r = of_bool (r = Serv srv)" "token ?H = None" for r by (auto simp: ref_defs token_def)
  have sums: "held_refs ?t r = held_refs s r + of_bool (r = Serv srv)" "tokens ?t q = tokens s q" "users ?t q = users s q" for r q
    using f h H by (simp_all add: node_sums)
  have "owned ?t r = held_refs ?t r + host_ref (nhost ?t) r" for r using own_at [OF node_invD(2) [OF inv], of r] sums(1) [of r] by (cases "r = Serv srv") simp_all
  then have "inv_owned ?t" unfolding inv_owned_def by blast
  moreover have "inv_nops ?t" using node_invD(3) [OF inv] sums by (simp add: inv_nops_def)
  moreover have "inv_env ?t" using env_of [OF inv e] f h by (simp add: inv_env_def env_ok_def) auto
  moreover have "inv_works ?t" "inv_host ?t" using node_invD(5,6) [OF inv] by (simp_all add: inv_works_def inv_host_def)
  moreover have "inv_finite ?t" using node_invD(1) [OF inv] by (simp add: inv_finite_def)
  ultimately have "node_inv ?t" by (intro node_invI)
  then show ?thesis using inv e by (auto simp: StartServer_js_def wrap_handle_def abi_grant_def)
qed

lemma uses_inv:
  assumes inv: "node_inv s" and ok: "object_ok obj s"
  shows "StopServer obj s = Some s" "OperationCancel obj s = Some s" "\<exists>t. HandleRelease cl obj s = Some t \<and> node_inv t"
proof -
  show "StopServer obj s = Some s"
    using ok
  proof (cases rule: get_handle_cases [where k = 4])
    case (some b h g)
    then show ?thesis using owned_share(1) [OF inv some(3), of "Serv g"] by (simp add: StopServer_def abi_use_def ref_defs)
  qed (simp add: StopServer_def)
  show "OperationCancel obj s = Some s"
    using ok
  proof (cases rule: get_handle_cases [where k = 3])
    case (some b h g)
    then obtain x where x: "nops s g = Some x" using token_live [OF node_invD(1,3) [OF inv] some(3), of g] by (auto simp: token_def)
    obtain e where "nenv s = Some e" using live_env(1) [OF inv some(3)] by blast
    then show ?thesis using some x node_cancel_ok [OF inv x] by (simp add: OperationCancel_def)
  qed (simp add: OperationCancel_def)
  show "\<exists>t. HandleRelease cl obj s = Some t \<and> node_inv t"
    using ok inv release_handle_inv [OF inv, of _ _ cl] by (cases obj) (fastforce simp: HandleRelease_def object_ok_def)+
qed

subsection \<open>Every run\<close>

lemma waiting_awaited: "still_waiting p s \<longleftrightarrow> awaited p s"
  by (auto simp: still_waiting_def awaited_def split: option.splits host.splits)

lemma node_step:
  assumes inv: "node_inv s" and l: "node_legal c s"
  shows "\<exists>t. node_run c s = Some t \<and> node_inv t"
proof (cases c)
  case (JsRelease cl obj) then show ?thesis using uses_inv(3) [OF inv] l by simp
next
  case (JsCancel obj) then show ?thesis using uses_inv(2) [OF inv] inv l by simp
next
  case (JsStop obj) then show ?thesis using uses_inv(1) [OF inv] inv l by simp
next
  case (FinishSubmit a h) then show ?thesis using finish_submit_inv [OF inv] l by (auto split: host.splits)
next
  case (Completed p v) then show ?thesis using work_completed_inv [OF inv] l by (simp add: waiting_awaited)
next
  case (Deliver cl h nul p) then show ?thesis using deliver_work_inv [OF inv] l by (auto split: option.splits)
next
  case (FinalizeWork p) then show ?thesis using finalizer_begin_inv [OF inv] l by auto
next
  case (FinalizeEnd cl) then show ?thesis using finalizer_end_inv [OF inv] l by (auto split: host.splits option.splits)
next
  case (FinalizeHandle cl p) then show ?thesis using handle_finalizer_inv [OF inv] l by auto
next
  case (Cleanup cl) then show ?thesis using env_cleanup_inv [OF inv] js_env [of s] l by auto
next
  case (JsStart arg mem err srv h) then show ?thesis using start_server_inv [OF inv] l by simp
qed (use js_calls_inv [OF inv] l in simp_all)

interpretation nm: call_machine node_run node_legal node_inv
  by unfold_locales (use node_step in blast)

lemmas node_exec_inv = nm.exec_safe

text \<open>C33: in every run of the addon, however JavaScript calls, completions, deliveries and finalizers interleave, no step touches a freed
  environment, handle, work or shared operation, and no call of the C ABI uses or releases an object the addon does not own.
  Each promise is settled at most once, and every owned reference has an owner that will release it: a handle, the event of a
  work, a shared operation, or the submission in progress.\<close>
theorem node_addon_safe:
  assumes "node_lawful cs async_addon_init"
  shows "\<exists>t. node_exec cs async_addon_init = Some t \<and> (\<forall>p w. nworks t p = Some w \<longrightarrow> nw_settled w \<le> 1) \<and>
    (\<forall>r. owned t r = heap_sum (\<lambda>_ h. href h r) (nhandles t) + heap_sum (\<lambda>_ w. eref (nw_event w) r) (nworks t) +
       heap_sum (\<lambda>_ x. oref x r) (nops t) + host_ref (nhost t) r)"
proof -
  obtain t where t: "node_exec cs async_addon_init = Some t" "node_inv t" using node_exec_inv [OF node_init assms] by blast
  have "\<forall>p w. nworks t p = Some w \<longrightarrow> nw_settled w \<le> 1" using works_ok [OF t(2)] by (auto simp: work_ok_def)
  then show ?thesis using t(1) own_at [OF node_invD(2) [OF t(2)]] by (auto simp: held_refs_def)
qed

definition no_close :: "ptr \<Rightarrow> int \<times> ptr" where
  "no_close g = (4, 0)"

text \<open>An engine is created, its promise resolved, the work finalized, the environment torn down, and both handles finalized.\<close>

definition demo_node :: "node_call list" where
  "demo_node = [JsCreate (Some [123, 125]) True (Some 1) True 0 50, Completed 1 (no_event\<lparr>ev_kind := 1, ev_engine := Some 60\<rparr>),
     FinishSubmit 2 3, Deliver no_close 4 False 1, FinalizeWork 1, FinalizeEnd no_close, Cleanup no_close,
     FinalizeHandle no_close 4, FinalizeHandle no_close 3]"

lemma demo_node_run: "node_lawful demo_node async_addon_init \<and> node_exec demo_node async_addon_init \<noteq> None"
  by (simp add: demo_node_def async_addon_init_def js_runs_def unused_def EngineCreate_def copy_js_string_def start_work_def new_work_def
      submitted_def abi_grant_def still_waiting_def work_completed_def grant_event_def no_event_def finish_submit_def wrap_handle_def
      deliver_work_def HS_RESULT_ENGINE_def set_event_def work_finalizer_begin_def work_finalizer_end_def dispose_event_def release_operation_def
      drop_operation_def abi_release_def node_pending_done_def node_env_drop_def env_cleanup_def release_node_handle_def discard_engine_def
      abi_use_def no_close_def cancel_operation_def handle_finalizer_def Let_def)

theorem node_addon_safe_witness:
  "node_lawful demo_node async_addon_init \<and> (\<exists>t. node_exec demo_node async_addon_init = Some t \<and>
    (\<forall>r. owned t r = heap_sum (\<lambda>_ h. href h r) (nhandles t) + heap_sum (\<lambda>_ w. eref (nw_event w) r) (nworks t) +
       heap_sum (\<lambda>_ x. oref x r) (nops t) + host_ref (nhost t) r))"
  using node_addon_safe [of demo_node] demo_node_run by blast

text \<open>C34: Node may unload the addon when the cleanup hook is removed. It is removed at most once, only when no work is left, so no
  completion can arrive afterwards. And when the environment is being torn down and the last work and handle are finalized, the
  environment is freed, the hook was removed, no shared operation is left and no reference on the C ABI is owned.\<close>
theorem node_unload:
  assumes "node_lawful cs async_addon_init" "node_exec cs async_addon_init = Some t"
  shows "hooks_removed t \<le> 1 \<and> (hooks_removed t = 1 \<longrightarrow> nworks t = Map.empty \<and> (\<forall>p. \<not> still_waiting p t)) \<and>
    ((case nenv t of None \<Rightarrow> True | Some e \<Rightarrow> ne_closing e) \<and> nworks t = Map.empty \<and> nhandles t = Map.empty \<longrightarrow>
       nenv t = None \<and> hooks_removed t = 1 \<and> nops t = Map.empty \<and> (\<forall>r. owned t r = 0))"
proof -
  have inv: "node_inv t" using node_exec_inv [OF node_init assms(1)] assms(2) by auto
  have f: "finite (dom (nworks t))" using node_finite [OF inv] by simp
  have hook: "hooks_removed t \<le> 1 \<and> (hooks_removed t = 1 \<longrightarrow> nworks t = Map.empty)"
    using node_invD(4) [OF inv] size_of_zero [OF f] by (auto simp: inv_env_def env_ok_def split: option.splits if_splits)
  have "nenv t = None \<and> hooks_removed t = 1 \<and> nops t = Map.empty \<and> (\<forall>r. owned t r = 0)"
    if c: "case nenv t of None \<Rightarrow> True | Some e \<Rightarrow> ne_closing e" and e: "nworks t = Map.empty" "nhandles t = Map.empty"
  proof -
    have env: "nenv t = None \<and> hooks_removed t = 1"
      using node_invD(4) [OF inv] c e by (auto simp: inv_env_def env_ok_def split: option.splits)
    have "nops t q = None" for q
      using nops_cell [OF node_invD(3) [OF inv], of q] nops_pos(1) [OF node_invD(3) [OF inv], of q] e
      by (cases "nops t q") (auto simp: tokens_def users_def)
    then have ops: "nops t = Map.empty" by auto
    have "nhost t = HostIdle" using node_invD(6) [OF inv] e by (cases "nhost t") (auto simp: inv_host_def)
    then have "owned t r = 0" for r using own_at [OF node_invD(2) [OF inv], of r] e ops by (simp add: held_refs_def)
    then show ?thesis using env ops by blast
  qed
  then show ?thesis using hook by (auto simp: still_waiting_def)
qed

theorem node_unload_witness:
  "\<exists>t. node_exec demo_node async_addon_init = Some t \<and> hooks_removed t \<le> 1"
proof -
  obtain t where t: "node_exec demo_node async_addon_init = Some t" using demo_node_run by blast
  then show ?thesis using node_unload [OF _ t] demo_node_run by blast
qed

subsection \<open>Requests handed to the C ABI\<close>

lemma copy_pairs_length: "length (snd (copy_pairs ps)) = length ps"
  by (induction ps rule: copy_pairs.induct) (auto simp: Let_def split: prod.splits)

lemma copy_js_length: "copy_js_string v m = Some b \<Longrightarrow> length b \<le> 1048576"
  by (auto simp: copy_js_string_def split: option.splits if_splits)

text \<open>The request built from JavaScript arguments is one the C ABI may be called with: its header array is as long as its count
  says, and its size and version are accepted.\<close>

lemma submit_request_ok:
  assumes "submit_request a = Some r"
  shows "request_ok (Some r) \<and> unat (rq_header_count r) \<le> 256 \<and> rq_abi_major r = 1 \<and> \<not> rq_struct_size r < sizeof_request"
proof -
  obtain ps hs where ps: "length ps \<le> 256" "copy_pairs ps = (True, hs)" "rq_headers r = Some (map (\<lambda>(k, v). (js_span k, js_span v)) hs)"
    "rq_header_count r = of_nat (length ps)" "rq_abi_major r = 1" "rq_struct_size r = sizeof_request"
    using assms by (auto simp: submit_request_def not_less split: bind_splits if_splits prod.splits)
  have "length hs = length ps" using copy_pairs_length [of ps] ps(2) by simp
  moreover have "unat (of_nat (length ps) :: u32) = length ps" using ps(1) by (simp add: unat_of_nat)
  ultimately show ?thesis using ps by (simp add: request_ok_def)
qed

end
