(* ===== verification/Ct_Words.thy ===== *)
theory Ct_Words
  imports HS_Prelude
begin

text \<open>
  Branch-free conditions of the vendored TLS library,
  \<^verbatim>\<open>tf-psa-crypto/utilities/constant_time_impl.h\<close>. A condition is a word that is all ones or zero. The
  operations are written with bit operations only, in plain C and in assembly for several processors; the assembly
  sequences are the same formulas at different widths, so both are defined here for words of any length.
  \<open>mbedtls_ct_compiler_opaque\<close> returns its argument.
\<close>

unbundle bit_operations_syntax

subsection \<open>Definitions\<close>

definition mbedtls_ct_bool :: "'a::len word \<Rightarrow> 'a word" where
  "mbedtls_ct_bool x = (let y = (- x) OR - (drop_bit 1 x) in - drop_bit (LENGTH('a) - 1) y)"

text \<open>\<open>neg\<close>, \<open>orr\<close>, arithmetic shift right by the width minus one.\<close>

definition mbedtls_ct_bool_asm :: "'a::len word \<Rightarrow> 'a word" where
  "mbedtls_ct_bool_asm x = signed_drop_bit (LENGTH('a) - 1) ((- x) OR x)"

definition mbedtls_ct_if :: "'a::len word \<Rightarrow> 'a word \<Rightarrow> 'a word \<Rightarrow> 'a word" where
  "mbedtls_ct_if condition if1 if0 = (condition AND if1) OR (NOT condition AND if0)"

text \<open>\<open>and\<close>, \<open>mvn\<close>, \<open>and\<close>, \<open>orr\<close> on the same registers.\<close>

definition mbedtls_ct_if_asm :: "'a::len word \<Rightarrow> 'a word \<Rightarrow> 'a word \<Rightarrow> 'a word" where
  "mbedtls_ct_if_asm condition if1 if0 = (let if1 = if1 AND condition; condition = NOT condition; condition = condition AND if0
     in if1 OR condition)"

definition mbedtls_ct_uint_lt :: "'a::len word \<Rightarrow> 'a word \<Rightarrow> 'a word" where
  "mbedtls_ct_uint_lt x y = (let cond = mbedtls_ct_bool (drop_bit (LENGTH('a) - 1) (x XOR y));
     ret = mbedtls_ct_if cond y (x - y)
     in mbedtls_ct_bool (drop_bit (LENGTH('a) - 1) ret))"

text \<open>\<open>eor\<close>, \<open>sub\<close>, \<open>bic\<close>, \<open>and\<close>, \<open>orr\<close>, arithmetic shift.\<close>

definition mbedtls_ct_uint_lt_asm :: "'a::len word \<Rightarrow> 'a word \<Rightarrow> 'a word" where
  "mbedtls_ct_uint_lt_asm x y = (let s = y XOR x; x = x - y; x = x AND NOT s; s = s AND y; s = x OR s
     in signed_drop_bit (LENGTH('a) - 1) s)"

definition mbedtls_ct_uint_ne :: "'a::len word \<Rightarrow> 'a word \<Rightarrow> 'a word" where
  "mbedtls_ct_uint_ne x y = mbedtls_ct_bool (x XOR y)"

text \<open>\<open>unsigned char\<close> arguments, \<open>unsigned\<close> (32-bit) masks.\<close>

definition mbedtls_ct_uchar_in_range_if :: "u8 \<Rightarrow> u8 \<Rightarrow> u8 \<Rightarrow> u8 \<Rightarrow> u8" where
  "mbedtls_ct_uchar_in_range_if low high c t =
     (let low_mask = drop_bit 8 ((ucast c :: u32) - ucast low);
          high_mask = drop_bit 8 ((ucast high :: u32) - ucast c)
      in ucast (NOT (low_mask OR high_mask)) AND t)"

definition mbedtls_ct_uint_eq :: "'a::len word \<Rightarrow> 'a word \<Rightarrow> 'a word" where
  "mbedtls_ct_uint_eq x y = NOT (mbedtls_ct_uint_ne x y)"

definition mbedtls_ct_uint_gt :: "'a::len word \<Rightarrow> 'a word \<Rightarrow> 'a word" where
  "mbedtls_ct_uint_gt x y = mbedtls_ct_uint_lt y x"

definition mbedtls_ct_uint_ge :: "'a::len word \<Rightarrow> 'a word \<Rightarrow> 'a word" where
  "mbedtls_ct_uint_ge x y = NOT (mbedtls_ct_uint_lt x y)"

definition mbedtls_ct_uint_le :: "'a::len word \<Rightarrow> 'a word \<Rightarrow> 'a word" where
  "mbedtls_ct_uint_le x y = NOT (mbedtls_ct_uint_gt x y)"

definition mbedtls_ct_bool_ne :: "'a::len word \<Rightarrow> 'a word \<Rightarrow> 'a word" where
  "mbedtls_ct_bool_ne x y = x XOR y"

definition mbedtls_ct_bool_and :: "'a::len word \<Rightarrow> 'a word \<Rightarrow> 'a word" where
  "mbedtls_ct_bool_and x y = x AND y"

definition mbedtls_ct_bool_or :: "'a::len word \<Rightarrow> 'a word \<Rightarrow> 'a word" where
  "mbedtls_ct_bool_or x y = x OR y"

definition mbedtls_ct_bool_not :: "'a::len word \<Rightarrow> 'a word" where
  "mbedtls_ct_bool_not x = NOT x"

text \<open>The wrappers at the widths of a 64-bit build: conditions and \<open>size_t\<close> have 64 bits, \<open>unsigned\<close> and \<open>int\<close> 32.\<close>

definition mbedtls_ct_size_if :: "u64 \<Rightarrow> u64 \<Rightarrow> u64 \<Rightarrow> u64" where
  "mbedtls_ct_size_if condition if1 if0 = mbedtls_ct_if condition if1 if0"

definition mbedtls_ct_uint_if :: "u64 \<Rightarrow> u32 \<Rightarrow> u32 \<Rightarrow> u32" where
  "mbedtls_ct_uint_if condition if1 if0 = ucast (mbedtls_ct_if condition (ucast if1) (ucast if0))"

definition mbedtls_ct_bool_if :: "u64 \<Rightarrow> u64 \<Rightarrow> u64 \<Rightarrow> u64" where
  "mbedtls_ct_bool_if condition if1 if0 = mbedtls_ct_if condition if1 if0"

definition mbedtls_ct_size_if_else_0 :: "u64 \<Rightarrow> u64 \<Rightarrow> u64" where
  "mbedtls_ct_size_if_else_0 condition if1 = condition AND if1"

definition mbedtls_ct_uint_if_else_0 :: "u64 \<Rightarrow> u32 \<Rightarrow> u32" where
  "mbedtls_ct_uint_if_else_0 condition if1 = ucast (condition AND ucast if1)"

definition mbedtls_ct_bool_if_else_0 :: "u64 \<Rightarrow> u64 \<Rightarrow> u64" where
  "mbedtls_ct_bool_if_else_0 condition if1 = condition AND if1"

definition mbedtls_ct_error_if :: "u64 \<Rightarrow> int \<Rightarrow> int \<Rightarrow> int" where
  "mbedtls_ct_error_if condition if1 if0 = - sint (ucast (mbedtls_ct_if condition (word_of_int (- if1)) (word_of_int (- if0))) :: u32)"

definition mbedtls_ct_error_if_else_0 :: "u64 \<Rightarrow> int \<Rightarrow> int" where
  "mbedtls_ct_error_if_else_0 condition if1 = - sint (ucast (condition AND word_of_int (- if1)) :: u32)"

subsection \<open>Top bits\<close>

text \<open>The condition that stands for a truth value.\<close>

definition cond :: "bool \<Rightarrow> 'a::len word" where
  "cond b = (if b then - 1 else 0)"

definition sign_bit :: "'a::len word \<Rightarrow> bool" where
  "sign_bit x \<longleftrightarrow> bit x (LENGTH('a) - Suc 0)"

lemma half_range: "2 ^ LENGTH('a::len) = 2 * (2 ^ (LENGTH('a) - Suc 0) :: int)"
  by (simp flip: power_Suc)

lemma uint_range: "0 \<le> uint x" "uint x < 2 * 2 ^ (LENGTH('a) - Suc 0)" for x :: "'a::len word"
  using uint_bounded [of x] by (simp_all flip: half_range)

lemma sign_bit_iff: "sign_bit x \<longleftrightarrow> 2 ^ (LENGTH('a) - Suc 0) \<le> uint x" for x :: "'a::len word"
proof -
  let ?m = "2 ^ (LENGTH('a) - Suc 0) :: int"
  have "0 < ?m" by simp
  then have "uint x div ?m = (if ?m \<le> uint x then 1 else 0)"
    using uint_range [of x] by (auto simp: div_pos_pos_trivial int_div_pos_eq [of _ _ 1 "uint x - ?m"])
  then have "odd (uint x div ?m) \<longleftrightarrow> ?m \<le> uint x" by simp
  moreover have "bit x (LENGTH('a) - Suc 0) \<longleftrightarrow> odd (uint x div ?m)" by (simp add: bit_uint_iff flip: bit_iff_odd)
  ultimately show ?thesis by (simp add: sign_bit_def)
qed

lemma bit_above: "bit x (LENGTH('a) - Suc 0 + n) \<longleftrightarrow> n = 0 \<and> sign_bit x" for x :: "'a::len word"
  by (cases n) (auto simp: sign_bit_def dest: bit_imp_le_length)

lemma drop_sign: "drop_bit (LENGTH('a) - Suc 0) x = of_bool (sign_bit x)" for x :: "'a::len word"
  by (rule bit_eqI) (auto simp: bit_drop_bit_eq bit_of_bool_iff bit_above simp del: add_diff_assoc2)

lemma signed_drop_sign: "signed_drop_bit (LENGTH('a) - Suc 0) x = cond (sign_bit x)" for x :: "'a::len word"
proof (rule bit_word_eqI)
  fix n assume "n < LENGTH('a)"
  then show "bit (signed_drop_bit (LENGTH('a) - Suc 0) x) n = bit (cond (sign_bit x) :: 'a word) n"
    by (cases n) (simp_all add: bit_signed_drop_bit_iff cond_def sign_bit_def)
qed

lemma sign_bit_ops:
  "sign_bit (x OR y) \<longleftrightarrow> sign_bit x \<or> sign_bit y" "sign_bit (x AND y) \<longleftrightarrow> sign_bit x \<and> sign_bit y"
  "sign_bit (x XOR y) \<longleftrightarrow> sign_bit x \<noteq> sign_bit y" "sign_bit (NOT x) \<longleftrightarrow> \<not> sign_bit x" for x y :: "'a::len word"
  by (auto simp: sign_bit_def bit_simps)

lemma uint_sub: "uint (x - y) = (if y \<le> x then uint x - uint y else 2 ^ LENGTH('a) + uint x - uint y)" for x y :: "'a::len word"
proof (cases "y \<le> x")
  case True
  then show ?thesis by (simp add: uint_sub_no_wrap)
next
  case False
  then have "0 \<le> 2 ^ LENGTH('a) + (uint x - uint y)" "2 ^ LENGTH('a) + (uint x - uint y) < 2 ^ LENGTH('a)"
    using uint_bounded [of x] uint_bounded [of y] uint_range(1) [of x] unfolding word_le_def by linarith+
  then have "(2 ^ LENGTH('a) + (uint x - uint y)) mod 2 ^ LENGTH('a) = 2 ^ LENGTH('a) + (uint x - uint y)" by (rule mod_pos_pos_trivial)
  then show ?thesis using False by (simp add: uint_word_ariths)
qed

lemma sign_bit_neg: "sign_bit (- x) \<longleftrightarrow> x \<noteq> 0 \<and> uint x \<le> 2 ^ (LENGTH('a) - Suc 0)" for x :: "'a::len word"
  using uint_sub [of 0 x] by (cases "x = 0") (auto simp: sign_bit_iff half_range)

text \<open>A difference has its top bit set exactly when it is negative, provided the top bits agree.\<close>

lemma sign_bit_sub:
  fixes x y :: "'a::len word"
  assumes "sign_bit x = sign_bit y"
  shows "sign_bit (x - y) \<longleftrightarrow> x < y"
proof (cases "y \<le> x")
  case True
  then have "uint x - uint y < 2 ^ (LENGTH('a) - Suc 0)"
    using assms uint_range [of x] uint_range [of y] unfolding sign_bit_iff by linarith
  then show ?thesis using True by (auto simp: sign_bit_iff uint_sub)
next
  case False
  then have "2 ^ (LENGTH('a) - Suc 0) \<le> 2 ^ LENGTH('a) + uint x - uint y"
    using assms uint_range [of x] uint_range [of y] unfolding sign_bit_iff half_range by linarith
  then show ?thesis using False by (simp add: sign_bit_iff uint_sub)
qed

lemma sign_bit_diff:
  fixes x y :: "'a::len word"
  assumes "sign_bit x \<noteq> sign_bit y"
  shows "sign_bit y \<longleftrightarrow> x < y"
  using assms by (auto simp: sign_bit_iff word_less_def)

subsection \<open>The operations are the comparisons\<close>

lemma uint_shift: "uint (drop_bit n x) = uint x div 2 ^ n" for x :: "'a::len word"
proof -
  have "uint (drop_bit n x) = drop_bit n (take_bit LENGTH('a) (uint x))" by (rule unsigned_drop_bit_eq)
  also have "\<dots> = uint x div 2 ^ n" using uint_bounded [of x] by (simp add: drop_bit_eq_div take_bit_eq_mod)
  finally show ?thesis .
qed

lemma uint_half: "uint (drop_bit (Suc 0) x) = uint x div 2" for x :: "'a::len word"
  using uint_shift [of "Suc 0" x] by simp

lemma mbedtls_ct_bool_eq: "mbedtls_ct_bool x = cond (x \<noteq> 0)" for x :: "'a::len word"
proof -
  have h: "drop_bit (Suc 0) x = 0 \<longleftrightarrow> uint x div 2 = 0" by (simp add: uint_half flip: uint_0_iff)
  have "sign_bit ((- x) OR - drop_bit (Suc 0) x) \<longleftrightarrow> x \<noteq> 0"
  proof (cases "x = 0")
    case False
    then have "0 < uint x" using uint_range(1) [of x] uint_0_iff [of x] by linarith
    moreover have "1 \<le> (2 ^ (LENGTH('a) - Suc 0) :: int)" by simp
    ultimately have "uint x \<le> 2 ^ (LENGTH('a) - Suc 0) \<or> uint x div 2 \<noteq> 0 \<and> uint x div 2 \<le> 2 ^ (LENGTH('a) - Suc 0)"
      using uint_range(2) [of x] by linarith
    then show ?thesis using False h by (auto simp: sign_bit_ops sign_bit_neg uint_half)
  qed (simp add: sign_bit_def)
  then show ?thesis by (simp add: mbedtls_ct_bool_def Let_def drop_sign cond_def)
qed

lemma mbedtls_ct_bool_asm_eq: "mbedtls_ct_bool_asm x = cond (x \<noteq> 0)" for x :: "'a::len word"
proof -
  have "sign_bit ((- x) OR x) \<longleftrightarrow> x \<noteq> 0" by (cases "x = 0") (auto simp: sign_bit_ops sign_bit_neg simp: sign_bit_iff [of x] simp: sign_bit_def [of 0])
  then show ?thesis by (simp add: mbedtls_ct_bool_asm_def signed_drop_sign)
qed

lemma cond_ops:
  "cond a AND cond b = cond (a \<and> b)" "cond a OR cond b = cond (a \<or> b)" "cond a XOR cond b = cond (a \<noteq> b)" "NOT (cond a) = cond (\<not> a)"
  "cond a AND x = (if a then x else 0)" "cond a = 0 \<longleftrightarrow> \<not> a" "cond a = - 1 \<longleftrightarrow> a"
  by (simp_all add: cond_def)

lemma mbedtls_ct_if_eq: "mbedtls_ct_if (cond b) x y = (if b then x else y)"
  by (simp add: mbedtls_ct_if_def cond_ops)

lemma mbedtls_ct_if_asm_eq: "mbedtls_ct_if_asm c x y = mbedtls_ct_if c x y"
  by (simp add: mbedtls_ct_if_asm_def mbedtls_ct_if_def and.commute Let_def)

lemma mbedtls_ct_uint_lt_eq: "mbedtls_ct_uint_lt x y = cond (x < y)" for x y :: "'a::len word"
proof -
  let ?c = "mbedtls_ct_bool (of_bool (sign_bit (x XOR y)) :: 'a word)"
  have "?c = cond (sign_bit x \<noteq> sign_bit y)" by (simp add: mbedtls_ct_bool_eq sign_bit_ops)
  then have "sign_bit (mbedtls_ct_if ?c y (x - y)) \<longleftrightarrow> x < y"
    using sign_bit_sub [of x y] sign_bit_diff [of x y] by (simp add: mbedtls_ct_if_eq)
  moreover have "mbedtls_ct_uint_lt x y = mbedtls_ct_bool (of_bool (sign_bit (mbedtls_ct_if ?c y (x - y))))"
    unfolding mbedtls_ct_uint_lt_def Let_def One_nat_def drop_sign by (rule refl)
  ultimately show ?thesis by (simp add: mbedtls_ct_bool_eq)
qed

lemma mbedtls_ct_uint_lt_asm_eq: "mbedtls_ct_uint_lt_asm x y = cond (x < y)" for x y :: "'a::len word"
proof -
  have "sign_bit ((x - y) AND NOT (y XOR x) OR (y XOR x) AND y) \<longleftrightarrow> x < y"
    using sign_bit_sub [of x y] sign_bit_diff [of x y] by (auto simp: sign_bit_ops)
  then show ?thesis unfolding mbedtls_ct_uint_lt_asm_def Let_def One_nat_def signed_drop_sign by simp
qed

lemma xor_zero: "x XOR y = 0 \<longleftrightarrow> x = y" for x y :: "'a::len word"
proof
  assume "x XOR y = 0"
  then have "bit x n = bit y n" for n using bit_xor_iff [of x y n] by simp
  then show "x = y" by (auto intro: bit_eqI)
qed simp

lemma mbedtls_ct_uint_ne_eq: "mbedtls_ct_uint_ne x y = cond (x \<noteq> y)" for x y :: "'a::len word"
  by (simp add: mbedtls_ct_uint_ne_def mbedtls_ct_bool_eq xor_zero)

lemma byte_sub_shift:
  fixes a b :: int
  assumes "0 \<le> a" "a < 256" "0 \<le> b" "b < 256"
  shows "(if b \<le> a then a - b else 2 ^ 32 + a - b) div 2 ^ 8 = (if b \<le> a then 0 else 0xFFFFFF)"
proof (cases "b \<le> a")
  case True
  then have "(a - b) div 256 = 0" using assms by (intro div_pos_pos_trivial) linarith+
  then show ?thesis using True by simp
next
  case False
  have "(256 + a - b) div 256 = 0" using False assms by (intro div_pos_pos_trivial) linarith+
  moreover have "0x100000000 + a - b = (256 + a - b) + 0xFFFFFF * 256" by simp
  ultimately have "(0x100000000 + a - b) div 256 = 0xFFFFFF" by simp
  then show ?thesis using False by simp
qed

lemma drop_sub8: "drop_bit 8 ((ucast a :: u32) - ucast b) = (if b \<le> a then 0 else 0xFFFFFF)" for a b :: u8
proof -
  have ab: "uint a < 256" "uint b < 256" "0 \<le> uint a" "0 \<le> uint b" using uint_bounded [of a] uint_bounded [of b] by simp_all
  have u: "uint (ucast a :: u32) = uint a" "uint (ucast b :: u32) = uint b"
    using ab by (simp_all add: unsigned_ucast_eq take_bit_eq_mod)
  have "uint ((ucast a :: u32) - ucast b) = (if b \<le> a then uint a - uint b else 2 ^ 32 + uint a - uint b)"
    using u by (simp add: uint_sub word_le_def)
  then have "uint (drop_bit 8 ((ucast a :: u32) - ucast b)) = (if b \<le> a then 0 else 0xFFFFFF)"
    using byte_sub_shift [OF ab(3,1,4,2)] unfolding uint_shift word_le_def by (simp only:)
  then have "uint (drop_bit 8 ((ucast a :: u32) - ucast b)) = uint (if b \<le> a then 0 else 0xFFFFFF :: u32)" by (simp split: if_splits)
  then show ?thesis by (simp add: word_uint_eq_iff)
qed

lemma in_range_if_eq: "mbedtls_ct_uchar_in_range_if low high c t = (if low \<le> c \<and> c \<le> high then t else 0)"
proof -
  have "(ucast (- 1 :: u32) :: u8) = - 1" by (rule bit_word_eqI) (simp add: bit_ucast_iff)
  moreover have "(0xFF000000 :: u8) AND t = 0"
  proof -
    have "(0xFF000000 :: u8) = 0" by simp
    then show ?thesis by (simp only: and_zero_eq zero_and_eq)
  qed
  ultimately show ?thesis by (simp add: mbedtls_ct_uchar_in_range_if_def drop_sub8)
qed

end
