(* ===== verification/Byte_Order.thy ===== *)
theory Byte_Order
  imports HS_Prelude "HOL-Library.Monad_Syntax"
begin

text \<open>
  Words in memory, \<^verbatim>\<open>tf-psa-crypto/core/alignment.h\<close>: loads and stores of words at any address, byte swaps, and the macros that
  read and write integers in a fixed byte order. The byte order of the machine is the argument \<open>be\<close>
  (\<open>MBEDTLS_IS_BIG_ENDIAN\<close>). A buffer is a list of bytes; an access outside it is \<open>None\<close>.
\<close>

unbundle bit_operations_syntax

type_synonym u16 = "16 word"

subsection \<open>Bytes of a word\<close>

primrec le_word :: "bytes \<Rightarrow> 'a::len word" where
  "le_word [] = 0"
| "le_word (x # xs) = ucast x OR push_bit 8 (le_word xs)"

definition word_bytes :: "nat \<Rightarrow> 'a::len word \<Rightarrow> bytes" where
  "word_bytes k w = map (\<lambda>j. ucast (drop_bit (8 * j) w)) [0..<k]"

text \<open>In memory, the lowest byte comes first or last.\<close>

definition in_order :: "bool \<Rightarrow> bytes \<Rightarrow> bytes" where
  "in_order be bs = (if be then rev bs else bs)"

definition get_unaligned :: "nat \<Rightarrow> bool \<Rightarrow> bytes \<Rightarrow> nat \<Rightarrow> 'a::len word option" where
  "get_unaligned k be buf p = (if p + k \<le> length buf then Some (le_word (in_order be (take k (drop p buf)))) else None)"

definition put_unaligned :: "nat \<Rightarrow> bool \<Rightarrow> bytes \<Rightarrow> nat \<Rightarrow> 'a::len word \<Rightarrow> bytes option" where
  "put_unaligned k be buf p x =
     (if p + k \<le> length buf then Some (take p buf @ in_order be (word_bytes k x) @ drop (p + k) buf) else None)"

subsection \<open>Definitions\<close>

definition mbedtls_get_unaligned_uint16 :: "bool \<Rightarrow> bytes \<Rightarrow> nat \<Rightarrow> u16 option" where
  "mbedtls_get_unaligned_uint16 be buf p = get_unaligned 2 be buf p"

definition mbedtls_put_unaligned_uint16 :: "bool \<Rightarrow> bytes \<Rightarrow> nat \<Rightarrow> u16 \<Rightarrow> bytes option" where
  "mbedtls_put_unaligned_uint16 be buf p x = put_unaligned 2 be buf p x"

definition mbedtls_get_unaligned_uint32 :: "bool \<Rightarrow> bytes \<Rightarrow> nat \<Rightarrow> u32 option" where
  "mbedtls_get_unaligned_uint32 be buf p = get_unaligned 4 be buf p"

definition mbedtls_put_unaligned_uint32 :: "bool \<Rightarrow> bytes \<Rightarrow> nat \<Rightarrow> u32 \<Rightarrow> bytes option" where
  "mbedtls_put_unaligned_uint32 be buf p x = put_unaligned 4 be buf p x"

definition mbedtls_get_unaligned_uint64 :: "bool \<Rightarrow> bytes \<Rightarrow> nat \<Rightarrow> u64 option" where
  "mbedtls_get_unaligned_uint64 be buf p = get_unaligned 8 be buf p"

definition mbedtls_put_unaligned_uint64 :: "bool \<Rightarrow> bytes \<Rightarrow> nat \<Rightarrow> u64 \<Rightarrow> bytes option" where
  "mbedtls_put_unaligned_uint64 be buf p x = put_unaligned 8 be buf p x"

text \<open>\<open>MBEDTLS_BYTE_n\<close>\<close>

definition MBEDTLS_BYTE :: "nat \<Rightarrow> 'a::len word \<Rightarrow> u8" where
  "MBEDTLS_BYTE n x = ucast (drop_bit (8 * n) x AND 0xff)"

definition mbedtls_bswap16 :: "u16 \<Rightarrow> u16" where
  "mbedtls_bswap16 x = push_bit 8 (x AND 0x00ff) OR drop_bit 8 (x AND 0xff00)"

definition mbedtls_bswap32 :: "u32 \<Rightarrow> u32" where
  "mbedtls_bswap32 x =
     push_bit 24 (x AND 0x000000ff) OR
     push_bit 8 (x AND 0x0000ff00) OR
     drop_bit 8 (x AND 0x00ff0000) OR
     drop_bit 24 (x AND 0xff000000)"

definition mbedtls_bswap64 :: "u64 \<Rightarrow> u64" where
  "mbedtls_bswap64 x =
     push_bit 56 (x AND 0x00000000000000ff) OR
     push_bit 40 (x AND 0x000000000000ff00) OR
     push_bit 24 (x AND 0x0000000000ff0000) OR
     push_bit 8 (x AND 0x00000000ff000000) OR
     drop_bit 8 (x AND 0x000000ff00000000) OR
     drop_bit 24 (x AND 0x0000ff0000000000) OR
     drop_bit 40 (x AND 0x00ff000000000000) OR
     drop_bit 56 (x AND 0xff00000000000000)"

definition MBEDTLS_GET_UINT32_BE :: "bool \<Rightarrow> bytes \<Rightarrow> nat \<Rightarrow> u32 option" where
  "MBEDTLS_GET_UINT32_BE be data offset =
     (if be then mbedtls_get_unaligned_uint32 be data offset
      else map_option mbedtls_bswap32 (mbedtls_get_unaligned_uint32 be data offset))"

definition MBEDTLS_PUT_UINT32_BE :: "bool \<Rightarrow> u32 \<Rightarrow> bytes \<Rightarrow> nat \<Rightarrow> bytes option" where
  "MBEDTLS_PUT_UINT32_BE be n data offset =
     (if be then mbedtls_put_unaligned_uint32 be data offset n
      else mbedtls_put_unaligned_uint32 be data offset (mbedtls_bswap32 n))"

definition MBEDTLS_GET_UINT32_LE :: "bool \<Rightarrow> bytes \<Rightarrow> nat \<Rightarrow> u32 option" where
  "MBEDTLS_GET_UINT32_LE be data offset =
     (if be then map_option mbedtls_bswap32 (mbedtls_get_unaligned_uint32 be data offset)
      else mbedtls_get_unaligned_uint32 be data offset)"

definition MBEDTLS_PUT_UINT32_LE :: "bool \<Rightarrow> u32 \<Rightarrow> bytes \<Rightarrow> nat \<Rightarrow> bytes option" where
  "MBEDTLS_PUT_UINT32_LE be n data offset =
     (if be then mbedtls_put_unaligned_uint32 be data offset (mbedtls_bswap32 n)
      else mbedtls_put_unaligned_uint32 be data offset n)"

definition MBEDTLS_GET_UINT16_LE :: "bool \<Rightarrow> bytes \<Rightarrow> nat \<Rightarrow> u16 option" where
  "MBEDTLS_GET_UINT16_LE be data offset =
     (if be then map_option mbedtls_bswap16 (mbedtls_get_unaligned_uint16 be data offset)
      else mbedtls_get_unaligned_uint16 be data offset)"

definition MBEDTLS_PUT_UINT16_LE :: "bool \<Rightarrow> u16 \<Rightarrow> bytes \<Rightarrow> nat \<Rightarrow> bytes option" where
  "MBEDTLS_PUT_UINT16_LE be n data offset =
     (if be then mbedtls_put_unaligned_uint16 be data offset (mbedtls_bswap16 n)
      else mbedtls_put_unaligned_uint16 be data offset n)"

definition MBEDTLS_GET_UINT16_BE :: "bool \<Rightarrow> bytes \<Rightarrow> nat \<Rightarrow> u16 option" where
  "MBEDTLS_GET_UINT16_BE be data offset =
     (if be then mbedtls_get_unaligned_uint16 be data offset
      else map_option mbedtls_bswap16 (mbedtls_get_unaligned_uint16 be data offset))"

definition MBEDTLS_PUT_UINT16_BE :: "bool \<Rightarrow> u16 \<Rightarrow> bytes \<Rightarrow> nat \<Rightarrow> bytes option" where
  "MBEDTLS_PUT_UINT16_BE be n data offset =
     (if be then mbedtls_put_unaligned_uint16 be data offset n
      else mbedtls_put_unaligned_uint16 be data offset (mbedtls_bswap16 n))"

text \<open>Three bytes are read and written one by one.\<close>

definition load :: "bytes \<Rightarrow> nat \<Rightarrow> u32 option" where
  "load data i = (if i < length data then Some (ucast (data ! i)) else None)"

definition store :: "u8 \<Rightarrow> nat \<Rightarrow> bytes \<Rightarrow> bytes option" where
  "store x i data = (if i < length data then Some (data[i := x]) else None)"

definition MBEDTLS_GET_UINT24_BE :: "bytes \<Rightarrow> nat \<Rightarrow> u32 option" where
  "MBEDTLS_GET_UINT24_BE data offset = do {
     x \<leftarrow> load data offset;
     y \<leftarrow> load data (offset + 1);
     z \<leftarrow> load data (offset + 2);
     Some (push_bit 16 x OR push_bit 8 y OR z)
   }"

definition MBEDTLS_PUT_UINT24_BE :: "u32 \<Rightarrow> bytes \<Rightarrow> nat \<Rightarrow> bytes option" where
  "MBEDTLS_PUT_UINT24_BE n data offset = do {
     data \<leftarrow> store (MBEDTLS_BYTE 2 n) offset data;
     data \<leftarrow> store (MBEDTLS_BYTE 1 n) (offset + 1) data;
     store (MBEDTLS_BYTE 0 n) (offset + 2) data
   }"

definition MBEDTLS_GET_UINT24_LE :: "bytes \<Rightarrow> nat \<Rightarrow> u32 option" where
  "MBEDTLS_GET_UINT24_LE data offset = do {
     x \<leftarrow> load data offset;
     y \<leftarrow> load data (offset + 1);
     z \<leftarrow> load data (offset + 2);
     Some (x OR push_bit 8 y OR push_bit 16 z)
   }"

definition MBEDTLS_PUT_UINT24_LE :: "u32 \<Rightarrow> bytes \<Rightarrow> nat \<Rightarrow> bytes option" where
  "MBEDTLS_PUT_UINT24_LE n data offset = do {
     data \<leftarrow> store (MBEDTLS_BYTE 0 n) offset data;
     data \<leftarrow> store (MBEDTLS_BYTE 1 n) (offset + 1) data;
     store (MBEDTLS_BYTE 2 n) (offset + 2) data
   }"

definition MBEDTLS_GET_UINT64_BE :: "bool \<Rightarrow> bytes \<Rightarrow> nat \<Rightarrow> u64 option" where
  "MBEDTLS_GET_UINT64_BE be data offset =
     (if be then mbedtls_get_unaligned_uint64 be data offset
      else map_option mbedtls_bswap64 (mbedtls_get_unaligned_uint64 be data offset))"

definition MBEDTLS_PUT_UINT64_BE :: "bool \<Rightarrow> u64 \<Rightarrow> bytes \<Rightarrow> nat \<Rightarrow> bytes option" where
  "MBEDTLS_PUT_UINT64_BE be n data offset =
     (if be then mbedtls_put_unaligned_uint64 be data offset n
      else mbedtls_put_unaligned_uint64 be data offset (mbedtls_bswap64 n))"

definition MBEDTLS_GET_UINT64_LE :: "bool \<Rightarrow> bytes \<Rightarrow> nat \<Rightarrow> u64 option" where
  "MBEDTLS_GET_UINT64_LE be data offset =
     (if be then map_option mbedtls_bswap64 (mbedtls_get_unaligned_uint64 be data offset)
      else mbedtls_get_unaligned_uint64 be data offset)"

definition MBEDTLS_PUT_UINT64_LE :: "bool \<Rightarrow> u64 \<Rightarrow> bytes \<Rightarrow> nat \<Rightarrow> bytes option" where
  "MBEDTLS_PUT_UINT64_LE be n data offset =
     (if be then mbedtls_put_unaligned_uint64 be data offset (mbedtls_bswap64 n)
      else mbedtls_put_unaligned_uint64 be data offset n)"

subsection \<open>Words and their bytes\<close>

lemma bit_le_word:
  "bit (le_word bs :: 'a::len word) n \<longleftrightarrow> n < LENGTH('a) \<and> n div 8 < length bs \<and> bit (bs ! (n div 8)) (n mod 8)"
proof (induction bs arbitrary: n)
  case (Cons x xs)
  show ?case
  proof (cases "n < 8")
    case True
    then show ?thesis by (auto simp: bit_simps)
  next
    case False
    then obtain m where m: "n = m + 8" by (metis add.commute le_Suc_ex not_less)
    have "\<not> bit x n" using False bit_imp_le_length [of x n] by auto
    moreover have "(m + 8) div 8 = Suc (m div 8)" "(m + 8) mod 8 = m mod 8" by simp_all
    ultimately show ?thesis using Cons.IH [of m] m by (auto simp: bit_simps)
  qed
qed simp

lemma length_word_bytes [simp]: "length (word_bytes k w) = k"
  by (simp add: word_bytes_def)

lemma bit_word_bytes: "j < k \<Longrightarrow> bit (word_bytes k w ! j) m \<longleftrightarrow> m < 8 \<and> bit w (8 * j + m)"
  by (auto simp: word_bytes_def bit_simps)

lemma le_word_bytes: "8 * k = LENGTH('a) \<Longrightarrow> le_word (word_bytes k w) = w" for w :: "'a::len word"
  by (rule bit_word_eqI) (simp add: bit_le_word bit_word_bytes less_mult_imp_div_less)

lemma word_bytes_le:
  assumes "length bs = k" "8 * k \<le> LENGTH('a)"
  shows "word_bytes k (le_word bs :: 'a::len word) = bs"
proof (rule nth_equalityI)
  fix j assume j: "j < length (word_bytes k (le_word bs :: 'a word))"
  have "bit (word_bytes k (le_word bs :: 'a word) ! j) m = bit (bs ! j) m" if "m < 8" for m
    using that j assms by (simp add: bit_word_bytes bit_le_word)
  then show "word_bytes k (le_word bs :: 'a word) ! j = bs ! j" by (intro bit_word_eqI) simp
qed (simp add: assms)

lemma bit_swapped:
  assumes "q < k" "r < 8" "8 * k \<le> LENGTH('a)"
  shows "bit (le_word (rev (word_bytes k w)) :: 'a::len word) (8 * q + r) \<longleftrightarrow> bit w (8 * (k - Suc q) + r)"
proof -
  have "8 * q + r < LENGTH('a)" "(8 * q + r) div 8 = q" "(8 * q + r) mod 8 = r" using assms by auto
  then show ?thesis using assms by (simp add: bit_le_word rev_nth bit_word_bytes)
qed

lemma byte_masks:
  "(0x00ff :: u16) = mask 8" "(0xff00 :: u16) = push_bit 8 (mask 8)"
  "(0xff :: u32) = mask 8" "(0xff00 :: u32) = push_bit 8 (mask 8)" "(0xff0000 :: u32) = push_bit 16 (mask 8)" "(0xff000000 :: u32) = push_bit 24 (mask 8)"
  "(0xff :: u64) = mask 8" "(0xff00 :: u64) = push_bit 8 (mask 8)" "(0xff0000 :: u64) = push_bit 16 (mask 8)" "(0xff000000 :: u64) = push_bit 24 (mask 8)"
  "(0xff00000000 :: u64) = push_bit 32 (mask 8)" "(0xff0000000000 :: u64) = push_bit 40 (mask 8)" "(0xff000000000000 :: u64) = push_bit 48 (mask 8)"
  "(0xff00000000000000 :: u64) = push_bit 56 (mask 8)"
  by (simp_all add: mask_eq_exp_minus_1 push_bit_eq_mult)

text \<open>A bit index is a byte index and a position in the byte.\<close>

lemma byte_cases:
  fixes n :: nat
  assumes "n < 8 * k"
  obtains q r where "q < k" "r < 8" "n = 8 * q + r"
proof
  show "n = 8 * (n div 8) + n mod 8" by simp
qed (use assms in auto)

lemma bit_up: "bit (push_bit a (x AND push_bit s (mask 8)) :: 'a::len word) n \<longleftrightarrow>
    n < LENGTH('a) \<and> a \<le> n \<and> s \<le> n - a \<and> n - a < s + 8 \<and> bit x (n - a)"
  using bit_imp_le_length [of x] by (auto simp: bit_simps)

lemma bit_up0: "bit (push_bit a (x AND mask 8) :: 'a::len word) n \<longleftrightarrow> n < LENGTH('a) \<and> a \<le> n \<and> n - a < 8 \<and> bit x (n - a)"
  using bit_up [of a x 0 n] by simp

lemma bit_down: "bit (drop_bit a (x AND push_bit s (mask 8)) :: 'a::len word) n \<longleftrightarrow>
    s \<le> a + n \<and> a + n < s + 8 \<and> bit x (a + n)"
  using bit_imp_le_length [of x "a + n"] by (auto simp: bit_simps)

lemmas bit_moved = bit_or_iff bit_up bit_up0 bit_down

lemma bswap16_bytes: "mbedtls_bswap16 x = le_word (rev (word_bytes 2 x))"
proof (rule bit_word_eqI)
  fix n assume "n < LENGTH(16)"
  then obtain q r where q: "q < 2" "r < 8" "n = 8 * q + r" using byte_cases [of n 2] by auto
  have "q = 0 \<or> q = 1" using q(1) by arith
  then show "bit (mbedtls_bswap16 x) n = bit (le_word (rev (word_bytes 2 x)) :: u16) n"
    unfolding mbedtls_bswap16_def byte_masks bit_moved q(3) using q(2) bit_swapped [of q 2 r x, where 'a = 16] q(1) by (elim disjE) simp_all
qed

lemma bswap32_bytes: "mbedtls_bswap32 x = le_word (rev (word_bytes 4 x))"
proof (rule bit_word_eqI)
  fix n assume "n < LENGTH(32)"
  then obtain q r where q: "q < 4" "r < 8" "n = 8 * q + r" using byte_cases [of n 4] by auto
  have "q = 0 \<or> q = 1 \<or> q = 2 \<or> q = 3" using q(1) by arith
  then show "bit (mbedtls_bswap32 x) n = bit (le_word (rev (word_bytes 4 x)) :: u32) n"
    unfolding mbedtls_bswap32_def byte_masks bit_moved q(3) using q(2) bit_swapped [of q 4 r x, where 'a = 32] q(1) by (elim disjE) simp_all
qed

lemma bswap64_bytes: "mbedtls_bswap64 x = le_word (rev (word_bytes 8 x))"
proof (rule bit_word_eqI)
  fix n assume "n < LENGTH(64)"
  then obtain q r where q: "q < 8" "r < 8" "n = 8 * q + r" using byte_cases [of n 8] by auto
  have "q = 0 \<or> q = 1 \<or> q = 2 \<or> q = 3 \<or> q = 4 \<or> q = 5 \<or> q = 6 \<or> q = 7" using q(1) by arith
  then show "bit (mbedtls_bswap64 x) n = bit (le_word (rev (word_bytes 8 x)) :: u64) n"
    unfolding mbedtls_bswap64_def byte_masks bit_moved q(3) using q(2) bit_swapped [of q 8 r x, where 'a = 64] q(1) by (elim disjE) simp_all
qed

lemma word_bytes_BYTE: "word_bytes k w = map (\<lambda>j. MBEDTLS_BYTE j w) [0..<k]"
proof -
  have "drop_bit (8 * j) w AND 0xff = take_bit 8 (drop_bit (8 * j) w)" for j
    by (simp add: take_bit_eq_mask mask_eq_exp_minus_1)
  then have "ucast (drop_bit (8 * j) w) = MBEDTLS_BYTE j w" for j
    unfolding MBEDTLS_BYTE_def by (intro bit_word_eqI) (auto simp: bit_simps)
  then show ?thesis by (simp add: word_bytes_def)
qed

subsection \<open>Accesses in a fixed byte order\<close>

text \<open>The bytes \<open>bs\<close> written at \<open>p\<close>.\<close>

definition overwrite :: "bytes \<Rightarrow> nat \<Rightarrow> bytes \<Rightarrow> bytes" where
  "overwrite buf p bs = take p buf @ bs @ drop (p + length bs) buf"

lemma overwrite_at: "p + length bs \<le> length buf \<Longrightarrow> take (length bs) (drop p (overwrite buf p bs)) = bs"
  and overwrite_length: "p + length bs \<le> length buf \<Longrightarrow> length (overwrite buf p bs) = length buf"
  by (simp_all add: overwrite_def)

lemma in_order_length [simp]: "length (in_order be bs) = length bs"
  by (simp add: in_order_def)

lemma put_eq: "p + k \<le> length buf \<Longrightarrow> put_unaligned k be buf p x = Some (overwrite buf p (in_order be (word_bytes k x)))"
  by (simp add: put_unaligned_def overwrite_def)

lemma get_eq:
  assumes "p + length bs \<le> length buf"
  shows "get_unaligned (length bs) be (overwrite buf p bs) p = Some (le_word (in_order be bs))"
  using assms by (simp add: get_unaligned_def overwrite_at overwrite_length)

text \<open>
  One width: \<open>put\<close> and \<open>get\<close> of the macros with the swap of that width. In big-endian order the bytes are
  stored highest first on either machine, in little-endian order lowest first, and reading gives the number back.
\<close>

lemma fixed_order:
  fixes n :: "'a::len word"
  assumes k: "8 * k = LENGTH('a)" and p: "p + k \<le> length buf" and swap: "\<And>x :: 'a word. swap x = le_word (rev (word_bytes k x))"
  shows "(if be then put_unaligned k be buf p n else put_unaligned k be buf p (swap n)) = Some (overwrite buf p (rev (word_bytes k n)))"
    and "(if be then put_unaligned k be buf p (swap n) else put_unaligned k be buf p n) = Some (overwrite buf p (word_bytes k n))"
    and "(if be then get_unaligned k be (overwrite buf p (rev (word_bytes k n))) p
      else map_option swap (get_unaligned k be (overwrite buf p (rev (word_bytes k n))) p)) = Some n"
    and "(if be then map_option swap (get_unaligned k be (overwrite buf p (word_bytes k n)) p)
      else get_unaligned k be (overwrite buf p (word_bytes k n)) p) = Some n"
proof -
  have swapped: "word_bytes k (swap x) = rev (word_bytes k x)" for x :: "'a word"
    unfolding swap using k by (subst word_bytes_le) simp_all
  have undo: "swap (le_word (rev (word_bytes k n))) = n" "le_word (word_bytes k n) = n"
    unfolding swap using k by (simp_all add: word_bytes_le le_word_bytes)
  have get: "get_unaligned k c (overwrite buf p bs) p = (Some (le_word (in_order c bs)) :: 'a word option)" if "length bs = k" for bs c
    using get_eq [of p bs buf c] p that by simp
  show "(if be then put_unaligned k be buf p n else put_unaligned k be buf p (swap n)) = Some (overwrite buf p (rev (word_bytes k n)))"
    "(if be then put_unaligned k be buf p (swap n) else put_unaligned k be buf p n) = Some (overwrite buf p (word_bytes k n))"
    using p by (simp_all add: put_eq in_order_def swapped)
  show "(if be then get_unaligned k be (overwrite buf p (rev (word_bytes k n))) p
      else map_option swap (get_unaligned k be (overwrite buf p (rev (word_bytes k n))) p)) = Some n"
    "(if be then map_option swap (get_unaligned k be (overwrite buf p (word_bytes k n)) p)
      else get_unaligned k be (overwrite buf p (word_bytes k n)) p) = Some n"
    using undo by (simp_all add: get in_order_def)
qed

lemma word_sizes: "8 * 2 = LENGTH(16)" "8 * 4 = LENGTH(32)" "8 * 8 = LENGTH(64)"
  by simp_all

lemmas order16 = fixed_order [where 'a = 16, OF word_sizes(1) _ bswap16_bytes]
lemmas order32 = fixed_order [where 'a = 32, OF word_sizes(2) _ bswap32_bytes]
lemmas order64 = fixed_order [where 'a = 64, OF word_sizes(3) _ bswap64_bytes]

lemmas access16 = MBEDTLS_PUT_UINT16_BE_def MBEDTLS_PUT_UINT16_LE_def MBEDTLS_GET_UINT16_BE_def MBEDTLS_GET_UINT16_LE_def
  mbedtls_get_unaligned_uint16_def mbedtls_put_unaligned_uint16_def
lemmas access32 = MBEDTLS_PUT_UINT32_BE_def MBEDTLS_PUT_UINT32_LE_def MBEDTLS_GET_UINT32_BE_def MBEDTLS_GET_UINT32_LE_def
  mbedtls_get_unaligned_uint32_def mbedtls_put_unaligned_uint32_def
lemmas access64 = MBEDTLS_PUT_UINT64_BE_def MBEDTLS_PUT_UINT64_LE_def MBEDTLS_GET_UINT64_BE_def MBEDTLS_GET_UINT64_LE_def
  mbedtls_get_unaligned_uint64_def mbedtls_put_unaligned_uint64_def

lemma bytes24:
  fixes n :: u32
  shows "push_bit 16 (ucast (MBEDTLS_BYTE 2 n)) OR push_bit 8 (ucast (MBEDTLS_BYTE 1 n)) OR ucast (MBEDTLS_BYTE 0 n) = n AND 0xffffff" (is "?l = _")
proof (rule bit_word_eqI)
  fix i :: nat
  have m: "(0xffffff :: u32) = mask 24" "(0xff :: u32) = mask 8" by (simp_all add: mask_eq_exp_minus_1)
  have "i < 8 \<or> (\<exists>j<8. i = 8 + j) \<or> (\<exists>j<8. i = 16 + j) \<or> 24 \<le> i" by presburger
  then show "bit ?l i = bit (n AND 0xffffff) i"
    unfolding MBEDTLS_BYTE_def m by (elim disjE exE conjE) (auto simp: bit_simps)
qed

lemma order24:
  assumes "p + 3 \<le> length buf"
  shows "MBEDTLS_PUT_UINT24_BE n buf p = Some (overwrite buf p (rev (word_bytes 3 n)))"
    and "MBEDTLS_PUT_UINT24_LE n buf p = Some (overwrite buf p (word_bytes 3 n))"
    and "MBEDTLS_GET_UINT24_BE (overwrite buf p (rev (word_bytes 3 n))) p = Some (n AND 0xffffff)"
    and "MBEDTLS_GET_UINT24_LE (overwrite buf p (word_bytes 3 n)) p = Some (n AND 0xffffff)"
proof -
  have wb: "word_bytes 3 n = [MBEDTLS_BYTE 0 n, MBEDTLS_BYTE 1 n, MBEDTLS_BYTE 2 n]"
  proof -
    have "[0..<3] = [0, 1, 2 :: nat]" by (simp add: upt_rec)
    then show ?thesis by (simp add: word_bytes_BYTE)
  qed
  have upd: "buf[p := x, p + 1 := y, p + 2 := z] = overwrite buf p [x, y, z]" for x y z :: u8
    using assms by (intro nth_equalityI) (auto simp: overwrite_def nth_append nth_Cons nth_list_update split: nat.split intro!: arg_cong [where f = "(!) buf"])
  have at: "load (overwrite buf p [x, y, z]) p = Some (ucast x)" "load (overwrite buf p [x, y, z]) (p + 1) = Some (ucast y)"
    "load (overwrite buf p [x, y, z]) (p + 2) = Some (ucast z)" for x y z :: u8
    using assms by (simp_all add: load_def overwrite_def nth_append)
  show "MBEDTLS_PUT_UINT24_BE n buf p = Some (overwrite buf p (rev (word_bytes 3 n)))"
    "MBEDTLS_PUT_UINT24_LE n buf p = Some (overwrite buf p (word_bytes 3 n))"
    using assms by (simp_all add: MBEDTLS_PUT_UINT24_BE_def MBEDTLS_PUT_UINT24_LE_def store_def wb upd [symmetric])
  show "MBEDTLS_GET_UINT24_BE (overwrite buf p (rev (word_bytes 3 n))) p = Some (n AND 0xffffff)"
    "MBEDTLS_GET_UINT24_LE (overwrite buf p (word_bytes 3 n)) p = Some (n AND 0xffffff)"
    using bytes24 [of n] by (simp_all add: MBEDTLS_GET_UINT24_BE_def MBEDTLS_GET_UINT24_LE_def wb at [simplified] or.assoc or.commute or.left_commute)
qed

text \<open>C37: integers in a fixed byte order are portable. On a machine of either byte order the writing macros store exactly the bytes
  of the number, highest first (\<open>BE\<close>) or lowest first (\<open>LE\<close>), touch no other byte of the buffer, and the reading macros return
  the number; three-byte accesses keep the low 24 bits.\<close>
theorem byte_order_portable:
  assumes "p + 8 \<le> length buf"
  shows "MBEDTLS_PUT_UINT16_BE be a buf p = Some (overwrite buf p (rev (word_bytes 2 a))) \<and>
    MBEDTLS_GET_UINT16_BE be (overwrite buf p (rev (word_bytes 2 a))) p = Some a \<and>
    MBEDTLS_PUT_UINT16_LE be a buf p = Some (overwrite buf p (word_bytes 2 a)) \<and>
    MBEDTLS_GET_UINT16_LE be (overwrite buf p (word_bytes 2 a)) p = Some a \<and>
    MBEDTLS_PUT_UINT24_BE b buf p = Some (overwrite buf p (rev (word_bytes 3 b))) \<and>
    MBEDTLS_GET_UINT24_BE (overwrite buf p (rev (word_bytes 3 b))) p = Some (b AND 0xffffff) \<and>
    MBEDTLS_PUT_UINT24_LE b buf p = Some (overwrite buf p (word_bytes 3 b)) \<and>
    MBEDTLS_GET_UINT24_LE (overwrite buf p (word_bytes 3 b)) p = Some (b AND 0xffffff) \<and>
    MBEDTLS_PUT_UINT32_BE be b buf p = Some (overwrite buf p (rev (word_bytes 4 b))) \<and>
    MBEDTLS_GET_UINT32_BE be (overwrite buf p (rev (word_bytes 4 b))) p = Some b \<and>
    MBEDTLS_PUT_UINT32_LE be b buf p = Some (overwrite buf p (word_bytes 4 b)) \<and>
    MBEDTLS_GET_UINT32_LE be (overwrite buf p (word_bytes 4 b)) p = Some b \<and>
    MBEDTLS_PUT_UINT64_BE be c buf p = Some (overwrite buf p (rev (word_bytes 8 c))) \<and>
    MBEDTLS_GET_UINT64_BE be (overwrite buf p (rev (word_bytes 8 c))) p = Some c \<and>
    MBEDTLS_PUT_UINT64_LE be c buf p = Some (overwrite buf p (word_bytes 8 c)) \<and>
    MBEDTLS_GET_UINT64_LE be (overwrite buf p (word_bytes 8 c)) p = Some c"
proof -
  have l: "p + 2 \<le> length buf" "p + 3 \<le> length buf" "p + 4 \<le> length buf" using assms by simp_all
  show ?thesis unfolding access16 access32 access64
    by (intro conjI order16 [OF l(1)] order24 [OF l(2)] order32 [OF l(3)] order64 [OF assms])
qed

theorem byte_order_portable_witness:
  "MBEDTLS_PUT_UINT32_BE True 0x01020304 (replicate 9 0) 1 = Some [0, 1, 2, 3, 4, 0, 0, 0, 0] \<and>
   MBEDTLS_PUT_UINT32_BE False 0x01020304 (replicate 9 0) 1 = Some [0, 1, 2, 3, 4, 0, 0, 0, 0]"
proof -
  have "overwrite (replicate 9 0) 1 (rev (word_bytes 4 (0x01020304 :: u32))) = [0, 1, 2, 3, 4, 0, 0, 0, 0]"
    by code_simp
  then show ?thesis using byte_order_portable [of 1 "replicate 9 0" True 0 "0x01020304" 0] byte_order_portable [of 1 "replicate 9 0" False 0 "0x01020304" 0] by simp
qed

end
