(* ===== verification/Ct_Buffers.thy ===== *)
theory Ct_Buffers
  imports Ct_Words Byte_Order
begin

text \<open>
  Buffers in constant time, \<^verbatim>\<open>tf-psa-crypto/utilities/constant_time.c\<close>: comparison, conditional copy, copy from a secret
  offset, conditional erasure and a shift to the left; and the block XOR of \<^verbatim>\<open>core/tf_psa_crypto_common.h\<close>. Most of them run over
  words first and over the remaining bytes then. Whether they do (\<open>MBEDTLS_EFFICIENT_UNALIGNED_ACCESS\<close>) is the argument
  \<open>wide\<close>, the byte order of the machine the argument \<open>be\<close>. A buffer is a list; an access outside it is \<open>None\<close>.
\<close>

subsection \<open>Definitions\<close>

definition get :: "bytes \<Rightarrow> nat \<Rightarrow> u8 option" where
  "get buf i = (if i < length buf then Some (buf ! i) else None)"

function cmp_loop :: "bytes \<Rightarrow> bytes \<Rightarrow> nat \<Rightarrow> nat \<Rightarrow> u32 \<Rightarrow> u32 option" where
  "cmp_loop a b i n diff = (if i < n then
     (case (get a i, get b i) of
        (Some x, Some y) \<Rightarrow> cmp_loop a b (i + 1) n (diff OR ucast (x XOR y))
      | _ \<Rightarrow> None)
   else Some diff)"
  by pat_completeness auto

termination
  by (relation "measure (\<lambda>(a, b, i, n, diff). n - i)") auto

declare cmp_loop.simps [simp del]

function cmp_words :: "bool \<Rightarrow> bytes \<Rightarrow> bytes \<Rightarrow> nat \<Rightarrow> nat \<Rightarrow> u32 \<Rightarrow> (nat \<times> u32) option" where
  "cmp_words be a b i n diff = (if i + 4 \<le> n then
     (case (mbedtls_get_unaligned_uint32 be a i, mbedtls_get_unaligned_uint32 be b i) of
        (Some x, Some y) \<Rightarrow> cmp_words be a b (i + 4) n (diff OR (x XOR y))
      | _ \<Rightarrow> None)
   else Some (i, diff))"
  by pat_completeness auto

termination
  by (relation "measure (\<lambda>(be, a, b, i, n, diff). n - i)") auto

declare cmp_words.simps [simp del]

definition mbedtls_ct_memcmp :: "bool \<Rightarrow> bool \<Rightarrow> bytes \<Rightarrow> bytes \<Rightarrow> nat \<Rightarrow> int option" where
  "mbedtls_ct_memcmp wide be a b n = do {
     (i, diff) \<leftarrow> (if wide then cmp_words be a b 0 n 0 else Some (0, 0));
     diff \<leftarrow> cmp_loop a b i n diff;
     Some (sint ((diff AND 0xffff) OR drop_bit 16 diff))
   }"

text \<open>Sizes and indices are 64-bit words; \<open>valid_end = n - skip_tail\<close> wraps as in C.\<close>

function partial_loop :: "bytes \<Rightarrow> bytes \<Rightarrow> u64 \<Rightarrow> u64 \<Rightarrow> nat \<Rightarrow> nat \<Rightarrow> u32 \<Rightarrow> u32 option" where
  "partial_loop a b skip_head valid_end i n diff = (if i < n then
     (case (get a i, get b i) of
        (Some x, Some y) \<Rightarrow>
          partial_loop a b skip_head valid_end (i + 1) n
            (diff OR mbedtls_ct_uint_if_else_0
               (mbedtls_ct_bool_and (mbedtls_ct_uint_ge (of_nat i) skip_head) (mbedtls_ct_uint_lt (of_nat i) valid_end))
               (ucast (x XOR y)))
      | _ \<Rightarrow> None)
   else Some diff)"
  by pat_completeness auto

termination
  by (relation "measure (\<lambda>(a, b, h, e, i, n, diff). n - i)") auto

declare partial_loop.simps [simp del]

definition mbedtls_ct_memcmp_partial :: "bytes \<Rightarrow> bytes \<Rightarrow> nat \<Rightarrow> u64 \<Rightarrow> u64 \<Rightarrow> int option" where
  "mbedtls_ct_memcmp_partial a b n skip_head skip_tail = map_option sint (partial_loop a b skip_head (of_nat n - skip_tail) 0 n 0)"

text \<open>The loop \<^verbatim>\<open>for (; (i + k) <= len; i += k)\<close> over blocks of a buffer; \<open>k\<close> is a positive constant.\<close>

function for_blocks :: "nat \<Rightarrow> (bytes \<Rightarrow> nat \<Rightarrow> bytes option) \<Rightarrow> bytes \<Rightarrow> nat \<Rightarrow> nat \<Rightarrow> (nat \<times> bytes) option" where
  "for_blocks k body dest i len = (if 0 < k \<and> i + k \<le> len then
     (case body dest i of None \<Rightarrow> None | Some dest \<Rightarrow> for_blocks k body dest (i + k) len)
   else Some (i, dest))"
  by pat_completeness auto

termination
  by (relation "measure (\<lambda>(k, body, dest, i, len). len - i)") auto

declare for_blocks.simps [simp del]

definition put :: "bytes \<Rightarrow> nat \<Rightarrow> u8 \<Rightarrow> bytes option" where
  "put buf i x = (if i < length buf then Some (buf[i := x]) else None)"

text \<open>\<open>None\<close> is the null pointer, or the destination itself: it is read as it is at the time.\<close>

definition source :: "bytes option \<Rightarrow> bytes \<Rightarrow> bytes" where
  "source src dest = (case src of None \<Rightarrow> dest | Some s \<Rightarrow> s)"

definition copy_word :: "bool \<Rightarrow> u64 \<Rightarrow> u64 \<Rightarrow> bytes \<Rightarrow> bytes option \<Rightarrow> bytes \<Rightarrow> nat \<Rightarrow> bytes option" where
  "copy_word be msk not_msk src1 src2 dest i = do {
     a \<leftarrow> mbedtls_get_unaligned_uint64 be src1 i;
     b \<leftarrow> mbedtls_get_unaligned_uint64 be (source src2 dest) i;
     mbedtls_put_unaligned_uint64 be dest i ((a AND msk) OR (b AND not_msk))
   }"

definition copy_byte :: "u64 \<Rightarrow> u64 \<Rightarrow> bytes \<Rightarrow> bytes option \<Rightarrow> bytes \<Rightarrow> nat \<Rightarrow> bytes option" where
  "copy_byte msk not_msk src1 src2 dest i = do {
     a \<leftarrow> get src1 i;
     b \<leftarrow> get (source src2 dest) i;
     put dest i (ucast ((ucast a AND msk) OR (ucast b AND not_msk)))
   }"

definition mbedtls_ct_memcpy_if :: "bool \<Rightarrow> bool \<Rightarrow> u64 \<Rightarrow> bytes \<Rightarrow> bytes \<Rightarrow> bytes option \<Rightarrow> nat \<Rightarrow> bytes option" where
  "mbedtls_ct_memcpy_if wide be condition dest src1 src2 len =
     (let msk = condition; not_msk = NOT condition
      in do {
        (i, dest) \<leftarrow> (if wide then for_blocks 8 (copy_word be msk not_msk src1 src2) dest 0 len else Some (0, dest));
        (i, dest) \<leftarrow> for_blocks 1 (copy_byte msk not_msk src1 src2) dest i len;
        Some dest
      })"

function offset_loop :: "bool \<Rightarrow> bool \<Rightarrow> bytes \<Rightarrow> bytes \<Rightarrow> nat \<Rightarrow> nat \<Rightarrow> nat \<Rightarrow> nat \<Rightarrow> bytes option" where
  "offset_loop wide be dest src offset v hi len = (if v \<le> hi then
     (case mbedtls_ct_memcpy_if wide be (mbedtls_ct_uint_eq (of_nat v) (of_nat offset)) dest (drop v src) None len of
        None \<Rightarrow> None
      | Some dest \<Rightarrow> offset_loop wide be dest src offset (v + 1) hi len)
   else Some dest)"
  by pat_completeness auto

termination
  by (relation "measure (\<lambda>(wide, be, dest, src, offset, v, hi, len). Suc hi - v)") auto

declare offset_loop.simps [simp del]

definition mbedtls_ct_memcpy_offset :: "bool \<Rightarrow> bool \<Rightarrow> bytes \<Rightarrow> bytes \<Rightarrow> nat \<Rightarrow> nat \<Rightarrow> nat \<Rightarrow> nat \<Rightarrow> bytes option" where
  "mbedtls_ct_memcpy_offset wide be dest src offset lo hi len = offset_loop wide be dest src offset lo hi len"

definition zero_word :: "bool \<Rightarrow> u32 \<Rightarrow> bytes \<Rightarrow> nat \<Rightarrow> bytes option" where
  "zero_word be msk buf i = do {
     x \<leftarrow> mbedtls_get_unaligned_uint32 be buf i;
     mbedtls_put_unaligned_uint32 be buf i (x AND msk)
   }"

definition zero_byte :: "u32 \<Rightarrow> bytes \<Rightarrow> nat \<Rightarrow> bytes option" where
  "zero_byte msk buf i = do {
     x \<leftarrow> get buf i;
     put buf i (ucast (ucast x AND msk))
   }"

definition mbedtls_ct_zeroize_if :: "bool \<Rightarrow> bool \<Rightarrow> u64 \<Rightarrow> bytes \<Rightarrow> nat \<Rightarrow> bytes option" where
  "mbedtls_ct_zeroize_if wide be condition buf len =
     (let msk = ucast (NOT condition) :: u32
      in do {
        (i, buf) \<leftarrow> (if wide then for_blocks 4 (zero_word be msk) buf 0 len else Some (0, buf));
        (i, buf) \<leftarrow> for_blocks 1 (zero_byte msk) buf i len;
        Some buf
      })"

text \<open>
  \<open>mbedtls_xor\<close> in its four builds. The destination may be one of the operands (\<open>None\<close>). The early returns for lengths that are a
  multiple of the block size skip a loop that would not run.
\<close>

datatype xor_build = XorBytes | XorWords32 | XorWords64 | XorNeon

definition xor_byte :: "bytes option \<Rightarrow> bytes option \<Rightarrow> bytes \<Rightarrow> nat \<Rightarrow> bytes option" where
  "xor_byte a b r i = do {
     x \<leftarrow> get (source a r) i;
     y \<leftarrow> get (source b r) i;
     put r i (x XOR y)
   }"

definition xor_word32 :: "bool \<Rightarrow> bytes option \<Rightarrow> bytes option \<Rightarrow> bytes \<Rightarrow> nat \<Rightarrow> bytes option" where
  "xor_word32 be a b r i = do {
     x \<leftarrow> mbedtls_get_unaligned_uint32 be (source a r) i;
     y \<leftarrow> mbedtls_get_unaligned_uint32 be (source b r) i;
     mbedtls_put_unaligned_uint32 be r i (x XOR y)
   }"

definition xor_word64 :: "bool \<Rightarrow> bytes option \<Rightarrow> bytes option \<Rightarrow> bytes \<Rightarrow> nat \<Rightarrow> bytes option" where
  "xor_word64 be a b r i = do {
     x \<leftarrow> mbedtls_get_unaligned_uint64 be (source a r) i;
     y \<leftarrow> mbedtls_get_unaligned_uint64 be (source b r) i;
     mbedtls_put_unaligned_uint64 be r i (x XOR y)
   }"

definition xor_neon :: "bytes option \<Rightarrow> bytes option \<Rightarrow> bytes \<Rightarrow> nat \<Rightarrow> bytes option" where
  "xor_neon a b r i =
     (if i + 16 \<le> length (source a r) \<and> i + 16 \<le> length (source b r) \<and> i + 16 \<le> length r
      then Some (overwrite r i (map2 (XOR) (take 16 (drop i (source a r))) (take 16 (drop i (source b r))))) else None)"

definition mbedtls_xor :: "xor_build \<Rightarrow> bool \<Rightarrow> bytes \<Rightarrow> bytes option \<Rightarrow> bytes option \<Rightarrow> nat \<Rightarrow> bytes option" where
  "mbedtls_xor build be r a b n = do {
     (i, r) \<leftarrow> (case build of
        XorBytes \<Rightarrow> Some (0, r)
      | XorWords32 \<Rightarrow> for_blocks 4 (xor_word32 be a b) r 0 n
      | XorWords64 \<Rightarrow> for_blocks 8 (xor_word64 be a b) r 0 n
      | XorNeon \<Rightarrow> for_blocks 16 (xor_neon a b) r 0 n);
     (i, r) \<leftarrow> for_blocks 1 (xor_byte a b) r i n;
     Some r
   }"

text \<open>\<open>mbedtls_xor_no_simd\<close> has no vector build.\<close>

definition mbedtls_xor_no_simd :: "xor_build \<Rightarrow> bool \<Rightarrow> bytes \<Rightarrow> bytes option \<Rightarrow> bytes option \<Rightarrow> nat \<Rightarrow> bytes option" where
  "mbedtls_xor_no_simd build be r a b n = do {
     (i, r) \<leftarrow> (case build of
        XorWords64 \<Rightarrow> for_blocks 8 (xor_word64 be a b) r 0 n
      | XorWords32 \<Rightarrow> for_blocks 4 (xor_word32 be a b) r 0 n
      | _ \<Rightarrow> Some (0, r));
     (i, r) \<leftarrow> for_blocks 1 (xor_byte a b) r i n;
     Some r
   }"

text \<open>One pass of \<open>mbedtls_ct_memmove_left\<close> over the buffer: bytes in front of the last are selected, then the last.\<close>

fun shift_pass :: "u64 \<Rightarrow> bytes \<Rightarrow> bytes" where
  "shift_pass no_op [] = []"
| "shift_pass no_op [x] = [ucast (mbedtls_ct_uint_if_else_0 no_op (ucast x))]"
| "shift_pass no_op (x # y # xs) = ucast (mbedtls_ct_uint_if no_op (ucast x) (ucast y)) # shift_pass no_op (y # xs)"

function shift_loop :: "u64 \<Rightarrow> nat \<Rightarrow> nat \<Rightarrow> bytes \<Rightarrow> bytes" where
  "shift_loop keep i m buf = (if i < m then shift_loop keep (i + 1) m (shift_pass (mbedtls_ct_uint_gt keep (of_nat i)) buf) else buf)"
  by pat_completeness auto

termination
  by (relation "measure (\<lambda>(keep, i, m, buf). m - i)") auto

declare shift_loop.simps [simp del]

definition mbedtls_ct_memmove_left :: "bytes \<Rightarrow> u64 \<Rightarrow> bytes" where
  "mbedtls_ct_memmove_left buf offset = shift_loop (of_nat (length buf) - offset) 0 (length buf) buf"

subsection \<open>Conditions in the wrappers\<close>

lemma ucast_back: "(ucast (ucast x :: u64) :: u32) = x" "(ucast (ucast y :: u64) :: u8) = y" "(ucast (ucast y :: u32) :: u8) = y"
  by (rule bit_word_eqI, simp add: bit_ucast_iff)+

lemma ct_if_else_0: "mbedtls_ct_uint_if_else_0 (cond b) x = (if b then x else 0)"
  by (simp add: mbedtls_ct_uint_if_else_0_def cond_ops ucast_back)

lemma ct_uint_if: "mbedtls_ct_uint_if (cond b) x y = (if b then x else y)"
  by (simp add: mbedtls_ct_uint_if_def mbedtls_ct_if_eq ucast_back)

lemmas ct_conds = mbedtls_ct_uint_lt_eq mbedtls_ct_uint_ne_eq mbedtls_ct_bool_eq mbedtls_ct_if_eq cond_ops
  mbedtls_ct_uint_eq_def mbedtls_ct_uint_gt_def mbedtls_ct_uint_ge_def mbedtls_ct_uint_le_def mbedtls_ct_bool_and_def mbedtls_ct_bool_or_def
  mbedtls_ct_bool_not_def mbedtls_ct_bool_ne_def

text \<open>Codes of the library are between \<open>-32767\<close> and 0.\<close>

lemma small_code:
  assumes "- 32767 \<le> e" "e \<le> 0"
  shows "- sint (ucast (word_of_int (- e) :: u64) :: u32) = e"
proof -
  have "sint (ucast (word_of_int k :: u64) :: u32) = k" if "0 \<le> k" "k \<le> 32767" for k
  proof -
    have "(ucast (word_of_int k :: u64) :: u32) = word_of_int k" using that by (simp add: unsigned_of_int take_bit_int_eq_self)
    then show ?thesis using that by (simp add: signed_of_int signed_take_bit_int_eq_self)
  qed
  from this [of "- e"] show ?thesis using assms by (simp del: of_int_minus)
qed

lemma error_if_eq:
  assumes "- 32767 \<le> e1" "e1 \<le> 0" "- 32767 \<le> e0" "e0 \<le> 0"
  shows "mbedtls_ct_error_if (cond b) e1 e0 = (if b then e1 else e0)" "mbedtls_ct_error_if_else_0 (cond b) e1 = (if b then e1 else 0)"
  using small_code [OF assms(1,2)] small_code [OF assms(3,4)]
  by (simp_all add: mbedtls_ct_error_if_def mbedtls_ct_error_if_else_0_def mbedtls_ct_if_eq cond_ops)

text \<open>C35: the branch-free primitives compute what their names say, at every word length, and the assembly sequences agree with
  the C code: a condition is all ones or zero, the comparisons are the unsigned order, selection selects, and a range check
  yields its value inside the range and zero outside.\<close>
theorem ct_primitives_correct:
  fixes x y :: "'a::len word"
  shows "mbedtls_ct_bool x = (if x \<noteq> 0 then - 1 else 0) \<and> mbedtls_ct_bool_asm x = mbedtls_ct_bool x \<and>
    mbedtls_ct_uint_lt x y = (if x < y then - 1 else 0) \<and> mbedtls_ct_uint_lt_asm x y = mbedtls_ct_uint_lt x y \<and>
    mbedtls_ct_uint_ge x y = (if y \<le> x then - 1 else 0) \<and> mbedtls_ct_uint_gt x y = (if y < x then - 1 else 0) \<and>
    mbedtls_ct_uint_le x y = (if x \<le> y then - 1 else 0) \<and>
    mbedtls_ct_uint_ne x y = (if x \<noteq> y then - 1 else 0) \<and> mbedtls_ct_uint_eq x y = (if x = y then - 1 else 0) \<and>
    mbedtls_ct_if (mbedtls_ct_bool x) u v = (if x \<noteq> 0 then u else v) \<and> mbedtls_ct_if_asm c u v = mbedtls_ct_if c u v \<and>
    mbedtls_ct_uchar_in_range_if low high ch t = (if low \<le> ch \<and> ch \<le> high then t else 0)"
proof -
  have sel: "mbedtls_ct_if (mbedtls_ct_bool x) u v = (if x \<noteq> 0 then u else v)" by (simp add: mbedtls_ct_bool_eq mbedtls_ct_if_eq)
  show ?thesis unfolding cond_def [symmetric]
    using sel by (simp add: ct_conds mbedtls_ct_bool_asm_eq mbedtls_ct_uint_lt_asm_eq mbedtls_ct_if_asm_eq in_range_if_eq not_less)
qed

subsection \<open>Comparison\<close>

lemma ucast_zero: "(ucast x :: u32) = 0 \<longleftrightarrow> x = 0" for x :: u8
  by (metis ucast_0 ucast_back(3))

lemma or_zero: "x OR y = 0 \<longleftrightarrow> x = 0 \<and> y = 0" for x y :: "'a::len word"
  by (rule or_eq_0_iff)

lemma range_split: "i < n \<Longrightarrow> (\<forall>k. i \<le> k \<and> k < n \<longrightarrow> P k) \<longleftrightarrow> P i \<and> (\<forall>k. i + 1 \<le> k \<and> k < n \<longrightarrow> P k)" for i n :: nat
  by (auto simp: Suc_le_eq) (metis le_neq_implies_less)

lemma cmp_loop_eq:
  assumes "n \<le> length a" "n \<le> length b"
  shows "\<exists>d'. cmp_loop a b i n d = Some d' \<and> (d' = 0 \<longleftrightarrow> d = 0 \<and> (\<forall>k. i \<le> k \<and> k < n \<longrightarrow> a ! k = b ! k))"
  using assms
proof (induction a b i n d rule: cmp_loop.induct)
  case (1 a b i n d)
  show ?case
  proof (cases "i < n")
    case True
    let ?d = "d OR ucast (a ! i XOR b ! i)"
    have g: "get a i = Some (a ! i)" "get b i = Some (b ! i)" using True "1.prems" by (simp_all add: get_def)
    obtain d' where d': "cmp_loop a b (i + 1) n ?d = Some d'" "d' = 0 \<longleftrightarrow> ?d = 0 \<and> (\<forall>k. i + 1 \<le> k \<and> k < n \<longrightarrow> a ! k = b ! k)"
      using "1.IH" [OF True refl g] "1.prems"(1,2) by blast
    have "(\<forall>k. i \<le> k \<and> k < n \<longrightarrow> a ! k = b ! k) \<longleftrightarrow> a ! i = b ! i \<and> (\<forall>k. i + 1 \<le> k \<and> k < n \<longrightarrow> a ! k = b ! k)"
      by (rule range_split [OF True])
    then have "d' = 0 \<longleftrightarrow> d = 0 \<and> (\<forall>k. i \<le> k \<and> k < n \<longrightarrow> a ! k = b ! k)" using d'(2) by (simp add: or_zero ucast_zero xor_zero)
    then show ?thesis using d' True g by (simp add: cmp_loop.simps [of a b i])
  next
    case False
    then show ?thesis by (auto simp: cmp_loop.simps [of a b i])
  qed
qed

lemma le_word_inj:
  assumes "length xs = k" "length ys = k" "8 * k \<le> LENGTH('a)"
  shows "(le_word (in_order be xs) :: 'a::len word) = le_word (in_order be ys) \<longleftrightarrow> xs = ys"
proof
  assume "(le_word (in_order be xs) :: 'a word) = le_word (in_order be ys)"
  then have "in_order be xs = in_order be ys" using word_bytes_le [of "in_order be xs" k] word_bytes_le [of "in_order be ys" k] assms by (metis in_order_length)
  then show "xs = ys" by (simp add: in_order_def split: if_splits)
qed simp

lemma block_eq:
  assumes "i + k \<le> length a" "i + k \<le> length b"
  shows "take k (drop i a) = take k (drop i b) \<longleftrightarrow> (\<forall>j. i \<le> j \<and> j < i + k \<longrightarrow> a ! j = b ! j)"
proof -
  have "take k (drop i a) = take k (drop i b) \<longleftrightarrow> (\<forall>m<k. a ! (i + m) = b ! (i + m))" using assms by (auto simp: list_eq_iff_nth_eq)
  also have "\<dots> \<longleftrightarrow> (\<forall>j. i \<le> j \<and> j < i + k \<longrightarrow> a ! j = b ! j)" by (metis add.commute add_less_cancel_left le_Suc_ex le_add1)
  finally show ?thesis .
qed

lemma cmp_words_eq:
  assumes "n \<le> length a" "n \<le> length b" "i \<le> n"
  shows "\<exists>i' d'. cmp_words be a b i n d = Some (i', d') \<and> i \<le> i' \<and> i' \<le> n \<and>
    (d' = 0 \<longleftrightarrow> d = 0 \<and> (\<forall>k. i \<le> k \<and> k < i' \<longrightarrow> a ! k = b ! k))"
  using assms
proof (induction be a b i n d rule: cmp_words.induct)
  case (1 be a b i n d)
  show ?case
  proof (cases "i + 4 \<le> n")
    case True
    let ?x = "le_word (in_order be (take 4 (drop i a))) :: u32" and ?y = "le_word (in_order be (take 4 (drop i b))) :: u32"
    have g: "mbedtls_get_unaligned_uint32 be a i = Some ?x" "mbedtls_get_unaligned_uint32 be b i = Some ?y"
      using True "1.prems" by (simp_all add: mbedtls_get_unaligned_uint32_def get_unaligned_def)
    have same: "?x XOR ?y = 0 \<longleftrightarrow> (\<forall>j. i \<le> j \<and> j < i + 4 \<longrightarrow> a ! j = b ! j)"
      unfolding xor_zero using True "1.prems" by (subst le_word_inj [where k = 4]) (simp_all add: block_eq)
    obtain i' d' where d': "cmp_words be a b (i + 4) n (d OR (?x XOR ?y)) = Some (i', d')" "i + 4 \<le> i'" "i' \<le> n"
        "d' = 0 \<longleftrightarrow> d OR (?x XOR ?y) = 0 \<and> (\<forall>k. i + 4 \<le> k \<and> k < i' \<longrightarrow> a ! k = b ! k)"
      using "1.IH" [OF True refl g] "1.prems"(1,2) True by blast
    have "d' = 0 \<longleftrightarrow> d = 0 \<and> (\<forall>k. i \<le> k \<and> k < i' \<longrightarrow> a ! k = b ! k)"
      unfolding d'(4) or_zero same using d'(2) by (meson le_trans linorder_not_less less_le_trans le_add1)
    then show ?thesis using d'(1-3) True g by (auto simp: cmp_words.simps [of be a b i])
  qed (use "1.prems" in \<open>auto simp: cmp_words.simps [of be a b i]\<close>)
qed

lemma nth_take_eq: "n \<le> length a \<Longrightarrow> n \<le> length b \<Longrightarrow> take n a = take n b \<longleftrightarrow> (\<forall>k<n. a ! k = b ! k)"
  by (auto simp: list_eq_iff_nth_eq)

text \<open>Folding the upper half onto the lower keeps whether a bit is set, and the result is not negative as an \<open>int\<close>.\<close>

lemma folded:
  fixes d :: u32
  shows "sint ((d AND 0xffff) OR drop_bit 16 d) = 0 \<longleftrightarrow> d = 0" and "0 \<le> sint ((d AND 0xffff) OR drop_bit 16 d)"
proof -
  have m: "(0xffff :: u32) = mask 16" by (simp add: mask_eq_exp_minus_1)
  let ?f = "(d AND mask 16) OR drop_bit 16 d"
  have "d = 0" if z: "?f = 0"
  proof (rule bit_word_eqI)
    fix n assume "n < LENGTH(32)"
    have "\<not> bit ?f n" "\<not> bit ?f (n - 16)" using z by simp_all
    then show "bit d n = bit 0 n" by (cases "n < 16") (auto simp: bit_simps)
  qed
  moreover have "?f = 0" if "d = 0" using that by simp
  moreover have "sint x = 0 \<longleftrightarrow> x = 0" for x :: u32 by (metis signed_0 signed_eq_0_iff)
  ultimately show "sint ((d AND 0xffff) OR drop_bit 16 d) = 0 \<longleftrightarrow> d = 0" unfolding m by blast
  have "\<not> bit ?f (LENGTH(32) - Suc 0)" using bit_imp_le_length [of d 47] by (auto simp: bit_simps)
  then have "\<not> sint ?f < 0" using bit_last_iff [of ?f] by blast
  then show "0 \<le> sint ((d AND 0xffff) OR drop_bit 16 d)" unfolding m by linarith
qed

lemma memcmp_eq:
  assumes "n \<le> length a" "n \<le> length b"
  shows "\<exists>r. mbedtls_ct_memcmp wide be a b n = Some r \<and> 0 \<le> r \<and> (r = 0 \<longleftrightarrow> take n a = take n b)"
proof -
  obtain i d where w: "(if wide then cmp_words be a b 0 n 0 else Some (0, 0)) = Some (i, d)" "i \<le> n" "d = 0 \<longleftrightarrow> (\<forall>k<i. a ! k = b ! k)"
    using cmp_words_eq [OF assms, of 0 be 0] by (cases wide) auto
  obtain d' where l: "cmp_loop a b i n d = Some d'" "d' = 0 \<longleftrightarrow> d = 0 \<and> (\<forall>k. i \<le> k \<and> k < n \<longrightarrow> a ! k = b ! k)"
    using cmp_loop_eq [OF assms, of i d] by blast
  have "d' = 0 \<longleftrightarrow> take n a = take n b"
    unfolding l(2) w(3) nth_take_eq [OF assms] using w(2) by (meson le_less_linear less_le_trans)
  then show ?thesis using w(1) l(1) folded [of d'] by (simp add: mbedtls_ct_memcmp_def)
qed

subsection \<open>Loops over words, then bytes\<close>

lemma overwrite_compose:
  "i + length xs + length ys \<le> length d \<Longrightarrow> overwrite (overwrite d i xs) (i + length xs) ys = overwrite d i (xs @ ys)"
  by (simp add: overwrite_def ac_simps)

lemma overwrite_beyond: "i + length xs \<le> j \<Longrightarrow> j < length d \<Longrightarrow> overwrite d i xs ! j = d ! j"
proof -
  assume a: "i + length xs \<le> j" "j < length d"
  then obtain m where "j = i + length xs + m" using le_Suc_ex by blast
  then show ?thesis using a by (simp add: overwrite_def nth_append)
qed

lemma map_upt_append: "i \<le> j \<Longrightarrow> j \<le> k \<Longrightarrow> map f [i..<j] @ map f [j..<k] = map f [i..<k]"
  by (metis le_Suc_ex map_append upt_add_eq_append)

text \<open>
  \<open>computes k body f orig len\<close>: run on a block of a buffer that is unchanged from there on, the body of a loop
  puts the bytes \<open>f\<close> into the block.
\<close>

definition computes :: "nat \<Rightarrow> (bytes \<Rightarrow> nat \<Rightarrow> bytes option) \<Rightarrow> (nat \<Rightarrow> u8) \<Rightarrow> bytes \<Rightarrow> nat \<Rightarrow> bool" where
  "computes k body f orig len \<longleftrightarrow> (\<forall>d i. i + k \<le> len \<longrightarrow> length d = length orig \<longrightarrow> (\<forall>j. i \<le> j \<and> j < length orig \<longrightarrow> d ! j = orig ! j) \<longrightarrow>
     body d i = Some (overwrite d i (map f [i..<i + k])))"

lemma computesD:
  "computes k body f orig len \<Longrightarrow> i + k \<le> len \<Longrightarrow> length d = length orig \<Longrightarrow> (\<And>j. i \<le> j \<Longrightarrow> j < length orig \<Longrightarrow> d ! j = orig ! j) \<Longrightarrow>
    body d i = Some (overwrite d i (map f [i..<i + k]))"
  unfolding computes_def by blast

lemma for_blocks_eq:
  assumes c: "computes k body f orig len" and k: "0 < k" and len: "len \<le> length orig" "i \<le> len"
    and d: "length d = length orig" "\<And>j. i \<le> j \<Longrightarrow> j < length orig \<Longrightarrow> d ! j = orig ! j"
  shows "\<exists>i'. for_blocks k body d i len = Some (i', overwrite d i (map f [i..<i'])) \<and> i \<le> i' \<and> i' \<le> len \<and> len < i' + k"
  using len(2) d
proof (induction "len - i" arbitrary: i d rule: less_induct)
  case less
  show ?case
  proof (cases "i + k \<le> len")
    case True
    let ?d = "overwrite d i (map f [i..<i + k])"
    have b: "body d i = Some ?d" by (rule computesD [OF c True less.prems(2)]) (use less.prems(3) in blast)
    have l: "length ?d = length orig" using True len(1) less.prems(2) by (simp add: overwrite_length)
    have "?d ! j = orig ! j" if "i + k \<le> j" "j < length orig" for j
      using that less.prems(2,3) by (simp add: overwrite_beyond)
    then obtain i' where i': "for_blocks k body ?d (i + k) len = Some (i', overwrite ?d (i + k) (map f [i + k..<i']))" "i + k \<le> i'" "i' \<le> len" "len < i' + k"
      using less.hyps [OF _ True l] True k by (auto simp only: diff_less_mono2)
    have "overwrite ?d (i + k) (map f [i + k..<i']) = overwrite d i (map f [i..<i'])"
      using overwrite_compose [of i "map f [i..<i + k]" "map f [i + k..<i']" d] i'(2,3) len(1) less.prems(2) map_upt_append [of i "i + k" i' f]
      by simp
    then show ?thesis using i' b True k by (auto simp: for_blocks.simps [of k body d i])
  next
    case False
    then show ?thesis using less.prems(1) by (auto simp: for_blocks.simps [of k body d i] overwrite_def)
  qed
qed

lemma words_then_bytes:
  assumes w: "wide \<Longrightarrow> computes k body f orig len" "0 < k" and b: "computes 1 byte f orig len" and len: "len \<le> length orig"
  shows "(if wide then for_blocks k body orig 0 len else Some (0, orig)) \<bind> (\<lambda>(i, d). for_blocks 1 byte d i len \<bind> (\<lambda>(i, d). Some d)) =
    Some (map f [0..<len] @ drop len orig)"
proof -
  obtain i d where i: "(if wide then for_blocks k body orig 0 len else Some (0, orig)) = Some (i, d)" "i \<le> len" "d = overwrite orig 0 (map f [0..<i])"
    using for_blocks_eq [of k body f orig len 0 orig] w len by (cases wide) (auto simp: overwrite_def)
  have "length d = length orig" "\<And>j. i \<le> j \<Longrightarrow> j < length orig \<Longrightarrow> d ! j = orig ! j"
    using i(2,3) len by (simp_all add: overwrite_length overwrite_beyond)
  then obtain i' where "for_blocks 1 byte d i len = Some (i', overwrite d i (map f [i..<i']))" "i' \<le> len" "len < i' + 1"
    using for_blocks_eq [OF b zero_less_one len i(2), of d] by blast
  then have "for_blocks 1 byte d i len = Some (len, overwrite d i (map f [i..<len]))" by (metis Suc_eq_plus1 le_antisym less_Suc_eq_le)
  moreover have "overwrite d i (map f [i..<len]) = map f [0..<len] @ drop len orig"
    using overwrite_compose [of 0 "map f [0..<i]" "map f [i..<len]" orig] i(2,3) len map_upt_append [of 0 i len f]
    by (simp add: overwrite_def [of orig 0])
  ultimately show ?thesis using i(1) by simp
qed

lemma block_map:
  "i + k \<le> length xs \<Longrightarrow> (\<And>j. i \<le> j \<Longrightarrow> j < i + k \<Longrightarrow> xs ! j = f j) \<Longrightarrow> take k (drop i xs) = map f [i..<i + k]"
  by (rule nth_equalityI) auto

lemma put_word:
  assumes "i + k \<le> length d" "length xs = k" "8 * k \<le> LENGTH('a)"
  shows "put_unaligned k be d i (le_word (in_order be xs) :: 'a::len word) = Some (overwrite d i xs)"
proof -
  have "in_order be (word_bytes k (le_word (in_order be xs) :: 'a word)) = xs"
    using word_bytes_le [of "in_order be xs" k, where 'a = 'a] assms(2,3) by (cases be) (simp_all add: in_order_def)
  then show ?thesis using put_eq [OF assms(1), of be "le_word (in_order be xs) :: 'a word"] by simp
qed

lemma put_byte: "i < length d \<Longrightarrow> put d i x = Some (overwrite d i [x])"
  by (simp add: put_def overwrite_def upd_conv_take_nth_drop)

subsection \<open>Copies\<close>

lemma get_eq_Some: "i < length xs \<Longrightarrow> get xs i = Some (xs ! i)"
  by (simp add: get_def)

lemma get_word64: "i + 8 \<le> length xs \<Longrightarrow> mbedtls_get_unaligned_uint64 be xs i = Some (le_word (in_order be (take 8 (drop i xs))))"
  and get_word32: "i + 4 \<le> length xs \<Longrightarrow> mbedtls_get_unaligned_uint32 be xs i = Some (le_word (in_order be (take 4 (drop i xs))))"
  by (simp_all add: mbedtls_get_unaligned_uint64_def mbedtls_get_unaligned_uint32_def get_unaligned_def)

lemma put_word64: "i + 8 \<le> length d \<Longrightarrow> length xs = 8 \<Longrightarrow> mbedtls_put_unaligned_uint64 be d i (le_word (in_order be xs)) = Some (overwrite d i xs)"
  and put_word32: "i + 4 \<le> length d \<Longrightarrow> length xs = 4 \<Longrightarrow> mbedtls_put_unaligned_uint32 be d i (le_word (in_order be xs)) = Some (overwrite d i xs)"
  by (simp_all add: mbedtls_put_unaligned_uint64_def mbedtls_put_unaligned_uint32_def put_word)

lemma computesI:
  assumes "\<And>d i. i + k \<le> len \<Longrightarrow> length d = length orig \<Longrightarrow> (\<And>j. i \<le> j \<Longrightarrow> j < length orig \<Longrightarrow> d ! j = orig ! j) \<Longrightarrow>
    body d i = Some (overwrite d i (map f [i..<i + k]))"
  shows "computes k body f orig len"
  unfolding computes_def using assms by blast

lemma source_nth: "(\<And>j. i \<le> j \<Longrightarrow> j < length orig \<Longrightarrow> d ! j = orig ! j) \<Longrightarrow> i \<le> j \<Longrightarrow> j < length orig \<Longrightarrow> source s d ! j = source s orig ! j"
  and source_length: "length d = length orig \<Longrightarrow> length (source s d) = length (source s orig)"
  by (simp_all add: source_def split: option.split)

lemma selected: "(x AND cond b) OR (y AND NOT (cond b)) = (if b then x else y)" for x y :: "'a::len word"
  by (simp add: cond_def)

lemma copy_computes:
  fixes b :: bool
  assumes len: "len \<le> length orig" "len \<le> length src1" "len \<le> length (source src2 orig)"
  defines "f \<equiv> \<lambda>j. if b then src1 ! j else source src2 orig ! j"
  shows "computes 8 (copy_word be (cond b) (NOT (cond b)) src1 src2) f orig len"
    and "computes 1 (copy_byte (cond b) (NOT (cond b)) src1 src2) f orig len"
proof -
  show "computes 8 (copy_word be (cond b) (NOT (cond b)) src1 src2) f orig len"
  proof (rule computesI)
    fix d i assume a: "i + 8 \<le> len" "length d = length orig" "\<And>j. i \<le> j \<Longrightarrow> j < length orig \<Longrightarrow> d ! j = orig ! j"
    let ?x = "if b then src1 else source src2 d"
    have l: "i + 8 \<le> length src1" "i + 8 \<le> length (source src2 d)" "i + 8 \<le> length d" "i + 8 \<le> length ?x" using a(1,2) len source_length [OF a(2), of src2] by auto
    have "?x ! j = f j" if "i \<le> j" "j < i + 8" for j
      using that a(1) len(1) source_nth [OF a(3), of j] by (simp add: f_def)
    then have "take 8 (drop i ?x) = map f [i..<i + 8]" by (rule block_map [OF l(4)])
    then show "copy_word be (cond b) (NOT (cond b)) src1 src2 d i = Some (overwrite d i (map f [i..<i + 8]))"
      using put_word64 [OF l(3), of "map f [i..<i + 8]" be] by (cases b) (simp_all add: copy_word_def get_word64 l selected)
  qed
  show "computes 1 (copy_byte (cond b) (NOT (cond b)) src1 src2) f orig len"
  proof (rule computesI)
    fix d i assume a: "i + 1 \<le> len" "length d = length orig" "\<And>j. i \<le> j \<Longrightarrow> j < length orig \<Longrightarrow> d ! j = orig ! j"
    have l: "i < length src1" "i < length (source src2 d)" "i < length d" using a(1,2) len source_length [OF a(2), of src2] by auto
    have "source src2 d ! i = source src2 orig ! i" using a(1) len(1) by (intro source_nth [OF a(3)]) auto
    then show "copy_byte (cond b) (NOT (cond b)) src1 src2 d i = Some (overwrite d i (map f [i..<i + 1]))"
      using l by (cases b) (simp_all add: copy_byte_def get_eq_Some put_byte selected ucast_back f_def)
  qed
qed

lemma map_nth_take: "len \<le> length xs \<Longrightarrow> map ((!) xs) [0..<len] = take len xs"
  by (rule nth_equalityI) auto

lemma memcpy_if_eq:
  assumes "len \<le> length dest" "len \<le> length src1" "len \<le> length (source src2 dest)"
  shows "mbedtls_ct_memcpy_if wide be (cond b) dest src1 src2 len = Some (take len (if b then src1 else source src2 dest) @ drop len dest)"
proof -
  have "map (\<lambda>j. if b then src1 ! j else source src2 dest ! j) [0..<len] = take len (if b then src1 else source src2 dest)"
    using assms map_nth_take by (cases b) auto
  then show ?thesis
    using words_then_bytes [OF copy_computes(1) [OF assms] _ copy_computes(2) [OF assms] assms(1)] by (simp add: mbedtls_ct_memcpy_if_def Let_def)
qed


text \<open>Only the pass of the secret offset changes the destination.\<close>

lemma offset_loop_eq:
  assumes "len \<le> length dest" "hi + len \<le> length src" "hi < 2 ^ 64" "offset \<le> hi"
  shows "offset_loop wide be dest src offset v hi len = Some (if v \<le> offset then take len (drop offset src) @ drop len dest else dest)"
  using assms
proof (induction wide be dest src offset v hi len rule: offset_loop.induct)
  case (1 wide be dest src offset v hi len)
  show ?case
  proof (cases "v \<le> hi")
    case True
    have eq: "mbedtls_ct_uint_eq (of_nat v :: u64) (of_nat offset) = cond (v = offset)"
      using True "1.prems"(3,4) by (simp add: mbedtls_ct_uint_eq_def mbedtls_ct_uint_ne_eq cond_ops word_of_nat_eq_iff take_bit_nat_eq_self)
    have c: "mbedtls_ct_memcpy_if wide be (mbedtls_ct_uint_eq (of_nat v) (of_nat offset)) dest (drop v src) None len =
        Some (take len (if v = offset then drop v src else dest) @ drop len dest)"
      unfolding eq using True "1.prems" by (subst memcpy_if_eq) (auto simp: source_def)
    have step: "offset_loop wide be dest src offset v hi len = offset_loop wide be (take len (if v = offset then drop v src else dest) @ drop len dest) src offset (v + 1) hi len"
      using True c by (simp add: offset_loop.simps [of wide be dest src offset v])
    have len: "len \<le> length (take len (if v = offset then drop v src else dest) @ drop len dest)" using True "1.prems" by auto
    show ?thesis
      using "1.IH" [OF True c len "1.prems"(2-4)] step True "1.prems"(1,2) by (auto simp: not_less_eq_eq)
  next
    case False
    then show ?thesis using "1.prems"(4) by (simp add: offset_loop.simps [of wide be dest src offset v])
  qed
qed

lemma memcpy_offset_eq:
  assumes "lo \<le> offset" "offset \<le> hi" "hi < 2 ^ 64" "hi + len \<le> length src" "len \<le> length dest"
  shows "mbedtls_ct_memcpy_offset wide be dest src offset lo hi len = Some (take len (drop offset src) @ drop len dest)"
  using offset_loop_eq [of len dest hi src offset wide be lo] assms by (simp add: mbedtls_ct_memcpy_offset_def)

subsection \<open>Erasure\<close>

lemma zero_computes:
  fixes b :: bool
  assumes len: "len \<le> length orig"
  defines "f \<equiv> \<lambda>j. if b then 0 else orig ! j" and "m \<equiv> ucast (NOT (cond b) :: u64) :: u32"
  shows "computes 4 (zero_word be m) f orig len" and "computes 1 (zero_byte m) f orig len"
proof -
  have m: "m = (if b then 0 else - 1)" unfolding m_def by (rule bit_word_eqI) (simp add: cond_def bit_ucast_iff)
  show "computes 4 (zero_word be m) f orig len"
  proof (rule computesI)
    fix d i assume a: "i + 4 \<le> len" "length d = length orig" "\<And>j. i \<le> j \<Longrightarrow> j < length orig \<Longrightarrow> d ! j = orig ! j"
    have l: "i + 4 \<le> length d" using a(1,2) len by simp
    have "le_word (in_order be (take 4 (drop i d))) AND m = (le_word (in_order be (map f [i..<i + 4])) :: u32)"
    proof (cases b)
      case True
      then have "map f [i..<i + 4] = replicate 4 0" by (simp add: f_def map_replicate_const)
      then have "in_order be (map f [i..<i + 4]) = [0, 0, 0, 0]" by (simp add: in_order_def numeral_eq_Suc)
      then show ?thesis using True by (simp add: m)
    next
      case False
      then have "take 4 (drop i d) = map f [i..<i + 4]" by (intro block_map [OF l]) (use a l in \<open>auto simp: f_def\<close>)
      then show ?thesis using False by (simp add: m)
    qed
    then show "zero_word be m d i = Some (overwrite d i (map f [i..<i + 4]))"
      using put_word32 [OF l, of "map f [i..<i + 4]" be] by (simp add: zero_word_def get_word32 l)
  qed
  show "computes 1 (zero_byte m) f orig len"
    by (rule computesI) (use len in \<open>auto simp: zero_byte_def get_eq_Some put_byte m ucast_back f_def\<close>)
qed

lemma zeroize_if_eq:
  assumes "len \<le> length buf"
  shows "mbedtls_ct_zeroize_if wide be (cond b) buf len = Some ((if b then replicate len 0 else take len buf) @ drop len buf)"
proof -
  have "map (\<lambda>j. if b then 0 else buf ! j) [0..<len] = (if b then replicate len 0 else take len buf)"
    using assms map_nth_take by (cases b) (auto simp: map_replicate_const)
  then show ?thesis
    using words_then_bytes [OF zero_computes(1) [OF assms] _ zero_computes(2) [OF assms] assms] by (simp add: mbedtls_ct_zeroize_if_def Let_def)
qed

subsection \<open>XOR of blocks\<close>

lemma word_bytes_xor: "word_bytes k (x XOR y) = map2 (XOR) (word_bytes k x) (word_bytes k y)"
proof (rule nth_equalityI)
  fix j assume "j < length (word_bytes k (x XOR y))"
  then show "word_bytes k (x XOR y) ! j = map2 (XOR) (word_bytes k x) (word_bytes k y) ! j"
    by (intro bit_word_eqI) (simp add: bit_word_bytes bit_xor_iff)
qed simp

lemma in_order_xor: "length xs = length ys \<Longrightarrow> in_order be (map2 (XOR) xs ys) = map2 (XOR) (in_order be xs) (in_order be ys)"
  by (simp add: in_order_def rev_map zip_rev)

lemma le_word_xor:
  assumes "length xs = k" "length ys = k" "8 * k = LENGTH('a)"
  shows "(le_word (in_order be xs) XOR le_word (in_order be ys) :: 'a::len word) = le_word (in_order be (map2 (XOR) xs ys))"
proof -
  have "word_bytes k (le_word (in_order be xs) XOR le_word (in_order be ys) :: 'a word) = in_order be (map2 (XOR) xs ys)"
    using assms by (simp add: word_bytes_xor word_bytes_le in_order_xor)
  then show ?thesis using le_word_bytes [of k "le_word (in_order be xs) XOR le_word (in_order be ys) :: 'a word"] assms(3) by simp
qed


lemma xor_computes:
  assumes len: "n \<le> length orig" "n \<le> length (source a orig)" "n \<le> length (source b orig)"
  defines "f \<equiv> \<lambda>j. source a orig ! j XOR source b orig ! j"
  shows "computes 1 (xor_byte a b) f orig n" "computes 4 (xor_word32 be a b) f orig n" "computes 8 (xor_word64 be a b) f orig n"
    "computes 16 (xor_neon a b) f orig n"
proof -
  have block: "map2 (XOR) (take k (drop i (source a d))) (take k (drop i (source b d))) = map f [i..<i + k]"
    if "i + k \<le> n" "length d = length orig" "\<And>j. i \<le> j \<Longrightarrow> j < length orig \<Longrightarrow> d ! j = orig ! j" for d i k
  proof (rule nth_equalityI)
    fix j assume "j < length (map2 (XOR) (take k (drop i (source a d))) (take k (drop i (source b d))))"
    then have "j < k" by simp
    then show "map2 (XOR) (take k (drop i (source a d))) (take k (drop i (source b d))) ! j = map f [i..<i + k] ! j"
      using that(1,2) len source_nth [OF that(3), of "i + j"] source_length [OF that(2)] by (simp add: f_def)
  qed (use that len source_length [OF that(2)] in simp)
  have sizes: "i + k \<le> length (source a d)" "i + k \<le> length (source b d)" "i + k \<le> length d" if "i + k \<le> n" "length d = length orig" for d i k
    using that len source_length [OF that(2)] by auto
  show "computes 1 (xor_byte a b) f orig n"
  proof (rule computesI)
    fix d i assume h: "i + 1 \<le> n" "length d = length orig" "\<And>j. i \<le> j \<Longrightarrow> j < length orig \<Longrightarrow> d ! j = orig ! j"
    then show "xor_byte a b d i = Some (overwrite d i (map f [i..<i + 1]))"
      using sizes [OF h(1,2)] len(1) source_nth [OF h(3), of i] by (simp add: xor_byte_def get_eq_Some put_byte f_def)
  qed
  show "computes 4 (xor_word32 be a b) f orig n"
  proof (rule computesI)
    fix d i assume h: "i + 4 \<le> n" "length d = length orig" "\<And>j. i \<le> j \<Longrightarrow> j < length orig \<Longrightarrow> d ! j = orig ! j"
    then show "xor_word32 be a b d i = Some (overwrite d i (map f [i..<i + 4]))"
      using sizes [OF h(1,2)] block [OF h] by (simp add: xor_word32_def get_word32 le_word_xor [of _ 4] put_word32)
  qed
  show "computes 8 (xor_word64 be a b) f orig n"
  proof (rule computesI)
    fix d i assume h: "i + 8 \<le> n" "length d = length orig" "\<And>j. i \<le> j \<Longrightarrow> j < length orig \<Longrightarrow> d ! j = orig ! j"
    then show "xor_word64 be a b d i = Some (overwrite d i (map f [i..<i + 8]))"
      using sizes [OF h(1,2)] block [OF h] by (simp add: xor_word64_def get_word64 le_word_xor [of _ 8] put_word64)
  qed
  show "computes 16 (xor_neon a b) f orig n"
    by (rule computesI) (use sizes block in \<open>simp add: xor_neon_def\<close>)
qed

lemma xor_eq:
  assumes "n \<le> length r" "n \<le> length (source a r)" "n \<le> length (source b r)"
  shows "mbedtls_xor build be r a b n = Some (map2 (XOR) (take n (source a r)) (take n (source b r)) @ drop n r)"
    and "mbedtls_xor_no_simd build be r a b n = mbedtls_xor build be r a b n"
proof -
  have m: "map (\<lambda>j. source a r ! j XOR source b r ! j) [0..<n] = map2 (XOR) (take n (source a r)) (take n (source b r))"
    by (rule nth_equalityI) (use assms in auto)
  note c = xor_computes [OF assms] and w = words_then_bytes [OF _ _ xor_computes(1) [OF assms] assms(1)]
  show "mbedtls_xor build be r a b n = Some (map2 (XOR) (take n (source a r)) (take n (source b r)) @ drop n r)"
    "mbedtls_xor_no_simd build be r a b n = mbedtls_xor build be r a b n"
    using w [of True 4 "xor_word32 be a b"] w [of True 8 "xor_word64 be a b"] w [of True 16 "xor_neon a b"] w [of False 1] c
    by (cases build; simp add: mbedtls_xor_def mbedtls_xor_no_simd_def m)+
qed


subsection \<open>Shift\<close>

lemma shift_pass_eq: "shift_pass (cond b) buf = (if b \<or> buf = [] then buf else tl buf @ [0])"
proof (induction buf rule: induct_list012)
  case (3 x y xs)
  then show ?case by (simp add: ct_uint_if ucast_back)
qed (simp_all add: ct_if_else_0 ucast_back)

lemma shift_loop_eq:
  assumes "i \<le> m" "m < 2 ^ 64" "keep \<le> m"
  shows "shift_loop (of_nat keep) i m buf = (let k = m - max i keep in drop k buf @ replicate (min k (length buf)) 0)"
  using assms
proof (induction "m - i" arbitrary: i buf)
  case 0
  then show ?case by (simp add: shift_loop.simps)
next
  case (Suc d)
  have "mbedtls_ct_uint_gt (of_nat keep :: u64) (of_nat i) = cond (i < keep)"
    using Suc.prems Suc.hyps(2) by (simp add: mbedtls_ct_uint_gt_def mbedtls_ct_uint_lt_eq word_of_nat_less_iff take_bit_nat_eq_self)
  moreover have "i < m" using Suc.hyps(2) by simp
  ultimately have step: "shift_loop (of_nat keep) i m buf = shift_loop (of_nat keep) (i + 1) m (if i < keep \<or> buf = [] then buf else tl buf @ [0])"
    by (simp add: shift_loop.simps [of _ i] shift_pass_eq)
  show ?case
  proof (cases "i < keep \<or> buf = []")
    case True
    then show ?thesis using Suc.hyps(1) [of "i + 1" buf] Suc.hyps(2) Suc.prems step by (auto simp: Let_def max_def)
  next
    case False
    then obtain x xs where b: "buf = x # xs" by (cases buf) auto
    have k: "m - max (i + 1) keep = m - Suc i" "m - max i keep = Suc (m - Suc i)" using False Suc.hyps(2) by auto
    have "shift_loop (of_nat keep) i m buf = drop (m - Suc i) (xs @ [0]) @ replicate (min (m - Suc i) (Suc (length xs))) 0"
      using step False b Suc.hyps(1) [of "i + 1" "xs @ [0]"] Suc.hyps(2) Suc.prems k by (simp add: Let_def)
    also have "\<dots> = drop (m - Suc i) xs @ replicate (min (Suc (m - Suc i)) (Suc (length xs))) 0"
      by (cases "m - Suc i \<le> length xs") (auto simp: min_def Suc_diff_le replicate_append_same simp flip: replicate_Suc)
    finally show ?thesis unfolding Let_def k(2) b by simp
  qed
qed

text \<open>The shift drops the first \<open>offset\<close> bytes and fills with zeros.\<close>

lemma memmove_left_eq:
  assumes "offset \<le> length buf" "length buf < 2 ^ 64"
  shows "mbedtls_ct_memmove_left buf (of_nat offset) = drop offset buf @ replicate offset 0"
proof -
  have "(of_nat (length buf) - of_nat offset :: u64) = of_nat (length buf - offset)" using assms(1) by (simp add: of_nat_diff)
  then show ?thesis
    using shift_loop_eq [of 0 "length buf" "length buf - offset" buf] assms by (simp add: mbedtls_ct_memmove_left_def Let_def)
qed


subsection \<open>All buffer routines\<close>



end
