(* ===== verification/Base64.thy ===== *)
theory Base64
  imports Ct_Words
begin

text \<open>
  Base64 of the vendored TLS library, \<^verbatim>\<open>tf-psa-crypto/utilities/base64.c\<close>, used to read PEM files. The encoder and the two
  passes of the decoder are modelled with the constant-time digit functions they use. A call returns the code, \<open>*olen\<close>
  (\<open>None\<close> when it is not set) and the bytes written; a write past \<open>dst + dlen\<close> is \<open>None\<close>. \<open>dst\<close> says whether
  the pointer is not null. \<open>int\<close> and \<open>uint32_t\<close> values are 32-bit words.
\<close>

subsection \<open>Digits\<close>

definition mbedtls_ct_base64_enc_char :: "u8 \<Rightarrow> u8" where
  "mbedtls_ct_base64_enc_char v =
     mbedtls_ct_uchar_in_range_if 0 25 v (65 + v) OR
     mbedtls_ct_uchar_in_range_if 26 51 v (97 + v - 26) OR
     mbedtls_ct_uchar_in_range_if 52 61 v (48 + v - 52) OR
     mbedtls_ct_uchar_in_range_if 62 62 v 43 OR
     mbedtls_ct_uchar_in_range_if 63 63 v 47"

definition mbedtls_ct_base64_dec_value :: "u8 \<Rightarrow> int" where
  "mbedtls_ct_base64_dec_value c =
     (let val = mbedtls_ct_uchar_in_range_if 65 90 c (c - 65 + 0 + 1) OR
        mbedtls_ct_uchar_in_range_if 97 122 c (c - 97 + 26 + 1) OR
        mbedtls_ct_uchar_in_range_if 48 57 c (c - 48 + 52 + 1) OR
        mbedtls_ct_uchar_in_range_if 43 43 c (c - 43 + 62 + 1) OR
        mbedtls_ct_uchar_in_range_if 47 47 c (c - 47 + 63 + 1)
      in sint (val - 1))"

subsection \<open>Encoding\<close>

definition SIZE_MAX :: nat where "SIZE_MAX = 2 ^ 64 - 1"
definition MBEDTLS_ERR_BASE64_BUFFER_TOO_SMALL :: int where "MBEDTLS_ERR_BASE64_BUFFER_TOO_SMALL = - 0x2A"
definition MBEDTLS_ERR_BASE64_INVALID_CHARACTER :: int where "MBEDTLS_ERR_BASE64_INVALID_CHARACTER = - 0x2C"
definition MBEDTLS_ERR_ERROR_CORRUPTION_DETECTED :: int where "MBEDTLS_ERR_ERROR_CORRUPTION_DETECTED = - 0x6E"

lemmas b64_codes = MBEDTLS_ERR_BASE64_BUFFER_TOO_SMALL_def MBEDTLS_ERR_BASE64_INVALID_CHARACTER_def MBEDTLS_ERR_ERROR_CORRUPTION_DETECTED_def

text \<open>The four digit values of a group, computed on \<open>int\<close>s.\<close>

definition digit1 :: "u8 \<Rightarrow> u8" where
  "digit1 c1 = ucast (drop_bit 2 (ucast c1 :: u32) AND 0x3F)"

definition digit2 :: "u8 \<Rightarrow> u8 \<Rightarrow> u8" where
  "digit2 c1 c2 = ucast ((push_bit 4 ((ucast c1 :: u32) AND 3) + drop_bit 4 (ucast c2)) AND 0x3F)"

definition digit3 :: "u8 \<Rightarrow> u8 \<Rightarrow> u8" where
  "digit3 c2 c3 = ucast ((push_bit 2 ((ucast c2 :: u32) AND 15) + drop_bit 6 (ucast c3)) AND 0x3F)"

definition digit4 :: "u8 \<Rightarrow> u8" where
  "digit4 c3 = ucast ((ucast c3 :: u32) AND 0x3F)"

fun encode_groups :: "bytes \<Rightarrow> bytes" where
  "encode_groups (c1 # c2 # c3 # src) = map mbedtls_ct_base64_enc_char [digit1 c1, digit2 c1 c2, digit3 c2 c3, digit4 c3] @ encode_groups src"
| "encode_groups [c1, c2] = map mbedtls_ct_base64_enc_char [digit1 c1, digit2 c1 c2, ucast (push_bit 2 ((ucast c2 :: u32) AND 15) AND 0x3F)] @ [61]"
| "encode_groups [c1] = map mbedtls_ct_base64_enc_char [digit1 c1, digit2 c1 0] @ [61, 61]"
| "encode_groups [] = []"

definition mbedtls_base64_encode :: "bool \<Rightarrow> nat \<Rightarrow> bytes \<Rightarrow> (int \<times> nat \<times> bytes) option" where
  "mbedtls_base64_encode dst dlen src =
     (let slen = length src
      in if slen = 0 then Some (0, 0, [])
         else let n = slen div 3 + of_bool (slen mod 3 \<noteq> 0)
         in if n > (SIZE_MAX - 1) div 4 then Some (MBEDTLS_ERR_BASE64_BUFFER_TOO_SMALL, SIZE_MAX, [])
            else let n = n * 4
            in if dlen < n + 1 \<or> \<not> dst then Some (MBEDTLS_ERR_BASE64_BUFFER_TOO_SMALL, n + 1, [])
               else let p = encode_groups src
               in if length p + 1 \<le> dlen then Some (0, length p, p @ [0]) else None)"

subsection \<open>Decoding\<close>

lemma dropWhile_shorter: "dropWhile P xs = y # ys \<Longrightarrow> length ys < length xs"
  by (metis Suc_le_eq length_Cons length_dropWhile_le)

text \<open>The first pass: the number of digits and equal signs, and the number of equal signs.\<close>

function scan :: "bytes \<Rightarrow> nat \<Rightarrow> nat \<Rightarrow> int + nat \<times> nat" where
  "scan src n equals =
     (case dropWhile (\<lambda>c. c = 32) src of
        [] \<Rightarrow> Inr (n, equals)
      | c # cs \<Rightarrow>
          if cs \<noteq> [] \<and> c = 13 \<and> hd cs = 10 then scan cs n equals
          else if c = 10 then scan cs n equals
          else if src \<noteq> [] \<and> hd src = 32 then Inl MBEDTLS_ERR_BASE64_INVALID_CHARACTER
          else if c > 127 then Inl MBEDTLS_ERR_BASE64_INVALID_CHARACTER
          else if c = 61 then
            (if equals + 1 > 2 then Inl MBEDTLS_ERR_BASE64_INVALID_CHARACTER else scan cs (n + 1) (equals + 1))
          else if equals \<noteq> 0 then Inl MBEDTLS_ERR_BASE64_INVALID_CHARACTER
          else if mbedtls_ct_base64_dec_value c < 0 then Inl MBEDTLS_ERR_BASE64_INVALID_CHARACTER
          else scan cs (n + 1) equals)"
  by pat_completeness auto

termination
  by (relation "measure (\<lambda>(src, n, e). length src)") (auto dest!: dropWhile_shorter)

declare scan.simps [simp del]

text \<open>\<open>MBEDTLS_BYTE_n(x)\<close>\<close>

definition MBEDTLS_BYTE :: "nat \<Rightarrow> u32 \<Rightarrow> u8" where
  "MBEDTLS_BYTE n x = ucast (drop_bit (8 * n) x AND 0xff)"

text \<open>The second pass: accumulator, digits accumulated and bytes written.\<close>

fun decode_loop :: "bytes \<Rightarrow> u32 \<Rightarrow> nat \<Rightarrow> bytes \<Rightarrow> u32 \<times> nat \<times> bytes" where
  "decode_loop [] x k out = (x, k, out)"
| "decode_loop (c # src) x k out =
     (if c = 13 \<or> c = 10 \<or> c = 32 then decode_loop src x k out
      else if c = 61 then (x, k, out)
      else let x = push_bit 6 x OR word_of_int (mbedtls_ct_base64_dec_value c)
      in if k + 1 = 4 then decode_loop src x 0 (out @ [MBEDTLS_BYTE 2 x, MBEDTLS_BYTE 1 x, MBEDTLS_BYTE 0 x])
         else decode_loop src x (k + 1) out)"

definition decode_tail :: "u32 \<times> nat \<times> bytes \<Rightarrow> bytes" where
  "decode_tail r = (case r of (x, k, out) \<Rightarrow>
     if k = 3 then out @ [MBEDTLS_BYTE 2 (push_bit 6 x), MBEDTLS_BYTE 1 (push_bit 6 x)]
     else if k = 2 then out @ [MBEDTLS_BYTE 2 (push_bit 12 x)]
     else out)"

definition mbedtls_base64_decode :: "bool \<Rightarrow> nat \<Rightarrow> bytes \<Rightarrow> (int \<times> nat option \<times> bytes) option" where
  "mbedtls_base64_decode dst dlen src = (case scan src 0 0 of
     Inl e \<Rightarrow> Some (e, None, [])
   | Inr (n, equals) \<Rightarrow>
       if (n - equals) mod 4 = 1 then Some (MBEDTLS_ERR_BASE64_INVALID_CHARACTER, None, [])
       else if n mod 4 \<noteq> 0 then Some (MBEDTLS_ERR_BASE64_INVALID_CHARACTER, None, [])
       else let olen = n div 4 * 3 - equals
       in if (olen \<noteq> 0 \<and> \<not> dst) \<or> dlen < olen then Some (MBEDTLS_ERR_BASE64_BUFFER_TOO_SMALL, Some olen, [])
          else let out = decode_tail (decode_loop src 0 0 [])
          in if length out > dlen then None
             else if olen \<noteq> length out then Some (MBEDTLS_ERR_ERROR_CORRUPTION_DETECTED, Some olen, out)
             else Some (0, Some olen, out))"

subsection \<open>The digit functions are the alphabet\<close>

definition alphabet :: string where
  "alphabet = ''ABCDEFGHIJKLMNOPQRSTUVWXYZabcdefghijklmnopqrstuvwxyz0123456789+/''"

lemma enc_char_cases:
  "mbedtls_ct_base64_enc_char v = (if v \<le> 25 then 65 + v else if v \<le> 51 then 71 + v else if v \<le> 61 then v - 4
     else if v = 62 then 43 else if v = 63 then 47 else 0)"
proof -
  consider "v \<le> 25" | "25 < v \<and> v \<le> 51" | "51 < v \<and> v \<le> 61" | "v = 62" | "v = 63" | "63 < v"
  proof -
    have "unat v \<le> 25 \<or> 25 < unat v \<and> unat v \<le> 51 \<or> 51 < unat v \<and> unat v \<le> 61 \<or> unat v = 62 \<or> unat v = 63 \<or> 63 < unat v" by linarith
    then show ?thesis using that by (auto simp: word_le_nat_alt word_less_nat_alt word_unat_eq_iff)
  qed
  then show ?thesis
    by cases (auto simp: mbedtls_ct_base64_enc_char_def in_range_if_eq word_le_nat_alt word_less_nat_alt)
qed

lemma dec_value_cases:
  "mbedtls_ct_base64_dec_value c = (if 65 \<le> c \<and> c \<le> 90 then uint c - 65 else if 97 \<le> c \<and> c \<le> 122 then uint c - 71
     else if 48 \<le> c \<and> c \<le> 57 then uint c + 4 else if c = 43 then 62 else if c = 47 then 63 else - 1)"
proof -
  have less: "sint (of_int k :: u8) = k" if "- 1 \<le> k" "k < 64" for k :: int
    using that by (simp add: signed_of_int signed_take_bit_int_eq_self)
  have u: "c = of_int (uint c)" by simp
  have "uint c \<in> {65..90} \<or> uint c \<in> {97..122} \<or> uint c \<in> {48..57} \<or> uint c = 43 \<or> uint c = 47 \<or>
    uint c < 43 \<or> 43 < uint c \<and> uint c < 47 \<or> 57 < uint c \<and> uint c < 65 \<or> 90 < uint c \<and> uint c < 97 \<or> 122 < uint c" by auto
  then consider "65 \<le> c \<and> c \<le> 90" | "97 \<le> c \<and> c \<le> 122" | "48 \<le> c \<and> c \<le> 57" | "c = 43" | "c = 47"
    | "\<not> (65 \<le> c \<and> c \<le> 90)" "\<not> (97 \<le> c \<and> c \<le> 122)" "\<not> (48 \<le> c \<and> c \<le> 57)" "c \<noteq> 43" "c \<noteq> 47"
    by blast
  then show ?thesis
  proof cases
    case 1
    then have "mbedtls_ct_base64_dec_value c = sint (c - 65)"
      by (auto simp: mbedtls_ct_base64_dec_value_def in_range_if_eq word_le_nat_alt)
    also have "c - 65 = of_int (uint c - 65)" by simp
    finally show ?thesis using 1 less [of "uint c - 65"] by (simp add: word_le_def)
  next
    case 2
    then have "mbedtls_ct_base64_dec_value c = sint (c - 71)"
      by (auto simp: mbedtls_ct_base64_dec_value_def in_range_if_eq word_le_nat_alt)
    also have "c - 71 = of_int (uint c - 71)" by simp
    finally show ?thesis using 2 less [of "uint c - 71"] by (simp add: word_le_def)
  next
    case 3
    then have "mbedtls_ct_base64_dec_value c = sint (4 + c)"
      by (auto simp: mbedtls_ct_base64_dec_value_def in_range_if_eq word_le_nat_alt)
    also have "4 + c = of_int (uint c + 4)" by simp
    finally show ?thesis using 3 less [of "uint c + 4"] by (simp add: word_le_def)
  next
    case 6
    then show ?thesis by (auto simp: mbedtls_ct_base64_dec_value_def in_range_if_eq intro: antisym)
  qed (auto simp: mbedtls_ct_base64_dec_value_def in_range_if_eq)
qed

lemma dec_enc:
  assumes "v < 64"
  shows "mbedtls_ct_base64_dec_value (mbedtls_ct_base64_enc_char v) = uint v"
proof -
  have b: "uint v < 64" using assms by (simp add: word_less_def)
  have e: "uint (mbedtls_ct_base64_enc_char v) = (if uint v \<le> 25 then uint v + 65 else if uint v \<le> 51 then uint v + 71
      else if uint v \<le> 61 then uint v - 4 else if uint v = 62 then 43 else 47)"
    using b by (auto simp: enc_char_cases word_le_def word_uint_eq_iff uint_word_ariths)
  show ?thesis
    unfolding dec_value_cases word_le_def word_uint_eq_iff e using b by auto
qed

subsection \<open>Bits of a group\<close>

lemma bit_u8: "bit (v :: u8) n \<Longrightarrow> n < 8"
  using bit_imp_le_length [of v n] by simp

lemma and_masks:
  "x AND 3 = take_bit 2 (x :: u32)" "x AND 15 = take_bit 4 x" "x AND 0x3F = take_bit 6 x" "x AND 0xff = take_bit 8 x"
  by (simp_all add: take_bit_eq_mask mask_eq_exp_minus_1)

lemma bit_digit1: "bit (digit1 c) n \<longleftrightarrow> n < 6 \<and> bit c (n + 2)"
  unfolding digit1_def and_masks by (auto simp: bit_simps add.commute dest: bit_u8)

lemma bit_digit2: "bit (digit2 c d) n \<longleftrightarrow> n < 4 \<and> bit d (n + 4) \<or> 4 \<le> n \<and> n < 6 \<and> bit c (n - 4)"
proof -
  have "push_bit 4 (take_bit 2 (ucast c :: u32)) + drop_bit 4 (ucast d) = push_bit 4 (take_bit 2 (ucast c)) OR drop_bit 4 (ucast d)"
    by (rule disjunctive_add) (auto simp: bit_simps dest: bit_u8)
  then show ?thesis unfolding digit2_def and_masks by (auto simp: bit_simps add.commute dest: bit_u8)
qed

lemma bit_digit3: "bit (digit3 c d) n \<longleftrightarrow> n < 2 \<and> bit d (n + 6) \<or> 2 \<le> n \<and> n < 6 \<and> bit c (n - 2)"
proof -
  have "push_bit 2 (take_bit 4 (ucast c :: u32)) + drop_bit 6 (ucast d) = push_bit 2 (take_bit 4 (ucast c)) OR drop_bit 6 (ucast d)"
    by (rule disjunctive_add) (auto simp: bit_simps dest: bit_u8)
  then show ?thesis unfolding digit3_def and_masks by (auto simp: bit_simps add.commute dest: bit_u8)
qed

lemma bit_digit4: "bit (digit4 c) n \<longleftrightarrow> n < 6 \<and> bit c n"
  unfolding digit4_def and_masks by (auto simp: bit_simps)

lemmas bit_digits = bit_digit1 bit_digit2 bit_digit3 bit_digit4

lemma below_64: "(\<And>n. bit (v :: u8) n \<Longrightarrow> n < 6) \<Longrightarrow> v < 64"
proof -
  assume a: "\<And>n. bit v n \<Longrightarrow> n < 6"
  have "v = take_bit 6 v" using a by (auto intro!: bit_word_eqI simp: bit_simps)
  then have "uint v = take_bit 6 (uint v)" by (metis unsigned_take_bit_eq)
  then have "uint v < 2 ^ 6" by (metis take_bit_int_less_exp)
  then show ?thesis by (simp add: word_less_def)
qed

lemma digits_below [simp]: "digit1 c < 64" "digit2 c d < 64" "digit3 c d < 64" "digit4 c < 64"
  by (rule below_64; auto simp: bit_digits)+

subsection \<open>Round trip of one group\<close>

lemma bit_byte: "bit (MBEDTLS_BYTE i x) n \<longleftrightarrow> n < 8 \<and> bit x (8 * i + n)"
  unfolding MBEDTLS_BYTE_def and_masks by (auto simp: bit_simps add.commute dest: bit_imp_le_length)

definition add_digit :: "u32 \<Rightarrow> u8 \<Rightarrow> u32" where
  "add_digit x v = push_bit 6 x OR ucast v"

lemma u8_eqI:
  fixes v w :: u8
  assumes "bit v 0 = bit w 0" "bit v 1 = bit w 1" "bit v 2 = bit w 2" "bit v 3 = bit w 3"
    "bit v 4 = bit w 4" "bit v 5 = bit w 5" "bit v 6 = bit w 6" "bit v 7 = bit w 7"
  shows "v = w"
proof (rule bit_word_eqI)
  fix n :: nat
  assume "n < LENGTH(8)"
  then have "n = 0 \<or> n = 1 \<or> n = 2 \<or> n = 3 \<or> n = 4 \<or> n = 5 \<or> n = 6 \<or> n = 7" by (simp add: numeral_nat) linarith
  then show "bit v n = bit w n" using assms by (elim disjE) simp_all
qed

lemma last_digit: "ucast (push_bit 2 ((ucast c :: u32) AND 15) AND 0x3F) = digit3 c 0"
  by (simp add: digit3_def)

lemma encode_2 [simp]: "encode_groups [c1, c2] = map mbedtls_ct_base64_enc_char [digit1 c1, digit2 c1 c2, digit3 c2 0] @ [61]"
  by (simp only: encode_groups.simps last_digit)

declare encode_groups.simps(2) [simp del]

lemma group3:
  fixes x :: u32 and a b c :: u8
  defines "y \<equiv> add_digit (add_digit (add_digit (add_digit x (digit1 a)) (digit2 a b)) (digit3 b c)) (digit4 c)"
  shows "MBEDTLS_BYTE 2 y = a" "MBEDTLS_BYTE 1 y = b" "MBEDTLS_BYTE 0 y = c"
  by (rule u8_eqI; simp only: y_def add_digit_def bit_byte bit_or_iff bit_push_bit_iff bit_unsigned_iff bit_digits; simp; simp add: numeral_2_eq_2 numeral_3_eq_3)+

lemma group2:
  fixes x :: u32 and a b :: u8
  defines "y \<equiv> push_bit 6 (add_digit (add_digit (add_digit x (digit1 a)) (digit2 a b)) (digit3 b 0))"
  shows "MBEDTLS_BYTE 2 y = a" "MBEDTLS_BYTE 1 y = b"
  by (rule u8_eqI; simp only: y_def add_digit_def bit_byte bit_or_iff bit_push_bit_iff bit_unsigned_iff bit_digits; simp; simp add: numeral_2_eq_2 numeral_3_eq_3)+

lemma group1:
  fixes x :: u32 and a :: u8
  defines "y \<equiv> push_bit 12 (add_digit (add_digit x (digit1 a)) (digit2 a 0))"
  shows "MBEDTLS_BYTE 2 y = a"
  by (rule u8_eqI; simp only: y_def add_digit_def bit_byte bit_or_iff bit_push_bit_iff bit_unsigned_iff bit_digits; simp; simp add: numeral_2_eq_2 numeral_3_eq_3)

subsection \<open>Runs of digits\<close>

text \<open>An encoded digit is none of the characters the two passes treat specially.\<close>

lemma enc_char_not:
  assumes "v < 64"
  shows "mbedtls_ct_base64_enc_char v \<notin> {10, 13, 32, 61}" "\<not> 127 < mbedtls_ct_base64_enc_char v"
proof -
  have b: "uint v < 64" using assms by (simp add: word_less_def)
  have e: "uint (mbedtls_ct_base64_enc_char v) = (if uint v \<le> 25 then uint v + 65 else if uint v \<le> 51 then uint v + 71
      else if uint v \<le> 61 then uint v - 4 else if uint v = 62 then 43 else 47)"
    using b by (auto simp: enc_char_cases word_le_def word_uint_eq_iff uint_word_ariths)
  have nn: "0 \<le> uint v" by simp
  show "mbedtls_ct_base64_enc_char v \<notin> {10, 13, 32, 61}" using b by (auto simp: word_uint_eq_iff e) (insert nn, linarith)+
  show "\<not> 127 < mbedtls_ct_base64_enc_char v" using b by (auto simp: word_less_def e)
qed

lemma scan_enc: "v < 64 \<Longrightarrow> scan (mbedtls_ct_base64_enc_char v # cs) n 0 = scan cs (n + 1) 0"
  using enc_char_not [of v] by (subst scan.simps) (simp add: dec_enc)

lemma scan_equal: "e < 2 \<Longrightarrow> scan (61 # cs) n e = scan cs (n + 1) (e + 1)"
  by (subst scan.simps) simp

lemma scan_Nil: "scan [] n e = Inr (n, e)"
  by (subst scan.simps) simp

lemma decode_enc:
  "v < 64 \<Longrightarrow> decode_loop (mbedtls_ct_base64_enc_char v # cs) x k out =
     (let y = add_digit x v in if k = 3 then decode_loop cs y 0 (out @ [MBEDTLS_BYTE 2 y, MBEDTLS_BYTE 1 y, MBEDTLS_BYTE 0 y])
      else decode_loop cs y (k + 1) out)"
  using enc_char_not [of v] by (simp add: dec_enc Let_def add_digit_def)

lemma decode_equal: "decode_loop (61 # cs) x k out = (x, k, out)"
  by simp

declare decode_loop.simps(2) [simp del]

lemma groups_step: "(length src + 5) div 3 = Suc ((length src + 2) div 3)"
  by simp

lemma scan_encoded: "scan (encode_groups src) n 0 = Inr (n + 4 * ((length src + 2) div 3), (3 - length src mod 3) mod 3)"
proof (induction src arbitrary: n rule: encode_groups.induct)
  case (1 c1 c2 c3 src)
  then show ?case using 1 [of "Suc (Suc (Suc (Suc n)))"] groups_step [of src] by (simp add: scan_enc add.commute del: add_2_eq_Suc' add_2_eq_Suc)
qed (simp_all add: scan_enc scan_equal scan_Nil)

lemma decode_encoded: "decode_tail (decode_loop (encode_groups src) x 0 out) = out @ src"
  by (induction src arbitrary: x out rule: encode_groups.induct)
    (simp_all add: decode_enc decode_equal group1 group2 group3 Let_def decode_tail_def del: One_nat_def)

lemma length_encoded: "length (encode_groups src) = 4 * ((length src + 2) div 3)"
proof (induction src rule: encode_groups.induct)
  case (1 c1 c2 c3 src)
  then show ?case using groups_step [of src] by (simp add: add.commute)
qed simp_all

subsection \<open>The two passes agree\<close>

lemma scan_after_equal:
  "scan src n e = Inr (n', e') \<Longrightarrow> 0 < e \<Longrightarrow> e \<le> 2 \<Longrightarrow> e \<le> e' \<and> e' \<le> 2 \<and> n' + e = n + e'"
proof (induction src n e rule: scan.induct)
  case (1 src n e)
  show ?case
  proof (cases "dropWhile (\<lambda>c. c = 32) src")
    case Nil
    then show ?thesis using "1.prems" by (simp add: scan.simps [of src] del: dropWhile_eq_Nil_conv)
  next
    case (Cons c cs)
    show ?thesis using 1 Cons by (simp add: scan.simps [of src] split: if_splits)
  qed
qed

lemma decode_loop_spaces: "decode_loop (dropWhile (\<lambda>c. c = 32) src) x k out = decode_loop src x k out"
  by (induction src) (simp_all add: decode_loop.simps)

definition passes_agree :: "nat \<Rightarrow> nat \<Rightarrow> bytes \<Rightarrow> u32 \<times> nat \<times> bytes \<Rightarrow> bool" where
  "passes_agree D k out r = (case r of (x', k', out') \<Rightarrow>
     k' = (k + D) mod 4 \<and> length out' = length out + 3 * ((k + D) div 4))"

lemma passes_agree_digit:
  assumes "k < 4" and "\<And>x k out. k < 4 \<Longrightarrow> passes_agree D k out (decode_loop cs x k out)" and "c \<notin> {10, 13, 32, 61}"
  shows "passes_agree (Suc D) k out (decode_loop (c # cs) x k out)"
proof -
  define y where "y = push_bit 6 x OR word_of_int (mbedtls_ct_base64_dec_value c)"
  show ?thesis
  proof (cases "k = 3")
    case True
    have "passes_agree D 0 (out @ [MBEDTLS_BYTE 2 y, MBEDTLS_BYTE 1 y, MBEDTLS_BYTE 0 y])
        (decode_loop cs y 0 (out @ [MBEDTLS_BYTE 2 y, MBEDTLS_BYTE 1 y, MBEDTLS_BYTE 0 y]))" by (rule assms(2)) simp
    moreover have "(4 + D) div 4 = Suc (D div 4)" by simp
    ultimately show ?thesis using assms(3) True by (auto simp: decode_loop.simps y_def passes_agree_def)
  next
    case False
    have "passes_agree D (k + 1) out (decode_loop cs y (k + 1) out)" by (rule assms(2)) (use assms(1) False in simp)
    then show ?thesis using assms(3) False by (auto simp: decode_loop.simps y_def passes_agree_def)
  qed
qed

lemma scan_cases:
  assumes "scan src n e = Inr (n', e')" and "dropWhile (\<lambda>c. c = 32) src = c # cs"
  obtains (skip) "c = 13 \<or> c = 10" "scan cs n e = Inr (n', e')" | (equal) "c = 61" "e < 2" "scan cs (n + 1) (e + 1) = Inr (n', e')"
    | (digit) "c \<notin> {10, 13, 61}" "e = 0" "scan cs (n + 1) e = Inr (n', e')"
proof -
  have "mbedtls_ct_base64_dec_value 13 = - 1" by (simp add: dec_value_cases)
  then show ?thesis using that assms by (cases "c = 13") (auto simp: scan.simps [of src] split: if_splits)
qed

lemma scan_decode:
  "scan src n 0 = Inr (n', e') \<Longrightarrow> n + e' \<le> n' \<and> e' \<le> 2 \<and>
     (\<forall>x k out. k < 4 \<longrightarrow> passes_agree (n' - e' - n) k out (decode_loop src x k out))"
proof (induction "length src" arbitrary: src n rule: less_induct)
  case less
  show ?case
  proof (cases "dropWhile (\<lambda>c. c = 32) src")
    case Nil
    then have "decode_loop src x k out = (x, k, out)" for x k out
      using decode_loop_spaces [of src x k out] by (simp del: dropWhile_eq_Nil_conv)
    then show ?thesis using less.prems Nil by (simp add: scan.simps [of src] passes_agree_def del: dropWhile_eq_Nil_conv)
  next
    case (Cons c cs)
    have c: "c \<noteq> 32" using hd_dropWhile [of "\<lambda>c. c = 32" src] Cons by simp
    have d: "decode_loop src x k out = decode_loop (c # cs) x k out" for x k out
      using decode_loop_spaces [of src x k out] Cons by simp
    note IH = less.hyps [OF dropWhile_shorter [OF Cons]]
    show ?thesis
      using less.prems Cons
    proof (cases rule: scan_cases)
      case skip
      then show ?thesis using IH [OF skip(2)] d by (auto simp: decode_loop.simps)
    next
      case equal
      then show ?thesis using d scan_after_equal [OF equal(3)] by (simp add: decode_equal passes_agree_def)
    next
      case digit
      note ih = IH [OF digit(3)]
      have "n' - e' - n = Suc (n' - e' - (n + 1))" using ih by linarith
      then show ?thesis using ih d passes_agree_digit [of _ "n' - e' - (n + 1)" cs c] digit(1) c by auto
    qed
  qed
qed

lemma decoded_length:
  assumes s: "scan src 0 0 = Inr (n, e)" and n: "n mod 4 = 0"
  shows "length (decode_tail (decode_loop src 0 0 [])) = n div 4 * 3 - e"
proof -
  obtain x k out where d: "decode_loop src 0 0 [] = (x, k, out)" by (cases "decode_loop src 0 0 []")
  have agree: "passes_agree (n - e) 0 [] (decode_loop src 0 0 [])" using scan_decode [OF s] by simp
  have a: "e \<le> n" "e \<le> 2" "k = (n - e) mod 4" "length out = 3 * ((n - e) div 4)"
    using agree scan_decode [OF s] by (auto simp: passes_agree_def d)
  obtain m where m: "n = 4 * m" using n by (metis dvdE mod_0_imp_dvd)
  consider "e = 0" | j where "m = Suc j" "e = 1" | j where "m = Suc j" "e = 2"
    using a m by (cases m) (auto simp: le_Suc_eq numeral_2_eq_2)
  then show ?thesis
  proof cases
    case 2
    then have "n - e = 4 * j + 3" using m by simp
    then show ?thesis using a m 2 d by (simp add: decode_tail_def)
  next
    case 3
    then have "n - e = 4 * j + 2" using m by simp
    then have "(n - e) mod 4 = 2" "(n - e) div 4 = j" by presburger+
    then show ?thesis using a m 3 d by (simp add: decode_tail_def)
  qed (use a m d in \<open>simp add: decode_tail_def\<close>)
qed

lemma digits_not_1:
  fixes m e :: nat
  assumes "e \<le> 2" "e \<le> 4 * m"
  shows "(4 * m - e) mod 4 \<noteq> 1"
proof -
  consider "e = 0" | j where "m = Suc j" "e = 1" | j where "m = Suc j" "e = 2"
    using assms by (cases m) (auto simp: le_Suc_eq numeral_2_eq_2)
  then show ?thesis
  proof cases
    case 2
    then have "4 * m - e = 4 * j + 3" by simp
    then show ?thesis by simp
  next
    case 3
    then have "4 * m - e = 4 * j + 2" by simp
    then show ?thesis by presburger
  qed simp
qed

lemma scan_error: "scan src n e = Inl c \<Longrightarrow> c = MBEDTLS_ERR_BASE64_INVALID_CHARACTER"
proof (induction src n e rule: scan.induct)
  case (1 src n e)
  then show ?case
    by (cases "dropWhile (\<lambda>c. c = 32) src") (simp_all add: scan.simps [of src] del: dropWhile_eq_Nil_conv split: if_splits)
qed

lemma encode_eq:
  assumes "src \<noteq> []" "4 * ((length src + 2) div 3) + 1 \<le> dlen" "dlen \<le> SIZE_MAX"
  shows "mbedtls_base64_encode True dlen src = Some (0, length (encode_groups src), encode_groups src @ [0])"
proof -
  have n: "length src div 3 + of_bool (length src mod 3 \<noteq> 0) = (length src + 2) div 3" by simp presburger
  have "(length src + 2) div 3 \<le> (SIZE_MAX - 1) div 4" using assms by linarith
  then show ?thesis using assms n by (simp add: mbedtls_base64_encode_def Let_def length_encoded del: of_bool_eq)
qed

subsection \<open>Properties\<close>

text \<open>C38: Base64 round trip. A buffer of \<open>4 * ceil (slen / 3) + 1\<close> bytes is enough to encode \<open>slen\<close> bytes: the
  encoder returns 0, writes exactly that many characters and a terminating zero, and decoding the text into any buffer that
  holds the data returns 0 and gives the original bytes back, whatever their number modulo 3.\<close>

theorem base64_roundtrip:
  assumes "src \<noteq> []" and "4 * ((length src + 2) div 3) + 1 \<le> dlen" and "dlen \<le> SIZE_MAX" and "length src \<le> dlen'"
  shows "\<exists>txt. mbedtls_base64_encode True dlen src = Some (0, length txt, txt @ [0]) \<and> length txt = 4 * ((length src + 2) div 3) \<and>
    mbedtls_base64_decode True dlen' txt = Some (0, Some (length src), src)"
proof -
  let ?m = "(length src + 2) div 3" and ?e = "(3 - length src mod 3) mod 3"
  have s: "scan (encode_groups src) 0 0 = Inr (4 * ?m, ?e)" using scan_encoded [of src 0] by simp
  have l: "?m * 3 - ?e = length src" using decoded_length [OF s] decode_encoded [of src 0 "[]"] by simp
  have e: "(4 * ?m - ?e) mod 4 \<noteq> 1" using scan_decode [OF s] by (intro digits_not_1) simp_all
  show ?thesis
    using encode_eq [OF assms(1-3)] length_encoded [of src] s l e decode_encoded [of src 0 "[]"] assms(4)
    by (simp add: mbedtls_base64_decode_def)
qed

theorem base64_roundtrip_witness:
  "[1, 2] \<noteq> ([] :: bytes) \<and> (\<exists>txt. mbedtls_base64_encode True 5 [1, 2] = Some (0, length txt, txt @ [0]) \<and> length txt = 4 \<and>
    mbedtls_base64_decode True 2 txt = Some (0, Some (length ([1, 2] :: bytes)), [1, 2]))"
  using base64_roundtrip [of "[1, 2]" 5 2] by (simp add: SIZE_MAX_def)


end
