(* ===== verification/Local_Ips.thy ===== *)
theory Local_Ips
  imports HS_Prelude "HOL-Library.Monad_Syntax"
begin

text \<open>
  The list of local addresses for the start-up banner, \<^verbatim>\<open>cmd/common/local_ips.c\<close>: a growing text buffer
  and the loop over the interfaces, for both platforms. Sizes are \<open>size_t\<close> values, 64-bit words. \<open>realloc\<close> answers
  from the argument \<open>mem\<close>: whether the request is granted, and the bytes of the new part of the block. A copy outside the
  block and a loop that does not end are \<open>None\<close>. \<open>getifaddrs\<close>, \<open>getaddrinfo\<close>, \<open>inet_ntop\<close> are arguments.
\<close>

subsection \<open>The buffer\<close>

record IpBuf =
  ib_buf :: bytes
  ib_len :: u64
  ib_cap :: u64

record mem =
  realloc_ok :: "u64 \<Rightarrow> bool"
  fresh_byte :: "nat \<Rightarrow> u8"

text \<open>\<^verbatim>\<open>while (cap < needed + 1) cap *= 2;\<close>\<close>

partial_function (option) ipbuf_capacity :: "u64 \<Rightarrow> u64 \<Rightarrow> u64 option" where
  "ipbuf_capacity cap need = (if cap < need then ipbuf_capacity (cap * 2) need else Some cap)"

definition realloc :: "mem \<Rightarrow> bytes \<Rightarrow> u64 \<Rightarrow> bytes option" where
  "realloc e block n = (if realloc_ok e n then Some (take (unat n) block @ map (fresh_byte e) [length block..<unat n]) else None)"

definition copy_to :: "bytes \<Rightarrow> nat \<Rightarrow> bytes \<Rightarrow> bytes option" where
  "copy_to block at src =
     (if at + length src \<le> length block then Some (take at block @ src @ drop (at + length src) block) else None)"

text \<open>The capacity part: \<open>Some None\<close> when \<open>realloc\<close> fails.\<close>

definition ipbuf_reserve :: "mem \<Rightarrow> u64 \<Rightarrow> IpBuf \<Rightarrow> IpBuf option option" where
  "ipbuf_reserve e needed b =
     (if needed + 1 > ib_cap b then do {
        cap \<leftarrow> ipbuf_capacity (if ib_cap b \<noteq> 0 then ib_cap b else 256) (needed + 1);
        Some (case realloc e (ib_buf b) cap of None \<Rightarrow> None | Some block \<Rightarrow> Some (b\<lparr>ib_buf := block, ib_cap := cap\<rparr>))
      }
      else Some (Some b))"

definition ipbuf_append :: "mem \<Rightarrow> IpBuf \<Rightarrow> bytes \<Rightarrow> (bool \<times> IpBuf) option" where
  "ipbuf_append e b addr = (let n = of_nat (length addr); needed = ib_len b + (if ib_len b > 0 then 1 else 0) + n
     in do {
       r \<leftarrow> ipbuf_reserve e needed b;
       case r of
         None \<Rightarrow> Some (False, b)
       | Some b \<Rightarrow> do {
           b \<leftarrow> (if ib_len b > 0
                 then map_option (\<lambda>block. b\<lparr>ib_buf := block, ib_len := ib_len b + 1\<rparr>) (copy_to (ib_buf b) (unat (ib_len b)) [10])
                 else Some b);
           block \<leftarrow> copy_to (ib_buf b) (unat (ib_len b)) addr;
           Some (True, b\<lparr>ib_buf := block, ib_len := ib_len b + n\<rparr>)
         }
     })"

text \<open>
  \<open>(int32_t)b->len\<close> bytes are allocated and \<open>b->len\<close> bytes copied; a copy past either block is \<open>None\<close>. The block is
  freed.
\<close>

definition ipbuf_finish :: "IpBuf \<Rightarrow> bytes option" where
  "ipbuf_finish b = (let size = sint (ucast (ib_len b) :: u32)
     in if ib_len b > 0 then (if unat (ib_len b) \<le> length (ib_buf b) \<and> uint (ib_len b) \<le> size then Some (take (unat (ib_len b)) (ib_buf b)) else None)
        else Some [])"

subsection \<open>The loops\<close>

definition AF_INET :: nat where "AF_INET = 2"

text \<open>An interface or result: its address, if any, as family and address.\<close>

type_synonym 'a netaddr = "(nat \<times> 'a) option"

fun collect :: "mem \<Rightarrow> ('a \<Rightarrow> bytes option) \<Rightarrow> 'a netaddr list \<Rightarrow> IpBuf \<Rightarrow> IpBuf option" where
  "collect e ntop [] b = Some b"
| "collect e ntop (None # ifs) b = collect e ntop ifs b"
| "collect e ntop (Some (family, a) # ifs) b =
     (if family \<noteq> AF_INET then collect e ntop ifs b
      else case ntop a of
        None \<Rightarrow> collect e ntop ifs b
      | Some ipstr \<Rightarrow> do {
          (ok, b) \<leftarrow> ipbuf_append e b ipstr;
          if \<not> ok then Some b else collect e ntop ifs b
        })"

definition empty_buf :: IpBuf where
  "empty_buf = \<lparr>ib_buf = [], ib_len = 0, ib_cap = 0\<rparr>"

definition http_server_cli_local_ips :: "mem \<Rightarrow> ('a \<Rightarrow> bytes option) \<Rightarrow> 'a netaddr list option \<Rightarrow> bytes option" where
  "http_server_cli_local_ips e ntop ifaddr = do {
     b \<leftarrow> (case ifaddr of None \<Rightarrow> Some empty_buf | Some ifs \<Rightarrow> collect e ntop ifs empty_buf);
     ipbuf_finish b
   }"

text \<open>On Windows \<open>startup\<close> is whether \<open>WSAStartup\<close> succeeded, \<open>host\<close> whether \<open>gethostname\<close> did.\<close>

definition http_server_cli_local_ips_windows ::
    "mem \<Rightarrow> ('a \<Rightarrow> bytes option) \<Rightarrow> bool \<Rightarrow> bool \<Rightarrow> 'a netaddr list option \<Rightarrow> bytes option" where
  "http_server_cli_local_ips_windows e ntop startup host res =
     (if \<not> startup then Some []
      else do {
        b \<leftarrow> (if host then case res of None \<Rightarrow> Some empty_buf | Some rs \<Rightarrow> collect e ntop rs empty_buf else Some empty_buf);
        ipbuf_finish b
      })"

subsection \<open>The growing capacity\<close>

lemma unat_pow2: "k \<le> 63 \<Longrightarrow> unat (2 ^ k :: u64) = 2 ^ k"
proof -
  assume "k \<le> 63"
  then have "(2 :: nat) ^ k < 2 ^ 64" by (intro power_strict_increasing) simp_all
  moreover have "(2 ^ k :: u64) = of_nat (2 ^ k)" by simp
  ultimately show ?thesis by (simp only: unat_of_nat) (simp add: take_bit_nat_eq_self)
qed

lemma capacity_stop: "need \<le> cap \<Longrightarrow> ipbuf_capacity cap need = Some cap"
  by (subst ipbuf_capacity.simps) (simp add: not_less [symmetric])

lemma capacity_ok:
  "k \<le> 63 \<Longrightarrow> need \<le> 2 ^ 63 \<Longrightarrow> \<exists>j. k \<le> j \<and> j \<le> 63 \<and> ipbuf_capacity (2 ^ k) need = Some (2 ^ j) \<and> need \<le> 2 ^ j"
proof (induction "63 - k" arbitrary: k)
  case 0
  then have "k = 63" by simp
  then show ?case using capacity_stop [OF 0(3)] 0(3) by blast
next
  case (Suc d)
  show ?case
  proof (cases "2 ^ k < need")
    case True
    have "d = 63 - Suc k" "Suc k \<le> 63" using Suc.hyps(2) by simp_all
    then obtain j where "Suc k \<le> j" "j \<le> 63" "ipbuf_capacity (2 ^ Suc k) need = Some (2 ^ j)" "need \<le> 2 ^ j"
      using Suc.hyps(1) [of "Suc k"] Suc.prems by auto
    then show ?thesis using True ipbuf_capacity.simps [of "2 ^ k" need] by (intro exI [of _ j]) (simp add: mult.commute)
  next
    case False
    then show ?thesis using Suc.prems(1) capacity_stop [of need "2 ^ k"] by (meson not_less order_refl)
  qed
qed

subsection \<open>The buffer holds a text\<close>

definition buf_ok :: "IpBuf \<Rightarrow> bytes \<Rightarrow> bool" where
  "buf_ok b tx \<longleftrightarrow> unat (ib_len b) = length tx \<and> unat (ib_cap b) = length (ib_buf b) \<and>
     (ib_cap b = 0 \<or> (\<exists>k\<le>63. ib_cap b = 2 ^ k)) \<and> length tx \<le> length (ib_buf b) \<and> take (length tx) (ib_buf b) = tx"

lemma ip_reserve_ok:
  assumes b: "buf_ok b tx" and need: "needed + 1 \<le> 2 ^ 63" and n: "length tx \<le> unat needed"
  shows "\<exists>r. ipbuf_reserve e needed b = Some r \<and> (r = None \<longrightarrow> (\<exists>n. \<not> realloc_ok e n)) \<and>
    (\<forall>b'. r = Some b' \<longrightarrow> buf_ok b' tx \<and> unat (needed + 1) \<le> length (ib_buf b') \<and> ib_len b' = ib_len b)"
proof (cases "needed + 1 > ib_cap b")
  case False
  then show ?thesis using b by (auto simp: ipbuf_reserve_def buf_ok_def word_less_nat_alt)
next
  case True
  obtain k where k: "k \<le> 63" "(if ib_cap b \<noteq> 0 then ib_cap b else 256) = 2 ^ k"
    using b by (cases "ib_cap b = 0") (auto simp: buf_ok_def intro: that [of 8])
  obtain j where j: "k \<le> j" "j \<le> 63" "ipbuf_capacity (2 ^ k) (needed + 1) = Some (2 ^ j)" "needed + 1 \<le> 2 ^ j"
    using capacity_ok [OF k(1) need] by blast
  have len: "length (ib_buf b) \<le> 2 ^ j"
    using b True j(2,4) unat_pow2 [of j] by (auto simp: buf_ok_def word_less_nat_alt word_le_nat_alt)
  show ?thesis
  proof (cases "realloc_ok e (2 ^ j)")
    case False
    then show ?thesis using True k j by (auto simp: ipbuf_reserve_def realloc_def)
  next
    case ok: True
    have "unat (needed + 1) \<le> 2 ^ j" using j(2,4) by (simp add: word_le_nat_alt unat_pow2)
    then show ?thesis using True k j ok b len by (auto simp: ipbuf_reserve_def realloc_def buf_ok_def unat_pow2)
  qed
qed

definition line :: "bytes \<Rightarrow> bytes \<Rightarrow> bytes" where
  "line tx addr = (if tx = [] then addr else tx @ 10 # addr)"

lemma copy_to_ok:
  "at + length src \<le> length block \<Longrightarrow> \<exists>r. copy_to block at src = Some r \<and> length r = length block \<and> take (at + length src) r = take at block @ src"
  by (simp add: copy_to_def)

lemma append_ok:
  assumes b: "buf_ok b tx" and n: "length tx + length addr + 2 \<le> 2 ^ 62"
  shows "\<exists>ok b'. ipbuf_append e b addr = Some (ok, b') \<and> buf_ok b' (if ok then line tx addr else tx) \<and>
    (\<not> ok \<longrightarrow> (\<exists>n. \<not> realloc_ok e n))"
proof -
  let ?sep = "if ib_len b > 0 then 1 else 0 :: u64"
  define needed where "needed = ib_len b + ?sep + of_nat (length addr)"
  have l: "unat (ib_len b) = length tx" using b by (simp add: buf_ok_def)
  have pos: "ib_len b > 0 \<longleftrightarrow> tx \<noteq> []" using l by (auto simp: word_less_nat_alt)
  have need: "unat needed = length (line tx addr)" "unat (needed + 1) = length (line tx addr) + 1"
    using n l pos by (auto simp: needed_def line_def unat_word_ariths unat_of_nat take_bit_eq_mod)
  have "needed + 1 \<le> 2 ^ 63" using n need by (auto simp: word_le_nat_alt line_def)
  moreover have "length tx \<le> unat needed" using need by (simp add: line_def)
  ultimately obtain r where r: "ipbuf_reserve e needed b = Some r" "r = None \<Longrightarrow> \<exists>n. \<not> realloc_ok e n"
      "\<And>b'. r = Some b' \<Longrightarrow> buf_ok b' tx \<and> unat (needed + 1) \<le> length (ib_buf b') \<and> ib_len b' = ib_len b"
    using ip_reserve_ok [OF b, of needed e] by blast
  show ?thesis
  proof (cases r)
    case None
    then show ?thesis using r b by (auto simp: ipbuf_append_def Let_def needed_def)
  next
    case (Some c)
    have c: "buf_ok c tx" "length (line tx addr) < length (ib_buf c)" "ib_len c = ib_len b" using r(3) [OF Some] need by simp_all
    show ?thesis
    proof (cases "tx = []")
      case True
      have z: "ib_len b = 0" using True l by (simp add: word_unat_eq_iff)
      have a: "ipbuf_append e b addr = Some (True, c\<lparr>ib_buf := addr @ drop (length addr) (ib_buf c), ib_len := of_nat (length addr)\<rparr>)"
        using True Some r(1) c(2,3) z by (simp add: ipbuf_append_def Let_def needed_def copy_to_def line_def)
      have "buf_ok (c\<lparr>ib_buf := addr @ drop (length addr) (ib_buf c), ib_len := of_nat (length addr)\<rparr>) addr"
        using c True n by (auto simp: buf_ok_def line_def unat_of_nat take_bit_nat_eq_self)
      then show ?thesis using a True by (auto simp: line_def)
    next
      case False
      have z: "ib_len b > 0" using False pos by simp
      define blk where "blk = tx @ 10 # addr @ drop (length tx + 1 + length addr) (ib_buf c)"
      have u: "unat (ib_len b + 1) = length tx + 1" "unat (ib_len b + 1 + of_nat (length addr)) = length tx + 1 + length addr"
        using l n by (simp_all add: unat_word_ariths unat_of_nat take_bit_eq_mod)
      have t: "take (length tx) (ib_buf c) = tx" "length tx + 1 + length addr \<le> length (ib_buf c)" "unat (ib_cap c) = length (ib_buf c)"
        using c False by (simp_all add: buf_ok_def line_def)
      have "copy_to (ib_buf c) (length tx) [10] = Some (tx @ 10 # drop (length tx + 1) (ib_buf c))" using t by (simp add: copy_to_def)
      moreover have "copy_to (tx @ 10 # drop (length tx + 1) (ib_buf c)) (length tx + 1) addr = Some blk"
        using t(2) by (simp add: copy_to_def blk_def add.commute)
      ultimately have a: "ipbuf_append e b addr = Some (True, c\<lparr>ib_buf := blk, ib_len := ib_len b + 1 + of_nat (length addr)\<rparr>)"
        using Some r(1) c(3) z l u by (simp add: ipbuf_append_def Let_def needed_def)
      have "buf_ok (c\<lparr>ib_buf := blk, ib_len := ib_len b + 1 + of_nat (length addr)\<rparr>) (tx @ 10 # addr)"
        using c(1) u t by (auto simp: buf_ok_def blk_def)
      then show ?thesis using a False by (auto simp: line_def)
    qed
  qed
qed

subsection \<open>The whole list\<close>

text \<open>What \<open>inet_ntop\<close> promises for IPv4: 1 to 15 characters, none of them a line break.\<close>

definition ntop_ok :: "('a \<Rightarrow> bytes option) \<Rightarrow> bool" where
  "ntop_ok ntop \<longleftrightarrow> (\<forall>a t. ntop a = Some t \<longrightarrow> t \<noteq> [] \<and> length t \<le> 15 \<and> 10 \<notin> set t)"

fun ipv4_texts :: "('a \<Rightarrow> bytes option) \<Rightarrow> 'a netaddr list \<Rightarrow> bytes list" where
  "ipv4_texts ntop [] = []"
| "ipv4_texts ntop (None # ifs) = ipv4_texts ntop ifs"
| "ipv4_texts ntop (Some (family, a) # ifs) =
     (if family = AF_INET then (case ntop a of None \<Rightarrow> [] | Some t \<Rightarrow> [t]) else []) @ ipv4_texts ntop ifs"

lemma texts_count: "length (ipv4_texts ntop ifs) \<le> length ifs"
  by (induction ntop ifs rule: ipv4_texts.induct) (auto split: option.splits)

lemma texts_ok: "ntop_ok ntop \<Longrightarrow> t \<in> set (ipv4_texts ntop ifs) \<Longrightarrow> t \<noteq> [] \<and> length t \<le> 15 \<and> 10 \<notin> set t"
proof (induction ntop ifs rule: ipv4_texts.induct)
  case (3 ntop family a ifs)
  then show ?case by (cases "ntop a"; cases "family = AF_INET") (auto simp: ntop_ok_def)
qed simp_all

lemma collect_step:
  assumes b: "buf_ok b tx" and t: "ntop a = Some t" and len: "length tx + length t + 2 \<le> 2 ^ 62"
    and IH: "\<And>b'. buf_ok b' (line tx t) \<Longrightarrow> \<exists>b'' n. collect e ntop ifs b' = Some b'' \<and> n \<le> length ts \<and>
       buf_ok b'' (foldl line (line tx t) (take n ts)) \<and> (n < length ts \<longrightarrow> (\<exists>m. \<not> realloc_ok e m))"
  shows "\<exists>b'' n. collect e ntop (Some (AF_INET, a) # ifs) b = Some b'' \<and> n \<le> length (t # ts) \<and>
       buf_ok b'' (foldl line tx (take n (t # ts))) \<and> (n < length (t # ts) \<longrightarrow> (\<exists>m. \<not> realloc_ok e m))"
proof -
  obtain ok b' where s: "ipbuf_append e b t = Some (ok, b')" "buf_ok b' (if ok then line tx t else tx)"
      "\<not> ok \<Longrightarrow> \<exists>n. \<not> realloc_ok e n" using append_ok [OF b len, of e] by blast
  show ?thesis
  proof (cases ok)
    case True
    then obtain b'' n where "collect e ntop ifs b' = Some b''" "n \<le> length ts"
        "buf_ok b'' (foldl line (line tx t) (take n ts))" "n < length ts \<longrightarrow> (\<exists>m. \<not> realloc_ok e m)"
      using IH [of b'] s by auto
    then show ?thesis using s t True by (intro exI [of _ b''] exI [of _ "Suc n"]) simp
  next
    case False
    then show ?thesis using s t by (intro exI [of _ b'] exI [of _ 0]) simp
  qed
qed

lemma collect_ok:
  "ntop_ok ntop \<Longrightarrow> buf_ok b tx \<Longrightarrow> length tx + 16 * length ifs < 2 ^ 31 \<Longrightarrow>
   \<exists>b' n. collect e ntop ifs b = Some b' \<and> n \<le> length (ipv4_texts ntop ifs) \<and>
     buf_ok b' (foldl line tx (take n (ipv4_texts ntop ifs))) \<and>
     (n < length (ipv4_texts ntop ifs) \<longrightarrow> (\<exists>m. \<not> realloc_ok e m))"
proof (induction ifs arbitrary: b tx)
  case (Cons x ifs)
  have rest: "length tx + 16 * length ifs < 2 ^ 31" using Cons.prems by simp
  note skip = Cons.IH [OF Cons.prems(1,2) rest]
  show ?case
  proof (cases x)
    case None
    then show ?thesis using skip by simp
  next
    case (Some y)
    obtain family a where y: "y = (family, a)" by (cases y)
    show ?thesis
    proof (cases "family = AF_INET \<and> ntop a \<noteq> None")
      case False
      then show ?thesis using skip Some y by (auto split: option.splits)
    next
      case True
      then obtain t where t: "ntop a = Some t" "family = AF_INET" by auto
      have "length t \<le> 15" using Cons.prems(1) t by (auto simp: ntop_ok_def)
      then have "length (line tx t) + 16 * length ifs < 2 ^ 31" "length tx + length t + 2 \<le> 2 ^ 62"
        using Cons.prems(3) by (simp_all add: line_def)
      then show ?thesis
        using collect_step [OF Cons.prems(2) t(1) _ Cons.IH [OF Cons.prems(1)]] Some y t by simp
    qed
  qed
qed simp

fun text_lines :: "bytes list \<Rightarrow> bytes" where
  "text_lines [] = []"
| "text_lines [t] = t"
| "text_lines (t # ts) = t @ 10 # text_lines ts"

lemma text_lines_snoc: "text_lines (ts @ [t]) = (if ts = [] then t else text_lines ts @ 10 # t)"
  by (induction ts rule: text_lines.induct) simp_all

lemma text_lines_empty: "[] \<notin> set ts \<Longrightarrow> text_lines ts = [] \<longleftrightarrow> ts = []"
  by (cases ts rule: text_lines.cases) auto

lemma foldl_line: "[] \<notin> set ts \<Longrightarrow> foldl line [] ts = text_lines ts"
  by (induction ts rule: rev_induct) (auto simp: line_def text_lines_snoc text_lines_empty)

lemma text_lines_length: "(\<And>t. t \<in> set ts \<Longrightarrow> length t \<le> 15) \<Longrightarrow> length (text_lines ts) \<le> 16 * length ts"
  by (induction ts rule: text_lines.induct) (auto, fastforce)

lemma finish_ok:
  assumes "buf_ok b tx" "length tx < 2 ^ 31"
  shows "ipbuf_finish b = Some tx"
proof -
  have u: "uint (ib_len b) = int (length tx)" using assms(1) by (metis buf_ok_def uint_nat)
  have "uint (ucast (ib_len b) :: u32) = int (length tx)" using u assms(2) by (simp add: unsigned_ucast_eq take_bit_int_eq_self)
  then have "sint (ucast (ib_len b) :: u32) = int (length tx)"
    using assms(2) by (simp add: sint_uint signed_take_bit_int_eq_self)
  then show ?thesis using assms u by (auto simp: ipbuf_finish_def buf_ok_def word_less_def)
qed

subsection \<open>Property\<close>

text \<open>C40: The address list always comes back and is exact. For every interface list (below 2^27 entries) and every
  behaviour of \<open>realloc\<close>, the doubling loop ends although the capacity is a machine word, no copy leaves a block, and the
  result is the IPv4 addresses in interface order, one per line without a final line break. Addresses are missing only
  when \<open>realloc\<close> refused a request, and then the ones before it are all there. The Windows form gives the same text.\<close>

theorem local_ips_text:
  assumes "ntop_ok ntop" and "16 * length ifs < 2 ^ 31"
  shows "\<exists>n. http_server_cli_local_ips e ntop (Some ifs) = Some (text_lines (take n (ipv4_texts ntop ifs))) \<and>
    n \<le> length (ipv4_texts ntop ifs) \<and> (n < length (ipv4_texts ntop ifs) \<longrightarrow> (\<exists>m. \<not> realloc_ok e m)) \<and>
    http_server_cli_local_ips_windows e ntop True True (Some ifs) = http_server_cli_local_ips e ntop (Some ifs)"
proof -
  have "buf_ok empty_buf []" by (simp add: buf_ok_def empty_buf_def)
  then obtain b n where c: "collect e ntop ifs empty_buf = Some b" "n \<le> length (ipv4_texts ntop ifs)"
      "buf_ok b (foldl line [] (take n (ipv4_texts ntop ifs)))" "n < length (ipv4_texts ntop ifs) \<longrightarrow> (\<exists>m. \<not> realloc_ok e m)"
    using collect_ok [OF assms(1), of empty_buf "[]" ifs e] assms(2) by auto
  let ?ts = "take n (ipv4_texts ntop ifs)"
  have t: "t \<in> set ?ts \<Longrightarrow> t \<noteq> [] \<and> length t \<le> 15" for t
    using texts_ok [OF assms(1)] by (blast dest: in_set_takeD)
  then have f: "foldl line [] ?ts = text_lines ?ts" by (intro foldl_line) blast
  have "length (text_lines ?ts) \<le> 16 * length ?ts" using t by (intro text_lines_length) blast
  then have "length (text_lines ?ts) < 2 ^ 31" using texts_count [of ntop ifs] c(2) assms(2) by simp
  then have "ipbuf_finish b = Some (text_lines ?ts)" using finish_ok c(3) f by simp
  then show ?thesis using c by (auto simp: http_server_cli_local_ips_def http_server_cli_local_ips_windows_def)
qed

definition demo_ntop :: "nat \<Rightarrow> bytes option" where
  "demo_ntop a = (if a = 0 then None else Some [49, 46, 50])"

lemma demo_ntop_ok: "ntop_ok demo_ntop"
  by (simp add: ntop_ok_def demo_ntop_def)

theorem local_ips_text_witness:
  "ntop_ok demo_ntop \<and> (\<exists>n. http_server_cli_local_ips \<lparr>realloc_ok = (\<lambda>_. True), fresh_byte = (\<lambda>_. 0)\<rparr> demo_ntop
      (Some [Some (2, 1), None, Some (10, 1), Some (2, 5)]) = Some (text_lines (take n [[49, 46, 50], [49, 46, 50]])) \<and> n = 2)"
  using local_ips_text [OF demo_ntop_ok, of "[Some (2, 1), None, Some (10, 1), Some (2, 5)]" "\<lparr>realloc_ok = (\<lambda>_. True), fresh_byte = (\<lambda>_. 0)\<rparr>"]
  by (auto simp: demo_ntop_ok demo_ntop_def AF_INET_def not_less intro: le_antisym)

end
