(* ===== verification/Host_Shims.thy ===== *)
theory Host_Shims
  imports HS_Prelude "HOL-Library.Signed_Division"
begin

text \<open>
  The small shims of the command line and of the benchmarks: the monotonic clock of \<^verbatim>\<open>benchmarks/clock.c\<close> and the
  terminal test of \<^verbatim>\<open>cmd/common/tty.c\<close>, for both platforms. What the system answers is an argument. A signed
  overflow and a division by zero, which C leaves undefined, are \<open>None\<close>.
\<close>

subsection \<open>The clock\<close>

definition fits_int64 :: "int \<Rightarrow> bool" where
  "fits_int64 x \<longleftrightarrow> - (2 ^ 63) \<le> x \<and> x < 2 ^ 63"

record clock_statics =
  frequency :: int
  initialized :: bool

definition init_statics :: clock_statics where
  "init_statics = \<lparr>frequency = 0, initialized = False\<rparr>"

text \<open>\<open>freq\<close> and \<open>now\<close> are what \<open>QueryPerformanceFrequency\<close> and \<open>QueryPerformanceCounter\<close> store.\<close>

definition hs_benchmark_monotonic_ns_windows :: "int \<Rightarrow> int \<Rightarrow> clock_statics \<Rightarrow> int option \<times> clock_statics" where
  "hs_benchmark_monotonic_ns_windows freq now s =
     (let s = (if initialized s then s else s\<lparr>frequency := freq, initialized := True\<rparr>)
      in (if fits_int64 (now * 1000000000) \<and> frequency s \<noteq> 0
          then Some ((now * 1000000000) sdiv frequency s) else None, s))"

text \<open>\<open>now\<close> is what \<open>clock_gettime\<close> stores: seconds and nanoseconds.\<close>

definition hs_benchmark_monotonic_ns :: "(int \<times> int) option \<Rightarrow> int option" where
  "hs_benchmark_monotonic_ns now = (case now of
     None \<Rightarrow> Some 0
   | Some (sec, nsec) \<Rightarrow>
       if fits_int64 (sec * 1000000000) \<and> fits_int64 (sec * 1000000000 + nsec) then Some (sec * 1000000000 + nsec) else None)"

text \<open>The counter readings of a run, one call after the other.\<close>

fun readings :: "int \<Rightarrow> int list \<Rightarrow> clock_statics \<Rightarrow> int option list" where
  "readings freq [] s = []"
| "readings freq (now # ticks) s =
     (let (r, s) = hs_benchmark_monotonic_ns_windows freq now s in r # readings freq ticks s)"

lemma sdiv_nonneg: "0 \<le> a \<Longrightarrow> 0 < b \<Longrightarrow> (a :: int) sdiv b = a div b"
  by (simp add: signed_divide_int_def sgn_if)

lemma windows_reading:
  assumes "0 < frequency s" "initialized s" "0 \<le> now"
  shows "hs_benchmark_monotonic_ns_windows freq now s =
    (if now \<le> 9223372036 then Some (now * 1000000000 div frequency s) else None, s)"
  using assms by (auto simp: hs_benchmark_monotonic_ns_windows_def fits_int64_def sdiv_nonneg Let_def)

lemma windows_readings:
  assumes "0 < frequency s" "initialized s" "\<forall>t\<in>set ticks. 0 \<le> t"
  shows "readings freq ticks s = map (\<lambda>t. if t \<le> 9223372036 then Some (t * 1000000000 div frequency s) else None) ticks"
  using assms(3) by (induction ticks) (simp_all add: windows_reading [OF assms(1,2)])

text \<open>The readings of the Windows clock are the counter in nanoseconds, rounded down, as long as the counter is at most
  9223372036; from then on the multiplication overflows. At the usual frequency of 10 MHz that is after 922 seconds of
  uptime.\<close>
theorem clock_windows_exact:
  assumes "0 < freq" "\<forall>t\<in>set ticks. 0 \<le> t"
  shows "readings freq ticks init_statics =
    map (\<lambda>t. if t \<le> 9223372036 then Some (t * 1000000000 div freq) else None) ticks"
proof (cases ticks)
  case Nil
  then show ?thesis by simp
next
  case (Cons t ts)
  let ?s = "\<lparr>frequency = freq, initialized = True\<rparr>"
  have "hs_benchmark_monotonic_ns_windows freq t init_statics = hs_benchmark_monotonic_ns_windows freq t ?s"
    by (simp add: hs_benchmark_monotonic_ns_windows_def init_statics_def)
  then have "readings freq ticks init_statics = readings freq ticks ?s" using Cons by simp
  then show ?thesis using windows_readings [of ?s] assms by simp
qed

text \<open>Two readings one second apart, about 15 minutes after the start: the second is lost.\<close>

theorem clock_windows_exact_witness:
  "readings 10000000 [9220000000, 9230000000] init_statics = [Some 922000000000, None]"
  using clock_windows_exact [of 10000000 "[9220000000, 9230000000]"] by simp

text \<open>The POSIX clock is exact for 292 years.\<close>

lemma clock_posix_exact:
  assumes "0 \<le> sec" "sec \<le> 9223372035" "0 \<le> nsec" "nsec < 1000000000"
  shows "hs_benchmark_monotonic_ns (Some (sec, nsec)) = Some (sec * 1000000000 + nsec)"
  using assms by (simp add: hs_benchmark_monotonic_ns_def fits_int64_def)

subsection \<open>The terminal test\<close>

definition ENABLE_VIRTUAL_TERMINAL_PROCESSING :: u32 where "ENABLE_VIRTUAL_TERMINAL_PROCESSING = 4"

text \<open>\<open>mode\<close> is the console mode of the handle, if it has one. The result, and the mode \<open>SetConsoleMode\<close> is called with.\<close>

definition http_server_cli_is_stdout_tty_windows :: "int \<Rightarrow> bool \<Rightarrow> bool \<Rightarrow> u32 option \<Rightarrow> int \<times> u32 option" where
  "http_server_cli_is_stdout_tty_windows fd tty valid mode =
     (if fd < 0 \<or> \<not> tty then (0, None)
      else (1, if valid then map_option (\<lambda>m. or m ENABLE_VIRTUAL_TERMINAL_PROCESSING) mode else None))"

definition http_server_cli_is_stdout_tty :: "int \<Rightarrow> int" where
  "http_server_cli_is_stdout_tty isatty = (if isatty = 1 then 1 else 0)"

lemma tty_windows_mode:
  assumes "http_server_cli_is_stdout_tty_windows fd tty valid mode = (r, Some m')"
  shows "r = 1 \<and> (\<exists>m. mode = Some m \<and> (\<forall>i. bit m' i \<longleftrightarrow> bit m i \<or> i = 2))"
proof -
  obtain m where m: "mode = Some m" "m' = or m 4" "r = 1"
    using assms by (auto simp: http_server_cli_is_stdout_tty_windows_def ENABLE_VIRTUAL_TERMINAL_PROCESSING_def split: if_splits)
  have "bit (4 :: u32) i \<longleftrightarrow> i = 2" for i using bit_exp_iff [where 'a = u32, of 2 i] by (auto dest: bit_imp_le_length)
  then show ?thesis using m by (simp add: bit_or_iff)
qed

end
