(* ===== verification/Spec2Isabelle.thy ===== *)
theory Spec2Isabelle
  imports Bridge_Calls Bridge_Blocks_Props Bridge_Sync_Props Tls_Props Native_Props Native_Uring Native_Windows_Props
    Node_Props Ct_Buffers Base64 Local_Ips Host_Shims
begin

text \<open>
  \<^bold>\<open>A verification of the C code of http-server-mbt.\<close>

  The program is a static HTTP server written in MoonBit; routing, caching and HTTP itself are MoonBit code. Its C code is
  the part where memory is managed by hand and threads meet, and that part is modelled here:

  \<^item> \<^verbatim>\<open>c_abi/runtime/bridge.c\<close>, the runtime of the C ABI. Host threads call exported functions that queue commands; one
    owner thread runs MoonBit, takes the commands and completes them; a notifier thread calls the host back.
  \<^item> \<^verbatim>\<open>c_abi/node/async_addon.c\<close> and \<^verbatim>\<open>addon.c\<close>, the Node.js addon: a client of that ABI.
  \<^item> \<^verbatim>\<open>tls/tls_bridge.c\<close>, acceptors and connections around MbedTLS with two bounded ciphertext buffers.
  \<^item> \<^verbatim>\<open>internal/native/native.c\<close>, the file executor: pools of jobs, worker threads, credits, opens confined to a root
    directory, reads, listings, and an optional io_uring backend.
  \<^item> \<^verbatim>\<open>cmd/common/local_ips.c\<close> and \<^verbatim>\<open>tty.c\<close>, the address list and the terminal test of the start-up banner, and the clock of the
    benchmarks.
  \<^item> of the vendored MbedTLS, the byte-order accesses, block XOR and constant-time helpers that its code rests on, and Base64, which
    every PEM file goes through.

  \<^bold>\<open>How code becomes definitions.\<close> Every kind of object has a heap of its own, a partial map from addresses; \<open>free\<close>
  removes a cell, and a function that touches a missing cell, leaves an array or dereferences null has the value \<open>None\<close>.
  So a theorem that a function returns \<open>Some\<close> is a theorem on memory safety. A body between \<open>LOCK\<close> and \<open>UNLOCK\<close> is one
  step, and an interleaving of threads is a list of steps. What the C library, the kernel, Node-API or the
  TLS engine answer is an argument, so theorems hold for every answer, failures included. Bookkeeping that the code
  does not have (who owns which handle, what has been accepted) is in separate ghost records (\<open>world\<close>, \<open>iow\<close>, \<open>owned\<close>).
  Fixed-width values are words where wrap-around can matter: \<open>retained_bytes\<close>, request sizes, ring
  counters, buffer capacities, Base64 accumulators, constant-time masks; other counters are integers, and the invariants
  say that they are exact counts of live objects.

  \<^bold>\<open>Shared library.\<close>
  \<^item> \<open>HS_Prelude\<close>: C types, sums over heaps, word arithmetic without wrap-around.
  \<^item> \<open>Linked_Queue\<close>: the intrusive queues (\<open>link_append\<close>, \<open>link_pop\<close>) refine lists; locale \<open>fifo\<close>, interpreted on them.
  \<^item> \<open>Call_Machine\<close>: executions of calls and the locale \<open>call_machine\<close>; its five interpretations are the components below.

  \<^bold>\<open>C ABI runtime.\<close>
  \<^item> \<open>Bridge_Model\<close>: \<open>hs_instance\<close>, \<open>hs_operation\<close>, \<open>hs_response\<close>, \<open>hs_chunk\<close>, the static variables as the record
    \<open>bridge\<close>, and the functions of the file in its order, from \<open>charge\<close> to \<open>hs_bridge_complete\<close>.
  \<^item> \<open>Bridge_Acct\<close>: every reference count and every charge equals the sum of what refers to it, through every function.
  \<^item> \<open>Bridge_Inv\<close>, \<open>Bridge_Build\<close>, \<open>Bridge_Host\<close>, \<open>Bridge_Release\<close>, \<open>Bridge_Create\<close>, \<open>Bridge_Owner\<close>, \<open>Bridge_Complete\<close>,
    \<open>Bridge_Deliver\<close>: the invariant and its preservation, call by call.
  \<^item> \<open>Bridge_System\<close>: the state machine, the inductive \<open>reach\<close>, the order of notifications. \<open>Bridge_Props\<close>, \<open>Bridge_Calls\<close>:
    no use after free, a well-typed heap, no leak after shutdown, notifications exactly once and in order, the 64 MiB budget, no command
    left behind by a finished owner, exact counters, refused submissions change nothing, sizes do not wrap.
  \<^item> \<open>Bridge_Sync\<close>, \<open>Bridge_Tags\<close>, \<open>Bridge_Waits\<close>, \<open>Bridge_Sync_Props\<close>: \<open>hs_server_start\<close>, \<open>hs_server_stop\<close> and
    \<open>hs_server_destroy\<close> with the stack frames their callback writes to, on any number of threads: no write to a dead frame, no
    lost wake-up.
  \<^item> \<open>Bridge_Blocks\<close>, \<open>Bridge_Blocks_Props\<close>: the strings and header arrays behind requests and responses, as blocks with pointers
    between them. After any failed allocation exactly the blocks that were allocated are freed. \<open>Bridge_Model\<close> keeps the same
    copies by value, and the block model refines it.

  \<^bold>\<open>TLS bridge.\<close> \<open>Tls_Ring\<close> (the buffers and the locale \<open>byte_stream\<close>), \<open>Tls_Bridge\<close> (objects, callbacks, exported calls,
  error codes; the engine is a program of sends and receives), \<open>Tls_Stream\<close> (both directions interpret \<open>byte_stream\<close>),
  \<open>Tls_Life\<close> and \<open>Tls_Props\<close>: byte streams are kept for any engine, objects are closed once and not leaked, flow control,
  and what the result codes mean.

  \<^bold>\<open>Native executor.\<close> \<open>Native_Model\<close> (pools, budget, queue, worker steps, credits), \<open>Native_Inv\<close>, \<open>Native_Steps\<close>,
  \<open>Native_Jobs\<close>, \<open>Native_Run\<close>, \<open>Native_Pool\<close>, \<open>Native_System\<close>, \<open>Native_Props\<close>: memory safety, exact counters, first-in
  first-out, credits within limits, a pool being freed always becomes quiet. \<open>Native_Path\<close>, \<open>Native_Confine\<close>: opens stay
  beneath the root although the file system changes between two system calls. \<open>Native_File\<close>, \<open>Native_Ops\<close>: reads and
  listings are exact, and what a worker reads is what the owner gets (locale \<open>job_reader\<close>, interpreted on both
  platforms). \<open>Native_Uring\<close>: one request through the ring, indices in bounds, nothing leaked.
  \<open>Native_Windows\<close>, \<open>Native_Windows_Props\<close>: the Windows branches of the same operations. Paths are rewritten and joined inside their
  blocks, an opened file counts only after the prefix of its final path was opened again and found to be the root, and
  metadata, reads and listings refine those of the other branch.

  \<^bold>\<open>Node.js addon.\<close> \<open>Node_Model\<close>, \<open>Node_Inv\<close>, \<open>Node_Steps\<close>, \<open>Node_Works\<close>, \<open>Node_Props\<close>: handles, works and the
  environment are freed once and never used afterwards, each promise is settled at most once, and the
  addon owes the ABI nothing when it is unloaded.

  \<^bold>\<open>MbedTLS utilities.\<close> \<open>Byte_Order\<close>: integers in a fixed byte order on machines of either order. \<open>Ct_Words\<close>: the branch-free
  conditions are the ordinary comparisons at every width. \<open>Ct_Buffers\<close>: comparison, copy, erasure and XOR over words and bytes
  are their byte-wise meaning in every build.
  \<open>Base64\<close>: round trip, and decoding of arbitrary text stays in its buffer.

  \<^bold>\<open>Command line and benchmarks.\<close> \<open>Local_Ips\<close>: the growing buffer of both platforms; the capacity loop ends. \<open>Host_Shims\<close>: the
  terminal test, and how long the clock is exact.

  \<^bold>\<open>Loops and bounds.\<close> No definition has fuel. Recursion is structural or has a termination proof: the component walk of
  \<open>hs_open\<close> ends because at most 40 links are followed and each other round consumes a component, the loops over buffers because
  an index grows. The capacity loop of \<open>Local_Ips\<close> can overflow, so it is a partial function, and \<open>local_ips_text\<close> shows that it
  returns. Loops that wait for the kernel consume a list of answers, one per round. Waiting on a condition variable is
  a step that leaves the state as it is.

  \<^bold>\<open>Not modelled.\<close> The MoonBit sources (no C). The rest of MbedTLS, an engine with its own state machines of some 190000
  lines: the theorems on the TLS bridge hold for any engine. The macOS branches, and the Windows branches outside the file operations,
  \<open>Local_Ips\<close> and \<open>Host_Shims\<close> (thread and event primitives, the notification pipe). The
  forwarding functions of \<^verbatim>\<open>embedded_thread_pool.c\<close> and the stubs of \<^verbatim>\<open>embedded_signal.c\<close>, whose targets are in a package
  that is not part of the repository; the example host program;
  \<^verbatim>\<open>platform.h\<close>, the macros behind \<open>LOCK\<close> and \<open>WAIT\<close>, whose meaning is the step structure. In the addon, the JavaScript
  values built for a result; in the runtime, one-line getters and the signal mask of the owner thread. Fair scheduling is not
  assumed anywhere: what is shown of progress is that the step a thread waits for is enabled or still to come.
\<close>

end
